(* ===== verification/Kernel_Prelude.thy ===== *)
theory Kernel_Prelude
  imports Main "HOL-Library.Word"
begin

text \<open>
  Shared vocabulary of the development: the machine integer types, the result
  type of kernel code (a value, a panic, or a process that goes to sleep), its
  sequencing operator, the first-match table scan that most kernel loops are,
  and the generic list and word lemmas the components use.
\<close>

unbundle bit_operations_syntax

named_theorems res_simps \<open>equations for sequencing kernel results\<close>
named_theorems scan_simps \<open>equations and characterisations of table scans\<close>

section \<open>Machine integers\<close>

type_synonym byte = "8 word"
type_synonym uint = "32 word"

text \<open>Kernel addresses: physical memory is mapped at \<^verbatim>\<open>KERNBASE\<close>.\<close>

definition KERNBASE :: uint where "KERNBASE = 0x80000000"
definition V2P :: "uint \<Rightarrow> uint" where "V2P a = a - KERNBASE"
definition P2V :: "uint \<Rightarrow> uint" where "P2V a = a + KERNBASE"

section \<open>Results of kernel code\<close>

text \<open>
  A kernel routine returns normally, stops the machine (\<^verbatim>\<open>panic(char *s)\<close>
  never returns), or blocks the calling process (\<^verbatim>\<open>sleep\<close>, or a spin
  loop on a lock that somebody else holds).  \<open>Undef\<close> marks the executions the C
  standard gives no meaning: an index outside its array, a null dereference.
\<close>

datatype 'a res = Ok 'a | Panic string | Block | Undef string

definition bindr :: "'a res \<Rightarrow> ('a \<Rightarrow> 'b res) \<Rightarrow> 'b res" where
  "bindr m f = (case m of Ok x \<Rightarrow> f x | Panic e \<Rightarrow> Panic e | Block \<Rightarrow> Block | Undef e \<Rightarrow> Undef e)"

definition guardr :: "bool \<Rightarrow> string \<Rightarrow> 'a res \<Rightarrow> 'a res" where
  "guardr b e m = (if b then m else Panic e)"

lemma bindr_simps [simp, res_simps]:
  "bindr (Ok x) f = f x"
  "bindr (Panic e) f = Panic e"
  "bindr Block f = Block"
  "bindr (Undef e) f = Undef e"
  by (simp_all add: bindr_def)

lemma bindr_Ok_iff [res_simps]: "bindr m f = Ok y \<longleftrightarrow> (\<exists>x. m = Ok x \<and> f x = Ok y)"
  by (cases m) auto

lemma bindr_assoc: "bindr (bindr m f) g = bindr m (\<lambda>x. bindr (f x) g)"
  by (cases m) auto

lemma bindr_OkE:
  assumes "bindr m f = Ok y"
  obtains x where "m = Ok x" and "f x = Ok y"
  using assms by (auto simp: bindr_Ok_iff)

lemma guardr_simps [simp, res_simps]:
  "guardr True e m = m"
  "guardr False e m = Panic e"
  by (simp_all add: guardr_def)

lemma guardr_Ok_iff [res_simps]: "guardr b e m = Ok y \<longleftrightarrow> b \<and> m = Ok y"
  by (cases b) auto

text \<open>
  What a run ends in: a value that satisfies \<open>P\<close>, or one of the panics in \<open>E\<close> (the
  exhaustion of a named resource).  It neither blocks nor runs into undefined behaviour.
\<close>

named_theorems ends_rules \<open>outcomes of kernel routines\<close>

definition ends :: "string set \<Rightarrow> 'a res \<Rightarrow> ('a \<Rightarrow> bool) \<Rightarrow> bool" where
  "ends E m P = (case m of Ok x \<Rightarrow> P x | Panic e \<Rightarrow> e \<in> E | Block \<Rightarrow> False | Undef e \<Rightarrow> False)"

lemma ends_simps [simp]:
  "ends E (Ok x) P = P x"
  "ends E (Panic e) P = (e \<in> E)"
  "\<not> ends E Block P" "\<not> ends E (Undef e) P"
  by (simp_all add: ends_def)

lemma ends_bindr [simp]: "ends E (bindr m f) Q = ends E m (\<lambda>x. ends E (f x) Q)"
  by (cases m) simp_all

lemma ends_guardr [simp]: "ends E (guardr b e m) Q = (if b then ends E m Q else e \<in> E)"
  by (cases b) simp_all

lemma ends_mono: "ends E m P \<Longrightarrow> (\<And>x. P x \<Longrightarrow> Q x) \<Longrightarrow> ends E m Q"
  by (cases m) simp_all

lemma ends_weaken: "ends E m P \<Longrightarrow> E \<subseteq> F \<Longrightarrow> ends F m P"
  by (cases m) auto

lemma ends_conj: "ends E m P \<Longrightarrow> ends E m Q \<Longrightarrow> ends E m (\<lambda>x. P x \<and> Q x)"
  by (cases m) simp_all

lemma ends_cases:
  assumes "ends E m P"
  obtains (ok) x where "m = Ok x" and "P x" | (panic) e where "m = Panic e" and "e \<in> E"
  using assms by (cases m) auto

lemma ends_mono_both: "ends E m P \<Longrightarrow> E \<subseteq> F \<Longrightarrow> (\<And>x. P x \<Longrightarrow> Q x) \<Longrightarrow> ends F m Q"
  by (cases m) auto

lemma ends_no_panic: "ends {e} m P \<Longrightarrow> m \<noteq> Panic e \<Longrightarrow> ends {} m P"
  by (cases m) auto

lemma ends_emptyD: "ends {} m P \<Longrightarrow> \<exists>x. m = Ok x \<and> P x"
  by (cases m) auto

lemma ends_bindI: "ends E m P \<Longrightarrow> (\<And>x. P x \<Longrightarrow> ends E (f x) Q) \<Longrightarrow> ends E (bindr m f) Q"
  by (cases m) simp_all

lemma ends_bindI2: "ends E m P \<Longrightarrow> (\<And>a b. P (a, b) \<Longrightarrow> ends E (f a b) Q) \<Longrightarrow> ends E (bindr m (\<lambda>(a, b). f a b)) Q"
  by (cases m) auto

lemma ends_Ok: "m = Ok x \<Longrightarrow> P x \<Longrightarrow> ends E m P"
  by simp

section \<open>Counting loops\<close>

text \<open>
  \<^verbatim>\<open>for(i = 0; i < n; i++)\<close> with a body that changes the state, and the same loop with a
  body that may leave it (\<^verbatim>\<open>break\<close>, \<^verbatim>\<open>return\<close>): \<open>Inl\<close> goes on, \<open>Inr\<close> leaves.
\<close>

fun forr :: "nat list \<Rightarrow> (nat \<Rightarrow> 's \<Rightarrow> 's res) \<Rightarrow> 's \<Rightarrow> 's res" where
  "forr [] f s = Ok s"
| "forr (i # is) f s = bindr (f i s) (forr is f)"

fun forb :: "nat list \<Rightarrow> (nat \<Rightarrow> 's \<Rightarrow> ('s + 'r) res) \<Rightarrow> 's \<Rightarrow> ('s + 'r) res" where
  "forb [] f s = Ok (Inl s)"
| "forb (i # is) f s = bindr (f i s) (\<lambda>x. case x of Inl s' \<Rightarrow> forb is f s' | Inr r \<Rightarrow> Ok (Inr r))"

lemma ends_forr_upt:
  assumes "P a s" and "a \<le> n" and "\<And>i s. a \<le> i \<Longrightarrow> i < n \<Longrightarrow> P i s \<Longrightarrow> ends E (f i s) (P (Suc i))"
  shows "ends E (forr [a..<n] f s) (P n)"
  using assms
proof (induction "n - a" arbitrary: a s)
  case 0
  then show ?case by simp
next
  case (Suc k)
  then have "a < n" by simp
  then have "[a..<n] = a # [Suc a..<n]" by (rule upt_conv_Cons)
  moreover have "ends E (f a s) (P (Suc a))" using Suc.prems \<open>a < n\<close> by simp
  then have "ends E (f a s) (\<lambda>t. ends E (forr [Suc a..<n] f t) (P n))"
    by (rule ends_mono) (use Suc \<open>a < n\<close> in auto)
  ultimately show ?case by simp
qed

lemma ends_forr:
  assumes "P 0 s" and "\<And>i s. i < n \<Longrightarrow> P i s \<Longrightarrow> ends E (f i s) (P (Suc i))"
  shows "ends E (forr [0..<n] f s) (P n)"
  using assms by (intro ends_forr_upt) auto

text \<open>A loop that may be left: \<open>P i\<close> holds whenever iteration \<open>i\<close> begins, \<open>Q\<close> where it is left.\<close>

lemma ends_forb_upt:
  assumes "P a s" and "a \<le> n"
    and "\<And>i s. a \<le> i \<Longrightarrow> i < n \<Longrightarrow> P i s \<Longrightarrow> ends E (f i s) (case_sum (P (Suc i)) Q)"
  shows "ends E (forb [a..<n] f s) (case_sum (P n) Q)"
  using assms
proof (induction "n - a" arbitrary: a s)
  case 0
  then show ?case by simp
next
  case (Suc k)
  then have "a < n" by simp
  then have "[a..<n] = a # [Suc a..<n]" by (rule upt_conv_Cons)
  moreover have "ends E (f a s) (case_sum (P (Suc a)) Q)" using Suc.prems \<open>a < n\<close> by simp
  then have "ends E (f a s) (\<lambda>x. ends E (case x of Inl t \<Rightarrow> forb [Suc a..<n] f t | Inr r \<Rightarrow> Ok (Inr r)) (case_sum (P n) Q))"
    by (rule ends_mono) (use Suc \<open>a < n\<close> in \<open>auto split: sum.splits\<close>)
  ultimately show ?case by simp
qed

lemma ends_forb:
  assumes "P 0 s" and "\<And>i s. i < n \<Longrightarrow> P i s \<Longrightarrow> ends E (f i s) (case_sum (P (Suc i)) Q)"
  shows "ends E (forb [0..<n] f s) (case_sum (P n) Q)"
  using assms by (intro ends_forb_upt) auto

section \<open>Table scans\<close>

text \<open>
  The kernel's tables are arrays searched from index 0; the loops stop at the
  first entry that satisfies a test.
\<close>

fun first_idx :: "('a \<Rightarrow> bool) \<Rightarrow> 'a list \<Rightarrow> nat option" where
  "first_idx P [] = None"
| "first_idx P (x # xs) = (if P x then Some 0 else map_option Suc (first_idx P xs))"

lemma first_idx_None [scan_simps]: "first_idx P xs = None \<longleftrightarrow> (\<forall>x \<in> set xs. \<not> P x)"
  by (induction xs) auto

lemma first_idx_SomeD:
  "first_idx P xs = Some i \<Longrightarrow> i < length xs \<and> P (xs ! i) \<and> (\<forall>j < i. \<not> P (xs ! j))"
proof (induction xs arbitrary: i)
  case Nil
  then show ?case by simp
next
  case (Cons x xs)
  show ?case
  proof (cases "P x")
    case True
    with Cons.prems show ?thesis by simp
  next
    case False
    with Cons.prems obtain k where k: "first_idx P xs = Some k" "i = Suc k"
      by auto
    from Cons.IH [OF k(1)] k(2) False show ?thesis
      by (auto simp: nth_Cons split: nat.splits)
  qed
qed

lemma first_idx_eqI:
  assumes "i < length xs" and "P (xs ! i)" and "\<forall>j < i. \<not> P (xs ! j)"
  shows "first_idx P xs = Some i"
proof (cases "first_idx P xs")
  case None
  with assms(1,2) show ?thesis by (auto simp: first_idx_None)
next
  case (Some k)
  from first_idx_SomeD [OF Some] assms have "k = i"
    by (metis linorder_neqE_nat)
  with Some show ?thesis by simp
qed

lemma first_idx_Some [scan_simps]:
  "first_idx P xs = Some i \<longleftrightarrow> i < length xs \<and> P (xs ! i) \<and> (\<forall>j < i. \<not> P (xs ! j))"
  using first_idx_SomeD first_idx_eqI by metis

lemma first_idx_length: "first_idx P xs = Some i \<Longrightarrow> i < length xs"
  by (simp add: first_idx_Some)

lemma first_idx_sat: "first_idx P xs = Some i \<Longrightarrow> P (xs ! i)"
  by (simp add: first_idx_Some)

section \<open>Lists and words\<close>

lemma nth_update_if: "i < length xs \<Longrightarrow> (xs[i := v]) ! j = (if i = j then v else xs ! j)"
  by (simp add: nth_list_update)

lemma mod_add_inj_le:
  assumes "(a + j) mod m = (a + k) mod m" and "j < m" and "k \<le> j"
  shows "j = (k :: nat)"
proof -
  have "m dvd (a + j) - (a + k)"
    using assms by (simp add: mod_eq_dvd_iff_nat)
  then have "m dvd j - k" by simp
  moreover have "j - k < m" using assms(2) by simp
  ultimately have "j - k = 0" by (metis nat_dvd_not_less neq0_conv)
  with assms(3) show ?thesis by simp
qed

lemma mod_add_inj: "(a + j) mod m = (a + k) mod m \<Longrightarrow> j < m \<Longrightarrow> k < m \<Longrightarrow> j = (k :: nat)"
  using mod_add_inj_le [of a j m k] mod_add_inj_le [of a k m j] by (cases "k \<le> j") auto

lemma map_upt_shift: "map (\<lambda>k. f (Suc k)) [0..<n] = map f [1..<Suc n]"
proof -
  have "map (\<lambda>k. f (Suc k)) [0..<n] = map f (map Suc [0..<n])" by simp
  then show ?thesis by (simp only: map_Suc_upt) simp
qed

end
