(* ===== verification/Pipe.thy ===== *)
theory Pipe
  imports Kernel_Prelude
begin

text \<open>
  Pipes (\<^verbatim>\<open>src/pipe.c\<close>): a 512-byte ring buffer with free-running 32-bit
  counters.  Every routine holds \<^verbatim>\<open>p->lock\<close> from its start to its next
  \<^verbatim>\<open>sleep\<close>, so the model gives one definition per atomic segment:
  the segment returns the new pipe, the channels it wakes, and whether the
  routine returned or went to sleep.  The ring buffer is shown to implement a
  bounded FIFO queue, through the interface locale \<open>bounded_fifo\<close>; the
  interleaving of any number of readers and writers is a step relation.
\<close>

section \<open>State and operations\<close>

definition PIPESIZE :: nat where
  "PIPESIZE = 512"

record pipe =
  pdata :: "byte list"
  nread :: uint
  nwrite :: uint
  readopen :: bool
  writeopen :: bool

text \<open>The two wait channels of a pipe are the addresses of its counters.\<close>

datatype pchan = Ch_nread | Ch_nwrite

datatype pstat = Returned int | Asleep pchan

definition pipe_full :: "pipe \<Rightarrow> bool" where
  "pipe_full p \<longleftrightarrow> nwrite p = nread p + of_nat PIPESIZE"

definition pipe_empty :: "pipe \<Rightarrow> bool" where
  "pipe_empty p \<longleftrightarrow> nread p = nwrite p"

definition pipe_init :: "byte list \<Rightarrow> pipe" where
  "pipe_init page = \<lparr>pdata = page, nread = 0, nwrite = 0, readopen = True, writeopen = True\<rparr>"

text \<open>\<^verbatim>\<open>p->data[p->nwrite++ % PIPESIZE] = b\<close>\<close>

definition pipe_put :: "byte \<Rightarrow> pipe \<Rightarrow> pipe" where
  "pipe_put b p = p\<lparr>pdata := (pdata p)[unat (nwrite p mod of_nat PIPESIZE) := b],
                    nwrite := nwrite p + 1\<rparr>"

text \<open>\<^verbatim>\<open>b = p->data[p->nread++ % PIPESIZE]\<close>\<close>

definition pipe_get :: "pipe \<Rightarrow> byte" where
  "pipe_get p = pdata p ! unat (nread p mod of_nat PIPESIZE)"

definition pipe_drop :: "pipe \<Rightarrow> pipe" where
  "pipe_drop p = p\<lparr>nread := nread p + 1\<rparr>"

text \<open>
  \<^verbatim>\<open>pipewrite\<close> from loop index \<open>i\<close> on: \<open>addr\<close> is the user memory the
  caller's pointer addresses, \<open>killed\<close> is \<^verbatim>\<open>myproc()->killed\<close>.  A sleeping
  writer re-tests the loop condition at the same index when it runs again, so
  resuming is calling the function once more.  The result also carries the
  index reached.
\<close>

function pipewrite :: "bool \<Rightarrow> (nat \<Rightarrow> byte) \<Rightarrow> int \<Rightarrow> nat \<Rightarrow> pipe \<Rightarrow> pipe \<times> pchan list \<times> pstat \<times> nat" where
  "pipewrite killed addr n i p =
     (if int i < n then
        if pipe_full p then
          if \<not> readopen p \<or> killed then (p, [], Returned (- 1), i)
          else (p, [Ch_nread], Asleep Ch_nwrite, i)
        else pipewrite killed addr n (Suc i) (pipe_put (addr i) p)
      else (p, [Ch_nread], Returned n, i))"
  by pat_completeness auto
termination
  by (relation "measure (\<lambda>(killed, addr, n, i, p). nat (n - int i))") auto

declare pipewrite.simps [simp del]

text \<open>The copy loop of \<^verbatim>\<open>piperead\<close>: at most \<open>m\<close> bytes, until the pipe is empty.\<close>

fun piperead_copy :: "nat \<Rightarrow> pipe \<Rightarrow> pipe \<times> byte list" where
  "piperead_copy 0 p = (p, [])"
| "piperead_copy (Suc m) p =
     (if pipe_empty p then (p, [])
      else let (q, bs) = piperead_copy m (pipe_drop p) in (q, pipe_get p # bs))"

definition piperead :: "bool \<Rightarrow> int \<Rightarrow> pipe \<Rightarrow> pipe \<times> pchan list \<times> pstat \<times> byte list" where
  "piperead killed n p =
     (if pipe_empty p \<and> writeopen p then
        if killed then (p, [], Returned (- 1), [])
        else (p, [], Asleep Ch_nread, [])
      else let (q, bs) = piperead_copy (nat n) p
           in (q, [Ch_nwrite], Returned (int (length bs)), bs))"

text \<open>\<^verbatim>\<open>pipeclose\<close>; the last component says whether the page is freed.\<close>

definition pipeclose :: "bool \<Rightarrow> pipe \<Rightarrow> pipe \<times> pchan list \<times> bool" where
  "pipeclose writable p =
     (let (q, ws) = (if writable then (p\<lparr>writeopen := False\<rparr>, [Ch_nread])
                     else (p\<lparr>readopen := False\<rparr>, [Ch_nwrite]))
      in (q, ws, \<not> readopen q \<and> \<not> writeopen q))"

section \<open>The bounded FIFO interface\<close>

locale bounded_fifo =
  fixes put :: "'b \<Rightarrow> 'q \<Rightarrow> 'q"
    and get :: "'q \<Rightarrow> 'b"
    and del :: "'q \<Rightarrow> 'q"
    and full :: "'q \<Rightarrow> bool"
    and emp :: "'q \<Rightarrow> bool"
    and contents :: "'q \<Rightarrow> 'b list"
    and inv :: "'q \<Rightarrow> bool"
    and cap :: nat
  assumes contents_put: "inv q \<Longrightarrow> \<not> full q \<Longrightarrow> contents (put b q) = contents q @ [b]"
    and contents_get: "inv q \<Longrightarrow> contents q \<noteq> [] \<Longrightarrow> get q = hd (contents q)"
    and contents_del: "inv q \<Longrightarrow> contents q \<noteq> [] \<Longrightarrow> contents (del q) = tl (contents q)"
    and full_iff: "inv q \<Longrightarrow> full q \<longleftrightarrow> length (contents q) = cap"
    and emp_iff: "inv q \<Longrightarrow> emp q \<longleftrightarrow> contents q = []"
    and bounded: "inv q \<Longrightarrow> length (contents q) \<le> cap"
    and inv_put: "inv q \<Longrightarrow> \<not> full q \<Longrightarrow> inv (put b q)"
    and inv_del: "inv q \<Longrightarrow> contents q \<noteq> [] \<Longrightarrow> inv (del q)"
    and cap_pos: "0 < cap"
begin

lemma not_full_and_empty: "inv q \<Longrightarrow> full q \<Longrightarrow> \<not> emp q"
  using full_iff emp_iff cap_pos by fastforce

lemma room_iff: "inv q \<Longrightarrow> \<not> full q \<longleftrightarrow> length (contents q) < cap"
  using full_iff bounded by (metis nat_less_le)

lemma get_put: "inv q \<Longrightarrow> \<not> full q \<Longrightarrow> \<not> emp q \<Longrightarrow> get (put b q) = get q"
  using contents_get [of "put b q"] contents_get [of q]
  by (simp add: contents_put inv_put emp_iff hd_append)

text \<open>Taking a byte after appending one is the same as appending after taking.\<close>

lemma del_put:
  assumes "inv q" and "\<not> full q" and "\<not> emp q"
  shows "contents (del (put b q)) = contents (put b (del q))"
proof -
  have ne: "contents q \<noteq> []" using assms by (simp add: emp_iff)
  have "length (contents (del q)) < cap"
    using assms ne room_iff [OF assms(1)] by (simp add: contents_del)
  then have "\<not> full (del q)" using assms ne room_iff inv_del by blast
  with assms ne show ?thesis
    by (simp add: contents_put contents_del inv_put inv_del)
qed

end

section \<open>The ring buffer implements the interface\<close>

definition pipe_list :: "pipe \<Rightarrow> byte list" where
  "pipe_list p = map (\<lambda>k. pdata p ! unat ((nread p + of_nat k) mod of_nat PIPESIZE))
                     [0..<unat (nwrite p - nread p)]"

definition pipe_inv :: "pipe \<Rightarrow> bool" where
  "pipe_inv p \<longleftrightarrow> length (pdata p) = PIPESIZE \<and> unat (nwrite p - nread p) \<le> PIPESIZE"

lemma unat_mod_pipesize: "unat ((w :: uint) mod of_nat PIPESIZE) = unat w mod PIPESIZE"
  by (simp add: PIPESIZE_def unat_mod)

lemma slot_lt [simp]: "unat w mod PIPESIZE < PIPESIZE"
  by (simp add: PIPESIZE_def)

lemma unat_add_slot:
  "unat ((a :: uint) + of_nat k) mod PIPESIZE = (unat a + k) mod PIPESIZE"
proof -
  have "unat (a + of_nat k) = (unat a + k) mod 2 ^ 32"
    by (simp add: unat_word_ariths unat_of_nat mod_simps)
  moreover have "PIPESIZE dvd 2 ^ 32" by (simp add: PIPESIZE_def)
  ultimately show ?thesis by (simp add: mod_mod_cancel)
qed

lemma length_pipe_list: "length (pipe_list p) = unat (nwrite p - nread p)"
  by (simp add: pipe_list_def)

lemma pipe_list_nth:
  "k < unat (nwrite p - nread p) \<Longrightarrow> pipe_list p ! k = pdata p ! ((unat (nread p) + k) mod PIPESIZE)"
  by (simp add: pipe_list_def unat_mod_pipesize unat_add_slot)

lemma pipe_empty_iff: "pipe_empty p \<longleftrightarrow> pipe_list p = []"
proof -
  have "pipe_list p = [] \<longleftrightarrow> length (pipe_list p) = 0" by (simp only: length_0_conv)
  also have "\<dots> \<longleftrightarrow> nwrite p - nread p = 0" by (simp add: length_pipe_list unat_eq_zero)
  finally show ?thesis by (auto simp: pipe_empty_def)
qed

lemma pipe_full_iff: "pipe_full p \<longleftrightarrow> length (pipe_list p) = PIPESIZE"
proof -
  have "pipe_full p \<longleftrightarrow> nwrite p - nread p = of_nat PIPESIZE"
    by (auto simp: pipe_full_def algebra_simps)
  also have "\<dots> \<longleftrightarrow> unat (nwrite p - nread p) = unat (of_nat PIPESIZE :: uint)"
    by (simp add: word_unat_eq_iff)
  finally show ?thesis by (simp add: PIPESIZE_def length_pipe_list)
qed

lemma unat_gap_Suc:
  fixes a b :: uint
  assumes "unat (a - b) \<le> 512"
  shows "unat (a + 1 - b) = Suc (unat (a - b))"
proof -
  have "a + 1 - b = (a - b) + 1" by simp
  moreover have "unat ((a - b) + 1) = Suc (unat (a - b))"
    using assms by (subst unat_add_lem [THEN iffD1]) simp_all
  ultimately show ?thesis by (simp only:)
qed

lemma pipe_put_list:
  assumes "pipe_inv p" and "\<not> pipe_full p"
  shows "pipe_list (pipe_put b p) = pipe_list p @ [b]"
proof (rule nth_equalityI)
  let ?d = "unat (nwrite p - nread p)"
  have d: "?d < PIPESIZE" using assms by (auto simp: pipe_inv_def pipe_full_iff length_pipe_list)
  have len: "unat (nwrite p + 1 - nread p) = Suc ?d"
    using d by (intro unat_gap_Suc) (simp add: PIPESIZE_def)
  then show "length (pipe_list (pipe_put b p)) = length (pipe_list p @ [b])"
    by (simp add: pipe_put_def length_pipe_list)
  have nw: "unat (nwrite p) mod PIPESIZE = (unat (nread p) + ?d) mod PIPESIZE"
    using unat_add_slot [of "nread p" ?d] by simp
  fix k assume "k < length (pipe_list (pipe_put b p))"
  then have k: "k < Suc ?d" using len by (simp add: pipe_put_def length_pipe_list)
  have "pipe_list (pipe_put b p) ! k
      = (pdata p)[(unat (nread p) + ?d) mod PIPESIZE := b] ! ((unat (nread p) + k) mod PIPESIZE)"
    using k len by (subst pipe_list_nth) (simp_all add: pipe_put_def unat_mod_pipesize nw)
  also have "\<dots> = (if k = ?d then b else pdata p ! ((unat (nread p) + k) mod PIPESIZE))"
    using assms(1) k d mod_add_inj [of "unat (nread p)" ?d PIPESIZE k]
    by (auto simp: nth_list_update pipe_inv_def)
  also have "\<dots> = (pipe_list p @ [b]) ! k"
    using k by (auto simp: nth_append pipe_list_nth length_pipe_list)
  finally show "pipe_list (pipe_put b p) ! k = (pipe_list p @ [b]) ! k" .
qed

lemma pipe_put_inv: "pipe_inv p \<Longrightarrow> \<not> pipe_full p \<Longrightarrow> pipe_inv (pipe_put b p)"
  using pipe_put_list [of p b, THEN arg_cong [where f = length]]
  by (auto simp: pipe_inv_def pipe_full_iff pipe_put_def length_pipe_list)

lemma pipe_drop_gap:
  assumes "pipe_list p \<noteq> []"
  shows "Suc (unat (nwrite p - (nread p + 1))) = unat (nwrite p - nread p)"
proof -
  have nz: "nwrite p - nread p \<noteq> 0"
    using assms by (auto simp: pipe_empty_iff [symmetric] pipe_empty_def)
  have "nwrite p - (nread p + 1) = (nwrite p - nread p) - 1" by simp
  then have "unat (nwrite p - (nread p + 1)) = unat (nwrite p - nread p) - 1"
    using unat_minus_one [OF nz] by (simp only:)
  moreover have "unat (nwrite p - nread p) \<noteq> 0" using nz by (simp add: unat_eq_zero)
  ultimately show ?thesis by simp
qed

lemma pipe_drop_list:
  assumes "pipe_list p \<noteq> []"
  shows "pipe_list (pipe_drop p) = tl (pipe_list p)"
proof (rule nth_equalityI)
  note gap = pipe_drop_gap [OF assms]
  then show "length (pipe_list (pipe_drop p)) = length (tl (pipe_list p))"
    by (simp add: pipe_drop_def length_pipe_list)
  fix k assume "k < length (pipe_list (pipe_drop p))"
  then have k: "k < unat (nwrite p - (nread p + 1))" by (simp add: pipe_drop_def length_pipe_list)
  have "pipe_list (pipe_drop p) ! k = pdata p ! ((unat (nread p + 1) + k) mod PIPESIZE)"
    using k by (subst pipe_list_nth) (simp_all add: pipe_drop_def)
  also have "(unat (nread p + 1) + k) mod PIPESIZE = (unat (nread p) + Suc k) mod PIPESIZE"
    using unat_add_slot [of "nread p" 1] by (metis add.assoc mod_add_left_eq of_nat_1 plus_1_eq_Suc)
  also have "pdata p ! \<dots> = pipe_list p ! Suc k"
    using k gap by (subst pipe_list_nth) simp_all
  finally show "pipe_list (pipe_drop p) ! k = tl (pipe_list p) ! k"
    using k gap by (simp add: nth_tl length_pipe_list)
qed

lemma pipe_get_hd: "pipe_list p \<noteq> [] \<Longrightarrow> pipe_get p = hd (pipe_list p)"
proof -
  assume a: "pipe_list p \<noteq> []"
  then have "0 < unat (nwrite p - nread p)" by (metis length_greater_0_conv length_pipe_list)
  with a show ?thesis
    by (simp add: hd_conv_nth pipe_list_nth pipe_get_def unat_mod_pipesize)
qed

lemma pipe_drop_inv: "pipe_inv p \<Longrightarrow> pipe_list p \<noteq> [] \<Longrightarrow> pipe_inv (pipe_drop p)"
  using pipe_drop_gap [of p] by (simp add: pipe_inv_def pipe_drop_def)

lemma pipe_bounded: "pipe_inv p \<Longrightarrow> length (pipe_list p) \<le> PIPESIZE"
  by (simp add: pipe_inv_def length_pipe_list)

interpretation ring: bounded_fifo pipe_put pipe_get pipe_drop pipe_full pipe_empty
  pipe_list pipe_inv PIPESIZE
  by (unfold_locales;
      (rule pipe_put_list pipe_get_hd pipe_drop_list pipe_full_iff pipe_empty_iff
        pipe_bounded pipe_put_inv pipe_drop_inv; assumption)?)
    (simp add: PIPESIZE_def)

section \<open>What the routines do to the queue\<close>

lemma pipewrite_spec:
  assumes "pipewrite killed addr n i p = (q, ws, st, j)" and "pipe_inv p"
  shows "pipe_inv q \<and> i \<le> j \<and> pipe_list q = pipe_list p @ map addr [i..<j]
    \<and> readopen q = readopen p \<and> writeopen q = writeopen p
    \<and> (st = Returned n \<and> n \<le> int j \<and> ws = [Ch_nread]
       \<or> st = Returned (- 1) \<and> int j < n \<and> ws = [] \<and> pipe_full q \<and> (\<not> readopen q \<or> killed)
       \<or> st = Asleep Ch_nwrite \<and> int j < n \<and> ws = [Ch_nread] \<and> pipe_full q \<and> readopen q \<and> \<not> killed)"
  using assms
proof (induction killed addr n i p arbitrary: q ws st j rule: pipewrite.induct)
  case (1 killed addr n i p)
  show ?case
  proof (cases "int i < n \<and> \<not> pipe_full p")
    case True
    then have run: "pipewrite killed addr n (Suc i) (pipe_put (addr i) p) = (q, ws, st, j)"
      using "1.prems"(1) by (subst (asm) pipewrite.simps) simp
    have inv': "pipe_inv (pipe_put (addr i) p)"
      using True "1.prems"(2) by (simp add: pipe_put_inv)
    have "map addr [i..<j] = addr i # map addr [Suc i..<j]" if "Suc i \<le> j"
      using that by (simp add: upt_conv_Cons)
    with "1.IH" [OF _ _ run inv'] True "1.prems"(2) show ?thesis
      by (auto simp: pipe_put_list) (simp_all add: pipe_put_def)
  next
    case False
    with "1.prems" show ?thesis
      by (subst (asm) pipewrite.simps) (auto split: if_splits)
  qed
qed

lemma piperead_copy_spec:
  assumes "piperead_copy m p = (q, bs)" and "pipe_inv p"
  shows "pipe_inv q \<and> pipe_list p = bs @ pipe_list q \<and> length bs = min m (length (pipe_list p))
    \<and> readopen q = readopen p \<and> writeopen q = writeopen p"
  using assms
proof (induction m p arbitrary: q bs rule: piperead_copy.induct)
  case (1 p)
  then show ?case by simp
next
  case (2 m p)
  show ?case
  proof (cases "pipe_empty p")
    case True
    with "2.prems" show ?thesis by (auto simp: pipe_empty_iff)
  next
    case False
    obtain q' bs' where r: "piperead_copy m (pipe_drop p) = (q', bs')" by fastforce
    with False "2.prems"(1) have e: "q = q'" "bs = pipe_get p # bs'" by auto
    have ne: "pipe_list p \<noteq> []" using False by (simp add: pipe_empty_iff)
    have cons: "pipe_list p = pipe_get p # pipe_list (pipe_drop p)"
      using ne by (simp add: pipe_drop_list pipe_get_hd)
    have frame: "readopen (pipe_drop p) = readopen p" "writeopen (pipe_drop p) = writeopen p"
      by (simp_all add: pipe_drop_def)
    note IH = "2.IH" [OF False r pipe_drop_inv [OF "2.prems"(2) ne]]
    then have len: "length bs' = min m (length (pipe_list (pipe_drop p)))" by (elim conjE)
    have "length bs = min (Suc m) (length (pipe_list p))"
      by (simp only: e cons len length_Cons min_Suc_Suc)
    moreover have "pipe_list p = bs @ pipe_list q"
      using IH by (simp only: e cons append_Cons)
    ultimately show ?thesis using IH frame e by (intro conjI) (simp_all only:)
  qed
qed

lemma piperead_spec:
  assumes "piperead killed n p = (q, ws, st, bs)" and "pipe_inv p"
  shows "pipe_inv q \<and> pipe_list p = bs @ pipe_list q
    \<and> readopen q = readopen p \<and> writeopen q = writeopen p
    \<and> (st = Asleep Ch_nread \<and> \<not> killed \<and> q = p \<and> bs = [] \<and> ws = [] \<and> pipe_empty p \<and> writeopen p
       \<or> st = Returned (- 1) \<and> killed \<and> q = p \<and> bs = [] \<and> ws = [] \<and> pipe_empty p \<and> writeopen p
       \<or> st = Returned (int (length bs)) \<and> ws = [Ch_nwrite]
         \<and> length bs = min (nat n) (length (pipe_list p)) \<and> (\<not> pipe_empty p \<or> \<not> writeopen p))"
proof (cases "pipe_empty p \<and> writeopen p")
  case True
  with assms show ?thesis by (auto simp: piperead_def split: if_splits)
next
  case False
  obtain q' bs' where r: "piperead_copy (nat n) p = (q', bs')" by fastforce
  with False assms(1) have "q = q'" "bs = bs'" "ws = [Ch_nwrite]" "st = Returned (int (length bs))"
    by (auto simp: piperead_def)
  with piperead_copy_spec [OF r assms(2)] False show ?thesis
    by blast
qed

section \<open>Readers and writers, interleaved\<close>

text \<open>
  Any number of processes use one pipe.  A process is outside the pipe code,
  ready to run its next segment of \<^verbatim>\<open>pipewrite\<close> or \<^verbatim>\<open>piperead\<close>, or
  asleep on a channel.  \<open>sent\<close> and \<open>rcvd\<close> are ghost histories: every byte put
  into, and every byte taken out of, the pipe since it was created.
\<close>

datatype pact = Idle | WReady "nat \<Rightarrow> byte" int nat | WSleep "nat \<Rightarrow> byte" int nat
  | RReady int | RSleep int

fun is_writing :: "pact \<Rightarrow> bool" where
  "is_writing (WReady ad n i) = True"
| "is_writing (WSleep ad n i) = True"
| "is_writing a = False"

fun is_reading :: "pact \<Rightarrow> bool" where
  "is_reading (RReady n) = True"
| "is_reading (RSleep n) = True"
| "is_reading a = False"

text \<open>\<^verbatim>\<open>wakeup\<close> makes every sleeper on the channel runnable.\<close>

fun wake :: "pchan list \<Rightarrow> pact \<Rightarrow> pact" where
  "wake ws (WSleep ad n i) = (if Ch_nwrite \<in> set ws then WReady ad n i else WSleep ad n i)"
| "wake ws (RSleep n) = (if Ch_nread \<in> set ws then RReady n else RSleep n)"
| "wake ws a = a"

record psys =
  spipe :: pipe
  act :: "nat \<Rightarrow> pact"
  sent :: "byte list"
  rcvd :: "byte list"

definition psys_init :: "byte list \<Rightarrow> psys" where
  "psys_init page = \<lparr>spipe = pipe_init page, act = (\<lambda>_. Idle), sent = [], rcvd = []\<rparr>"

text \<open>
  The first argument says whether the process that moves has been killed.  A
  call needs an open end of the pipe, because the caller holds a descriptor
  for it; an end is closed when its last descriptor goes, so nobody is inside
  a call on that end.
\<close>

inductive pipe_step :: "bool \<Rightarrow> psys \<Rightarrow> psys \<Rightarrow> bool" where
  call_write: "act s q = Idle \<Longrightarrow> writeopen (spipe s) \<Longrightarrow>
     pipe_step k s (s\<lparr>act := (act s)(q := WReady ad n 0)\<rparr>)"
| call_read: "act s q = Idle \<Longrightarrow> readopen (spipe s) \<Longrightarrow>
     pipe_step k s (s\<lparr>act := (act s)(q := RReady n)\<rparr>)"
| run_write: "act s q = WReady ad n i \<Longrightarrow> pipewrite k ad n i (spipe s) = (p', ws, st, j) \<Longrightarrow>
     pipe_step k s \<lparr>spipe = p',
       act = (\<lambda>r. wake ws (act s r))(q := (case st of Returned r \<Rightarrow> Idle | Asleep c \<Rightarrow> WSleep ad n j)),
       sent = sent s @ map ad [i..<j], rcvd = rcvd s\<rparr>"
| run_read: "act s q = RReady n \<Longrightarrow> piperead k n (spipe s) = (p', ws, st, bs) \<Longrightarrow>
     pipe_step k s \<lparr>spipe = p',
       act = (\<lambda>r. wake ws (act s r))(q := (case st of Returned r \<Rightarrow> Idle | Asleep c \<Rightarrow> RSleep n)),
       sent = sent s, rcvd = rcvd s @ bs\<rparr>"
| kill_writer: "act s q = WSleep ad n i \<Longrightarrow>
     pipe_step k s (s\<lparr>act := (act s)(q := WReady ad n i)\<rparr>)"
| kill_reader: "act s q = RSleep n \<Longrightarrow>
     pipe_step k s (s\<lparr>act := (act s)(q := RReady n)\<rparr>)"
| close_write: "writeopen (spipe s) \<Longrightarrow> \<forall>r. \<not> is_writing (act s r) \<Longrightarrow>
     pipeclose True (spipe s) = (p', ws, fr) \<Longrightarrow>
     pipe_step k s (s\<lparr>spipe := p', act := (\<lambda>r. wake ws (act s r))\<rparr>)"
| close_read: "readopen (spipe s) \<Longrightarrow> \<forall>r. \<not> is_reading (act s r) \<Longrightarrow>
     pipeclose False (spipe s) = (p', ws, fr) \<Longrightarrow>
     pipe_step k s (s\<lparr>spipe := p', act := (\<lambda>r. wake ws (act s r))\<rparr>)"

text \<open>Reachable states; with \<open>False\<close>, no process is killed while it runs.\<close>

inductive pipe_reach :: "bool \<Rightarrow> psys \<Rightarrow> bool" for kills :: bool where
  start: "length page = PIPESIZE \<Longrightarrow> pipe_reach kills (psys_init page)"
| step: "pipe_reach kills s \<Longrightarrow> pipe_step k s t \<Longrightarrow> k \<longrightarrow> kills \<Longrightarrow> pipe_reach kills t"

lemma pipe_init_inv: "length page = PIPESIZE \<Longrightarrow> pipe_inv (pipe_init page) \<and> pipe_list (pipe_init page) = []"
  by (simp add: pipe_inv_def pipe_init_def pipe_list_def)

lemma pipeclose_spec:
  assumes "pipeclose w p = (q, ws, fr)"
  shows "pipe_list q = pipe_list p \<and> pipe_inv q = pipe_inv p \<and> pipe_empty q = pipe_empty p
    \<and> pipe_full q = pipe_full p
    \<and> (if w then writeopen q = False \<and> readopen q = readopen p \<and> ws = [Ch_nread]
       else readopen q = False \<and> writeopen q = writeopen p \<and> ws = [Ch_nwrite])"
  using assms
  by (cases w) (auto simp: pipeclose_def pipe_list_def pipe_inv_def pipe_empty_def pipe_full_def)

subsection \<open>Every byte comes out once, in order\<close>

definition fifo_inv :: "psys \<Rightarrow> bool" where
  "fifo_inv s \<longleftrightarrow> pipe_inv (spipe s) \<and> sent s = rcvd s @ pipe_list (spipe s)"

lemma pipe_step_fifo: "pipe_step k s t \<Longrightarrow> fifo_inv s \<Longrightarrow> fifo_inv t"
proof (induction rule: pipe_step.induct)
  case (run_write s q ad n i k p' ws st j)
  from pipewrite_spec [OF run_write(2)] run_write(3) show ?case
    by (simp add: fifo_inv_def)
next
  case (run_read s q n k p' ws st bs)
  from piperead_spec [OF run_read(2)] run_read(3) show ?case
    by (simp add: fifo_inv_def)
next
  case (close_write s p' ws fr k)
  then show ?case using pipeclose_spec [OF close_write(3)] by (simp add: fifo_inv_def)
next
  case (close_read s p' ws fr k)
  then show ?case using pipeclose_spec [OF close_read(3)] by (simp add: fifo_inv_def)
qed (simp_all add: fifo_inv_def)

lemma pipe_reach_fifo: "pipe_reach kills s \<Longrightarrow> fifo_inv s"
proof (induction rule: pipe_reach.induct)
  case (start page)
  then show ?case using pipe_init_inv [of page] by (simp add: fifo_inv_def psys_init_def)
next
  case (step s k t)
  then show ?case using pipe_step_fifo by blast
qed

subsection \<open>Who may be asleep\<close>

lemma wake_simps [simp]:
  "wake ws a = WSleep ad n i \<longleftrightarrow> a = WSleep ad n i \<and> Ch_nwrite \<notin> set ws"
  "wake ws a = RSleep n \<longleftrightarrow> a = RSleep n \<and> Ch_nread \<notin> set ws"
  "is_writing (wake ws a) = is_writing a"
  "is_reading (wake ws a) = is_reading a"
  by (cases a; auto)+

definition ends_inv :: "psys \<Rightarrow> bool" where
  "ends_inv s \<longleftrightarrow> (\<forall>q. is_writing (act s q) \<longrightarrow> writeopen (spipe s))
     \<and> (\<forall>q. is_reading (act s q) \<longrightarrow> readopen (spipe s))"

definition writer_inv :: "psys \<Rightarrow> bool" where
  "writer_inv s \<longleftrightarrow> (\<forall>q ad n i. act s q = WSleep ad n i \<longrightarrow> pipe_full (spipe s) \<and> readopen (spipe s))"

definition reader_inv :: "psys \<Rightarrow> bool" where
  "reader_inv s \<longleftrightarrow> (\<forall>q n. act s q = RSleep n \<longrightarrow> pipe_empty (spipe s) \<and> writeopen (spipe s))"

lemmas sleep_defs = ends_inv_def writer_inv_def reader_inv_def

lemma pipe_step_ends: "pipe_step k s t \<Longrightarrow> fifo_inv s \<Longrightarrow> ends_inv s \<Longrightarrow> ends_inv t"
proof (induction rule: pipe_step.induct)
  case (run_write s q ad n i k p' ws st j)
  have "writeopen p' = writeopen (spipe s)" "readopen p' = readopen (spipe s)"
    using pipewrite_spec [OF run_write(2)] run_write(3) by (auto simp: fifo_inv_def)
  moreover have "writeopen (spipe s)" using run_write(1,4) by (metis ends_inv_def is_writing.simps(1))
  ultimately show ?case using run_write(4) by (auto simp: ends_inv_def split: pstat.splits)
next
  case (run_read s q n k p' ws st bs)
  have "writeopen p' = writeopen (spipe s)" "readopen p' = readopen (spipe s)"
    using piperead_spec [OF run_read(2)] run_read(3) unfolding fifo_inv_def by blast+
  moreover have "readopen (spipe s)" using run_read(1,4) by (metis ends_inv_def is_reading.simps(1))
  ultimately show ?case using run_read(4) by (auto simp: ends_inv_def split: pstat.splits)
next
  case (close_write s p' ws fr k)
  then show ?case using pipeclose_spec [OF close_write(3)] by (auto simp: ends_inv_def)
next
  case (close_read s p' ws fr k)
  then show ?case using pipeclose_spec [OF close_read(3)] by (auto simp: ends_inv_def)
qed (auto simp: ends_inv_def, (metis is_writing.simps(2) is_reading.simps(2))+)

text \<open>A full pipe stays as it is when a writer runs.\<close>

lemma pipewrite_full:
  assumes "pipewrite k ad n i p = (p', ws, st, j)" and "pipe_full p"
  shows "p' = p"
  using assms by (subst (asm) pipewrite.simps) (auto split: if_splits)

lemma pipe_step_writer:
  "pipe_step k s t \<Longrightarrow> fifo_inv s \<Longrightarrow> ends_inv s \<Longrightarrow> writer_inv s \<Longrightarrow> writer_inv t"
proof (induction rule: pipe_step.induct)
  case (run_write s q ad n i k p' ws st j)
  have spec: "st = Asleep c \<Longrightarrow> pipe_full p' \<and> readopen p'" for c
    using pipewrite_spec [OF run_write(2)] run_write(3) by (auto simp: fifo_inv_def)
  have "pipe_full (spipe s) \<Longrightarrow> p' = spipe s" using pipewrite_full [OF run_write(2)] .
  then show ?case
    using spec run_write(5) by (auto simp: writer_inv_def split: pstat.splits)
next
  case (run_read s q n k p' ws st bs)
  have "p' = spipe s \<or> Ch_nwrite \<in> set ws"
    using run_read(2) by (auto simp: piperead_def split: if_splits prod.splits)
  then show ?case using run_read(5) by (auto simp: writer_inv_def split: pstat.splits)
next
  case (close_write s p' ws fr k)
  then show ?case using pipeclose_spec [OF close_write(3)] by (auto simp: writer_inv_def)
next
  case (close_read s p' ws fr k)
  then show ?case using pipeclose_spec [OF close_read(3)] by (auto simp: writer_inv_def)
qed (auto simp: writer_inv_def)

lemma pipe_step_reader:
  "pipe_step k s t \<Longrightarrow> \<not> k \<Longrightarrow> fifo_inv s \<Longrightarrow> ends_inv s \<Longrightarrow> reader_inv s \<Longrightarrow> reader_inv t"
proof (induction rule: pipe_step.induct)
  case (run_write s q ad n i k p' ws st j)
  have "Ch_nread \<in> set ws \<or> \<not> readopen (spipe s)"
    using pipewrite_spec [OF run_write(2)] run_write(3,4) by (auto simp: fifo_inv_def)
  moreover have "readopen (spipe s)" if "act s r = RSleep m" for r m
    using that run_write(5) by (metis ends_inv_def is_reading.simps(2))
  ultimately show ?case
    by (auto simp: reader_inv_def split: pstat.splits)
next
  case (run_read s q n k p' ws st bs)
  have "pipe_empty (spipe s) \<and> writeopen (spipe s) \<longrightarrow> p' = spipe s"
    and "st = Asleep c \<Longrightarrow> pipe_empty p' \<and> writeopen p'" for c
    using run_read(2) by (auto simp: piperead_def split: if_splits prod.splits)
  then show ?case using run_read(6) by (auto simp: reader_inv_def split: pstat.splits)
next
  case (close_write s p' ws fr k)
  then show ?case using pipeclose_spec [OF close_write(3)] by (auto simp: reader_inv_def)
next
  case (close_read s p' ws fr k)
  then show ?case using pipeclose_spec [OF close_read(3)] by (auto simp: reader_inv_def)
qed (auto simp: reader_inv_def)

lemma pipe_reach_writer: "pipe_reach kills s \<Longrightarrow> ends_inv s \<and> writer_inv s"
proof (induction rule: pipe_reach.induct)
  case (start page)
  then show ?case by (simp add: sleep_defs psys_init_def)
next
  case (step s k t)
  then show ?case using pipe_step_ends pipe_step_writer pipe_reach_fifo by blast
qed

lemma pipe_reach_reader: "pipe_reach False s \<Longrightarrow> reader_inv s"
proof (induction rule: pipe_reach.induct)
  case (start page)
  then show ?case by (simp add: sleep_defs psys_init_def)
next
  case (step s k t)
  then show ?case using pipe_step_reader pipe_reach_fifo pipe_reach_writer by blast
qed

section \<open>Properties\<close>

text \<open>C3: In every reachable state of any interleaving of readers, writers, kills and
  closes, the bytes written so far are exactly the bytes read so far followed by the bytes
  still in the ring buffer (nothing is lost, duplicated or reordered, counter wrap-around
  included), and the buffer never holds more than PIPESIZE bytes.\<close>

theorem pipe_fifo:
  assumes "pipe_reach kills s"
  shows "sent s = rcvd s @ pipe_list (spipe s) \<and> length (pipe_list (spipe s)) \<le> PIPESIZE"
  using pipe_reach_fifo [OF assms] ring.bounded [of "spipe s"] by (simp add: fifo_inv_def)

text \<open>The two running steps with the successor state given by an equation, for use on
  concrete states.\<close>

lemma run_writeI:
  "act s q = WReady ad n i \<Longrightarrow> pipewrite k ad n i (spipe s) = (p', ws, st, j) \<Longrightarrow>
   t = \<lparr>spipe = p',
       act = (\<lambda>r. wake ws (act s r))(q := (case st of Returned r \<Rightarrow> Idle | Asleep c \<Rightarrow> WSleep ad n j)),
       sent = sent s @ map ad [i..<j], rcvd = rcvd s\<rparr> \<Longrightarrow> pipe_step k s t"
  by (simp only: pipe_step.run_write)

lemma run_readI:
  "act s q = RReady n \<Longrightarrow> piperead k n (spipe s) = (p', ws, st, bs) \<Longrightarrow>
   t = \<lparr>spipe = p',
       act = (\<lambda>r. wake ws (act s r))(q := (case st of Returned r \<Rightarrow> Idle | Asleep c \<Rightarrow> RSleep n)),
       sent = sent s, rcvd = rcvd s @ bs\<rparr> \<Longrightarrow> pipe_step k s t"
  by (simp only: pipe_step.run_read)

lemma demo_write:
  "pipewrite False (\<lambda>_. 7) 1 0 (pipe_init page) = (pipe_put 7 (pipe_init page), [Ch_nread], Returned 1, 1)"
  by (simp add: pipewrite.simps pipe_full_def pipe_init_def PIPESIZE_def)

theorem pipe_fifo_witness:
  "\<exists>s. pipe_reach False s \<and> sent s = [7] \<and> sent s = rcvd s @ pipe_list (spipe s)
     \<and> length (pipe_list (spipe s)) \<le> PIPESIZE"
proof -
  let ?page = "replicate PIPESIZE 0"
  have "pipe_reach False (psys_init ?page)" by (simp add: pipe_reach.start)
  then have "pipe_reach False (psys_init ?page\<lparr>act := (act (psys_init ?page))(0 := WReady (\<lambda>_. 7) 1 0)\<rparr>)"
    by (rule pipe_reach.step [OF _ pipe_step.call_write [where k = False]])
      (simp_all add: psys_init_def pipe_init_def)
  then have s: "pipe_reach False \<lparr>spipe = pipe_put 7 (pipe_init ?page), act = \<lambda>_. Idle, sent = [7], rcvd = []\<rparr>"
    (is "pipe_reach False ?s")
    by (rule pipe_reach.step [OF _ run_writeI [where k = False and q = 0 and ad = "\<lambda>_. 7" and n = 1
          and i = 0 and p' = "pipe_put 7 (pipe_init ?page)" and ws = "[Ch_nread]"
          and st = "Returned 1" and j = 1]])
      (use demo_write [of ?page] in \<open>simp_all add: psys_init_def fun_eq_iff\<close>)
  with pipe_fifo [OF s] show ?thesis by (intro exI [of _ ?s]) simp
qed

text \<open>C4: While no process is killed, a writer is asleep only on a full pipe whose read
  end is open, a reader is asleep only on an empty pipe whose write end is open, and so
  never both at once: no wakeup is lost and readers and writers cannot deadlock.\<close>

theorem pipe_no_lost_wakeup:
  assumes "pipe_reach False s"
  shows "(act s q = WSleep ad n i \<longrightarrow> pipe_full (spipe s) \<and> readopen (spipe s))
    \<and> (act s r = RSleep m \<longrightarrow> pipe_empty (spipe s) \<and> writeopen (spipe s))
    \<and> \<not> (act s q = WSleep ad n i \<and> act s r = RSleep m)"
proof -
  have "pipe_inv (spipe s)" using pipe_reach_fifo [OF assms] by (simp add: fifo_inv_def)
  then show ?thesis
    using pipe_reach_writer [OF assms] pipe_reach_reader [OF assms] ring.not_full_and_empty
    unfolding writer_inv_def reader_inv_def by blast
qed

lemma demo_sleeping_reader:
  assumes "length page = PIPESIZE"
  shows "pipe_reach kills (psys_init page\<lparr>act := (\<lambda>_. Idle)(0 := RSleep 1)\<rparr>)"
proof -
  have 0: "pipe_reach kills (psys_init page)" using assms by (rule pipe_reach.start)
  have 1: "pipe_reach kills (psys_init page\<lparr>act := (act (psys_init page))(0 := RReady 1)\<rparr>)"
    by (rule pipe_reach.step [OF 0 pipe_step.call_read [where k = False]])
      (simp_all add: psys_init_def pipe_init_def)
  have 2: "piperead False 1 (pipe_init page) = (pipe_init page, [], Asleep Ch_nread, [])"
    by (simp add: piperead_def pipe_empty_def pipe_init_def)
  show ?thesis
    by (rule pipe_reach.step [OF 1 run_readI [where k = False and q = 0 and n = 1
          and p' = "pipe_init page" and ws = "[]" and st = "Asleep Ch_nread" and bs = "[]"]])
      (use 2 in \<open>simp_all add: psys_init_def fun_eq_iff\<close>)
qed

theorem pipe_no_lost_wakeup_witness:
  "\<exists>s. pipe_reach False s \<and> act s 0 = RSleep 1 \<and> pipe_empty (spipe s) \<and> writeopen (spipe s)"
proof -
  let ?s = "psys_init (replicate PIPESIZE 0)\<lparr>act := (\<lambda>_. Idle)(0 := RSleep 1)\<rparr>"
  have r: "pipe_reach False ?s" by (rule demo_sleeping_reader) simp
  from pipe_no_lost_wakeup [OF r, of _ _ _ _ 0 1] r show ?thesis by (intro exI [of _ ?s]) simp
qed

text \<open>C14: A writer that fills the pipe and has been killed returns -1 without waking the
  readers: there is a reachable state with a full pipe, a reader asleep on it, and no other
  process left inside the pipe code to wake it.\<close>

theorem pipe_killed_writer_strands_reader:
  "\<exists>s. pipe_reach True s \<and> act s = (\<lambda>_. Idle)(0 := RSleep 1) \<and> pipe_full (spipe s)
     \<and> writeopen (spipe s)"
proof -
  let ?page = "replicate PIPESIZE (0 :: byte)" and ?ad = "\<lambda>_. 0 :: byte"
  let ?s = "psys_init ?page\<lparr>act := (\<lambda>_. Idle)(0 := RSleep 1)\<rparr>"
  let ?t = "?s\<lparr>act := (act ?s)(1 := WReady ?ad 513 0)\<rparr>"
  have t: "pipe_reach True ?t"
    by (rule pipe_reach.step [OF demo_sleeping_reader pipe_step.call_write [where k = False]])
      (simp_all add: psys_init_def pipe_init_def)
  obtain p' ws st j where w: "pipewrite True ?ad 513 0 (pipe_init ?page) = (p', ws, st, j)"
    using prod_cases4 by blast
  have inv: "pipe_inv (pipe_init ?page)" "pipe_list (pipe_init ?page) = []"
    using pipe_init_inv [of ?page] by simp_all
  note spec = pipewrite_spec [OF w inv(1)]
  have "length (pipe_list p') \<le> PIPESIZE" using spec ring.bounded by blast
  then have "j \<le> 512" using spec inv(2) by (auto simp: PIPESIZE_def)
  then have q: "st = Returned (- 1)" "ws = []" "pipe_full p'" "writeopen p'"
    using spec by (auto simp: pipe_init_def)
  have "pipe_reach True \<lparr>spipe = p', act = (\<lambda>_. Idle)(0 := RSleep 1), sent = map ?ad [0..<j], rcvd = []\<rparr>"
    by (rule pipe_reach.step [OF t run_writeI [where k = True and q = 1 and ad = ?ad and n = 513
          and i = 0 and p' = p' and ws = "[]" and st = "Returned (- 1)" and j = j]])
      (use w q in \<open>simp_all add: psys_init_def fun_eq_iff\<close>)
  with q show ?thesis by (intro exI conjI) auto
qed

end
