(* ===== verification/Spinlock.thy ===== *)
theory Spinlock
  imports Kernel_Prelude
begin

text \<open>
  Spin locks and interrupt nesting (\<^verbatim>\<open>src/spinlock.c\<close>), with the part of the
  per-CPU state they use (\<^verbatim>\<open>struct cpu\<close> of \<^verbatim>\<open>src/proc.h\<close>) and the CPU
  lookup (\<^verbatim>\<open>mycpu\<close>, \<^verbatim>\<open>cpuid\<close> of \<^verbatim>\<open>src/proc.c\<close>).  A routine is
  run by one CPU: the state it sees is the shared CPU table together with the
  local APIC id and the interrupt flag of the CPU that executes it.  The
  debugging fields \<^verbatim>\<open>pcs\<close> of a lock are not part of the model.  The last
  sections let several CPUs compete for one lock, one memory operation at a
  time, and show mutual exclusion.
\<close>

section \<open>CPUs\<close>

record cpu =
  apicid :: byte
  ts_esp0 :: uint
  cr3 :: uint
  started :: uint
  ncli :: int
  intena :: bool
  cproc :: "nat option"
  consecutive_runs_queue :: int
  current_queue :: nat
  syscall_counter :: int

text \<open>
  \<open>ts_esp0\<close> is the kernel stack of \<^verbatim>\<open>ts\<close>, \<open>cr3\<close> the page-table register of the
  CPU.  The saved scheduler context and the segment table are not part of the model.
\<close>

text \<open>\<open>IF\<close> is the interrupt flag of the executing CPU, \<open>lapicid\<close> its local APIC id.\<close>

record machine =
  cpus :: "cpu list"
  lapicid :: byte
  IF :: bool

definition mycpu :: "('a machine_scheme) \<Rightarrow> nat res" where
  "mycpu m =
     (if IF m then Panic ''mycpu called with interrupts enabled''
      else case first_idx (\<lambda>c. apicid c = lapicid m) (cpus m) of
             Some i \<Rightarrow> Ok i
           | None \<Rightarrow> Panic ''unknown apicid'')"

text \<open>\<^verbatim>\<open>cpuid()\<close> is the index of the entry \<^verbatim>\<open>mycpu()\<close> points at.\<close>

definition cpuid :: "('a machine_scheme) \<Rightarrow> nat res" where
  "cpuid m = mycpu m"

definition upd_cpu :: "nat \<Rightarrow> (cpu \<Rightarrow> cpu) \<Rightarrow> ('a machine_scheme) \<Rightarrow> ('a machine_scheme)" where
  "upd_cpu i f m = m\<lparr>cpus := (cpus m)[i := f (cpus m ! i)]\<rparr>"

definition pushcli :: "('a machine_scheme) \<Rightarrow> ('a machine_scheme) res" where
  "pushcli m =
     (let eflags = IF m; m1 = m\<lparr>IF := False\<rparr> in
      bindr (mycpu m1) (\<lambda>i.
        let m2 = (if ncli (cpus m1 ! i) = 0 then upd_cpu i (\<lambda>c. c\<lparr>intena := eflags\<rparr>) m1 else m1)
        in Ok (upd_cpu i (\<lambda>c. c\<lparr>ncli := ncli c + 1\<rparr>) m2)))"

definition popcli :: "('a machine_scheme) \<Rightarrow> ('a machine_scheme) res" where
  "popcli m =
     (if IF m then Panic ''popcli - interruptible''
      else bindr (mycpu m) (\<lambda>i.
        let m1 = upd_cpu i (\<lambda>c. c\<lparr>ncli := ncli c - 1\<rparr>) m in
        if ncli (cpus m1 ! i) < 0 then Panic ''popcli''
        else if ncli (cpus m1 ! i) = 0 \<and> intena (cpus m1 ! i) then Ok (m1\<lparr>IF := True\<rparr>)
        else Ok m1))"

section \<open>Spin locks\<close>

record spinlock =
  locked :: uint
  lk_name :: string
  lk_cpu :: "nat option"

definition initlock :: "string \<Rightarrow> spinlock" where
  "initlock nm = \<lparr>locked = 0, lk_name = nm, lk_cpu = None\<rparr>"

definition holding :: "spinlock \<Rightarrow> ('a machine_scheme) \<Rightarrow> (bool \<times> ('a machine_scheme)) res" where
  "holding lk m =
     bindr (pushcli m) (\<lambda>m1.
     bindr (mycpu m1) (\<lambda>i.
       let r = (locked lk \<noteq> 0 \<and> lk_cpu lk = Some i) in
     bindr (popcli m1) (\<lambda>m2. Ok (r, m2))))"

text \<open>
  \<^verbatim>\<open>acquire\<close> in three pieces: interrupts off and the self-deadlock check, one
  atomic \<^verbatim>\<open>xchg\<close>, and the owner record.  While the exchange finds the lock
  taken the CPU spins, which is \<open>Block\<close>.
\<close>

definition acquire_begin :: "spinlock \<Rightarrow> ('a machine_scheme) \<Rightarrow> ('a machine_scheme) res" where
  "acquire_begin lk m =
     bindr (pushcli m) (\<lambda>m1.
     bindr (holding lk m1) (\<lambda>(h, m2).
       if h then Panic ''acquire'' else Ok m2))"

definition xchg_locked :: "spinlock \<Rightarrow> uint \<times> spinlock" where
  "xchg_locked lk = (locked lk, lk\<lparr>locked := 1\<rparr>)"

definition acquire_end :: "spinlock \<Rightarrow> ('a machine_scheme) \<Rightarrow> (spinlock \<times> ('a machine_scheme)) res" where
  "acquire_end lk m = bindr (mycpu m) (\<lambda>i. Ok (lk\<lparr>lk_cpu := Some i\<rparr>, m))"

definition acquire :: "spinlock \<Rightarrow> ('a machine_scheme) \<Rightarrow> (spinlock \<times> ('a machine_scheme)) res" where
  "acquire lk m =
     bindr (acquire_begin lk m) (\<lambda>m1.
       let (old, lk1) = xchg_locked lk
       in if old \<noteq> 0 then Block else acquire_end lk1 m1)"

text \<open>\<^verbatim>\<open>release\<close>: the ownership check and owner reset, the atomic store, \<^verbatim>\<open>popcli\<close>.\<close>

definition release_begin :: "spinlock \<Rightarrow> ('a machine_scheme) \<Rightarrow> (spinlock \<times> ('a machine_scheme)) res" where
  "release_begin lk m =
     bindr (holding lk m) (\<lambda>(h, m1).
       if h then Ok (lk\<lparr>lk_cpu := None\<rparr>, m1) else Panic ''release'')"

definition release :: "spinlock \<Rightarrow> ('a machine_scheme) \<Rightarrow> (spinlock \<times> ('a machine_scheme)) res" where
  "release lk m =
     bindr (release_begin lk m) (\<lambda>(lk1, m1).
     bindr (popcli m1) (\<lambda>m2. Ok (lk1\<lparr>locked := 0\<rparr>, m2)))"

text \<open>
  \<^verbatim>\<open>getcallerpcs\<close>: follow the saved frame pointers, at most ten of them; \<open>mem\<close>
  reads a 32-bit word of kernel memory.  The \<open>k\<close> remaining entries are filled
  with zero where the chain ends.
\<close>

fun getcallerpcs_loop :: "(uint \<Rightarrow> uint) \<Rightarrow> nat \<Rightarrow> uint \<Rightarrow> uint list" where
  "getcallerpcs_loop mem 0 ebp = []"
| "getcallerpcs_loop mem (Suc k) ebp =
     (if ebp = 0 \<or> ebp < KERNBASE \<or> ebp = 0xffffffff then replicate (Suc k) 0
      else mem (ebp + 4) # getcallerpcs_loop mem k (mem ebp))"

definition getcallerpcs :: "(uint \<Rightarrow> uint) \<Rightarrow> uint \<Rightarrow> uint list" where
  "getcallerpcs mem v = getcallerpcs_loop mem 10 (v - 8)"

section \<open>One CPU at a time\<close>

text \<open>
  The executing CPU \<open>i\<close> is known to the table, its nesting count is not negative,
  and interrupts are off while it is positive.
\<close>

definition on_cpu :: "nat \<Rightarrow> ('a machine_scheme) \<Rightarrow> bool" where
  "on_cpu i m \<longleftrightarrow> first_idx (\<lambda>c. apicid c = lapicid m) (cpus m) = Some i
     \<and> 0 \<le> ncli (cpus m ! i) \<and> (0 < ncli (cpus m ! i) \<longrightarrow> \<not> IF m)"

text \<open>The effect of \<^verbatim>\<open>pushcli\<close> on a well-formed CPU, as one update.\<close>

definition pushed :: "nat \<Rightarrow> ('a machine_scheme) \<Rightarrow> ('a machine_scheme)" where
  "pushed i m = upd_cpu i (\<lambda>c. c\<lparr>intena := (if ncli c = 0 then IF m else intena c), ncli := ncli c + 1\<rparr>)
                  (m\<lparr>IF := False\<rparr>)"

lemma cpus_upd_cpu [simp]: "cpus (upd_cpu i f m) = (cpus m)[i := f (cpus m ! i)]"
  and lapicid_upd_cpu [simp]: "lapicid (upd_cpu i f m) = lapicid m"
  and IF_upd_cpu [simp]: "IF (upd_cpu i f m) = IF m"
  by (simp_all add: upd_cpu_def)

lemma on_cpu_length: "on_cpu i m \<Longrightarrow> i < length (cpus m)"
  by (simp add: on_cpu_def first_idx_Some)

lemma first_idx_update:
  assumes "first_idx P xs = Some i" and "i < length xs \<Longrightarrow> P y = P (xs ! i)"
  shows "first_idx P (xs[i := y]) = Some i"
  using assms by (auto simp: first_idx_Some nth_list_update)

lemma upd_cpu_upd_cpu [simp]:
  "i < length (cpus m) \<Longrightarrow> upd_cpu i f (upd_cpu i g m) = upd_cpu i (f \<circ> g) m"
  by (simp add: upd_cpu_def)

lemma mycpu_on_cpu: "on_cpu i m \<Longrightarrow> \<not> IF m \<Longrightarrow> mycpu m = Ok i"
  by (simp add: on_cpu_def mycpu_def)

lemma pushcli_on_cpu:
  assumes "on_cpu i m"
  shows "pushcli m = Ok (pushed i m)"
proof -
  have "mycpu (m\<lparr>IF := False\<rparr>) = Ok i" using assms by (simp add: on_cpu_def mycpu_def)
  then show ?thesis
    using on_cpu_length [OF assms]
    by (auto simp: pushcli_def Let_def pushed_def upd_cpu_def)
qed

lemma on_cpu_pushed: "on_cpu i m \<Longrightarrow> on_cpu i (pushed i m)"
  using on_cpu_length [of i m]
  by (auto simp: on_cpu_def pushed_def intro!: first_idx_update)

lemma IF_pushed [simp]: "\<not> IF (pushed i m)"
  by (simp add: pushed_def)

lemma mycpu_pushed: "on_cpu i m \<Longrightarrow> mycpu (pushed i m) = Ok i"
  by (simp add: mycpu_on_cpu on_cpu_pushed)

lemma ncli_pushed: "on_cpu i m \<Longrightarrow> ncli (cpus (pushed i m) ! i) = ncli (cpus m ! i) + 1"
  using on_cpu_length [of i m] by (simp add: pushed_def)

text \<open>\<^verbatim>\<open>popcli\<close> undoes \<^verbatim>\<open>pushcli\<close> up to the saved flag.\<close>

definition settled :: "nat \<Rightarrow> ('a machine_scheme) \<Rightarrow> ('a machine_scheme)" where
  "settled i m = upd_cpu i (\<lambda>c. c\<lparr>intena := (if ncli c = 0 then IF m else intena c)\<rparr>) m"

lemma popcli_pushed:
  assumes "on_cpu i m"
  shows "popcli (pushed i m) = Ok (settled i m)"
proof -
  note mycpu_pushed [OF assms]
  then show ?thesis
    using assms on_cpu_length [OF assms]
    by (auto simp: popcli_def Let_def pushed_def settled_def upd_cpu_def on_cpu_def
        intro!: machine.equality arg_cong [where f = "\<lambda>c. (cpus m)[i := c]"] cpu.equality)
qed

lemma on_cpu_settled: "on_cpu i m \<Longrightarrow> on_cpu i (settled i m)"
  using on_cpu_length [of i m]
  by (auto simp: on_cpu_def settled_def intro!: first_idx_update)

lemma settled_id: "on_cpu i m \<Longrightarrow> 0 < ncli (cpus m ! i) \<Longrightarrow> settled i m = m"
  using on_cpu_length [of i m] by (simp add: settled_def upd_cpu_def)

lemma holding_on_cpu:
  assumes "on_cpu i m"
  shows "holding lk m = Ok (locked lk \<noteq> 0 \<and> lk_cpu lk = Some i, settled i m)"
  using assms by (simp add: holding_def pushcli_on_cpu mycpu_pushed popcli_pushed)

text \<open>\<^verbatim>\<open>popcli\<close> on a CPU whose nesting count is positive.\<close>

definition popped :: "nat \<Rightarrow> ('a machine_scheme) \<Rightarrow> ('a machine_scheme)" where
  "popped i m = (upd_cpu i (\<lambda>c. c\<lparr>ncli := ncli c - 1\<rparr>) m)
                  \<lparr>IF := (ncli (cpus m ! i) = 1 \<and> intena (cpus m ! i))\<rparr>"

lemma popcli_on_cpu:
  assumes "on_cpu i m" and "0 < ncli (cpus m ! i)"
  shows "popcli m = Ok (popped i m)"
proof -
  have off: "\<not> IF m" using assms by (simp add: on_cpu_def)
  with assms(1) have "mycpu m = Ok i" by (rule mycpu_on_cpu)
  then show ?thesis
    using assms off on_cpu_length [OF assms(1)]
    by (auto simp: popcli_def Let_def popped_def upd_cpu_def intro!: machine.equality)
qed

lemma on_cpu_popped: "on_cpu i m \<Longrightarrow> 0 < ncli (cpus m ! i) \<Longrightarrow> on_cpu i (popped i m)"
  using on_cpu_length [of i m]
  by (auto simp: on_cpu_def popped_def intro!: first_idx_update)

lemma acquire_begin_on_cpu:
  assumes "on_cpu i m"
  shows "acquire_begin lk m =
    (if locked lk \<noteq> 0 \<and> lk_cpu lk = Some i then Panic ''acquire'' else Ok (pushed i m))"
proof -
  have "0 < ncli (cpus (pushed i m) ! i)"
    using assms by (simp add: ncli_pushed on_cpu_def)
  then show ?thesis
    using assms on_cpu_pushed [OF assms]
    by (simp add: acquire_begin_def pushcli_on_cpu holding_on_cpu settled_id)
qed

lemma acquire_on_cpu:
  assumes "on_cpu i m"
  shows "acquire lk m =
    (if locked lk = 0 then Ok (lk\<lparr>locked := 1, lk_cpu := Some i\<rparr>, pushed i m)
     else if lk_cpu lk = Some i then Panic ''acquire'' else Block)"
  using assms
  by (simp add: acquire_def acquire_begin_on_cpu xchg_locked_def acquire_end_def mycpu_pushed)

lemma release_begin_on_cpu:
  "on_cpu i m \<Longrightarrow> release_begin lk m =
    (if locked lk \<noteq> 0 \<and> lk_cpu lk = Some i then Ok (lk\<lparr>lk_cpu := None\<rparr>, settled i m)
     else Panic ''release'')"
  by (simp add: release_begin_def holding_on_cpu)

lemma release_on_cpu:
  assumes "on_cpu i m" and "0 < ncli (cpus m ! i)"
  shows "release lk m =
    (if locked lk \<noteq> 0 \<and> lk_cpu lk = Some i then Ok (lk\<lparr>lk_cpu := None, locked := 0\<rparr>, popped i m)
     else Panic ''release'')"
  using assms by (simp add: release_def release_begin_on_cpu settled_id popcli_on_cpu)

lemma popped_pushed: "on_cpu i m \<Longrightarrow> popped i (pushed i m) = settled i m"
  using popcli_pushed [of i m] popcli_on_cpu [OF on_cpu_pushed, of i m]
  by (simp add: ncli_pushed on_cpu_def)

section \<open>Nesting\<close>

fun push_n :: "nat \<Rightarrow> ('a machine_scheme) \<Rightarrow> ('a machine_scheme) res" where
  "push_n 0 m = Ok m"
| "push_n (Suc n) m = bindr (pushcli m) (push_n n)"

fun pop_n :: "nat \<Rightarrow> ('a machine_scheme) \<Rightarrow> ('a machine_scheme) res" where
  "pop_n 0 m = Ok m"
| "pop_n (Suc n) m = bindr (popcli m) (pop_n n)"

lemma pop_n_snoc: "pop_n (Suc n) m = bindr (pop_n n m) popcli"
proof (induction n arbitrary: m)
  case 0
  then show ?case by (cases "popcli m") auto
next
  case (Suc n)
  then show ?case by (cases "popcli m") simp_all
qed

lemma push_pop_n:
  assumes "on_cpu i m"
  shows "\<exists>m1. push_n n m = Ok m1 \<and> (0 < n \<longrightarrow> \<not> IF m1)
     \<and> pop_n n m1 = Ok (if n = 0 then m else settled i m)"
  using assms
proof (induction n arbitrary: m)
  case 0
  then show ?case by simp
next
  case (Suc n)
  have on: "on_cpu i (pushed i m)" using Suc.prems by (rule on_cpu_pushed)
  have pos: "0 < ncli (cpus (pushed i m) ! i)"
    using Suc.prems by (simp add: ncli_pushed on_cpu_def)
  from Suc.IH [OF on] obtain m1 where m1: "push_n n (pushed i m) = Ok m1" "0 < n \<longrightarrow> \<not> IF m1"
    "pop_n n m1 = Ok (if n = 0 then pushed i m else settled i (pushed i m))" by blast
  have "pop_n n m1 = Ok (pushed i m)" using m1(3) settled_id [OF on pos] by (simp split: if_splits)
  then have "pop_n (Suc n) m1 = Ok (settled i m)"
    using popcli_pushed [OF Suc.prems] by (simp only: pop_n_snoc bindr_simps)
  moreover have "\<not> IF m1" using m1 by (cases "n = 0") auto
  ultimately show ?case using m1(1) Suc.prems by (simp add: pushcli_on_cpu)
qed

section \<open>Several CPUs, one lock\<close>

text \<open>
  Where a CPU is with respect to the lock: outside, spinning on the exchange,
  past a successful exchange, in the critical section (owner recorded), past
  the owner reset, past the store that frees the lock.
\<close>

datatype spc = Out | Begun | Got | Crit | Leaving | Freed

record smp =
  slock :: spinlock
  scpus :: "cpu list"
  sif :: "nat \<Rightarrow> bool"
  spc_of :: "nat \<Rightarrow> spc"

definition view :: "nat \<Rightarrow> smp \<Rightarrow> machine" where
  "view i s = \<lparr>cpus = scpus s, lapicid = apicid (scpus s ! i), IF = sif s i\<rparr>"

definition set_view :: "nat \<Rightarrow> machine \<Rightarrow> spinlock \<Rightarrow> spc \<Rightarrow> smp \<Rightarrow> smp" where
  "set_view i m lk pc s = \<lparr>slock = lk, scpus = cpus m, sif = (sif s)(i := IF m),
     spc_of = (spc_of s)(i := pc)\<rparr>"

inductive smp_step :: "smp \<Rightarrow> smp \<Rightarrow> bool" where
  enter: "i < length (scpus s) \<Longrightarrow> spc_of s i = Out \<Longrightarrow> acquire_begin (slock s) (view i s) = Ok m \<Longrightarrow>
     smp_step s (set_view i m (slock s) Begun s)"
| spin: "i < length (scpus s) \<Longrightarrow> spc_of s i = Begun \<Longrightarrow> xchg_locked (slock s) = (old, lk) \<Longrightarrow> old \<noteq> 0 \<Longrightarrow>
     smp_step s (set_view i (view i s) lk Begun s)"
| take: "i < length (scpus s) \<Longrightarrow> spc_of s i = Begun \<Longrightarrow> xchg_locked (slock s) = (old, lk) \<Longrightarrow> old = 0 \<Longrightarrow>
     smp_step s (set_view i (view i s) lk Got s)"
| own: "i < length (scpus s) \<Longrightarrow> spc_of s i = Got \<Longrightarrow> acquire_end (slock s) (view i s) = Ok (lk, m) \<Longrightarrow>
     smp_step s (set_view i m lk Crit s)"
| leave: "i < length (scpus s) \<Longrightarrow> spc_of s i = Crit \<Longrightarrow> release_begin (slock s) (view i s) = Ok (lk, m) \<Longrightarrow>
     smp_step s (set_view i m lk Leaving s)"
| store: "i < length (scpus s) \<Longrightarrow> spc_of s i = Leaving \<Longrightarrow>
     smp_step s (set_view i (view i s) (slock s\<lparr>locked := 0\<rparr>) Freed s)"
| pop: "i < length (scpus s) \<Longrightarrow> spc_of s i = Freed \<Longrightarrow> popcli (view i s) = Ok m \<Longrightarrow>
     smp_step s (set_view i m (slock s) Out s)"

inductive smp_reach :: "smp \<Rightarrow> bool" where
  start: "distinct (map apicid cs) \<Longrightarrow> \<forall>i < length cs. 0 \<le> ncli (cs ! i) \<and> (0 < ncli (cs ! i) \<longrightarrow> \<not> fl i) \<Longrightarrow>
     smp_reach \<lparr>slock = initlock nm, scpus = cs, sif = fl, spc_of = (\<lambda>_. Out)\<rparr>"
| step: "smp_reach s \<Longrightarrow> smp_step s t \<Longrightarrow> smp_reach t"

subsection \<open>Invariants\<close>

definition cpu_inv :: "smp \<Rightarrow> bool" where
  "cpu_inv s \<longleftrightarrow> distinct (map apicid (scpus s))
     \<and> (\<forall>i < length (scpus s). 0 \<le> ncli (scpus s ! i) \<and> (0 < ncli (scpus s ! i) \<longrightarrow> \<not> sif s i)
          \<and> (spc_of s i \<noteq> Out \<longrightarrow> 0 < ncli (scpus s ! i)))"

definition in_lock :: "spc \<Rightarrow> bool" where
  "in_lock pc \<longleftrightarrow> pc = Got \<or> pc = Crit \<or> pc = Leaving"

lemma in_lock_simps [simp]:
  "in_lock Got" "in_lock Crit" "in_lock Leaving" "\<not> in_lock Out" "\<not> in_lock Begun" "\<not> in_lock Freed"
  by (simp_all add: in_lock_def)

text \<open>\<open>ow\<close> is the CPU between its successful exchange and its freeing store, if any.\<close>

definition owned_by :: "nat option \<Rightarrow> smp \<Rightarrow> bool" where
  "owned_by ow s \<longleftrightarrow>
     (\<forall>i < length (scpus s). in_lock (spc_of s i) \<longleftrightarrow> ow = Some i)
     \<and> (\<forall>i. ow = Some i \<longrightarrow> i < length (scpus s))
     \<and> (locked (slock s) \<noteq> 0 \<longleftrightarrow> ow \<noteq> None)
     \<and> (\<forall>i. lk_cpu (slock s) = Some i \<longleftrightarrow> ow = Some i \<and> spc_of s i = Crit)"

definition lock_inv :: "smp \<Rightarrow> bool" where
  "lock_inv s \<longleftrightarrow> (\<exists>ow. owned_by ow s)"

lemma cpu_inv_on_cpu: "cpu_inv s \<Longrightarrow> i < length (scpus s) \<Longrightarrow> on_cpu i (view i s)"
  by (auto simp: cpu_inv_def on_cpu_def view_def first_idx_Some distinct_conv_nth)

lemma view_simps [simp]: "cpus (view i s) = scpus s" "IF (view i s) = sif s i"
  by (simp_all add: view_def)

lemma set_view_simps [simp]:
  "slock (set_view i m lk pc s) = lk" "scpus (set_view i m lk pc s) = cpus m"
  "sif (set_view i m lk pc s) = (sif s)(i := IF m)"
  "spc_of (set_view i m lk pc s) = (spc_of s)(i := pc)"
  by (simp_all add: set_view_def)

text \<open>Every step changes the entry of the moving CPU only.\<close>

lemma cpu_inv_set_view:
  assumes "cpu_inv s" and "i < length (scpus s)" and "cpus m = (scpus s)[i := cpus m ! i]"
    and "apicid (cpus m ! i) = apicid (scpus s ! i)" and "0 \<le> ncli (cpus m ! i)"
    and "0 < ncli (cpus m ! i) \<longrightarrow> \<not> IF m" and "pc \<noteq> Out \<longrightarrow> 0 < ncli (cpus m ! i)"
  shows "cpu_inv (set_view i m lk pc s)"
proof -
  have len: "length (cpus m) = length (scpus s)" using assms(3) by (metis length_list_update)
  have other: "cpus m ! j = scpus s ! j" if "j \<noteq> i" for j
    using assms(3) that by (metis nth_list_update_neq)
  have "map apicid (cpus m) = map apicid (scpus s)"
    using len other assms(4) by (intro nth_equalityI) (auto, metis)
  then show ?thesis
    using assms len other unfolding cpu_inv_def by (auto simp: nth_list_update)
qed

lemma spc_off: "cpu_inv s \<Longrightarrow> i < length (scpus s) \<Longrightarrow> spc_of s i \<noteq> Out \<Longrightarrow>
    0 < ncli (scpus s ! i) \<and> \<not> sif s i"
  by (auto simp: cpu_inv_def)

text \<open>The state each step leaves, for a CPU that satisfies the invariant.\<close>

lemma enter_eq:
  "cpu_inv s \<Longrightarrow> i < length (scpus s) \<Longrightarrow> acquire_begin (slock s) (view i s) = Ok m \<Longrightarrow>
   m = pushed i (view i s)"
  using acquire_begin_on_cpu [OF cpu_inv_on_cpu, of s i "slock s"] by (simp split: if_splits)

lemma own_eq:
  assumes "cpu_inv s" and "i < length (scpus s)" and "spc_of s i = Got"
  shows "acquire_end (slock s) (view i s) = Ok (slock s\<lparr>lk_cpu := Some i\<rparr>, view i s)"
proof -
  have "mycpu (view i s) = Ok i"
    using assms spc_off by (intro mycpu_on_cpu cpu_inv_on_cpu) auto
  then show ?thesis by (simp add: acquire_end_def)
qed

lemma leave_eq:
  assumes "cpu_inv s" and "i < length (scpus s)" and "spc_of s i = Crit"
  shows "release_begin (slock s) (view i s) =
    (if locked (slock s) \<noteq> 0 \<and> lk_cpu (slock s) = Some i then Ok (slock s\<lparr>lk_cpu := None\<rparr>, view i s)
     else Panic ''release'')"
proof -
  note on = cpu_inv_on_cpu [OF assms(1,2)]
  have "settled i (view i s) = view i s"
    using spc_off [OF assms(1,2)] assms(3) by (intro settled_id [OF on]) simp
  then show ?thesis by (simp add: release_begin_on_cpu [OF on])
qed

lemma pop_eq:
  assumes "cpu_inv s" and "i < length (scpus s)" and "spc_of s i = Freed"
  shows "popcli (view i s) = Ok (popped i (view i s))"
  using spc_off [OF assms(1,2)] assms(3) by (intro popcli_on_cpu [OF cpu_inv_on_cpu [OF assms(1,2)]]) simp

lemma view_unchanged:
  assumes "cpu_inv s" and "i < length (scpus s)" and "spc_of s i \<noteq> Out"
  shows "cpu_inv (set_view i (view i s) lk pc s)"
  using spc_off [OF assms] assms by (intro cpu_inv_set_view) simp_all

lemma smp_step_cpu_inv: "smp_step s t \<Longrightarrow> cpu_inv s \<Longrightarrow> cpu_inv t"
proof (induction rule: smp_step.induct)
  case (enter i s m)
  have m: "m = pushed i (view i s)" using enter_eq [OF enter(4,1,3)] .
  show ?case
    by (rule cpu_inv_set_view [OF enter(4,1)])
      (use enter(1,4) in \<open>simp_all add: m pushed_def cpu_inv_def\<close>)
next
  case (own i s lk m)
  then have "m = view i s" using own_eq by simp
  then show ?case using own by (simp add: view_unchanged)
next
  case (leave i s lk m)
  then have "m = view i s" using leave_eq by (simp split: if_splits)
  then show ?case using leave by (simp add: view_unchanged)
next
  case (pop i s m)
  then have m: "m = popped i (view i s)" using pop_eq by simp
  show ?case
    by (rule cpu_inv_set_view [OF pop(4,1)])
      (use spc_off [OF pop(4,1)] pop(1,2) in \<open>auto simp: m popped_def\<close>)
qed (simp_all add: view_unchanged)

lemma owned_by_in_lock: "owned_by ow s \<Longrightarrow> i < length (scpus s) \<Longrightarrow> in_lock (spc_of s i) \<Longrightarrow> ow = Some i"
  by (simp add: owned_by_def)

lemma owned_by_out: "owned_by ow s \<Longrightarrow> i < length (scpus s) \<Longrightarrow> \<not> in_lock (spc_of s i) \<Longrightarrow> ow \<noteq> Some i"
  by (simp add: owned_by_def)

lemma owned_by_lk_cpu:
  assumes "owned_by ow s"
  shows "lk_cpu (slock s) = (case ow of Some i \<Rightarrow> if spc_of s i = Crit then Some i else None | None \<Rightarrow> None)"
proof -
  have iff: "lk_cpu (slock s) = Some j \<longleftrightarrow> ow = Some j \<and> spc_of s j = Crit" for j
    using assms by (simp add: owned_by_def)
  show ?thesis
  proof (cases "lk_cpu (slock s)")
    case None
    with iff show ?thesis by (auto split: option.split)
  next
    case (Some j)
    with iff [of j] show ?thesis by simp
  qed
qed

text \<open>A step of \<open>i\<close> changes ownership only through \<open>in_lock\<close> and the two lock fields.\<close>

lemma owned_by_set_view:
  assumes "owned_by ow s" and "i < length (scpus s)" and "length (cpus m) = length (scpus s)"
    and "ow' = (if in_lock pc then Some i else if ow = Some i then None else ow)"
    and "in_lock pc \<Longrightarrow> ow = None \<or> ow = Some i"
    and "locked lk \<noteq> 0 \<longleftrightarrow> ow' \<noteq> None"
    and "lk_cpu lk = (if ow = Some i then if pc = Crit then Some i else None else lk_cpu (slock s))"
    and "pc = Crit \<Longrightarrow> ow = Some i"
  shows "owned_by ow' (set_view i m lk pc s)"
  using assms by (auto simp: owned_by_def split: if_splits)

lemma smp_step_lock_inv: "smp_step s t \<Longrightarrow> cpu_inv s \<Longrightarrow> owned_by ow s \<Longrightarrow> \<exists>ow'. owned_by ow' t"
proof (induction rule: smp_step.induct)
  case (enter i s m)
  have m: "m = pushed i (view i s)" using enter_eq [OF enter(4,1,3)] .
  have "ow \<noteq> Some i" using owned_by_out [OF enter(5,1)] enter(2) by simp
  then have "owned_by ow (set_view i m (slock s) Begun s)"
    using enter(1,5) by (intro owned_by_set_view) (auto simp: m pushed_def owned_by_def)
  then show ?case ..
next
  case (spin i s old lk)
  have "ow \<noteq> Some i" using owned_by_out [OF spin(6,1)] spin(2) by simp
  then have "owned_by ow (set_view i (view i s) lk Begun s)"
    using spin by (intro owned_by_set_view) (auto simp: xchg_locked_def owned_by_def)
  then show ?case ..
next
  case (take i s old lk)
  have "ow = None" using take(3,4,6) by (auto simp: owned_by_def xchg_locked_def)
  then have "owned_by (Some i) (set_view i (view i s) lk Got s)"
    using take by (intro owned_by_set_view) (auto simp: xchg_locked_def)
  then show ?case ..
next
  case (own i s lk m)
  have "ow = Some i" using owned_by_in_lock [OF own(5,1)] own(2) by simp
  moreover have "m = view i s" "lk = slock s\<lparr>lk_cpu := Some i\<rparr>" using own own_eq by simp_all
  ultimately have "owned_by (Some i) (set_view i m lk Crit s)"
    using own(1,5) by (intro owned_by_set_view) (auto simp: owned_by_def)
  then show ?case ..
next
  case (leave i s lk m)
  have "ow = Some i" using owned_by_in_lock [OF leave(5,1)] leave(2) by simp
  moreover have "m = view i s" "lk = slock s\<lparr>lk_cpu := None\<rparr>"
    using leave leave_eq by (simp_all split: if_splits)
  ultimately have "owned_by (Some i) (set_view i m lk Leaving s)"
    using leave(1,5) by (intro owned_by_set_view) (auto simp: owned_by_def)
  then show ?case ..
next
  case (store i s)
  have "ow = Some i" using owned_by_in_lock [OF store(4,1)] store(2) by simp
  moreover have "lk_cpu (slock s) = None"
    using owned_by_lk_cpu [OF store(4)] store(2) \<open>ow = Some i\<close> by simp
  ultimately have "owned_by None (set_view i (view i s) (slock s\<lparr>locked := 0\<rparr>) Freed s)"
    using store(1,4) by (intro owned_by_set_view) auto
  then show ?case ..
next
  case (pop i s m)
  have m: "m = popped i (view i s)" using pop pop_eq by simp
  have "ow \<noteq> Some i" using owned_by_out [OF pop(5,1)] pop(2) by simp
  then have "owned_by ow (set_view i m (slock s) Out s)"
    using pop(1,5) by (intro owned_by_set_view) (auto simp: m popped_def owned_by_def)
  then show ?case ..
qed

lemma smp_reach_inv: "smp_reach s \<Longrightarrow> cpu_inv s \<and> lock_inv s"
proof (induction rule: smp_reach.induct)
  case (start cs fl nm)
  then have "owned_by None \<lparr>slock = initlock nm, scpus = cs, sif = fl, spc_of = (\<lambda>_. Out)\<rparr>"
    by (simp add: owned_by_def initlock_def)
  with start show ?case by (auto simp: cpu_inv_def lock_inv_def)
next
  case (step s t)
  then show ?case using smp_step_cpu_inv smp_step_lock_inv unfolding lock_inv_def by blast
qed

section \<open>Properties\<close>

text \<open>C2: However many CPUs compete for a spin lock, and however their instructions
  interleave, at most one of them is between acquire and release, that CPU has interrupts
  off, and the lock word and the owner field say so.\<close>

theorem spinlock_mutual_exclusion:
  assumes "smp_reach s" and "i < length (scpus s)" and "spc_of s i = Crit"
  shows "\<not> sif s i \<and> locked (slock s) \<noteq> 0 \<and> lk_cpu (slock s) = Some i
    \<and> (\<forall>j < length (scpus s). j = i \<or> spc_of s j \<noteq> Crit)"
proof -
  from smp_reach_inv [OF assms(1)] obtain ow where inv: "cpu_inv s" "owned_by ow s"
    by (auto simp: lock_inv_def)
  have "ow = Some i" using owned_by_in_lock [OF inv(2) assms(2)] assms(3) by simp
  moreover have "\<not> sif s i" using spc_off [OF inv(1) assms(2)] assms(3) by simp
  ultimately show ?thesis
    using owned_by_lk_cpu [OF inv(2)] assms(3) owned_by_in_lock [OF inv(2)] inv(2)
    by (fastforce simp: owned_by_def)
qed

lemma smp_acquire_free:
  assumes r: "smp_reach s" and i: "i < length (scpus s)" and out: "spc_of s i = Out"
    and free: "locked (slock s) = 0"
  shows "\<exists>t. smp_reach t \<and> length (scpus t) = length (scpus s) \<and> spc_of t i = Crit"
proof -
  have on: "on_cpu i (view i s)" using smp_reach_inv [OF r] i by (simp add: cpu_inv_on_cpu)
  let ?s1 = "set_view i (pushed i (view i s)) (slock s) Begun s"
  have "smp_step s ?s1"
    using i out free acquire_begin_on_cpu [OF on] by (intro smp_step.enter) simp_all
  with r have r1: "smp_reach ?s1" by (rule smp_reach.step)
  have len: "length (cpus (pushed i (view i s))) = length (scpus s)" by (simp add: pushed_def)
  let ?s2 = "set_view i (view i ?s1) (slock s\<lparr>locked := 1\<rparr>) Got ?s1"
  have "smp_step ?s1 ?s2"
    using i free len by (intro smp_step.take [where old = 0]) (simp_all add: xchg_locked_def)
  with r1 have r2: "smp_reach ?s2" by (rule smp_reach.step)
  have "acquire_end (slock ?s2) (view i ?s2) = Ok (slock ?s2\<lparr>lk_cpu := Some i\<rparr>, view i ?s2)"
    using smp_reach_inv [OF r2] i len by (intro own_eq) simp_all
  then have "smp_step ?s2 (set_view i (view i ?s2) (slock ?s2\<lparr>lk_cpu := Some i\<rparr>) Crit ?s2)"
    using i len by (intro smp_step.own) simp_all
  with r2 have "smp_reach (set_view i (view i ?s2) (slock ?s2\<lparr>lk_cpu := Some i\<rparr>) Crit ?s2)"
    by (rule smp_reach.step)
  then show ?thesis using len by (intro exI conjI) (assumption, simp_all)
qed

definition cpu0 :: cpu where
  "cpu0 = \<lparr>apicid = 7, ts_esp0 = 0, cr3 = 0, started = 1, ncli = 0, intena = False, cproc = None,
     consecutive_runs_queue = 0, current_queue = 2, syscall_counter = 0\<rparr>"

lemma demo_smp: "\<exists>s. smp_reach s \<and> length (scpus s) = 2 \<and> spc_of s 0 = Crit"
proof -
  let ?s = "\<lparr>slock = initlock ''l'', scpus = [cpu0, cpu0\<lparr>apicid := 8\<rparr>], sif = (\<lambda>_. True),
     spc_of = (\<lambda>_. Out)\<rparr>"
  have "smp_reach ?s" by (rule smp_reach.start) (auto simp: cpu0_def less_Suc_eq)
  from smp_acquire_free [OF this, of 0] show ?thesis by (simp add: initlock_def numeral_2_eq_2)
qed

theorem spinlock_mutual_exclusion_witness:
  "\<exists>s. smp_reach s \<and> spc_of s 0 = Crit \<and> \<not> sif s 0 \<and> lk_cpu (slock s) = Some 0"
proof -
  obtain s where s: "smp_reach s" "length (scpus s) = 2" "spc_of s 0 = Crit"
    using demo_smp by blast
  with spinlock_mutual_exclusion [of s 0] show ?thesis by auto
qed

text \<open>C10: The lock code never panics on a CPU that uses it properly: outside the lock the
  self-deadlock check passes whatever the other CPUs do, and a CPU in its critical section
  passes the ownership check of release.\<close>

theorem spinlock_no_false_panic:
  assumes "smp_reach s" and "i < length (scpus s)"
  shows "(spc_of s i = Out \<longrightarrow> (\<exists>m. acquire_begin (slock s) (view i s) = Ok m))
    \<and> (spc_of s i = Crit \<longrightarrow> (\<exists>lk m. release_begin (slock s) (view i s) = Ok (lk, m)))
    \<and> (spc_of s i = Freed \<longrightarrow> (\<exists>m. popcli (view i s) = Ok m))"
proof -
  from smp_reach_inv [OF assms(1)] obtain ow where inv: "cpu_inv s" "owned_by ow s"
    by (auto simp: lock_inv_def)
  note on = cpu_inv_on_cpu [OF inv(1) assms(2)]
  have "lk_cpu (slock s) = Some i \<longleftrightarrow> ow = Some i \<and> spc_of s i = Crit"
    and "locked (slock s) \<noteq> 0 \<longleftrightarrow> ow \<noteq> None"
    using inv(2) by (simp_all add: owned_by_def)
  moreover have "spc_of s i = Crit \<Longrightarrow> ow = Some i"
    using owned_by_in_lock [OF inv(2) assms(2)] by simp
  ultimately show ?thesis
    using acquire_begin_on_cpu [OF on] leave_eq [OF inv(1) assms(2)] pop_eq [OF inv(1) assms(2)]
    by auto
qed

theorem spinlock_no_false_panic_witness:
  "\<exists>s lk m. smp_reach s \<and> spc_of s 0 = Crit \<and> release_begin (slock s) (view 0 s) = Ok (lk, m)"
proof -
  obtain s where s: "smp_reach s" "length (scpus s) = 2" "spc_of s 0 = Crit"
    using demo_smp by blast
  with spinlock_no_false_panic [of s 0] show ?thesis by auto
qed

text \<open>Interrupt disabling nests: after any number of \<^verbatim>\<open>pushcli\<close> calls interrupts are
  off, and the same number of \<^verbatim>\<open>popcli\<close> calls succeeds and leaves the interrupt flag and
  the nesting count as they were.\<close>

theorem pushcli_popcli_nest:
  assumes "on_cpu i m" and "0 < n"
  shows "\<exists>m1 m2. push_n n m = Ok m1 \<and> \<not> IF m1 \<and> pop_n n m1 = Ok m2
    \<and> IF m2 = IF m \<and> ncli (cpus m2 ! i) = ncli (cpus m ! i)"
  using push_pop_n [OF assms(1), of n] assms on_cpu_length [OF assms(1)]
  by (auto simp: settled_def)

theorem pushcli_popcli_nest_witness:
  "\<exists>m1 m2. push_n 3 \<lparr>cpus = [cpu0], lapicid = 7, IF = True\<rparr> = Ok m1
    \<and> \<not> IF m1 \<and> pop_n 3 m1 = Ok m2 \<and> IF m2"
proof -
  let ?m = "\<lparr>cpus = [cpu0], lapicid = 7, IF = True\<rparr>"
  have "on_cpu 0 ?m" by (simp add: on_cpu_def cpu0_def)
  from pushcli_popcli_nest [OF this, of 3] show ?thesis by auto
qed

end
