(* ===== verification/Sched.thy ===== *)
theory Sched
  imports Spinlock "HOL-Library.Signed_Division"
begin

text \<open>
  The process table and the scheduler (\<^verbatim>\<open>src/proc.c\<close>, \<^verbatim>\<open>src/proc.h\<close>): the
  three queues (round robin, probabilistic shortest job first, first come first
  served), aging, the per-CPU scheduler loop, \<^verbatim>\<open>sched\<close>, \<^verbatim>\<open>yield\<close>, \<^verbatim>\<open>sleep\<close>,
  \<^verbatim>\<open>wakeup\<close>, \<^verbatim>\<open>kill\<close> and the system calls that read or set scheduling data.
  A routine that calls \<^verbatim>\<open>swtch\<close> is cut there: the first half returns the state
  at the switch and the values the rest of the routine needs, the second half is
  a definition of its own.  What \<^verbatim>\<open>cprintf\<close> prints is part of the result only
  for the reporting calls, whose purpose it is.
\<close>

section \<open>Processes\<close>

definition NPROC :: nat where "NPROC = 64"
definition NSYSCALL :: nat where "NSYSCALL = 34"
definition KSTACKSIZE :: uint where "KSTACKSIZE = 4096"
definition NQUEUE :: nat where "NQUEUE = 3"
definition MAX_WAIT_TIME :: int where "MAX_WAIT_TIME = 800"

datatype procstate = UNUSED | EMBRYO | SLEEPING | RUNNABLE | RUNNING | ZOMBIE

text \<open>Sleep channels are addresses; those that are process slots are kept apart.\<close>

datatype chan = Ch_proc nat | Ch_addr uint

record trapframe =
  tf_edi :: uint
  tf_esi :: uint
  tf_ebp :: uint
  tf_oesp :: uint
  tf_ebx :: uint
  tf_edx :: uint
  tf_ecx :: uint
  tf_eax :: uint
  tf_gs :: "16 word"
  tf_fs :: "16 word"
  tf_es :: "16 word"
  tf_ds :: "16 word"
  tf_trapno :: uint
  tf_err :: uint
  tf_eip :: uint
  tf_cs :: "16 word"
  tf_eflags :: uint
  tf_esp :: uint
  tf_ss :: "16 word"

text \<open>
  \<^verbatim>\<open>struct proc\<close>.  Pointers to table entries (\<^verbatim>\<open>parent\<close>, \<^verbatim>\<open>ofile\<close>, \<^verbatim>\<open>cwd\<close>) are
  indices; \<^verbatim>\<open>name\<close> is the string up to its terminator; \<^verbatim>\<open>kstack\<close> and \<^verbatim>\<open>pgdir\<close> are addresses, 0 being the null pointer.  The saved
  kernel context is the half-executed routine itself.
\<close>

record proc =
  sz :: uint
  pgdir :: uint
  kstack :: uint
  pstate :: procstate
  pid :: int
  parent :: "nat option"
  tf :: trapframe
  chan :: "chan option"
  killed :: bool
  ofile :: "nat option list"
  cwd :: "nat option"
  pname :: string
  sc :: "int list"
  queue :: int
  wait_time :: int
  confidence :: int
  burst_time :: int
  consecutive_runs :: int
  arrival :: int

record kstate = machine +
  ptable_lock :: spinlock
  procs :: "proc list"
  nextpid :: int
  initproc :: "nat option"
  rr_index :: nat
  sjf_seed :: uint
  ticks :: uint
  kpgdir :: uint
  total_lock :: spinlock
  total_count :: int

type_synonym 'a kst = "'a kstate_scheme"

definition upd_proc :: "nat \<Rightarrow> (proc \<Rightarrow> proc) \<Rightarrow> 'a kst \<Rightarrow> 'a kst" where
  "upd_proc i f s = s\<lparr>procs := (procs s)[i := f (procs s ! i)]\<rparr>"

definition acquire_ptable :: "'a kst \<Rightarrow> 'a kst res" where
  "acquire_ptable s = bindr (acquire (ptable_lock s) s) (\<lambda>(lk, s1). Ok (s1\<lparr>ptable_lock := lk\<rparr>))"

definition release_ptable :: "'a kst \<Rightarrow> 'a kst res" where
  "release_ptable s = bindr (release (ptable_lock s) s) (\<lambda>(lk, s1). Ok (s1\<lparr>ptable_lock := lk\<rparr>))"

definition pinit :: "'a kst \<Rightarrow> 'a kst" where
  "pinit s = s\<lparr>ptable_lock := initlock ''ptable''\<rparr>"

definition syscntinit :: "'a kst \<Rightarrow> 'a kst" where
  "syscntinit s = s\<lparr>total_lock := initlock ''system call counter'', total_count := 0\<rparr>"

definition myproc :: "'a kst \<Rightarrow> (nat option \<times> 'a kst) res" where
  "myproc s =
     bindr (pushcli s) (\<lambda>s1.
     bindr (mycpu s1) (\<lambda>i.
       let p = cproc (cpus s1 ! i) in
     bindr (popcli s1) (\<lambda>s2. Ok (p, s2))))"

section \<open>The three queues\<close>

text \<open>\<^verbatim>\<open>_RR_scheduler\<close>: at most \<open>NPROC\<close> steps from the static index.\<close>

fun rr_loop :: "proc list \<Rightarrow> nat \<Rightarrow> nat \<Rightarrow> nat option \<times> nat" where
  "rr_loop ps 0 index = (None, index)"
| "rr_loop ps (Suc n) index =
     (let index' = (index + 1) mod NPROC in
      if pstate (ps ! index') \<noteq> RUNNABLE \<or> queue (ps ! index') \<noteq> 0
      then rr_loop ps n index' else (Some index', index'))"

definition RR_scheduler :: "'a kst \<Rightarrow> nat option \<times> 'a kst" where
  "RR_scheduler s = (let (r, ix) = rr_loop (procs s) NPROC (rr_index s) in (r, s\<lparr>rr_index := ix\<rparr>))"

text \<open>
  \<^verbatim>\<open>_SJF_scheduler\<close>: one pass over the table for the current minimum, the passes
  repeated until nothing is left or the array is full, then the weighted choice.
  The array \<^verbatim>\<open>p_idx\<close> is the list built so far, \<^verbatim>\<open>idx\<close> its length.
\<close>

fun sjf_pass :: "int \<Rightarrow> nat \<Rightarrow> proc list \<Rightarrow> int \<Rightarrow> bool \<Rightarrow> nat list \<Rightarrow> (int \<times> bool \<times> nat list) res" where
  "sjf_pass mv i [] nm flag l = Ok (nm, flag, l)"
| "sjf_pass mv i (p # ps) nm flag l =
     (if pstate p \<noteq> RUNNABLE \<or> queue p \<noteq> 1 then sjf_pass mv (Suc i) ps nm flag l
      else if mv < burst_time p then
        sjf_pass mv (Suc i) ps (if nm < burst_time p then nm else burst_time p) False l
      else if mv = burst_time p then
        (if length l < NPROC then sjf_pass mv (Suc i) ps nm False (l @ [i])
         else Undef ''p_idx'')
      else sjf_pass mv (Suc i) ps nm flag l)"

text \<open>The outer loop may run forever: \<open>None\<close> is the value of a run that does not return.\<close>

partial_function (option) sjf_collect :: "proc list \<Rightarrow> int \<Rightarrow> nat list \<Rightarrow> nat list res option" where
  "sjf_collect ps mv l =
     (if length l < NPROC then
        (case sjf_pass mv 0 ps 1000000000 True l of
           Ok (nm, flag, l1) \<Rightarrow> if flag then Some (Ok l1) else sjf_collect ps nm l1
         | Panic e \<Rightarrow> Some (Panic e)
         | Block \<Rightarrow> Some Block
         | Undef e \<Rightarrow> Some (Undef e))
      else Some (Ok l))"

definition sjf_rand :: "uint \<Rightarrow> int" where
  "sjf_rand seed = uint ((seed div 65536) mod 32768 mod 100)"

fun sjf_choose :: "proc list \<Rightarrow> uint \<Rightarrow> nat list \<Rightarrow> uint \<Rightarrow> nat option \<times> uint" where
  "sjf_choose ps tk [] seed = (None, seed)"
| "sjf_choose ps tk (i # is) seed =
     (let seed' = (seed + tk) * 1103515243 + 12345 in
      if sjf_rand seed < confidence (ps ! i) then (Some i, seed')
      else sjf_choose ps tk is seed')"

definition SJF_scheduler :: "'a kst \<Rightarrow> (nat option \<times> 'a kst) res option" where
  "SJF_scheduler s =
     map_option (\<lambda>r. bindr r (\<lambda>l.
         case sjf_choose (procs s) (ticks s) l (sjf_seed s) of
           (Some i, sd) \<Rightarrow> Ok (Some i, s\<lparr>sjf_seed := sd\<rparr>)
         | (None, sd) \<Rightarrow> Ok (if l \<noteq> [] then Some (last l) else None, s\<lparr>sjf_seed := sd\<rparr>)))
       (sjf_collect (procs s) 0 [])"

fun fcfs_loop :: "nat \<Rightarrow> proc list \<Rightarrow> int \<Rightarrow> nat option \<Rightarrow> nat option" where
  "fcfs_loop i [] mv mi = mi"
| "fcfs_loop i (p # ps) mv mi =
     (if pstate p \<noteq> RUNNABLE \<or> queue p \<noteq> 2 then fcfs_loop (Suc i) ps mv mi
      else if mv > arrival p then fcfs_loop (Suc i) ps (arrival p) (Some i)
      else fcfs_loop (Suc i) ps mv mi)"

definition FCFS_scheduler :: "'a kst \<Rightarrow> nat option" where
  "FCFS_scheduler s = fcfs_loop 0 (procs s) 1000000000 None"

text \<open>\<^verbatim>\<open>_aging\<close>, called on every timer tick of CPU 0.\<close>

definition aging1 :: "uint \<Rightarrow> proc \<Rightarrow> proc" where
  "aging1 tk p =
     (if pstate p = RUNNABLE then
        if wait_time p + 1 \<ge> MAX_WAIT_TIME \<and> queue p \<noteq> 0
        then p\<lparr>queue := queue p - 1, arrival := sint tk, wait_time := 0\<rparr>
        else p\<lparr>wait_time := wait_time p + 1\<rparr>
      else p)"

definition aging :: "'a kst \<Rightarrow> 'a kst res" where
  "aging s = bindr (acquire_ptable s) (\<lambda>s1.
     release_ptable (s1\<lparr>procs := map (aging1 (ticks s1)) (procs s1)\<rparr>))"

section \<open>The scheduler loop\<close>

text \<open>\<^verbatim>\<open>switchuvm\<close> and \<^verbatim>\<open>switchkvm\<close> (\<^verbatim>\<open>src/vm.c\<close>), without the segment descriptor of the TSS.\<close>

definition switchuvm :: "nat \<Rightarrow> 'a kst \<Rightarrow> 'a kst res" where
  "switchuvm p s =
     guardr (kstack (procs s ! p) \<noteq> 0) ''switchuvm: no kstack''
     (guardr (pgdir (procs s ! p) \<noteq> 0) ''switchuvm: no pgdir''
     (bindr (pushcli s) (\<lambda>s1.
      bindr (mycpu s1) (\<lambda>i.
        popcli (upd_cpu i (\<lambda>c. c\<lparr>ts_esp0 := kstack (procs s ! p) + KSTACKSIZE,
                                 cr3 := V2P (pgdir (procs s ! p))\<rparr>) s1)))))"

definition switchkvm :: "nat \<Rightarrow> 'a kst \<Rightarrow> 'a kst" where
  "switchkvm i s = upd_cpu i (\<lambda>c. c\<lparr>cr3 := V2P (kpgdir s)\<rparr>) s"

definition queue_pick :: "nat \<Rightarrow> 'a kst \<Rightarrow> (nat option \<times> 'a kst) res option" where
  "queue_pick q s =
     (if q = 0 then Some (Ok (RR_scheduler s))
      else if q = 1 then SJF_scheduler s
      else if q = 2 then Some (Ok (FCFS_scheduler s, s))
      else Some (Ok (RR_scheduler s)))"

definition dispatch :: "nat \<Rightarrow> nat \<Rightarrow> 'a kst \<Rightarrow> 'a kst res" where
  "dispatch i p s =
     (let s1 = upd_cpu i (\<lambda>c. c\<lparr>cproc := Some p\<rparr>) (upd_proc p (\<lambda>x. x\<lparr>wait_time := 0\<rparr>) s) in
      bindr (switchuvm p s1) (\<lambda>s2. Ok (upd_proc p (\<lambda>x. x\<lparr>pstate := RUNNING\<rparr>) s2)))"

text \<open>The turn of the per-CPU loop that starts by advancing the queue when its slice is used up.\<close>

definition next_queue :: "nat \<Rightarrow> 'a kst \<Rightarrow> 'a kst" where
  "next_queue i s =
     (if consecutive_runs_queue (cpus s ! i) = 0
      then upd_cpu i (\<lambda>c. c\<lparr>current_queue := (current_queue c + 1) mod 3\<rparr>) s else s)"

text \<open>
  The \<^verbatim>\<open>do\<close> loop of \<^verbatim>\<open>scheduler\<close> on CPU \<open>i\<close>, up to the switch to a process
  (\<open>Some p\<close>) or to the end of the loop (\<open>None\<close>), with the table lock held.
\<close>

partial_function (option) scheduler_loop :: "nat \<Rightarrow> 'a kst \<Rightarrow> (nat option \<times> 'a kst) res option" where
  "scheduler_loop i s =
     (let s1 = next_queue i s in
      case queue_pick (current_queue (cpus s1 ! i)) s1 of
        None \<Rightarrow> None
      | Some r \<Rightarrow>
         (case r of
            Ok (po, s2) \<Rightarrow>
              (case po of
                 None \<Rightarrow>
                   (let s3 = upd_cpu i (\<lambda>c. c\<lparr>consecutive_runs_queue := 0\<rparr>) s2 in
                    if current_queue (cpus s3 ! i) = NQUEUE - 1 then Some (Ok (None, s3))
                    else scheduler_loop i s3)
               | Some p \<Rightarrow> Some (bindr (dispatch i p s2) (\<lambda>s3. Ok (Some p, s3))))
          | Panic e \<Rightarrow> Some (Panic e)
          | Block \<Rightarrow> Some Block
          | Undef e \<Rightarrow> Some (Undef e)))"

text \<open>
  The rest of \<^verbatim>\<open>scheduler\<close>: entry with interrupts enabled and the lock taken, and
  the return of a process with the loop condition (\<open>True\<close>: another turn).
\<close>

definition scheduler_enter :: "'a kst \<Rightarrow> 'a kst res" where
  "scheduler_enter s = acquire_ptable (s\<lparr>IF := True\<rparr>)"

definition scheduler_return :: "nat \<Rightarrow> 'a kst \<Rightarrow> bool \<times> 'a kst" where
  "scheduler_return i s =
     (let s1 = upd_cpu i (\<lambda>c. c\<lparr>cproc := None\<rparr>) (switchkvm i s) in
      (consecutive_runs_queue (cpus s1 ! i) \<noteq> 0 \<or> current_queue (cpus s1 ! i) \<noteq> NQUEUE - 1, s1))"

definition sched :: "'a kst \<Rightarrow> (bool \<times> 'a kst) res" where
  "sched s =
     bindr (myproc s) (\<lambda>(po, s1).
     bindr (holding (ptable_lock s1) s1) (\<lambda>(h, s2).
     guardr h ''sched ptable.lock''
     (bindr (mycpu s2) (\<lambda>i.
      guardr (ncli (cpus s2 ! i) = 1) ''sched locks''
      (case po of
         None \<Rightarrow> Undef ''p''
       | Some p \<Rightarrow>
           guardr (pstate (procs s2 ! p) \<noteq> RUNNING) ''sched running''
           (guardr (\<not> IF s2) ''sched interruptible''
             (Ok (intena (cpus s2 ! i), s2))))))))"

definition sched_resume :: "bool \<Rightarrow> 'a kst \<Rightarrow> 'a kst res" where
  "sched_resume ie s = bindr (mycpu s) (\<lambda>i. Ok (upd_cpu i (\<lambda>c. c\<lparr>intena := ie\<rparr>) s))"

section \<open>Yielding, sleeping and waking\<close>

definition time_slice :: int where "time_slice = 10"
definition rr_timeq :: int where "rr_timeq = 5"
definition queue_weights :: "int list" where "queue_weights = [3, 2, 1]"

definition should_yield :: "'a kst \<Rightarrow> (bool \<times> 'a kst) res" where
  "should_yield s =
     bindr (myproc s) (\<lambda>(po, s1).
     case po of
       None \<Rightarrow> Undef ''p''
     | Some p \<Rightarrow>
         let q = queue (procs s1 ! p) in
         if q < 0 \<or> int NQUEUE \<le> q then Undef ''queue_weights''
         else
           bindr (mycpu s1) (\<lambda>i.
             let s2 = upd_cpu i (\<lambda>c. c\<lparr>consecutive_runs_queue := consecutive_runs_queue c + 1\<rparr>) s1 in
             if consecutive_runs_queue (cpus s2 ! i) \<ge> time_slice * queue_weights ! nat q
             then Ok (True, upd_cpu i (\<lambda>c. c\<lparr>consecutive_runs_queue := 0\<rparr>) s2)
             else if q = 0 then Ok (consecutive_runs (procs s2 ! p) \<ge> rr_timeq, s2)
             else Ok (False, s2)))"

text \<open>How a routine ends: it returned, or it switched away having saved \<^verbatim>\<open>intena\<close>.\<close>

datatype ctl = Kept | Swtch bool

definition yield :: "'a kst \<Rightarrow> (ctl \<times> 'a kst) res" where
  "yield s =
     bindr (acquire_ptable s) (\<lambda>s1.
     bindr (myproc s1) (\<lambda>(po, s2).
     case po of
       None \<Rightarrow> Undef ''myproc()''
     | Some p \<Rightarrow>
         bindr (should_yield (upd_proc p (\<lambda>x. x\<lparr>consecutive_runs := consecutive_runs x + 1\<rparr>) s2)) (\<lambda>(y, s3).
         if y then
           bindr (sched (upd_proc p (\<lambda>x. x\<lparr>consecutive_runs := 0, pstate := RUNNABLE\<rparr>) s3))
             (\<lambda>(ie, s4). Ok (Swtch ie, s4))
         else bindr (release_ptable s3) (\<lambda>s4. Ok (Kept, s4)))))"

definition yield_resume :: "bool \<Rightarrow> 'a kst \<Rightarrow> 'a kst res" where
  "yield_resume ie s = bindr (sched_resume ie s) release_ptable"

text \<open>
  \<^verbatim>\<open>sleep(chan, lk)\<close>: the lock argument is null, the table lock itself, or another
  lock, which is released before the switch and taken again afterwards.
\<close>

datatype lockarg = Null_lk | Ptable_lk | Other_lk spinlock

definition sleep :: "chan option \<Rightarrow> lockarg \<Rightarrow> 'a kst \<Rightarrow> (bool \<times> lockarg \<times> 'a kst) res" where
  "sleep ch lk s =
     bindr (myproc s) (\<lambda>(po, s1).
     case po of
       None \<Rightarrow> Panic ''sleep''
     | Some p \<Rightarrow>
         bindr (case lk of
                  Null_lk \<Rightarrow> Panic ''sleep without lk''
                | Ptable_lk \<Rightarrow> Ok (Ptable_lk, s1)
                | Other_lk l \<Rightarrow>
                    bindr (acquire_ptable s1) (\<lambda>s2.
                    bindr (release l s2) (\<lambda>(l1, s3). Ok (Other_lk l1, s3))))
           (\<lambda>(lk1, s4).
              bindr (sched (upd_proc p (\<lambda>x. x\<lparr>chan := ch, pstate := SLEEPING\<rparr>) s4))
                (\<lambda>(ie, s5). Ok (ie, lk1, s5))))"

definition sleep_wake :: "nat \<Rightarrow> bool \<Rightarrow> lockarg \<Rightarrow> 'a kst \<Rightarrow> 'a kst res" where
  "sleep_wake p ie lk s =
     bindr (sched_resume ie s) (\<lambda>s1.
       let s2 = upd_proc p (\<lambda>x. x\<lparr>chan := None\<rparr>) s1 in
       case lk of Other_lk l \<Rightarrow> release_ptable s2 | _ \<Rightarrow> Ok s2)"

definition sleep_reacquire :: "lockarg \<Rightarrow> 'a kst \<Rightarrow> (lockarg \<times> 'a kst) res" where
  "sleep_reacquire lk s =
     (case lk of Other_lk l \<Rightarrow> bindr (acquire l s) (\<lambda>(l1, s1). Ok (Other_lk l1, s1)) | _ \<Rightarrow> Ok (lk, s))"

definition wake_if :: "chan option \<Rightarrow> proc \<Rightarrow> proc" where
  "wake_if ch p = (if pstate p = SLEEPING \<and> chan p = ch then p\<lparr>pstate := RUNNABLE\<rparr> else p)"

definition wakeup1 :: "chan option \<Rightarrow> 'a kst \<Rightarrow> 'a kst" where
  "wakeup1 ch s = s\<lparr>procs := map (wake_if ch) (procs s)\<rparr>"

definition wakeup :: "chan option \<Rightarrow> 'a kst \<Rightarrow> 'a kst res" where
  "wakeup ch s = bindr (acquire_ptable s) (\<lambda>s1. release_ptable (wakeup1 ch s1))"

definition kill :: "int \<Rightarrow> 'a kst \<Rightarrow> (int \<times> 'a kst) res" where
  "kill pd s =
     bindr (acquire_ptable s) (\<lambda>s1.
       case first_idx (\<lambda>p. pid p = pd) (procs s1) of
         Some i \<Rightarrow>
           bindr (release_ptable (upd_proc i (\<lambda>p. p\<lparr>killed := True,
               pstate := (if pstate p = SLEEPING then RUNNABLE else pstate p)\<rparr>) s1))
             (\<lambda>s2. Ok (0, s2))
       | None \<Rightarrow> bindr (release_ptable s1) (\<lambda>s2. Ok (-1, s2)))"

section \<open>Process life cycle: the table segments\<close>

text \<open>
  The parts of \<^verbatim>\<open>allocproc\<close>, \<^verbatim>\<open>fork\<close>, \<^verbatim>\<open>exit\<close> and \<^verbatim>\<open>wait\<close> that run under the table
  lock.  The slot search of \<^verbatim>\<open>allocproc\<close> first.
\<close>

definition alloc_slot :: "'a kst \<Rightarrow> (nat option \<times> 'a kst) res" where
  "alloc_slot s =
     bindr (acquire_ptable s) (\<lambda>s1.
       case first_idx (\<lambda>p. pstate p = UNUSED) (procs s1) of
         None \<Rightarrow> bindr (release_ptable s1) (\<lambda>s2. Ok (None, s2))
       | Some i \<Rightarrow>
           bindr (release_ptable (upd_proc i (\<lambda>p. p\<lparr>pstate := EMBRYO, pid := nextpid s1\<rparr>)
                    (s1\<lparr>nextpid := nextpid s1 + 1\<rparr>)))
             (\<lambda>s2. Ok (Some i, s2)))"

text \<open>The scheduling fields \<^verbatim>\<open>allocproc\<close> and \<^verbatim>\<open>wait\<close> reset.\<close>

definition reset_sched :: "int \<Rightarrow> uint \<Rightarrow> proc \<Rightarrow> proc" where
  "reset_sched q tk p = p\<lparr>sc := replicate NSYSCALL 0, queue := q, wait_time := 0, confidence := 50,
     burst_time := 2, consecutive_runs := 0, arrival := sint tk\<rparr>"

text \<open>The last segment of \<^verbatim>\<open>fork\<close>: \<open>np\<close> is the child, \<open>p\<close> the caller.\<close>

definition fork_publish :: "nat \<Rightarrow> nat \<Rightarrow> 'a kst \<Rightarrow> 'a kst res" where
  "fork_publish p np s =
     bindr (acquire_ptable s) (\<lambda>s1.
       release_ptable (upd_proc np (\<lambda>x. x\<lparr>queue := (if pid (procs s1 ! p) > 2 \<and> pid x > 2 then 2 else queue x),
         pstate := RUNNABLE\<rparr>) s1))"

text \<open>
  \<^verbatim>\<open>exit\<close>: wake the parent, hand the children to \<^verbatim>\<open>initproc\<close> (waking it for each
  child that is a zombie already), become a zombie and switch away for good.
\<close>

definition reparent1 :: "nat \<Rightarrow> nat option \<Rightarrow> nat \<Rightarrow> 'a kst \<Rightarrow> 'a kst" where
  "reparent1 cur ini j s =
     (if parent (procs s ! j) = Some cur then
        let s1 = upd_proc j (\<lambda>x. x\<lparr>parent := ini\<rparr>) s in
        if pstate (procs s1 ! j) = ZOMBIE then wakeup1 (map_option Ch_proc ini) s1 else s1
      else s)"

definition reparent :: "nat \<Rightarrow> 'a kst \<Rightarrow> 'a kst" where
  "reparent cur s = fold (reparent1 cur (initproc s)) [0..<length (procs s)] s"

definition exit_table :: "nat \<Rightarrow> 'a kst \<Rightarrow> (bool \<times> 'a kst) res" where
  "exit_table cur s =
     bindr (acquire_ptable s) (\<lambda>s1.
       let s2 = wakeup1 (map_option Ch_proc (parent (procs s1 ! cur))) s1;
           s3 = reparent cur s2
       in sched (upd_proc cur (\<lambda>x. x\<lparr>pstate := ZOMBIE\<rparr>) s3))"

text \<open>
  \<^verbatim>\<open>wait\<close>: one scan with the lock held finds the first zombie child, or tells
  whether there is a child at all.  \<open>wait_reap\<close> is what is reset in the slot of the
  zombie; the stack and the page table of the slot are freed by the caller.
\<close>

datatype wait_scan = Zombie nat | No_kids | Kids

definition wait_scan :: "nat \<Rightarrow> proc list \<Rightarrow> wait_scan" where
  "wait_scan cur ps =
     (case first_idx (\<lambda>p. parent p = Some cur \<and> pstate p = ZOMBIE) ps of
        Some i \<Rightarrow> Zombie i
      | None \<Rightarrow> if (\<exists>p \<in> set ps. parent p = Some cur) then Kids else No_kids)"

definition wait_reap :: "uint \<Rightarrow> proc \<Rightarrow> proc" where
  "wait_reap tk p = (reset_sched 2 tk p)\<lparr>kstack := 0, pid := 0, parent := None,
     pname := [], killed := False, pstate := UNUSED\<rparr>"

section \<open>Scheduling system calls\<close>

text \<open>\<^verbatim>\<open>set_sjf_info\<close> takes the lock before it tests the pid, and the test returns without releasing it.\<close>

definition set_sjf_info :: "int \<Rightarrow> int \<Rightarrow> int \<Rightarrow> 'a kst \<Rightarrow> (int \<times> 'a kst) res" where
  "set_sjf_info pd burst conf s =
     bindr (acquire_ptable s) (\<lambda>s1.
       if pd \<le> 0 \<or> pd \<ge> int NPROC then Ok (-1, s1)
       else case first_idx (\<lambda>p. pid p = pd) (procs s1) of
         Some i \<Rightarrow>
           bindr (release_ptable (upd_proc i (\<lambda>p. p\<lparr>burst_time := burst, confidence := conf\<rparr>) s1))
             (\<lambda>s2. Ok (0, s2))
       | None \<Rightarrow> bindr (release_ptable s1) (\<lambda>s2. Ok (-1, s2)))"

definition set_queue :: "int \<Rightarrow> int \<Rightarrow> 'a kst \<Rightarrow> (int \<times> 'a kst) res" where
  "set_queue pd q s =
     (if pd \<le> 0 \<or> pd \<ge> int NPROC then Ok (-1, s)
      else if q > 3 \<or> q < 0 then Ok (-1, s)
      else bindr (acquire_ptable s) (\<lambda>s1.
       case first_idx (\<lambda>p. pid p = pd) (procs s1) of
         Some i \<Rightarrow>
           if queue (procs s1 ! i) = q then bindr (release_ptable s1) (\<lambda>s2. Ok (-1, s2))
           else bindr (release_ptable (upd_proc i (\<lambda>p. p\<lparr>queue := q, arrival := sint (ticks s1)\<rparr>) s1))
                  (\<lambda>s2. Ok (0, s2))
       | None \<Rightarrow> bindr (release_ptable s1) (\<lambda>s2. Ok (-1, s2))))"

section \<open>System call counters\<close>

definition syscall_weight :: "int \<Rightarrow> int" where
  "syscall_weight num = (if num = 15 then 3 else if num = 16 then 2 else 1)"

text \<open>The counter of the process is indexed by \<^verbatim>\<open>num - 1\<close> whatever the number.\<close>

definition log_syscall :: "int \<Rightarrow> 'a kst \<Rightarrow> 'a kst res" where
  "log_syscall num s =
     bindr (acquire (total_lock s) s) (\<lambda>(lk, s1).
     bindr (mycpu s1) (\<lambda>i.
       let s2 = upd_cpu i (\<lambda>c. c\<lparr>syscall_counter := syscall_counter c + syscall_weight num\<rparr>)
                  (s1\<lparr>total_lock := lk, total_count := total_count s1 + syscall_weight num\<rparr>) in
     bindr (release lk s2) (\<lambda>(lk1, s3).
     bindr (myproc (s3\<lparr>total_lock := lk1\<rparr>)) (\<lambda>(po, s4).
       case po of
         None \<Rightarrow> Undef ''curproc''
       | Some p \<Rightarrow>
           if num < 1 \<or> int NSYSCALL < num then Undef ''sc''
           else Ok (upd_proc p (\<lambda>x. x\<lparr>sc := (sc x)[nat (num - 1) := sc x ! nat (num - 1) + 1]\<rparr>) s4)))))"

definition report_syscalls_count :: "'a kst \<Rightarrow> int list \<times> int" where
  "report_syscalls_count s = (map syscall_counter (cpus s), total_count s)"

text \<open>The printed lines: number of the call and its count, in order of the number.\<close>

definition sort_syscalls :: "int \<Rightarrow> 'a kst \<Rightarrow> (int \<times> (nat \<times> int) list \<times> 'a kst) res" where
  "sort_syscalls pd s =
     bindr (acquire_ptable s) (\<lambda>s1.
       case first_idx (\<lambda>p. pid p = pd) (procs s1) of
         Some i \<Rightarrow>
           let c = sc (procs s1 ! i) in
           bindr (release_ptable s1) (\<lambda>s2.
             Ok (0, map (\<lambda>k. (k + 1, c ! k)) (filter (\<lambda>k. c ! k \<noteq> 0) [0..<length c]), s2))
       | None \<Rightarrow> bindr (release_ptable s1) (\<lambda>s2. Ok (-1, [], s2)))"

fun most_loop :: "nat \<Rightarrow> int list \<Rightarrow> int \<Rightarrow> nat option \<Rightarrow> int \<times> nat option" where
  "most_loop i [] mx mi = (mx, mi)"
| "most_loop i (c # cs) mx mi = (if c > mx then most_loop (Suc i) cs c (Some i) else most_loop (Suc i) cs mx mi)"

definition get_most_invoked :: "int \<Rightarrow> 'a kst \<Rightarrow> (int \<times> (int \<times> nat option) option \<times> 'a kst) res" where
  "get_most_invoked pd s =
     bindr (acquire_ptable s) (\<lambda>s1.
       case first_idx (\<lambda>p. pid p = pd) (procs s1) of
         Some i \<Rightarrow>
           bindr (release_ptable s1) (\<lambda>s2. Ok (0, Some (most_loop 0 (sc (procs s1 ! i)) 0 None), s2))
       | None \<Rightarrow> bindr (release_ptable s1) (\<lambda>s2. Ok (-1, None, s2)))"

text \<open>Name, pid and number of calls of every process with a pid.\<close>

definition list_all_processes :: "'a kst \<Rightarrow> (int \<times> (string \<times> int \<times> int) list \<times> 'a kst) res" where
  "list_all_processes s =
     bindr (acquire_ptable s) (\<lambda>s1.
     bindr (release_ptable s1) (\<lambda>s2.
       let ls = map (\<lambda>p. (pname p, pid p, sum_list (sc p))) (filter (\<lambda>p. pid p \<noteq> 0) (procs s1))
       in Ok (if ls \<noteq> [] then 0 else -1, ls, s2)))"

definition report_all_processes :: "'a kst \<Rightarrow> (int \<times> proc list \<times> 'a kst) res" where
  "report_all_processes s =
     bindr (acquire_ptable s) (\<lambda>s1.
     bindr (release_ptable s1) (\<lambda>s2. Ok (0, filter (\<lambda>p. pid p \<noteq> 0) (procs s1), s2)))"

end
