(* ===== verification/Sched_Policy.thy ===== *)
theory Sched_Policy
  imports Sched "HOL-Library.Multiset"
begin

text \<open>
  What the three queue disciplines promise to the scheduler loop: an interface
  (\<open>queue_policy\<close>: a pick returns, is sound, is complete and changes nothing but its
  own static data), its interpretations on the round-robin, shortest-job and
  first-come disciplines, and the order each of them serves.
\<close>

definition cand :: "int \<Rightarrow> proc \<Rightarrow> bool" where
  "cand q p \<longleftrightarrow> pstate p = RUNNABLE \<and> queue p = q"

text \<open>The answer of a discipline: a waiting process of its queue, or none if none waits.\<close>

definition pick_ok :: "int \<Rightarrow> proc list \<Rightarrow> nat option \<Rightarrow> bool" where
  "pick_ok q ps po \<longleftrightarrow> (case po of
       None \<Rightarrow> \<forall>p < NPROC. \<not> cand q (ps ! p)
     | Some p \<Rightarrow> p < NPROC \<and> cand q (ps ! p))"

definition same_table :: "'a kst \<Rightarrow> 'a kst \<Rightarrow> bool" where
  "same_table s s' \<longleftrightarrow> procs s' = procs s \<and> cpus s' = cpus s \<and> ptable_lock s' = ptable_lock s
     \<and> lapicid s' = lapicid s \<and> IF s' = IF s \<and> kpgdir s' = kpgdir s"

section \<open>The contract of a queue discipline\<close>

locale queue_policy =
  fixes q :: int
    and ok :: "proc list \<Rightarrow> bool"
    and pick :: "'a kst \<Rightarrow> (nat option \<times> 'a kst) res option"
  assumes returns: "length (procs s) = NPROC \<Longrightarrow> ok (procs s) \<Longrightarrow> \<exists>po s'. pick s = Some (Ok (po, s'))"
    and sound: "length (procs s) = NPROC \<Longrightarrow> ok (procs s) \<Longrightarrow> pick s = Some (Ok (Some p, s')) \<Longrightarrow>
      p < NPROC \<and> cand q (procs s ! p)"
    and complete: "length (procs s) = NPROC \<Longrightarrow> ok (procs s) \<Longrightarrow> pick s = Some (Ok (None, s')) \<Longrightarrow>
      p < NPROC \<Longrightarrow> \<not> cand q (procs s ! p)"
    and frame: "pick s = Some (Ok (po, s')) \<Longrightarrow>
      \<exists>ix sd. s' = s\<lparr>rr_index := ix, sjf_seed := sd\<rparr>"
begin

lemma pick_spec:
  assumes "length (procs s) = NPROC" and "ok (procs s)"
  shows "\<exists>po s'. pick s = Some (Ok (po, s')) \<and> same_table s s' \<and> pick_ok q (procs s) po"
proof -
  from returns [OF assms] obtain po s' where eq: "pick s = Some (Ok (po, s'))" by blast
  from frame [OF eq] have "same_table s s'" by (auto simp: same_table_def)
  moreover have "pick_ok q (procs s) po"
    using eq complete [OF assms] sound [OF assms] by (cases po) (auto simp: pick_ok_def)
  ultimately show ?thesis using eq by blast
qed

end

lemma policy_frames [simp]:
  fixes s :: "'a kst"
  shows "\<exists>ix' sd. s\<lparr>rr_index := ix\<rparr> = s\<lparr>rr_index := ix', sjf_seed := sd\<rparr>"
    and "\<exists>ix sd'. s\<lparr>sjf_seed := sd\<rparr> = s\<lparr>rr_index := ix, sjf_seed := sd'\<rparr>"
    and "\<exists>ix sd. s = s\<lparr>rr_index := ix, sjf_seed := sd\<rparr>"
  by (rule exI [of _ ix], rule exI [of _ "sjf_seed s"], simp,
      rule exI [of _ "rr_index s"], rule exI [of _ sd], simp,
      rule exI [of _ "rr_index s"], rule exI [of _ "sjf_seed s"], simp)

section \<open>Round robin\<close>

lemma rr_loop_None: "rr_loop ps n ix = (None, ix') \<Longrightarrow> k < n \<Longrightarrow> \<not> cand 0 (ps ! ((ix + 1 + k) mod NPROC))"
proof (induction ps n ix arbitrary: k rule: rr_loop.induct)
  case (1 ps index)
  then show ?case by simp
next
  case (2 ps n index)
  let ?ix = "(index + 1) mod NPROC"
  have no: "\<not> cand 0 (ps ! ?ix)" and r: "rr_loop ps n ?ix = (None, ix')"
    using "2.prems"(1) by (auto simp: Let_def cand_def split: if_splits)
  show ?case
  proof (cases k)
    case 0
    with no show ?thesis by simp
  next
    case (Suc j)
    have "\<not> cand 0 (ps ! ((?ix + 1 + j) mod NPROC))"
      using "2.IH" [OF refl _ r, of j] "2.prems"(2) Suc no by (auto simp: cand_def)
    moreover have "(?ix + 1 + j) mod NPROC = (index + 1 + k) mod NPROC"
      unfolding Suc by (metis (no_types, opaque_lifting) add.assoc add_Suc_right mod_add_left_eq plus_1_eq_Suc)
    ultimately show ?thesis by simp
  qed
qed

text \<open>A pick is the first candidate after the static index, going round the table.\<close>

lemma rr_loop_Some:
  "rr_loop ps n ix = (Some j, ix') \<Longrightarrow>
   ix' = j \<and> cand 0 (ps ! j) \<and> (\<exists>k < n. j = (ix + 1 + k) mod NPROC \<and>
     (\<forall>l < k. \<not> cand 0 (ps ! ((ix + 1 + l) mod NPROC))))"
proof (induction ps n ix rule: rr_loop.induct)
  case (1 ps index)
  then show ?case by simp
next
  case (2 ps n index)
  let ?ix = "(index + 1) mod NPROC"
  show ?case
  proof (cases "cand 0 (ps ! ?ix)")
    case True
    with "2.prems" show ?thesis by (auto simp: Let_def cand_def intro!: exI [of _ 0])
  next
    case False
    then have r: "rr_loop ps n ?ix = (Some j, ix')"
      using "2.prems" by (auto simp: Let_def cand_def split: if_splits)
    have shift: "(?ix + 1 + l) mod NPROC = (index + 1 + Suc l) mod NPROC" for l
      by (metis (no_types, opaque_lifting) add.assoc add_Suc_right mod_add_left_eq plus_1_eq_Suc)
    from "2.IH" [OF refl _ r] False obtain k where k: "ix' = j" "cand 0 (ps ! j)" "k < n"
      "j = (index + 1 + Suc k) mod NPROC" "\<forall>l < k. \<not> cand 0 (ps ! ((index + 1 + Suc l) mod NPROC))"
      unfolding shift by (auto simp: cand_def)
    have "\<not> cand 0 (ps ! ((index + 1 + l) mod NPROC))" if "l < Suc k" for l
      using k(5) False that by (cases l) auto
    with k show ?thesis by (intro conjI exI [of _ "Suc k"]) auto
  qed
qed

lemma mod_around: "0 < m \<Longrightarrow> p < m \<Longrightarrow> \<exists>k < m. (ix + k) mod m = (p :: nat)"
proof (rule exI [of _ "(p + m - ix mod m) mod m"], intro conjI)
  assume m: "0 < m" "p < m"
  then show "(p + m - ix mod m) mod m < m" by simp
  have "(ix + (p + m - ix mod m) mod m) mod m = (ix mod m + (p + m - ix mod m)) mod m"
    by (simp only: mod_add_left_eq mod_add_right_eq)
  also have "ix mod m + (p + m - ix mod m) = p + m"
    using mod_less_divisor [OF m(1), of ix] by simp
  finally show "(ix + (p + m - ix mod m) mod m) mod m = p" using m by simp
qed

interpretation rr: queue_policy 0 "\<lambda>_. True" "\<lambda>s. Some (Ok (RR_scheduler s))"
proof unfold_locales
  fix s s' :: "'a kst" and p
  assume "Some (Ok (RR_scheduler s)) = Some (Ok (Some p, s'))"
  then obtain ix where "rr_loop (procs s) NPROC (rr_index s) = (Some p, ix)"
    by (auto simp: RR_scheduler_def split: prod.splits)
  from rr_loop_Some [OF this] show "p < NPROC \<and> cand 0 (procs s ! p)"
    by (auto simp: NPROC_def)
next
  fix s s' :: "'a kst" and p
  assume "Some (Ok (RR_scheduler s)) = Some (Ok (None, s'))" and p: "p < NPROC"
  then obtain ix where r: "rr_loop (procs s) NPROC (rr_index s) = (None, ix)"
    by (auto simp: RR_scheduler_def split: prod.splits)
  from mod_around [of NPROC p "rr_index s + 1"] p obtain k where
    "k < NPROC" "(rr_index s + 1 + k) mod NPROC = p" by (auto simp: NPROC_def)
  with rr_loop_None [OF r] show "\<not> cand 0 (procs s ! p)" by metis
qed (auto simp: RR_scheduler_def split: prod.splits)

section \<open>Shortest job first\<close>

text \<open>The waiting jobs of queue 1 whose burst time is at least \<open>mv\<close>, with their slots.\<close>

definition jobs :: "int \<Rightarrow> nat \<Rightarrow> proc list \<Rightarrow> (nat \<times> proc) list" where
  "jobs mv i ps = filter (\<lambda>(_, p). cand 1 p \<and> mv \<le> burst_time p) (List.enumerate i ps)"

abbreviation job_burst :: "nat \<times> proc \<Rightarrow> int" where
  "job_burst e \<equiv> burst_time (snd e)"

definition bursts_ok :: "proc list \<Rightarrow> bool" where
  "bursts_ok ps \<longleftrightarrow> (\<forall>p \<in> set ps. cand 1 p \<longrightarrow> 0 \<le> burst_time p \<and> burst_time p < 1000000000)"

lemma jobs_simps [simp]:
  "jobs mv i [] = []"
  "jobs mv i (p # ps) = (if cand 1 p \<and> mv \<le> burst_time p then [(i, p)] else []) @ jobs mv (Suc i) ps"
  by (simp_all add: jobs_def)

lemma sjf_pass_spec:
  assumes "length l + length (jobs mv i ps) \<le> NPROC" and "mv \<le> nm"
  shows "\<exists>nm'. sjf_pass mv i ps nm flag l =
      Ok (nm', flag \<and> jobs mv i ps = [], l @ map fst (filter (\<lambda>e. job_burst e = mv) (jobs mv i ps)))
    \<and> mv \<le> nm' \<and> (mv < nm \<longrightarrow> mv < nm') \<and> nm' \<le> nm \<and> (\<forall>e \<in> set (jobs mv i ps). mv < job_burst e \<longrightarrow> nm' \<le> job_burst e)"
  using assms
proof (induction mv i ps nm flag l rule: sjf_pass.induct)
  case (1 mv i nm flag l)
  then show ?case by simp
next
  case (2 mv i p ps nm flag l)
  consider "\<not> cand 1 p" | "cand 1 p" "mv < burst_time p" | "cand 1 p" "mv = burst_time p"
    | "cand 1 p" "burst_time p < mv" by linarith
  then show ?case
  proof cases
    case 1
    with "2.IH"(1) "2.prems" show ?thesis by (auto simp: cand_def)
  next
    case 2
    define nm1 where "nm1 = (if nm < burst_time p then nm else burst_time p)"
    have nm1: "mv \<le> nm1" "mv < nm \<longrightarrow> mv < nm1" "nm1 \<le> nm" "nm1 \<le> burst_time p" using "2.prems"(2) 2 by (auto simp: nm1_def)
    have "\<exists>nm'. sjf_pass mv (Suc i) ps nm1 False l =
        Ok (nm', False \<and> jobs mv (Suc i) ps = [], l @ map fst (filter (\<lambda>e. job_burst e = mv) (jobs mv (Suc i) ps)))
      \<and> mv \<le> nm' \<and> (mv < nm1 \<longrightarrow> mv < nm') \<and> nm' \<le> nm1 \<and> (\<forall>e \<in> set (jobs mv (Suc i) ps). mv < job_burst e \<longrightarrow> nm' \<le> job_burst e)"
      unfolding nm1_def by (rule "2.IH"(2)) (use 2 "2.prems" nm1 in \<open>auto simp: cand_def nm1_def\<close>)
    then show ?thesis using 2 nm1 by (auto simp: cand_def nm1_def [symmetric])
  next
    case 3
    have len: "length l < NPROC" using "2.prems"(1) 3 by simp
    have "\<exists>nm'. sjf_pass mv (Suc i) ps nm False (l @ [i]) =
        Ok (nm', False \<and> jobs mv (Suc i) ps = [], (l @ [i]) @ map fst (filter (\<lambda>e. job_burst e = mv) (jobs mv (Suc i) ps)))
      \<and> mv \<le> nm' \<and> (mv < nm \<longrightarrow> mv < nm') \<and> nm' \<le> nm \<and> (\<forall>e \<in> set (jobs mv (Suc i) ps). mv < job_burst e \<longrightarrow> nm' \<le> job_burst e)"
      by (rule "2.IH"(3)) (use 3 "2.prems" len in \<open>auto simp: cand_def\<close>)
    then show ?thesis using 3 len by (auto simp: cand_def)
  next
    case 4
    with "2.IH"(4) "2.prems" show ?thesis by (auto simp: cand_def)
  qed
qed

lemma sort_key_split_min:
  assumes "\<forall>x \<in> set xs. m \<le> f x"
  shows "sort_key f xs = filter (\<lambda>x. f x = m) xs @ sort_key f (filter (\<lambda>x. m < f x) xs)"
proof (rule properties_for_sort_key)
  have "mset xs = mset (filter (\<lambda>x. f x = m) xs) + mset (filter (\<lambda>x. m < f x) xs)"
    using assms by (induction xs) auto
  then show "mset (filter (\<lambda>x. f x = m) xs @ sort_key f (filter (\<lambda>x. m < f x) xs)) = mset xs"
    by simp
  show "sorted (map f (filter (\<lambda>x. f x = m) xs @ sort_key f (filter (\<lambda>x. m < f x) xs)))"
    using sorted_map_same [of f "\<lambda>_. m" xs] by (auto simp: sorted_append)
next
  fix k
  show "filter (\<lambda>x. f k = f x) (filter (\<lambda>x. f x = m) xs @ sort_key f (filter (\<lambda>x. m < f x) xs)) =
    filter (\<lambda>x. f k = f x) xs"
    using assms sort_key_stable [of f "f k" "filter (\<lambda>x. m < f x) xs"]
    by (cases "f k = m") (auto simp: eq_commute [of "f k"] intro!: filter_cong filter_False)
qed

lemma jobs_above:
  assumes "\<forall>e \<in> set (jobs mv i ps). mv < job_burst e \<longrightarrow> nm \<le> job_burst e" and "mv < nm"
  shows "filter (\<lambda>e. mv < job_burst e) (jobs mv i ps) = jobs nm i ps"
  using assms unfolding jobs_def by (force intro!: filter_cong)

lemma sjf_pass_idle: "jobs mv i ps = [] \<Longrightarrow> sjf_pass mv i ps nm flag l = Ok (nm, flag, l)"
  by (induction mv i ps nm flag l rule: sjf_pass.induct) (auto simp: cand_def split: if_splits)

text \<open>The passes collect the jobs in order of burst time, those of equal burst in table order.\<close>

lemma sjf_collect_sorted:
  assumes "bursts_ok ps" and "mv \<le> 1000000000" and "length l + length (jobs mv 0 ps) \<le> NPROC"
  shows "sjf_collect ps mv l = Some (Ok (l @ map fst (sort_key job_burst (jobs mv 0 ps))))"
  using assms(2,3)
proof (induction "nat (1000000000 - mv)" arbitrary: mv l rule: less_induct)
  case less
  show ?case
  proof (cases "jobs mv 0 ps = []")
    case True
    then show ?thesis by (subst sjf_collect.simps) (simp add: sjf_pass_idle)
  next
    case False
    with less.prems have len: "length l < NPROC" by (cases "jobs mv 0 ps") auto
    from False assms(1) have mv: "mv < 1000000000"
      by (fastforce simp: jobs_def bursts_ok_def filter_empty_conv in_set_enumerate_eq)
    from sjf_pass_spec [OF less.prems(2,1), of True] obtain nm where nm:
      "sjf_pass mv 0 ps 1000000000 True l =
         Ok (nm, False, l @ map fst (filter (\<lambda>e. job_burst e = mv) (jobs mv 0 ps)))"
      "mv < nm" "nm \<le> 1000000000" "\<forall>e \<in> set (jobs mv 0 ps). mv < job_burst e \<longrightarrow> nm \<le> job_burst e"
      using False mv by auto
    let ?l = "l @ map fst (filter (\<lambda>e. job_burst e = mv) (jobs mv 0 ps))"
    note above = jobs_above [OF nm(4,2)]
    have split: "sort_key job_burst (jobs mv 0 ps) =
        filter (\<lambda>e. job_burst e = mv) (jobs mv 0 ps) @ sort_key job_burst (jobs nm 0 ps)"
      unfolding above [symmetric] by (rule sort_key_split_min) (auto simp: jobs_def)
    have "length ?l + length (jobs nm 0 ps) \<le> NPROC"
      using less.prems(2) arg_cong [OF split, of length] by simp
    with less.hyps [of nm ?l] nm mv have "sjf_collect ps nm ?l =
        Some (Ok (?l @ map fst (sort_key job_burst (jobs nm 0 ps))))" by simp
    then show ?thesis using len nm(1) split by (subst sjf_collect.simps) simp
  qed
qed

text \<open>
  A job longer than the sentinel is never collected and never lets the loop stop: no pass
  returns with the flag set, and the table keeps the array from filling up.
\<close>

definition sjf_stuck :: "proc list \<Rightarrow> int \<Rightarrow> nat list \<Rightarrow> bool" where
  "sjf_stuck ps mv l \<longleftrightarrow> mv \<le> 1000000000 \<and> length l + length (jobs mv 0 ps) \<le> NPROC
     \<and> (\<exists>e \<in> set (jobs mv 0 ps). 1000000000 < job_burst e)
     \<and> (\<forall>e \<in> set (jobs mv 0 ps). job_burst e \<noteq> 1000000000)"

lemma sjf_stuck_pass:
  assumes "sjf_stuck ps mv l"
  shows "length l < NPROC \<and> (\<exists>nm l1. sjf_pass mv 0 ps 1000000000 True l = Ok (nm, False, l1)
    \<and> sjf_stuck ps nm l1)"
proof -
  from assms have mv: "mv \<le> 1000000000" and len: "length l + length (jobs mv 0 ps) \<le> NPROC"
    and big: "\<exists>e \<in> set (jobs mv 0 ps). 1000000000 < job_burst e"
    and ne: "\<forall>e \<in> set (jobs mv 0 ps). job_burst e \<noteq> 1000000000"
    by (auto simp: sjf_stuck_def)
  then have jobs: "jobs mv 0 ps \<noteq> []" by auto
  then have "length l < NPROC" using len by (cases "jobs mv 0 ps") auto
  moreover from sjf_pass_spec [OF len mv, of True] jobs obtain nm where nm:
    "sjf_pass mv 0 ps 1000000000 True l =
       Ok (nm, False, l @ map fst (filter (\<lambda>e. job_burst e = mv) (jobs mv 0 ps)))"
    "mv \<le> nm" "mv < 1000000000 \<longrightarrow> mv < nm" "nm \<le> 1000000000"
    "\<forall>e \<in> set (jobs mv 0 ps). mv < job_burst e \<longrightarrow> nm \<le> job_burst e" by auto
  moreover have "sjf_stuck ps nm (l @ map fst (filter (\<lambda>e. job_burst e = mv) (jobs mv 0 ps)))"
  proof (cases "mv = 1000000000")
    case True
    then have "nm = mv" using nm by simp
    with assms ne True show ?thesis by (simp add: filter_False)
  next
    case False
    then have "mv < nm" using nm mv by simp
    note above = jobs_above [OF nm(5) this]
    have "length (filter (\<lambda>e. job_burst e = mv) (jobs mv 0 ps)) + length (jobs nm 0 ps) = length (jobs mv 0 ps)"
      using sort_key_split_min [of "jobs mv 0 ps" mv job_burst, THEN arg_cong [of _ _ length]]
      unfolding above [symmetric] by (force simp: jobs_def)
    moreover have "set (jobs nm 0 ps) = {e \<in> set (jobs mv 0 ps). mv < job_burst e}"
      unfolding above [symmetric] by simp
    ultimately show ?thesis using big ne len nm(4) mv by (fastforce simp: sjf_stuck_def)
  qed
  ultimately show ?thesis by blast
qed

lemma sjf_stuck_diverges: "sjf_stuck ps mv l \<Longrightarrow> sjf_collect ps mv l = None"
proof (rule ccontr)
  assume st: "sjf_stuck ps mv l" and "sjf_collect ps mv l \<noteq> None"
  then obtain y where "sjf_collect ps mv l = Some y" by auto
  then have "\<not> sjf_stuck ps mv l"
    by (rule sjf_collect.raw_induct [rotated]) (use sjf_stuck_pass in \<open>fastforce split: if_splits\<close>)
  with st show False by simp
qed

lemma sjf_choose_member: "sjf_choose ps tk l sd = (Some i, sd') \<Longrightarrow> i \<in> set l"
  by (induction ps tk l sd rule: sjf_choose.induct) (auto simp: Let_def split: if_splits)

lemma jobs_length: "length (jobs mv i ps) \<le> length ps"
  by (metis jobs_def length_enumerate length_filter_le)

lemma jobs_slot: "(j, p) \<in> set (jobs mv 0 ps) \<longleftrightarrow> j < length ps \<and> p = ps ! j \<and> cand 1 p \<and> mv \<le> burst_time p"
  by (auto simp: jobs_def in_set_enumerate_eq)

lemma SJF_scheduler_eq:
  assumes "length (procs s) = NPROC" and "bursts_ok (procs s)"
  shows "SJF_scheduler s = Some (
    let l = map fst (sort_key job_burst (jobs 0 0 (procs s)));
        (r, sd) = sjf_choose (procs s) (ticks s) l (sjf_seed s)
    in Ok (if r = None \<and> l \<noteq> [] then Some (last l) else r, s\<lparr>sjf_seed := sd\<rparr>))"
proof -
  have "sjf_collect (procs s) 0 [] = Some (Ok (map fst (sort_key job_burst (jobs 0 0 (procs s)))))"
    using sjf_collect_sorted [OF assms(2), of 0 "[]"] jobs_length [of 0 0 "procs s"] assms(1) by simp
  then show ?thesis by (auto simp: SJF_scheduler_def Let_def split: prod.split option.split)
qed

interpretation sjf: queue_policy 1 bursts_ok SJF_scheduler
proof unfold_locales
  fix s :: "'a kst"
  assume "length (procs s) = NPROC" and "bursts_ok (procs s)"
  then show "\<exists>po s'. SJF_scheduler s = Some (Ok (po, s'))"
    by (simp add: SJF_scheduler_eq Let_def split: prod.split)
next
  fix s s' :: "'a kst" and p
  assume A: "length (procs s) = NPROC" "bursts_ok (procs s)" "SJF_scheduler s = Some (Ok (Some p, s'))"
  define l where "l = map fst (sort_key job_burst (jobs 0 0 (procs s)))"
  from A obtain r sd where r: "sjf_choose (procs s) (ticks s) l (sjf_seed s) = (r, sd)"
    "(if r = None \<and> l \<noteq> [] then Some (last l) else r) = Some p"
    by (auto simp: SJF_scheduler_eq Let_def l_def [symmetric] split: prod.splits)
  have "p \<in> set l"
  proof (cases r)
    case None
    with r(2) show ?thesis by (auto split: if_splits)
  next
    case (Some i)
    with r sjf_choose_member [of "procs s" "ticks s" l "sjf_seed s" i sd] show ?thesis by simp
  qed
  then show "p < NPROC \<and> cand 1 (procs s ! p)" using A(1) by (auto simp: l_def jobs_slot)
next
  fix s s' :: "'a kst" and p
  assume A: "length (procs s) = NPROC" "bursts_ok (procs s)" "SJF_scheduler s = Some (Ok (None, s'))"
    and p: "p < NPROC"
  then have "sort_key job_burst (jobs 0 0 (procs s)) = []"
    by (auto simp: SJF_scheduler_eq Let_def split: prod.splits if_splits)
  then have "set (jobs 0 0 (procs s)) = {}" by (metis set_empty set_sort)
  then have "(p, procs s ! p) \<notin> set (jobs 0 0 (procs s))" by simp
  with A(1,2) p show "\<not> cand 1 (procs s ! p)" by (auto simp: jobs_slot bursts_ok_def)
next
  fix s s' :: "'a kst" and po
  assume S: "SJF_scheduler s = Some (Ok (po, s'))"
  then obtain l where l: "sjf_collect (procs s) 0 [] = Some (Ok l)"
    by (auto simp: SJF_scheduler_def bindr_Ok_iff)
  obtain r sd where "sjf_choose (procs s) (ticks s) l (sjf_seed s) = (r, sd)" by fastforce
  with S l have "s' = s\<lparr>sjf_seed := sd\<rparr>" by (auto simp: SJF_scheduler_def split: option.splits)
  then show "\<exists>ix sd. s' = s\<lparr>rr_index := ix, sjf_seed := sd\<rparr>" by simp
qed

section \<open>First come first served\<close>

definition arrivals_ok :: "proc list \<Rightarrow> bool" where
  "arrivals_ok ps \<longleftrightarrow> (\<forall>p \<in> set ps. cand 2 p \<longrightarrow> arrival p < 1000000000)"

text \<open>
  The loop invariant, over the table \<open>qs @ ps\<close> of which \<open>qs\<close> has been scanned: the entry
  remembered is the first of the earliest arrivals of \<open>qs\<close>.
\<close>

definition earliest :: "proc list \<Rightarrow> nat \<Rightarrow> bool" where
  "earliest ps j \<longleftrightarrow> j < length ps \<and> cand 2 (ps ! j)
     \<and> (\<forall>k < length ps. cand 2 (ps ! k) \<longrightarrow> arrival (ps ! j) \<le> arrival (ps ! k)
          \<and> (k < j \<longrightarrow> arrival (ps ! j) < arrival (ps ! k)))"

definition fcfs_inv :: "proc list \<Rightarrow> int \<Rightarrow> nat option \<Rightarrow> bool" where
  "fcfs_inv qs mv mi \<longleftrightarrow> (case mi of
       None \<Rightarrow> mv = 1000000000 \<and> (\<forall>p \<in> set qs. \<not> cand 2 p)
     | Some j \<Rightarrow> earliest qs j \<and> mv = arrival (qs ! j))"

lemma fcfs_inv_snoc:
  assumes "fcfs_inv qs mv mi" and "cand 2 p \<Longrightarrow> arrival p < 1000000000"
  shows "if cand 2 p \<and> arrival p < mv then fcfs_inv (qs @ [p]) (arrival p) (Some (length qs))
    else fcfs_inv (qs @ [p]) mv mi"
proof (cases mi)
  case None
  with assms show ?thesis
    by (auto simp: fcfs_inv_def earliest_def nth_append less_Suc_eq)
next
  case (Some j)
  with assms show ?thesis
    by (auto simp: fcfs_inv_def earliest_def nth_append less_Suc_eq)
qed

lemma fcfs_loop_inv:
  assumes "fcfs_inv qs mv mi" and "\<forall>p \<in> set ps. cand 2 p \<longrightarrow> arrival p < 1000000000"
  shows "\<exists>mv'. fcfs_inv (qs @ ps) mv' (fcfs_loop (length qs) ps mv mi)"
  using assms
proof (induction ps arbitrary: qs mv mi)
  case Nil
  then show ?case by auto
next
  case (Cons p ps)
  have snoc: "if cand 2 p \<and> arrival p < mv then fcfs_inv (qs @ [p]) (arrival p) (Some (length qs))
    else fcfs_inv (qs @ [p]) mv mi" using fcfs_inv_snoc [OF Cons.prems(1), of p] Cons.prems(2) by simp
  show ?case
  proof (cases "cand 2 p \<and> arrival p < mv")
    case True
    with snoc Cons.IH [of "qs @ [p]" "arrival p" "Some (length qs)"] Cons.prems(2)
    show ?thesis by (auto simp: cand_def)
  next
    case False
    with snoc Cons.IH [of "qs @ [p]" mv mi] Cons.prems(2)
    show ?thesis by (auto simp: cand_def)
  qed
qed

lemma FCFS_scheduler_spec:
  assumes "arrivals_ok (procs s)"
  shows "case FCFS_scheduler s of None \<Rightarrow> \<forall>p \<in> set (procs s). \<not> cand 2 p | Some j \<Rightarrow> earliest (procs s) j"
proof -
  have "\<exists>mv'. fcfs_inv ([] @ procs s) mv' (fcfs_loop (length ([] :: proc list)) (procs s) 1000000000 None)"
    using assms by (intro fcfs_loop_inv) (auto simp: fcfs_inv_def arrivals_ok_def)
  then show ?thesis by (auto simp: FCFS_scheduler_def fcfs_inv_def split: option.splits)
qed

interpretation fcfs: queue_policy 2 arrivals_ok "\<lambda>s. Some (Ok (FCFS_scheduler s, s))"
proof unfold_locales
  fix s s' :: "'a kst" and p
  assume "length (procs s) = NPROC" "arrivals_ok (procs s)"
    "Some (Ok (FCFS_scheduler s, s)) = Some (Ok (Some p, s'))"
  then show "p < NPROC \<and> cand 2 (procs s ! p)"
    using FCFS_scheduler_spec [of s] by (auto simp: earliest_def)
next
  fix s s' :: "'a kst" and p
  assume "length (procs s) = NPROC" "arrivals_ok (procs s)"
    "Some (Ok (FCFS_scheduler s, s)) = Some (Ok (None, s'))" "p < NPROC"
  then show "\<not> cand 2 (procs s ! p)"
    using FCFS_scheduler_spec [of s] by auto
qed auto

section \<open>Properties of the queues\<close>

lemma RR_scheduler_next:
  assumes "cand 0 (procs s ! ((rr_index s + 1 + d) mod NPROC))" and "d < NPROC"
  obtains k where "k \<le> d" and "fst (RR_scheduler s) = Some ((rr_index s + 1 + k) mod NPROC)"
    and "rr_index (snd (RR_scheduler s)) = (rr_index s + 1 + k) mod NPROC"
proof -
  obtain r ix where r: "rr_loop (procs s) NPROC (rr_index s) = (r, ix)" by fastforce
  obtain j where j: "r = Some j" using rr_loop_None r assms by (cases r) auto
  from rr_loop_Some [OF r [unfolded j]] obtain k where k: "ix = j" "j = (rr_index s + 1 + k) mod NPROC"
    "\<forall>l < k. \<not> cand 0 (procs s ! ((rr_index s + 1 + l) mod NPROC))" by blast
  with assms(1) have "k \<le> d" by (meson not_le)
  with that r j k show thesis by (simp add: RR_scheduler_def)
qed

lemma rr_reaches:
  assumes "\<forall>n. cand 0 (procs (f n) ! p)"
    and "\<forall>n. rr_index (f (Suc n)) = rr_index (snd (RR_scheduler (f n)))"
    and "(rr_index (f n) + 1 + d) mod NPROC = p" and "d < NPROC"
  shows "\<exists>m \<le> d. fst (RR_scheduler (f (n + m))) = Some p"
  using assms(3,4)
proof (induction d arbitrary: n rule: less_induct)
  case (less d)
  obtain k where k: "k \<le> d" "fst (RR_scheduler (f n)) = Some ((rr_index (f n) + 1 + k) mod NPROC)"
    "rr_index (snd (RR_scheduler (f n))) = (rr_index (f n) + 1 + k) mod NPROC"
    using RR_scheduler_next [of "f n" d] assms(1) less.prems by metis
  show ?case
  proof (cases "k = d")
    case True
    with k less.prems show ?thesis by (intro exI [of _ 0]) simp
  next
    case False
    let ?e = "d - Suc k"
    have "(rr_index (f (Suc n)) + 1 + ?e) mod NPROC = (rr_index (f n) + 1 + k + (1 + ?e)) mod NPROC"
      using assms(2) k(3) by (simp only: add.assoc mod_add_left_eq)
    also have "rr_index (f n) + 1 + k + (1 + ?e) = rr_index (f n) + 1 + d" using False k(1) by simp
    finally have "\<exists>m \<le> ?e. fst (RR_scheduler (f (Suc n + m))) = Some p"
      using less.prems False k(1) by (intro less.IH) simp_all
    then obtain m where "m \<le> ?e" "fst (RR_scheduler (f (n + Suc m))) = Some p" by auto
    with k(1) False show ?thesis by (intro exI [of _ "Suc m"]) simp
  qed
qed

definition blank_tf :: trapframe where
  "blank_tf = \<lparr>tf_edi = 0, tf_esi = 0, tf_ebp = 0, tf_oesp = 0, tf_ebx = 0, tf_edx = 0, tf_ecx = 0,
     tf_eax = 0, tf_gs = 0, tf_fs = 0, tf_es = 0, tf_ds = 0, tf_trapno = 0, tf_err = 0, tf_eip = 0,
     tf_cs = 0, tf_eflags = 0, tf_esp = 0, tf_ss = 0\<rparr>"

definition blank_proc :: proc where
  "blank_proc = \<lparr>sz = 0, pgdir = 0, kstack = 0, pstate = UNUSED, pid = 0, parent = None, tf = blank_tf,
     chan = None, killed = False, ofile = replicate 16 None, cwd = None, pname = [], sc = replicate 34 0,
     queue = 0, wait_time = 0, confidence = 50, burst_time = 2, consecutive_runs = 0, arrival = 0\<rparr>"

definition boot_state :: "kstate" where
  "boot_state = \<lparr>cpus = [cpu0], lapicid = 7, IF = True, ptable_lock = initlock ''ptable'',
     procs = replicate NPROC blank_proc, nextpid = 1, initproc = None, rr_index = 0, sjf_seed = 1,
     ticks = 0, kpgdir = 0x80400000, total_lock = initlock ''system call counter'', total_count = 0\<rparr>"

text \<open>C7: Round robin is fair: a process that stays runnable in queue 0 is picked within one
  round, that is among the next \<^verbatim>\<open>NPROC\<close> picks, however the rest of the table changes
  between the picks.\<close>

theorem rr_fair:
  assumes "p < NPROC" and "\<forall>n. cand 0 (procs (f n) ! p)"
    and "\<forall>n. rr_index (f (Suc n)) = rr_index (snd (RR_scheduler (f n)))"
  shows "\<exists>n < NPROC. fst (RR_scheduler (f n)) = Some p"
proof -
  obtain d where "d < NPROC" "(rr_index (f 0) + 1 + d) mod NPROC = p"
    using mod_around [of NPROC p "rr_index (f 0) + 1"] assms(1) by (auto simp: NPROC_def)
  with rr_reaches [OF assms(2,3)] show ?thesis by (metis add_0 order.strict_trans1)
qed

theorem rr_fair_witness:
  "\<exists>f :: nat \<Rightarrow> kstate. procs (f 0) ! 5 = blank_proc\<lparr>pstate := RUNNABLE\<rparr>
     \<and> (\<exists>n < NPROC. fst (RR_scheduler (f n)) = Some 5)"
proof -
  let ?s = "boot_state\<lparr>procs := replicate NPROC (blank_proc\<lparr>pstate := RUNNABLE\<rparr>)\<rparr>"
  let ?f = "\<lambda>n. ((snd \<circ> RR_scheduler) ^^ n) ?s"
  have tab: "procs (?f n) = procs ?s" for n
    by (induction n) (auto simp: RR_scheduler_def split: prod.split)
  have "\<exists>n < NPROC. fst (RR_scheduler (?f n)) = Some 5"
    by (rule rr_fair) (simp_all only: tab, auto simp: cand_def NPROC_def blank_proc_def)
  then show ?thesis by (intro exI [of _ ?f]) (simp only: tab, simp add: NPROC_def)
qed

text \<open>C6: With burst times in range, the shortest-job queue collects its runnable jobs as a
  stable sort by burst time would, and picks one of them exactly when there is one; when the
  first job's confidence is at least 100 the pick is the shortest job.\<close>

theorem sjf_sorted:
  assumes "length (procs s) = NPROC" and "bursts_ok (procs s)"
  shows "sjf_collect (procs s) 0 [] = Some (Ok (map fst (sort_key job_burst (jobs 0 0 (procs s)))))
    \<and> (\<exists>po s'. SJF_scheduler s = Some (Ok (po, s')) \<and> (po = None \<longleftrightarrow> jobs 0 0 (procs s) = [])
      \<and> (\<forall>j p es. sort_key job_burst (jobs 0 0 (procs s)) = (j, p) # es \<and> 100 \<le> confidence p
           \<longrightarrow> po = Some j))"
proof -
  let ?l = "sort_key job_burst (jobs 0 0 (procs s))"
  have nil: "?l = [] \<longleftrightarrow> jobs 0 0 (procs s) = []" by (metis set_empty set_sort)
  obtain r sd where r: "sjf_choose (procs s) (ticks s) (map fst ?l) (sjf_seed s) = (r, sd)" by fastforce
  have "r = None" if "?l = []" using that r by simp
  moreover have "r = Some j" if l: "?l = (j, p) # es" and c: "100 \<le> confidence p" for j p es
  proof -
    have "(j, p) \<in> set (jobs 0 0 (procs s))" using l by (metis list.set_intros(1) set_sort)
    then have "procs s ! j = p" by (simp add: jobs_slot)
    moreover have "sjf_rand (sjf_seed s) < 100" by (simp add: sjf_rand_def uint_mod_distrib)
    ultimately show ?thesis using r l c by (simp add: Let_def)
  qed
  ultimately show ?thesis
    using sjf_collect_sorted [OF assms(2), of 0 "[]"] jobs_length [of 0 0 "procs s"] assms(1) r nil
    by (auto simp: SJF_scheduler_eq [OF assms] Let_def)
qed

lemma demo_jobs:
  defines "mk \<equiv> \<lambda>b. blank_proc\<lparr>pstate := RUNNABLE, queue := 1, burst_time := b, confidence := 100\<rparr>"
  shows "jobs 0 0 (mk 7 # mk 3 # replicate 62 blank_proc) = [(0, mk 7), (1, mk 3)]"
proof -
  have "jobs mv i (replicate n blank_proc) = []" for mv i n
    by (induction n arbitrary: i) (auto simp: cand_def blank_proc_def)
  then show ?thesis by (simp add: mk_def cand_def)
qed

theorem sjf_sorted_witness:
  "\<exists>s' :: kstate. SJF_scheduler (boot_state\<lparr>procs :=
      blank_proc\<lparr>pstate := RUNNABLE, queue := 1, burst_time := 7, confidence := 100\<rparr> #
      blank_proc\<lparr>pstate := RUNNABLE, queue := 1, burst_time := 3, confidence := 100\<rparr> #
      replicate 62 blank_proc\<rparr>) = Some (Ok (Some 1, s'))"
    (is "\<exists>s'. SJF_scheduler ?s = _")
proof -
  have "length (procs ?s) = NPROC" by (simp add: NPROC_def)
  moreover have "bursts_ok (procs ?s)" by (simp add: bursts_ok_def cand_def blank_proc_def)
  moreover have "sort_key job_burst (jobs 0 0 (procs ?s)) =
    [(1, blank_proc\<lparr>pstate := RUNNABLE, queue := 1, burst_time := 3, confidence := 100\<rparr>),
     (0, blank_proc\<lparr>pstate := RUNNABLE, queue := 1, burst_time := 7, confidence := 100\<rparr>)]"
    using demo_jobs by simp
  ultimately show ?thesis using sjf_sorted [of ?s] by fastforce
qed

text \<open>C12: A runnable job of queue 1 whose burst time exceeds the sentinel 10^9 (which
  \<^verbatim>\<open>set_sjf_info\<close> stores without a test) makes \<^verbatim>\<open>_SJF_scheduler\<close> loop for ever, with the table
  lock held, unless some job has exactly the sentinel as its burst time.\<close>

theorem sjf_hangs:
  assumes "length (procs s) = NPROC" and "j < NPROC" and "cand 1 (procs s ! j)"
    and "1000000000 < burst_time (procs s ! j)"
    and "\<forall>p \<in> set (procs s). burst_time p \<noteq> 1000000000"
  shows "SJF_scheduler s = None"
proof -
  have "sjf_stuck (procs s) 0 []"
    using assms jobs_length [of 0 0 "procs s"]
    by (auto simp: sjf_stuck_def jobs_slot intro!: bexI [of _ "(j, procs s ! j)"])
  then show ?thesis by (simp add: SJF_scheduler_def sjf_stuck_diverges)
qed

theorem sjf_hangs_witness:
  "SJF_scheduler (boot_state\<lparr>procs :=
      blank_proc\<lparr>pstate := RUNNABLE, queue := 1, burst_time := 2000000000\<rparr> #
      replicate 63 blank_proc\<rparr>) = None"
  by (rule sjf_hangs [where j = 0]) (simp_all add: NPROC_def cand_def blank_proc_def)

text \<open>With arrival times in range, the first-come queue picks the process that arrived
  first (the lowest slot among equals), and none exactly when no process waits there.\<close>

theorem fcfs_earliest:
  assumes "length (procs s) = NPROC" and "arrivals_ok (procs s)"
  shows "case FCFS_scheduler s of
      None \<Rightarrow> \<forall>k < NPROC. \<not> cand 2 (procs s ! k)
    | Some j \<Rightarrow> j < NPROC \<and> cand 2 (procs s ! j)
        \<and> (\<forall>k < NPROC. cand 2 (procs s ! k) \<longrightarrow> arrival (procs s ! j) \<le> arrival (procs s ! k)
             \<and> (k < j \<longrightarrow> arrival (procs s ! j) < arrival (procs s ! k)))"
  using FCFS_scheduler_spec [OF assms(2)] assms(1)
  by (auto simp: earliest_def split: option.splits)

theorem fcfs_earliest_witness:
  "FCFS_scheduler (boot_state\<lparr>procs := blank_proc\<lparr>pstate := RUNNABLE, queue := 2, arrival := 9\<rparr> #
      blank_proc\<lparr>pstate := RUNNABLE, queue := 2, arrival := 4\<rparr> # replicate 62 blank_proc\<rparr>) = Some 1"
proof -
  define s where "s = boot_state\<lparr>procs := blank_proc\<lparr>pstate := RUNNABLE, queue := 2, arrival := 9\<rparr> #
      blank_proc\<lparr>pstate := RUNNABLE, queue := 2, arrival := 4\<rparr> # replicate 62 blank_proc\<rparr>"
  have ok: "length (procs s) = NPROC" "arrivals_ok (procs s)"
    by (simp_all add: s_def NPROC_def arrivals_ok_def cand_def blank_proc_def)
  have c: "cand 2 (procs s ! k) \<longleftrightarrow> k = 0 \<or> k = 1" if "k < NPROC" for k
    using that by (auto simp: s_def cand_def blank_proc_def NPROC_def nth_Cons split: nat.splits)
  have ar: "arrival (procs s ! 0) = 9" "arrival (procs s ! 1) = 4" by (simp_all add: s_def)
  have in_range: "0 < NPROC" "1 < NPROC" by (simp_all add: NPROC_def)
  have "FCFS_scheduler s = Some 1"
  proof (cases "FCFS_scheduler s")
    case None
    with fcfs_earliest [OF ok] c [of 0] in_range show ?thesis by simp
  next
    case (Some j)
    with fcfs_earliest [OF ok] c [of j] c [of 1] in_range ar show ?thesis by fastforce
  qed
  then show ?thesis by (simp only: s_def)
qed

lemma aging1_state [simp]: "pstate (aging1 tk p) = pstate p"
  by (simp add: aging1_def)

text \<open>The number of ticks an unserved process is away from queue 0.\<close>

definition age_left :: "proc \<Rightarrow> nat" where
  "age_left p = nat (queue p * MAX_WAIT_TIME - min (wait_time p) (MAX_WAIT_TIME - 1))"

lemma aging1_progress:
  assumes "pstate p = RUNNABLE" and "0 \<le> queue p"
  shows "0 \<le> queue (aging1 tk p) \<and> queue (aging1 tk p) \<le> queue p
    \<and> (queue p \<noteq> 0 \<longrightarrow> queue (aging1 tk p) = 0 \<or> age_left (aging1 tk p) < age_left p)"
  using assms by (auto simp: aging1_def age_left_def MAX_WAIT_TIME_def nat_less_iff)

lemma aging_top_stays: "\<forall>n. f (Suc n) = aging1 (tk n) (f n) \<Longrightarrow> queue (f k) = 0 \<Longrightarrow> queue (f (k + m)) = 0"
  by (induction m) (auto simp: aging1_def)

lemma aging_reaches_top:
  assumes "\<forall>n. f (Suc n) = aging1 (tk n) (f n)" and "pstate (f k) = RUNNABLE" and "0 \<le> queue (f k)"
    and "age_left (f k) \<le> m"
  shows "queue (f (k + m)) = 0"
  using assms(2-4)
proof (induction m arbitrary: k)
  case 0
  then have "queue (f k) * MAX_WAIT_TIME - min (wait_time (f k)) (MAX_WAIT_TIME - 1) \<le> 0"
    by (simp add: age_left_def)
  with "0.prems"(2) show ?case by (simp add: MAX_WAIT_TIME_def min_def split: if_splits)
next
  case (Suc m)
  have "queue (f (Suc k + m)) = 0"
  proof (cases "queue (f k) = 0 \<or> queue (f (Suc k)) = 0")
    case True
    then have "queue (f (Suc k)) = 0" using aging_top_stays [OF assms(1), of k 1] by auto
    then show ?thesis by (rule aging_top_stays [OF assms(1)])
  next
    case False
    have step: "f (Suc k) = aging1 (tk k) (f k)" using assms(1) by blast
    from aging1_progress [OF Suc.prems(1,2), of "tk k"] False Suc.prems show ?thesis
      by (intro Suc.IH) (auto simp: step)
  qed
  then show ?case by simp
qed

text \<open>C8: Aging bounds waiting: a process that stays runnable and unserved through
  800 ticks for each level it is below the top has been moved up to queue 0 by then.\<close>

theorem aging_bounds_waiting:
  assumes "pstate (f 0) = RUNNABLE" and "0 \<le> queue (f 0)" and "0 \<le> wait_time (f 0)"
    and "\<forall>n. f (Suc n) = aging1 (tk n) (f n)"
  shows "queue (f (nat (queue (f 0)) * 800)) = 0"
proof -
  have "age_left (f 0) \<le> nat (queue (f 0)) * 800"
    using assms(2,3) by (simp add: age_left_def MAX_WAIT_TIME_def nat_mult_distrib [symmetric])
  from aging_reaches_top [OF assms(4,1,2) this] show ?thesis by simp
qed

theorem aging_bounds_waiting_witness:
  "queue ((aging1 5 ^^ 1600) (blank_proc\<lparr>pstate := RUNNABLE, queue := 2\<rparr>)) = 0"
proof -
  let ?p = "blank_proc\<lparr>pstate := RUNNABLE, queue := 2\<rparr>"
  have "queue ((aging1 5 ^^ (nat (queue ?p) * 800)) ?p) = 0"
    using aging_bounds_waiting [of "\<lambda>n. (aging1 5 ^^ n) ?p" "\<lambda>_. 5"]
    by (simp add: blank_proc_def)
  then show ?thesis by simp
qed

end
