(* ===== verification/Sched_Lock.thy ===== *)
theory Sched_Lock
  imports Sched_Policy
begin

text \<open>
  The scheduler's routines as seen by the CPU that runs them: what each of them
  leaves in the table, the lock and the CPU entry, on every branch.
\<close>

named_theorems kst_simps \<open>table fields after an operation on the CPU, and conversely\<close>

section \<open>Fields untouched by CPU operations\<close>

lemma kst_upd_cpu [simp, kst_simps]:
  "procs (upd_cpu i f s) = procs s" "ptable_lock (upd_cpu i f s) = ptable_lock s"
  "rr_index (upd_cpu i f s) = rr_index s" "sjf_seed (upd_cpu i f s) = sjf_seed s"
  "ticks (upd_cpu i f s) = ticks s" "initproc (upd_cpu i f s) = initproc s"
  "nextpid (upd_cpu i f s) = nextpid s" "kpgdir (upd_cpu i f s) = kpgdir s"
  "total_lock (upd_cpu i f s) = total_lock s" "total_count (upd_cpu i f s) = total_count s"
  by (simp_all add: upd_cpu_def)

lemma kst_pushed [simp, kst_simps]:
  "procs (pushed i s) = procs s" "ptable_lock (pushed i s) = ptable_lock s"
  "initproc (pushed i s) = initproc s" "ticks (pushed i s) = ticks s"
  "total_lock (pushed i s) = total_lock s" "total_count (pushed i s) = total_count s"
  "lapicid (pushed i s) = lapicid s"
  by (simp_all add: pushed_def)

lemma kst_popped [simp, kst_simps]:
  "procs (popped i s) = procs s" "ptable_lock (popped i s) = ptable_lock s"
  "initproc (popped i s) = initproc s" "ticks (popped i s) = ticks s"
  "total_lock (popped i s) = total_lock s" "total_count (popped i s) = total_count s"
  "lapicid (popped i s) = lapicid s"
  by (simp_all add: popped_def)

lemma kst_settled [simp, kst_simps]:
  "procs (settled i s) = procs s" "ptable_lock (settled i s) = ptable_lock s"
  "initproc (settled i s) = initproc s" "ticks (settled i s) = ticks s"
  "total_lock (settled i s) = total_lock s" "total_count (settled i s) = total_count s"
  "lapicid (settled i s) = lapicid s" "IF (settled i s) = IF s"
  by (simp_all add: settled_def)

lemma length_cpus [simp]:
  "length (cpus (pushed i s)) = length (cpus s)" "length (cpus (popped i s)) = length (cpus s)"
  "length (cpus (settled i s)) = length (cpus s)"
  by (simp_all add: pushed_def popped_def settled_def)

lemma kst_upd_proc [simp, kst_simps]:
  "procs (upd_proc p f s) = (procs s)[p := f (procs s ! p)]"
  "cpus (upd_proc p f s) = cpus s" "lapicid (upd_proc p f s) = lapicid s" "IF (upd_proc p f s) = IF s"
  "ptable_lock (upd_proc p f s) = ptable_lock s" "initproc (upd_proc p f s) = initproc s"
  "total_lock (upd_proc p f s) = total_lock s" "total_count (upd_proc p f s) = total_count s"
  "ticks (upd_proc p f s) = ticks s" "kpgdir (upd_proc p f s) = kpgdir s"
  by (simp_all add: upd_proc_def)

lemma on_cpu_kst [simp, kst_simps]:
  "on_cpu i (s\<lparr>procs := ps\<rparr>) = on_cpu i s" "on_cpu i (s\<lparr>ptable_lock := lk\<rparr>) = on_cpu i s"
  "on_cpu i (s\<lparr>rr_index := ix\<rparr>) = on_cpu i s" "on_cpu i (s\<lparr>sjf_seed := sd\<rparr>) = on_cpu i s"
  "on_cpu i (s\<lparr>nextpid := n\<rparr>) = on_cpu i s" "on_cpu i (s\<lparr>total_lock := lk\<rparr>) = on_cpu i s"
  "on_cpu i (s\<lparr>total_count := c\<rparr>) = on_cpu i s" "on_cpu i (upd_proc p f s) = on_cpu i s"
  by (simp_all add: on_cpu_def)

text \<open>An update of the own entry that keeps the APIC id and the nesting count.\<close>

lemma on_cpu_upd_cpu:
  assumes "on_cpu i s" and "apicid (f (cpus s ! i)) = apicid (cpus s ! i)" and "ncli (f (cpus s ! i)) = ncli (cpus s ! i)"
  shows "on_cpu i (upd_cpu i f s)"
  using assms on_cpu_length [OF assms(1)]
  by (auto simp: on_cpu_def intro!: first_idx_update)

section \<open>The table lock\<close>

definition grabbed :: "nat \<Rightarrow> 'a kst \<Rightarrow> 'a kst" where
  "grabbed i s = (pushed i s)\<lparr>ptable_lock := (ptable_lock s)\<lparr>locked := 1, lk_cpu := Some i\<rparr>\<rparr>"

definition freed :: "nat \<Rightarrow> 'a kst \<Rightarrow> 'a kst" where
  "freed i s = (popped i s)\<lparr>ptable_lock := (ptable_lock s)\<lparr>lk_cpu := None, locked := 0\<rparr>\<rparr>"

definition held_by :: "nat \<Rightarrow> spinlock \<Rightarrow> bool" where
  "held_by i lk \<longleftrightarrow> locked lk \<noteq> 0 \<and> lk_cpu lk = Some i"

lemma held_by_grab [simp]: "held_by i (lk\<lparr>locked := 1, lk_cpu := j\<rparr>) \<longleftrightarrow> j = Some i"
  by (simp add: held_by_def)

lemma acquire_ptable_on:
  "on_cpu i s \<Longrightarrow> acquire_ptable s =
    (if locked (ptable_lock s) = 0 then Ok (grabbed i s)
     else if lk_cpu (ptable_lock s) = Some i then Panic ''acquire'' else Block)"
  by (simp add: acquire_ptable_def acquire_on_cpu grabbed_def)

lemma release_ptable_on:
  "on_cpu i s \<Longrightarrow> 0 < ncli (cpus s ! i) \<Longrightarrow>
   release_ptable s = (if held_by i (ptable_lock s) then Ok (freed i s) else Panic ''release'')"
  by (simp add: release_ptable_def release_on_cpu freed_def held_by_def)

lemma grabbed_simps [simp]:
  "procs (grabbed i s) = procs s"
  "ptable_lock (grabbed i s) = (ptable_lock s)\<lparr>locked := 1, lk_cpu := Some i\<rparr>" "\<not> IF (grabbed i s)"
  "initproc (grabbed i s) = initproc s" "ticks (grabbed i s) = ticks s" "lapicid (grabbed i s) = lapicid s"
  "cpus (grabbed i s) = cpus (pushed i s)" "nextpid (grabbed i s) = nextpid s"
  "kpgdir (grabbed i s) = kpgdir s"
  by (simp_all add: grabbed_def pushed_def)

lemma on_cpu_grabbed: "on_cpu i s \<Longrightarrow> on_cpu i (grabbed i s)"
  by (simp add: grabbed_def on_cpu_pushed)

lemma ncli_grabbed: "on_cpu i s \<Longrightarrow> ncli (cpus (grabbed i s) ! i) = ncli (cpus s ! i) + 1"
  by (simp add: grabbed_def ncli_pushed)

lemma freed_simps [simp]:
  "procs (freed i s) = procs s" "locked (ptable_lock (freed i s)) = 0" "lk_cpu (ptable_lock (freed i s)) = None"
  "initproc (freed i s) = initproc s" "lapicid (freed i s) = lapicid s" "cpus (freed i s) = cpus (popped i s)"
  by (simp_all add: freed_def)

lemma on_cpu_freed: "on_cpu i s \<Longrightarrow> 0 < ncli (cpus s ! i) \<Longrightarrow> on_cpu i (freed i s)"
  by (simp add: freed_def on_cpu_popped)

text \<open>
  What a critical section leaves that enters with the lock free, changes the table
  (and possibly \<open>nextpid\<close>) and releases.
\<close>

definition left :: "nat \<Rightarrow> proc list \<Rightarrow> 'a kst \<Rightarrow> 'a kst" where
  "left i ps s = (settled i s)\<lparr>procs := ps, ptable_lock := (ptable_lock s)\<lparr>locked := 0, lk_cpu := None\<rparr>\<rparr>"

lemma popped_grabbed:
  assumes "on_cpu i s"
  shows "popped i (grabbed i s) = (settled i s)\<lparr>ptable_lock := (ptable_lock s)\<lparr>locked := 1, lk_cpu := Some i\<rparr>\<rparr>"
proof -
  have "popped i (x\<lparr>ptable_lock := lk\<rparr>) = (popped i x)\<lparr>ptable_lock := lk\<rparr>" for x :: "'a kst" and lk
    by (simp add: popped_def upd_cpu_def)
  then show ?thesis by (simp add: grabbed_def popped_pushed [OF assms])
qed

lemma release_section:
  assumes "on_cpu i s"
  shows "release_ptable ((grabbed i s)\<lparr>procs := ps\<rparr>) = Ok (left i ps s)"
proof -
  have "popped i (x\<lparr>procs := ps\<rparr>) = (popped i x)\<lparr>procs := ps\<rparr>" for x :: "'a kst"
    by (simp add: popped_def upd_cpu_def)
  then have "freed i ((grabbed i s)\<lparr>procs := ps\<rparr>) = left i ps s"
    by (simp add: freed_def left_def popped_grabbed [OF assms])
  moreover have "0 < ncli (cpus (grabbed i s) ! i)" using assms ncli_grabbed [OF assms] by (simp add: on_cpu_def)
  ultimately show ?thesis
    using on_cpu_grabbed [OF assms] by (simp add: release_ptable_on [of i])
qed

lemma left_simps [simp]:
  "procs (left i ps s) = ps" "locked (ptable_lock (left i ps s)) = 0" "IF (left i ps s) = IF s"
  "lapicid (left i ps s) = lapicid s" "cpus (left i ps s) = cpus (settled i s)"
  "lk_cpu (ptable_lock (left i ps s)) = None"
  by (simp_all add: left_def)

lemma on_cpu_left: "on_cpu i s \<Longrightarrow> on_cpu i (left i ps s)"
  by (simp add: left_def on_cpu_settled)

lemma release_grabbed:
  assumes "on_cpu i s"
  shows "release_ptable (grabbed i s) = Ok (left i (procs s) s)"
proof -
  have "(grabbed i s)\<lparr>procs := procs s\<rparr> = grabbed i s" by (rule kstate.equality) simp_all
  with release_section [OF assms, of "procs s"] show ?thesis by simp
qed

lemma myproc_on: "on_cpu i s \<Longrightarrow> myproc s = Ok (cproc (cpus s ! i), settled i s)"
  using on_cpu_length [of i s]
  by (simp add: myproc_def pushcli_on_cpu mycpu_pushed popcli_pushed) (simp add: pushed_def)

section \<open>Sections that only change the table\<close>

lemma aging_on:
  "on_cpu i s \<Longrightarrow> locked (ptable_lock s) = 0 \<Longrightarrow> aging s = Ok (left i (map (aging1 (ticks s)) (procs s)) s)"
  by (simp add: aging_def acquire_ptable_on release_section)

lemma wakeup_on:
  "on_cpu i s \<Longrightarrow> locked (ptable_lock s) = 0 \<Longrightarrow> wakeup ch s = Ok (left i (map (wake_if ch) (procs s)) s)"
  by (simp add: wakeup_def wakeup1_def acquire_ptable_on release_section)

lemma upd_proc_grabbed: "upd_proc p f (grabbed i s) = (grabbed i s)\<lparr>procs := (procs s)[p := f (procs s ! p)]\<rparr>"
  by (simp add: upd_proc_def)

lemma kill_on:
  assumes "on_cpu i s" and "locked (ptable_lock s) = 0"
  shows "kill pd s = (case first_idx (\<lambda>p. pid p = pd) (procs s) of
      Some j \<Rightarrow> Ok (0, left i ((procs s)[j := (procs s ! j)\<lparr>killed := True,
          pstate := (if pstate (procs s ! j) = SLEEPING then RUNNABLE else pstate (procs s ! j))\<rparr>]) s)
    | None \<Rightarrow> Ok (-1, left i (procs s) s))"
  using assms
  by (simp add: kill_def acquire_ptable_on upd_proc_grabbed release_section release_grabbed split: option.split)

lemma set_queue_on:
  assumes "on_cpu i s" and "locked (ptable_lock s) = 0" and "0 < pd" "pd < int NPROC" "0 \<le> q" "q \<le> 3"
  shows "set_queue pd q s = (case first_idx (\<lambda>p. pid p = pd) (procs s) of
      Some j \<Rightarrow> if queue (procs s ! j) = q then Ok (-1, left i (procs s) s)
        else Ok (0, left i ((procs s)[j := (procs s ! j)\<lparr>queue := q, arrival := sint (ticks s)\<rparr>]) s)
    | None \<Rightarrow> Ok (-1, left i (procs s) s))"
  using assms
  by (simp add: set_queue_def acquire_ptable_on upd_proc_grabbed release_section release_grabbed split: option.split)

lemma set_sjf_info_on:
  assumes "on_cpu i s" and "locked (ptable_lock s) = 0"
  shows "set_sjf_info pd b c s =
    (if pd \<le> 0 \<or> pd \<ge> int NPROC then Ok (-1, grabbed i s)
     else case first_idx (\<lambda>p. pid p = pd) (procs s) of
      Some j \<Rightarrow> Ok (0, left i ((procs s)[j := (procs s ! j)\<lparr>burst_time := b, confidence := c\<rparr>]) s)
    | None \<Rightarrow> Ok (-1, left i (procs s) s))"
  using assms
  by (simp add: set_sjf_info_def acquire_ptable_on upd_proc_grabbed release_section release_grabbed split: option.split)

lemma fork_publish_on:
  assumes "on_cpu i s" and "locked (ptable_lock s) = 0"
  shows "fork_publish p np s = Ok (left i ((procs s)[np := (procs s ! np)\<lparr>
      queue := (if pid (procs s ! p) > 2 \<and> pid (procs s ! np) > 2 then 2 else queue (procs s ! np)),
      pstate := RUNNABLE\<rparr>]) s)"
  using assms by (simp add: fork_publish_def acquire_ptable_on upd_proc_grabbed release_section)

section \<open>Switching away\<close>

lemma sched_on:
  assumes "on_cpu i s"
  shows "sched s = (if \<not> held_by i (ptable_lock s) then Panic ''sched ptable.lock''
    else if IF s then Panic ''mycpu called with interrupts enabled''
    else if ncli (cpus s ! i) \<noteq> 1 then Panic ''sched locks''
    else case cproc (cpus s ! i) of None \<Rightarrow> Undef ''p''
      | Some p \<Rightarrow> if pstate (procs s ! p) = RUNNING then Panic ''sched running'' else Ok (intena (cpus s ! i), s))"
proof -
  note on1 = on_cpu_settled [OF assms] and len = on_cpu_length [OF assms]
  let ?t = "settled i (settled i s)"
  have ncli: "ncli (cpus ?t ! i) = ncli (cpus s ! i)" using len by (simp add: settled_def)
  have same: "ncli (cpus s ! i) = 1 \<Longrightarrow> ?t = s"
    using assms by (simp add: settled_id)
  have my: "mycpu ?t = (if IF s then Panic ''mycpu called with interrupts enabled'' else Ok i)"
  proof (cases "IF s")
    case True
    then show ?thesis by (simp add: mycpu_def)
  next
    case False
    then show ?thesis using on_cpu_settled [OF on1] by (simp add: mycpu_on_cpu)
  qed
  show ?thesis
    using assms ncli same my
    by (auto simp: sched_def myproc_on holding_on_cpu [OF on1] held_by_def guardr_def split: option.split)
qed

lemma sched_switch:
  assumes "on_cpu i s" and "held_by i (ptable_lock s)" and "ncli (cpus s ! i) = 1"
    and "cproc (cpus s ! i) = Some p" and "pstate (procs s ! p) \<noteq> RUNNING"
  shows "sched s = Ok (intena (cpus s ! i), s)"
  using assms by (simp add: sched_on) (simp add: on_cpu_def)

section \<open>The scheduler loop\<close>

definition table_ok :: "proc list \<Rightarrow> bool" where
  "table_ok ps \<longleftrightarrow> length ps = NPROC \<and> bursts_ok ps \<and> arrivals_ok ps"

lemma queue_pick_spec:
  assumes "table_ok (procs s)" and "q < 3"
  shows "\<exists>po s'. queue_pick q s = Some (Ok (po, s')) \<and> same_table s s' \<and> pick_ok (int q) (procs s) po"
proof -
  have ok: "length (procs s) = NPROC" "bursts_ok (procs s)" "arrivals_ok (procs s)"
    using assms(1) by (simp_all add: table_ok_def)
  consider "q = 0" | "q = 1" | "q = 2" using assms(2) by linarith
  then show ?thesis
    using rr.pick_spec [OF ok(1)] sjf.pick_spec [OF ok(1,2)] fcfs.pick_spec [OF ok(1,3)]
    by cases (simp_all add: queue_pick_def)
qed

text \<open>Dispatching on CPU \<open>i\<close>, which holds the lock once: the switch itself cannot fail for a process with stack and page table.\<close>

lemma switchuvm_on:
  assumes "on_cpu i s" and "0 < ncli (cpus s ! i)"
    and "kstack (procs s ! p) \<noteq> 0" and "pgdir (procs s ! p) \<noteq> 0"
  shows "switchuvm p s = Ok (upd_cpu i (\<lambda>c. c\<lparr>ts_esp0 := kstack (procs s ! p) + KSTACKSIZE,
      cr3 := V2P (pgdir (procs s ! p))\<rparr>) s)"
proof -
  let ?f = "\<lambda>c :: cpu. c\<lparr>ts_esp0 := kstack (procs s ! p) + KSTACKSIZE, cr3 := V2P (pgdir (procs s ! p))\<rparr>"
  have on: "on_cpu i (upd_cpu i ?f s)" using assms(1) by (intro on_cpu_upd_cpu) simp_all
  have "upd_cpu i ?f (pushed i s) = pushed i (upd_cpu i ?f s)"
    using on_cpu_length [OF assms(1)]
    by (auto simp: pushed_def upd_cpu_def cong: if_cong
        intro!: arg_cong [where f = "\<lambda>c. s\<lparr>IF := False, cpus := (cpus s)[i := c]\<rparr>"] cpu.equality)
  moreover have "settled i (upd_cpu i ?f s) = upd_cpu i ?f s"
    using on_cpu_length [OF assms(1)] assms(2) by (intro settled_id [OF on]) simp
  ultimately show ?thesis
    using assms popcli_pushed [OF on]
    by (simp add: switchuvm_def pushcli_on_cpu mycpu_pushed)
qed

lemma dispatch_on:
  assumes "on_cpu i s" and "0 < ncli (cpus s ! i)" and "p < length (procs s)"
    and "kstack (procs s ! p) \<noteq> 0" and "pgdir (procs s ! p) \<noteq> 0"
  shows "dispatch i p s = Ok (upd_cpu i (\<lambda>c. c\<lparr>cproc := Some p, ts_esp0 := kstack (procs s ! p) + KSTACKSIZE,
      cr3 := V2P (pgdir (procs s ! p))\<rparr>)
    (upd_proc p (\<lambda>x. x\<lparr>wait_time := 0, pstate := RUNNING\<rparr>) s))"
proof -
  let ?s1 = "upd_cpu i (\<lambda>c. c\<lparr>cproc := Some p\<rparr>) (upd_proc p (\<lambda>x. x\<lparr>wait_time := 0\<rparr>) s)"
  have "on_cpu i ?s1" using assms(1) by (intro on_cpu_upd_cpu) simp_all
  then have "switchuvm p ?s1 = Ok (upd_cpu i (\<lambda>c. c\<lparr>ts_esp0 := kstack (procs s ! p) + KSTACKSIZE,
      cr3 := V2P (pgdir (procs s ! p))\<rparr>) ?s1)"
    using switchuvm_on [of i ?s1 p] on_cpu_length [OF assms(1)] assms by simp
  then show ?thesis
    using on_cpu_length [OF assms(1)] assms(3)
    by (simp add: dispatch_def Let_def upd_cpu_def upd_proc_def)
qed

text \<open>What a routine of CPU \<open>i\<close> keeps when it changes scheduling data of its own entry only.\<close>

definition same_cpu :: "cpu \<Rightarrow> cpu \<Rightarrow> bool" where
  "same_cpu c d \<longleftrightarrow> apicid d = apicid c \<and> ncli d = ncli c \<and> intena d = intena c"

definition own_entry :: "nat \<Rightarrow> 'a kst \<Rightarrow> 'a kst \<Rightarrow> bool" where
  "own_entry i s t \<longleftrightarrow> (\<exists>c. cpus t = (cpus s)[i := c] \<and> same_cpu (cpus s ! i) c)
     \<and> lapicid t = lapicid s \<and> IF t = IF s \<and> ptable_lock t = ptable_lock s \<and> kpgdir t = kpgdir s"

lemma own_entry_on_cpu: "own_entry i s t \<Longrightarrow> on_cpu i s \<Longrightarrow> on_cpu i t"
  using on_cpu_length [of i s]
  by (auto simp: own_entry_def same_cpu_def on_cpu_def intro!: first_idx_update)

lemma own_entry_refl: "i < length (cpus s) \<Longrightarrow> own_entry i s s"
  by (auto simp: own_entry_def same_cpu_def intro!: exI [of _ "cpus s ! i"])

lemma own_entry_trans: "i < length (cpus s) \<Longrightarrow> own_entry i s t \<Longrightarrow> own_entry i t u \<Longrightarrow> own_entry i s u"
  by (auto simp: own_entry_def same_cpu_def)

lemma own_entry_upd_cpu:
  "i < length (cpus s) \<Longrightarrow> same_cpu (cpus s ! i) (f (cpus s ! i)) \<Longrightarrow> own_entry i s (upd_cpu i f s)"
  by (auto simp: own_entry_def)

lemma own_entry_same_table: "i < length (cpus s) \<Longrightarrow> same_table s t \<Longrightarrow> own_entry i s t"
  by (auto simp: own_entry_def same_table_def same_cpu_def intro!: exI [of _ "cpus s ! i"])

lemma own_entry_ncli: "own_entry i s t \<Longrightarrow> i < length (cpus s) \<Longrightarrow> ncli (cpus t ! i) = ncli (cpus s ! i)"
  by (auto simp: own_entry_def same_cpu_def)

definition bootable :: "proc list \<Rightarrow> bool" where
  "bootable ps \<longleftrightarrow> (\<forall>p \<in> set ps. pstate p = RUNNABLE \<longrightarrow> kstack p \<noteq> 0 \<and> pgdir p \<noteq> 0)"

abbreviation start_queue :: "nat \<Rightarrow> 'a kst \<Rightarrow> nat" where
  "start_queue i s \<equiv> current_queue (cpus (next_queue i s) ! i)"

text \<open>
  The outcome of the loop: the process served comes from the first nonempty queue, and
  nothing is served only if the queues from the starting one on are empty.
\<close>

definition loop_ok :: "nat \<Rightarrow> nat \<Rightarrow> 'a kst \<Rightarrow> nat option \<Rightarrow> 'a kst \<Rightarrow> bool" where
  "loop_ok i q0 s po t \<longleftrightarrow> own_entry i s t \<and> (case po of
       None \<Rightarrow> procs t = procs s \<and> cproc (cpus t ! i) = cproc (cpus s ! i)
         \<and> consecutive_runs_queue (cpus t ! i) = 0 \<and> current_queue (cpus t ! i) = 2
         \<and> (\<forall>q p. q0 \<le> q \<and> q < 3 \<and> p < NPROC \<longrightarrow> \<not> cand (int q) (procs s ! p))
     | Some p \<Rightarrow> \<exists>q. q0 \<le> q \<and> q < 3 \<and> p < NPROC \<and> cand (int q) (procs s ! p)
         \<and> (\<forall>q' p'. q0 \<le> q' \<and> q' < q \<and> p' < NPROC \<longrightarrow> \<not> cand (int q') (procs s ! p'))
         \<and> procs t = (procs s)[p := (procs s ! p)\<lparr>wait_time := 0, pstate := RUNNING\<rparr>]
         \<and> cproc (cpus t ! i) = Some p \<and> current_queue (cpus t ! i) = q
         \<and> cr3 (cpus t ! i) = V2P (pgdir (procs s ! p)))"

lemma next_queue_simps [simp]:
  "procs (next_queue i s) = procs s" "length (cpus (next_queue i s)) = length (cpus s)"
  by (simp_all add: next_queue_def)

lemma own_entry_next_queue: "i < length (cpus s) \<Longrightarrow> own_entry i s (next_queue i s)"
  by (simp add: next_queue_def own_entry_refl own_entry_upd_cpu same_cpu_def)

lemma loop_ok_dispatch:
  assumes "own_entry i s s2" and "procs s2 = procs s" and "on_cpu i s" and "0 < ncli (cpus s ! i)"
    and "table_ok (procs s)" and "bootable (procs s)" and "current_queue (cpus s2 ! i) = q"
    and "q < 3" and "pick_ok (int q) (procs s) (Some p)"
  shows "\<exists>t. dispatch i p s2 = Ok t \<and> loop_ok i q s (Some p) t"
proof -
  have i: "i < length (cpus s)" using on_cpu_length [OF assms(3)] .
  then have i2: "i < length (cpus s2)" using assms(1) by (auto simp: own_entry_def)
  have p: "p < NPROC" "cand (int q) (procs s ! p)" "p < length (procs s)"
    using assms(5,9) by (simp_all add: pick_ok_def table_ok_def)
  then have "kstack (procs s ! p) \<noteq> 0" "pgdir (procs s ! p) \<noteq> 0"
    using assms(6) by (auto simp: bootable_def cand_def)
  then have d: "dispatch i p s2 = Ok (upd_cpu i (\<lambda>c. c\<lparr>cproc := Some p, ts_esp0 := kstack (procs s ! p) + KSTACKSIZE,
      cr3 := V2P (pgdir (procs s ! p))\<rparr>) (upd_proc p (\<lambda>x. x\<lparr>wait_time := 0, pstate := RUNNING\<rparr>) s2))"
    using assms p own_entry_on_cpu [OF assms(1,3)] own_entry_ncli [OF assms(1) i] by (subst dispatch_on) auto
  show ?thesis unfolding d
    using assms(1,2,7,8) p i2 by (auto simp: loop_ok_def own_entry_def same_cpu_def)
qed

lemma loop_ok_skip:
  assumes "loop_ok i (Suc q0) s3 po t" and "own_entry i s s3" and "i < length (cpus s)" and "procs s3 = procs s"
    and "cproc (cpus s3 ! i) = cproc (cpus s ! i)" and "\<forall>p < NPROC. \<not> cand (int q0) (procs s ! p)"
  shows "loop_ok i q0 s po t"
proof -
  have own: "own_entry i s t" using assms(1-3) by (auto simp: loop_ok_def intro: own_entry_trans)
  have q: "q0 \<le> q \<longleftrightarrow> q = q0 \<or> Suc q0 \<le> q" for q by auto
  show ?thesis
  proof (cases po)
    case None
    with assms own show ?thesis unfolding loop_ok_def q by auto
  next
    case (Some p)
    with assms(1) obtain k where k: "Suc q0 \<le> k" "k < 3" "p < NPROC" "cand (int k) (procs s3 ! p)"
      "\<forall>q' p'. Suc q0 \<le> q' \<and> q' < k \<and> p' < NPROC \<longrightarrow> \<not> cand (int q') (procs s3 ! p')"
      "procs t = (procs s3)[p := (procs s3 ! p)\<lparr>wait_time := 0, pstate := RUNNING\<rparr>]"
      "cproc (cpus t ! i) = Some p" "current_queue (cpus t ! i) = k"
      "cr3 (cpus t ! i) = V2P (pgdir (procs s3 ! p))" by (auto simp: loop_ok_def)
    moreover have "\<not> cand (int q') (procs s ! p')" if "q0 \<le> q'" "q' < k" "p' < NPROC" for q' p'
      using k(5) assms(4,6) that unfolding q by metis
    ultimately show ?thesis using Some own assms(4) unfolding loop_ok_def by auto
  qed
qed

lemma scheduler_loop_spec:
  assumes "on_cpu i s" and "0 < ncli (cpus s ! i)" and "table_ok (procs s)" and "bootable (procs s)"
    and "start_queue i s < 3"
  shows "\<exists>po t. scheduler_loop i s = Some (Ok (po, t)) \<and> loop_ok i (start_queue i s) s po t"
  using assms
proof (induction "2 - start_queue i s" arbitrary: s rule: less_induct)
  case less
  let ?s1 = "next_queue i s" and ?q = "start_queue i s"
  note i = on_cpu_length [OF less.prems(1)]
  obtain po s2 where pick: "queue_pick ?q ?s1 = Some (Ok (po, s2))" "same_table ?s1 s2"
    "pick_ok (int ?q) (procs s) po"
    using queue_pick_spec [of ?s1 ?q] less.prems by auto
  have own2: "own_entry i s s2"
    using own_entry_trans [OF i own_entry_next_queue [OF i] own_entry_same_table [OF _ pick(2)]] i by simp
  have tab2: "procs s2 = procs s" "current_queue (cpus s2 ! i) = ?q"
    using pick(2) by (simp_all add: same_table_def)
  show ?case
  proof (cases po)
    case (Some p)
    from loop_ok_dispatch [OF own2 tab2(1) less.prems(1-4) tab2(2) less.prems(5)] pick(3) Some
    obtain t where t: "dispatch i p s2 = Ok t" "loop_ok i ?q s (Some p) t" by blast
    then have "scheduler_loop i s = Some (Ok (Some p, t))"
      using pick(1) Some by (subst scheduler_loop.simps) (simp add: Let_def)
    with t show ?thesis by blast
  next
    case None
    let ?s3 = "upd_cpu i (\<lambda>c. c\<lparr>consecutive_runs_queue := 0\<rparr>) s2"
    have i2: "i < length (cpus s2)" using own2 i by (auto simp: own_entry_def)
    have own3: "own_entry i s ?s3"
      using own_entry_trans [OF i own2] own_entry_upd_cpu [OF i2] by (simp add: same_cpu_def)
    have c3: "cproc (cpus ?s3 ! i) = cproc (cpus s ! i)" "consecutive_runs_queue (cpus ?s3 ! i) = 0"
      "current_queue (cpus ?s3 ! i) = ?q" "procs ?s3 = procs s"
      using pick(2) i i2 tab2 by (simp_all add: same_table_def next_queue_def)
    have none: "\<forall>p < NPROC. \<not> cand (int ?q) (procs s ! p)" using pick(3) None by (simp add: pick_ok_def)
    show ?thesis
    proof (cases "?q = 2")
      case True
      then have "scheduler_loop i s = Some (Ok (None, ?s3))"
        using pick(1) None c3(3) by (subst scheduler_loop.simps) (simp add: Let_def NQUEUE_def)
      moreover have "loop_ok i ?q s None ?s3"
        using own3 c3 none True unfolding loop_ok_def by (auto simp: numeral_2_eq_2 numeral_3_eq_3 less_Suc_eq)
      ultimately show ?thesis by blast
    next
      case False
      have nq: "start_queue i ?s3 = Suc ?q"
        using c3(2,3) i2 False less.prems(5) by (simp add: next_queue_def)
      have "\<exists>po t. scheduler_loop i ?s3 = Some (Ok (po, t)) \<and> loop_ok i (start_queue i ?s3) ?s3 po t"
        using less.prems own_entry_on_cpu [OF own3 less.prems(1)] own_entry_ncli [OF own3 i] False nq c3(4)
        by (intro less.hyps) simp_all
      then obtain po' t where t: "scheduler_loop i ?s3 = Some (Ok (po', t))" "loop_ok i (Suc ?q) ?s3 po' t"
        unfolding nq by blast
      have "scheduler_loop i s = scheduler_loop i ?s3"
        using pick(1) None c3(3) False by (subst scheduler_loop.simps) (simp add: Let_def NQUEUE_def)
      with t(1) loop_ok_skip [OF t(2) own3 i c3(4,1) none] show ?thesis by (metis (no_types))
    qed
  qed
qed

section \<open>Yield and sleep\<close>

lemma settled_grabbed:
  assumes "on_cpu i s"
  shows "settled i (grabbed i s) = grabbed i s"
  using assms ncli_grabbed [OF assms] by (intro settled_id on_cpu_grabbed) (simp_all add: on_cpu_def)

text \<open>The new queue counter of the CPU and the answer of \<^verbatim>\<open>_should_yield\<close>.\<close>

definition slice_over :: "int \<Rightarrow> int \<Rightarrow> bool" where
  "slice_over runs q \<longleftrightarrow> runs + 1 \<ge> time_slice * queue_weights ! nat q"

lemma should_yield_on:
  assumes "on_cpu i s" and "0 < ncli (cpus s ! i)" and "cproc (cpus s ! i) = Some p"
    and "0 \<le> queue (procs s ! p)" and "queue (procs s ! p) < int NQUEUE"
  shows "should_yield s =
    (let q = queue (procs s ! p); r = consecutive_runs_queue (cpus s ! i) in
     Ok (slice_over r q \<or> q = 0 \<and> consecutive_runs (procs s ! p) \<ge> rr_timeq,
         upd_cpu i (\<lambda>c. c\<lparr>consecutive_runs_queue := (if slice_over r q then 0 else r + 1)\<rparr>) s))"
proof -
  have "\<not> IF s" using assms(1,2) by (simp add: on_cpu_def)
  with assms(1) have "mycpu s = Ok i" by (rule mycpu_on_cpu)
  then show ?thesis
    using assms on_cpu_length [OF assms(1)]
    by (auto simp: should_yield_def myproc_on settled_id Let_def slice_over_def upd_cpu_def)
qed

lemma should_yield_bad_queue:
  assumes "on_cpu i s" and "cproc (cpus s ! i) = Some p" and "queue (procs s ! p) < 0 \<or> int NQUEUE \<le> queue (procs s ! p)"
  shows "should_yield s = Undef ''queue_weights''"
  using assms by (auto simp: should_yield_def myproc_on Let_def)

text \<open>
  \<^verbatim>\<open>yield\<close> by the process \<open>p\<close> that runs on CPU \<open>i\<close> and holds no lock: it keeps the CPU
  and the lock is free again, or it is runnable and the CPU holds the lock.
\<close>

definition yield_outcome :: "nat \<Rightarrow> nat \<Rightarrow> 'a kst \<Rightarrow> ctl \<times> 'a kst" where
  "yield_outcome i p s =
     (let q = queue (procs s ! p); r = consecutive_runs_queue (cpus s ! i); n = consecutive_runs (procs s ! p) + 1;
          f = (\<lambda>c. c\<lparr>consecutive_runs_queue := (if slice_over r q then 0 else r + 1)\<rparr>)
      in if slice_over r q \<or> q = 0 \<and> n \<ge> rr_timeq
         then (Swtch (intena (cpus (grabbed i s) ! i)),
               upd_proc p (\<lambda>x. x\<lparr>consecutive_runs := 0, pstate := RUNNABLE\<rparr>) (upd_cpu i f (grabbed i s)))
         else (Kept, left i ((procs s)[p := (procs s ! p)\<lparr>consecutive_runs := n\<rparr>]) (upd_cpu i f s)))"

lemma grabbed_runs:
  "i < length (cpus s) \<Longrightarrow> upd_cpu i (\<lambda>c. c\<lparr>consecutive_runs_queue := k\<rparr>) (grabbed i s) =
   grabbed i (upd_cpu i (\<lambda>c. c\<lparr>consecutive_runs_queue := k\<rparr>) s)"
  by (auto simp: grabbed_def pushed_def upd_cpu_def cong: if_cong
      intro!: kstate.equality arg_cong [where f = "\<lambda>c. (cpus s)[i := c]"] cpu.equality)

lemma upd_cpu_upd_proc: "upd_cpu i f (upd_proc p g s) = upd_proc p g (upd_cpu i f s)"
  by (simp add: upd_cpu_def upd_proc_def)

lemma yield_on:
  assumes "on_cpu i s" and "locked (ptable_lock s) = 0" and "ncli (cpus s ! i) = 0" and "cproc (cpus s ! i) = Some p"
    and "p < length (procs s)" and "0 \<le> queue (procs s ! p)" and "queue (procs s ! p) < int NQUEUE"
  shows "yield s = Ok (yield_outcome i p s)"
proof -
  note i = on_cpu_length [OF assms(1)]
  let ?q = "queue (procs s ! p)" and ?r = "consecutive_runs_queue (cpus s ! i)"
  let ?n = "consecutive_runs (procs s ! p) + 1"
  let ?k = "if slice_over ?r ?q then 0 else ?r + 1"
  let ?s1 = "upd_proc p (\<lambda>x. x\<lparr>consecutive_runs := consecutive_runs x + 1\<rparr>) (grabbed i s)"
  let ?s2 = "upd_cpu i (\<lambda>c. c\<lparr>consecutive_runs_queue := ?k\<rparr>) ?s1"
  have c: "cproc (cpus (grabbed i s) ! i) = Some p" "consecutive_runs_queue (cpus (grabbed i s) ! i) = ?r"
    "ncli (cpus (grabbed i s) ! i) = 1"
    using assms(3,4) i by (simp_all add: pushed_def)
  have on1: "on_cpu i ?s1" using on_cpu_grabbed [OF assms(1)] by simp
  have y: "should_yield ?s1 = Ok (slice_over ?r ?q \<or> ?q = 0 \<and> ?n \<ge> rr_timeq, ?s2)"
    using assms(5-7) c by (subst should_yield_on [OF on1, where p = p]) (simp_all add: Let_def)
  have on2: "on_cpu i ?s2" using on1 by (intro on_cpu_upd_cpu) simp_all
  show ?thesis
  proof (cases "slice_over ?r ?q \<or> ?q = 0 \<and> ?n \<ge> rr_timeq")
    case True
    let ?s3 = "upd_proc p (\<lambda>x. x\<lparr>consecutive_runs := 0, pstate := RUNNABLE\<rparr>) ?s2"
    have "sched ?s3 = Ok (intena (cpus ?s3 ! i), ?s3)"
      by (rule sched_switch [where p = p]) (use on2 c i assms(5) in simp_all)
    then have "sched ?s3 = Ok (intena (cpus (grabbed i s) ! i), ?s3)" using i by simp
    moreover have "?s3 = upd_proc p (\<lambda>x. x\<lparr>consecutive_runs := 0, pstate := RUNNABLE\<rparr>)
        (upd_cpu i (\<lambda>c. c\<lparr>consecutive_runs_queue := ?k\<rparr>) (grabbed i s))"
      using assms(5) by (simp add: upd_proc_def upd_cpu_def)
    ultimately show ?thesis
      using assms c y True on_cpu_grabbed [OF assms(1)]
      by (simp add: yield_def acquire_ptable_on myproc_on settled_grabbed yield_outcome_def Let_def)
  next
    case False
    have "?s2 = (grabbed i (upd_cpu i (\<lambda>c. c\<lparr>consecutive_runs_queue := ?k\<rparr>) s))
        \<lparr>procs := (procs s)[p := (procs s ! p)\<lparr>consecutive_runs := ?n\<rparr>]\<rparr>"
      by (subst upd_cpu_upd_proc, subst grabbed_runs [OF i]) (simp only: upd_proc_grabbed kst_upd_cpu)
    moreover have "on_cpu i (upd_cpu i (\<lambda>c. c\<lparr>consecutive_runs_queue := ?k\<rparr>) s)"
      using assms(1) by (intro on_cpu_upd_cpu) simp_all
    ultimately have "release_ptable ?s2 = Ok (left i ((procs s)[p := (procs s ! p)\<lparr>consecutive_runs := ?n\<rparr>])
        (upd_cpu i (\<lambda>c. c\<lparr>consecutive_runs_queue := ?k\<rparr>) s))" by (simp add: release_section)
    then show ?thesis
      using assms c y False on_cpu_grabbed [OF assms(1)]
      by (simp add: yield_def acquire_ptable_on myproc_on settled_grabbed yield_outcome_def Let_def)
  qed
qed

lemma sleep_on_ptable:
  assumes "on_cpu i s" and "held_by i (ptable_lock s)" and "ncli (cpus s ! i) = 1" and "cproc (cpus s ! i) = Some p"
    and "p < length (procs s)"
  shows "sleep ch Ptable_lk s = Ok (intena (cpus s ! i), Ptable_lk, upd_proc p (\<lambda>x. x\<lparr>chan := ch, pstate := SLEEPING\<rparr>) s)"
proof -
  let ?s1 = "upd_proc p (\<lambda>x. x\<lparr>chan := ch, pstate := SLEEPING\<rparr>) s"
  have "sched ?s1 = Ok (intena (cpus ?s1 ! i), ?s1)"
    by (rule sched_switch [where p = p]) (use assms in simp_all)
  then show ?thesis using assms by (simp add: sleep_def myproc_on settled_id)
qed

text \<open>With another lock: the table lock is taken before the other lock is given up.\<close>

lemma sleep_on_other:
  assumes "on_cpu i s" and "locked (ptable_lock s) = 0" and "held_by i l" and "ncli (cpus s ! i) = 1"
    and "cproc (cpus s ! i) = Some p" and "p < length (procs s)"
  shows "sleep ch (Other_lk l) s =
    (let t = upd_proc p (\<lambda>x. x\<lparr>chan := ch, pstate := SLEEPING\<rparr>) (popped i (grabbed i s))
     in Ok (intena (cpus t ! i), Other_lk (l\<lparr>lk_cpu := None, locked := 0\<rparr>), t))"
proof -
  let ?t = "upd_proc p (\<lambda>x. x\<lparr>chan := ch, pstate := SLEEPING\<rparr>) (popped i (grabbed i s))"
  note g = on_cpu_grabbed [OF assms(1)] and i = on_cpu_length [OF assms(1)]
  have n: "ncli (cpus (grabbed i s) ! i) = 2" using ncli_grabbed [OF assms(1)] assms(4) by simp
  have t: "on_cpu i ?t" "ncli (cpus ?t ! i) = 1" "cproc (cpus ?t ! i) = Some p"
    using on_cpu_popped [OF g] n i assms(5) by (simp_all add: popped_def pushed_def)
  have "sched ?t = Ok (intena (cpus ?t ! i), ?t)"
    by (rule sched_switch [where p = p]) (use t assms(6) in \<open>simp_all\<close>)
  moreover have "release l (grabbed i s) = Ok (l\<lparr>lk_cpu := None, locked := 0\<rparr>, popped i (grabbed i s))"
    using release_on_cpu [OF g, of l] n assms(3) by (simp add: held_by_def)
  ultimately show ?thesis
    using assms by (simp add: sleep_def myproc_on settled_id acquire_ptable_on Let_def)
qed

section \<open>Operations that leave the running processes alone\<close>

definition run_set :: "proc list \<Rightarrow> nat set" where
  "run_set ps = {p. p < length ps \<and> pstate (ps ! p) = RUNNING}"

definition calm :: "proc list \<Rightarrow> proc list \<Rightarrow> bool" where
  "calm ps ps' \<longleftrightarrow> length ps' = length ps \<and> run_set ps' = run_set ps"

lemma calm_refl [simp]: "calm ps ps"
  and calm_trans: "calm ps ps' \<Longrightarrow> calm ps' ps'' \<Longrightarrow> calm ps ps''"
  by (simp_all add: calm_def)

lemma calm_map: "(\<And>p. (pstate (f p) = RUNNING) = (pstate p = RUNNING)) \<Longrightarrow> calm ps (map f ps)"
  by (simp add: calm_def run_set_def cong: conj_cong)

lemma run_set_update:
  "p < length ps \<Longrightarrow> run_set (ps[p := x]) = (if pstate x = RUNNING then insert p (run_set ps) else run_set ps - {p})"
  by (auto simp: run_set_def nth_list_update split: if_splits)

lemma calm_update: "(p < length ps \<Longrightarrow> (pstate x = RUNNING) = (pstate (ps ! p) = RUNNING)) \<Longrightarrow> calm ps (ps[p := x])"
  by (cases "p < length ps") (auto simp: calm_def run_set_update, auto simp: run_set_def)

lemma calm_wake: "calm ps (map (wake_if ch) ps)"
  by (rule calm_map) (simp add: wake_if_def)

lemma calm_wakeup1: "calm (procs s) (procs (wakeup1 ch s))"
  by (simp add: wakeup1_def calm_wake)

text \<open>Operations that touch nothing but the table.\<close>

definition table_only :: "'a kst \<Rightarrow> 'a kst \<Rightarrow> bool" where
  "table_only s t \<longleftrightarrow> (\<exists>ps. t = s\<lparr>procs := ps\<rparr> \<and> calm (procs s) ps)"

lemma table_onlyI: "calm (procs s) ps \<Longrightarrow> table_only s (s\<lparr>procs := ps\<rparr>)"
  unfolding table_only_def by blast

lemma table_only_trans: "table_only s t \<Longrightarrow> table_only t u \<Longrightarrow> table_only s u"
  by (auto simp: table_only_def [of s t] table_only_def [of t u] intro!: table_onlyI intro: calm_trans)

lemma table_only_refl: "table_only s s"
  by (auto simp: table_only_def intro!: exI [of _ "procs s"])

lemma table_only_wakeup1: "table_only s (wakeup1 ch s)"
  by (simp add: wakeup1_def table_onlyI calm_wake)

lemma table_only_reparent1: "table_only s (reparent1 cur ini j s)"
proof -
  have "table_only s (upd_proc j (\<lambda>x. x\<lparr>parent := ini\<rparr>) s)"
    by (simp add: upd_proc_def table_onlyI calm_update)
  then show ?thesis
    by (auto simp: reparent1_def Let_def table_only_refl intro: table_only_trans [OF _ table_only_wakeup1])
qed

lemma table_only_reparent: "table_only s (reparent cur s)"
proof -
  have "table_only s t \<Longrightarrow> table_only s (fold (reparent1 cur ini) js t)" for js t ini
    by (induction js arbitrary: t) (simp, simp, blast intro: table_only_trans table_only_reparent1)
  then show ?thesis by (simp add: reparent_def table_only_refl)
qed

lemma exit_table_on:
  assumes "on_cpu i s" and "locked (ptable_lock s) = 0" and "ncli (cpus s ! i) = 0" and "cproc (cpus s ! i) = Some p"
    and "p < length (procs s)"
  shows "\<exists>ps. exit_table p s = Ok (intena (cpus (grabbed i s) ! i), (grabbed i s)\<lparr>procs := ps\<rparr>)
    \<and> length ps = length (procs s) \<and> run_set ps = run_set (procs s) - {p} \<and> pstate (ps ! p) = ZOMBIE"
proof -
  let ?s2 = "wakeup1 (map_option Ch_proc (parent (procs (grabbed i s) ! p))) (grabbed i s)"
  have "table_only (grabbed i s) (reparent p ?s2)"
    by (rule table_only_trans [OF table_only_wakeup1 table_only_reparent])
  then
  obtain ps where ps: "reparent p ?s2 = (grabbed i s)\<lparr>procs := ps\<rparr>" "calm (procs s) ps"
    by (auto simp: table_only_def)
  let ?s3 = "(grabbed i s)\<lparr>procs := ps[p := (ps ! p)\<lparr>pstate := ZOMBIE\<rparr>]\<rparr>"
  have len: "length ps = length (procs s)" using ps(2) by (simp add: calm_def)
  have "sched ?s3 = Ok (intena (cpus ?s3 ! i), ?s3)"
    by (rule sched_switch [where p = p])
      (use on_cpu_grabbed [OF assms(1)] ncli_grabbed [OF assms(1)] assms on_cpu_length [OF assms(1)] len in
        \<open>simp_all add: pushed_def\<close>)
  then show ?thesis
    using assms ps len by (auto simp: exit_table_def acquire_ptable_on upd_proc_def Let_def calm_def run_set_update)
qed

section \<open>Soundness of a pick, whatever the table holds\<close>

lemma sjf_pass_sound:
  "sjf_pass mv i ps nm fl l = Ok (nm', fl', l') \<Longrightarrow>
   set l' \<subseteq> set l \<union> {j. i \<le> j \<and> j < i + length ps \<and> cand 1 (ps ! (j - i))}"
proof (induction mv i ps nm fl l rule: sjf_pass.induct)
  case (1 mv i nm flag l)
  then show ?case by simp
next
  case (2 mv i p ps nm flag l)
  have tail: "{j. Suc i \<le> j \<and> j < Suc i + length ps \<and> cand 1 (ps ! (j - Suc i))} \<subseteq>
    {j. i \<le> j \<and> j < i + length (p # ps) \<and> cand 1 ((p # ps) ! (j - i))}"
    by (auto simp: nth_Cons split: nat.splits) (metis Suc_diff_Suc Suc_le_lessD diff_Suc_Suc nat.inject)
  consider "\<not> cand 1 p" | "cand 1 p" "mv < burst_time p" | "cand 1 p" "mv = burst_time p" "length l < NPROC"
    | "cand 1 p" "burst_time p < mv" | "cand 1 p" "mv = burst_time p" "\<not> length l < NPROC" by linarith
  then show ?case
  proof cases
    case 1
    with "2.IH"(1) "2.prems" tail show ?thesis by (auto simp: cand_def)
  next
    case 2
    with "2.IH"(2) "2.prems" tail show ?thesis by (auto simp: cand_def)
  next
    case 3
    then have "set l' \<subseteq> set (l @ [i]) \<union> {j. Suc i \<le> j \<and> j < Suc i + length ps \<and> cand 1 (ps ! (j - Suc i))}"
      using "2.IH"(3) "2.prems" by (auto simp: cand_def)
    moreover have "i \<in> {j. i \<le> j \<and> j < i + length (p # ps) \<and> cand 1 ((p # ps) ! (j - i))}" using 3 by simp
    ultimately show ?thesis using tail by auto
  next
    case 4
    with "2.IH"(4) "2.prems" tail show ?thesis by (auto simp: cand_def)
  next
    case 5
    with "2.prems" show ?thesis by (simp add: cand_def)
  qed
qed

lemma sjf_collect_sound:
  assumes "sjf_collect ps mv l = Some r"
  shows "r = Ok l' \<longrightarrow> set l' \<subseteq> set l \<union> {j. j < length ps \<and> cand 1 (ps ! j)}"
proof (rule sjf_collect.raw_induct [OF _ assms], goal_cases)
  case (1 rec ps mv l r)
  show ?case
  proof (cases "length l < NPROC")
    case False
    with 1(2) show ?thesis by auto
  next
    case True
    then show ?thesis
      using 1 sjf_pass_sound [of mv 0 ps 1000000000 True l]
      by (auto split: res.splits if_splits) blast+
  qed
qed

lemma fcfs_loop_sound:
  "fcfs_loop i ps mv mi = Some j \<Longrightarrow> mi = Some j \<or> (i \<le> j \<and> j < i + length ps \<and> cand 2 (ps ! (j - i)))"
proof (induction i ps mv mi rule: fcfs_loop.induct)
  case (1 i mv mi)
  then show ?case by simp
next
  case (2 i p ps mv mi)
  have tail: "Suc i \<le> j \<and> j < Suc i + length ps \<and> cand 2 (ps ! (j - Suc i)) \<Longrightarrow>
    i \<le> j \<and> j < i + length (p # ps) \<and> cand 2 ((p # ps) ! (j - i))"
    by (auto simp: Suc_diff_Suc [symmetric] Suc_le_eq)
  show ?case
  proof (cases "cand 2 p \<and> arrival p < mv")
    case True
    with 2 tail show ?thesis by (auto simp: cand_def)
  next
    case False
    with 2 tail show ?thesis by (auto simp: cand_def split: if_splits)
  qed
qed

lemma queue_pick_sound:
  assumes "queue_pick q s = Some (Ok (po, s'))" and "length (procs s) = NPROC"
  shows "same_table s s' \<and> (\<forall>p. po = Some p \<longrightarrow> p < NPROC \<and> pstate (procs s ! p) = RUNNABLE)"
proof -
  have rr: "?thesis" if "RR_scheduler s = (po, s')"
    using that rr_loop_Some [of "procs s" NPROC "rr_index s"]
    by (auto simp: RR_scheduler_def same_table_def cand_def NPROC_def split: prod.splits)
  have sjf: "?thesis" if S: "SJF_scheduler s = Some (Ok (po, s'))"
  proof -
    from S obtain l where l: "sjf_collect (procs s) 0 [] = Some (Ok l)"
      by (auto simp: SJF_scheduler_def bindr_Ok_iff)
    obtain r sd where r: "sjf_choose (procs s) (ticks s) l (sjf_seed s) = (r, sd)" by fastforce
    have "r = Some p \<Longrightarrow> p \<in> set l" for p using r sjf_choose_member by blast
    with S l r have "s' = s\<lparr>sjf_seed := sd\<rparr>" "po = Some p \<Longrightarrow> p \<in> set l" for p
      by (auto simp: SJF_scheduler_def split: option.splits if_splits)
    with sjf_collect_sound [OF l, of l] assms(2) show ?thesis
      by (auto simp: same_table_def cand_def)
  qed
  have fcfs: "?thesis" if "FCFS_scheduler s = po \<and> s = s'"
  proof -
    have "p < NPROC \<and> pstate (procs s ! p) = RUNNABLE" if "po = Some p" for p
      using fcfs_loop_sound [of 0 "procs s" 1000000000 None p] that conjunct1 [OF \<open>FCFS_scheduler s = po \<and> s = s'\<close>] assms(2)
      by (simp add: FCFS_scheduler_def cand_def)
    with that show ?thesis by (simp add: same_table_def)
  qed
  consider "q = 1" | "q = 2" | "q \<noteq> 1" "q \<noteq> 2" by blast
  then show ?thesis
  proof cases
    case 1
    with assms(1) show ?thesis by (intro sjf) (simp add: queue_pick_def)
  next
    case 2
    with assms(1) show ?thesis by (intro fcfs) (auto simp: queue_pick_def)
  next
    case 3
    with assms(1) show ?thesis by (intro rr) (simp add: queue_pick_def split: if_splits)
  qed
qed

text \<open>What any returning run of the loop has done.\<close>

definition picked :: "nat \<Rightarrow> 'a kst \<Rightarrow> nat option \<Rightarrow> 'a kst \<Rightarrow> bool" where
  "picked i s po t \<longleftrightarrow> own_entry i s t \<and> (case po of
       None \<Rightarrow> procs t = procs s \<and> cproc (cpus t ! i) = cproc (cpus s ! i)
     | Some p \<Rightarrow> p < NPROC \<and> pstate (procs s ! p) = RUNNABLE
         \<and> procs t = (procs s)[p := (procs s ! p)\<lparr>wait_time := 0, pstate := RUNNING\<rparr>]
         \<and> cproc (cpus t ! i) = Some p)"

lemma picked_skip:
  assumes "picked i s3 po t" and "own_entry i s s3" and "i < length (cpus s)" and "procs s3 = procs s"
    and "cproc (cpus s3 ! i) = cproc (cpus s ! i)"
  shows "picked i s po t"
  using assms own_entry_trans [OF assms(3,2)] by (auto simp: picked_def split: option.splits)

lemma dispatch_OkD:
  assumes "dispatch i p s = Ok t" and "on_cpu i s" and "0 < ncli (cpus s ! i)" and "p < length (procs s)"
  shows "own_entry i s t \<and> procs t = (procs s)[p := (procs s ! p)\<lparr>wait_time := 0, pstate := RUNNING\<rparr>]
    \<and> cproc (cpus t ! i) = Some p"
proof -
  have "kstack (procs s ! p) \<noteq> 0" "pgdir (procs s ! p) \<noteq> 0"
    using assms(1,4) by (auto simp: dispatch_def Let_def switchuvm_def bindr_Ok_iff guardr_Ok_iff)
  with dispatch_on [OF assms(2-4)] assms(1) have
    "t = upd_cpu i (\<lambda>c. c\<lparr>cproc := Some p, ts_esp0 := kstack (procs s ! p) + KSTACKSIZE,
      cr3 := V2P (pgdir (procs s ! p))\<rparr>) (upd_proc p (\<lambda>x. x\<lparr>wait_time := 0, pstate := RUNNING\<rparr>) s)" by simp
  then show ?thesis using on_cpu_length [OF assms(2)] by (auto simp: own_entry_def same_cpu_def)
qed

lemma scheduler_loop_sound:
  assumes "scheduler_loop i s = Some r"
  shows "\<forall>po t. r = Ok (po, t) \<longrightarrow> on_cpu i s \<longrightarrow> 0 < ncli (cpus s ! i) \<longrightarrow> length (procs s) = NPROC \<longrightarrow> picked i s po t"
proof (rule scheduler_loop.raw_induct [OF _ assms], intro allI impI, goal_cases)
  case (1 rec i s r po t)
  let ?s1 = "next_queue i s"
  note i = on_cpu_length [OF 1(4)]
  from 1(2,3) obtain po2 s2 where pick: "queue_pick (current_queue (cpus ?s1 ! i)) ?s1 = Some (Ok (po2, s2))"
    by (auto simp: Let_def split: option.splits res.splits prod.splits)
  note sound = queue_pick_sound [OF pick]
  have own2: "own_entry i s s2"
    using own_entry_trans [OF i own_entry_next_queue [OF i] own_entry_same_table] i sound 1(6) by simp
  have tab2: "procs s2 = procs s" "cpus s2 = cpus ?s1" using sound 1(6) by (simp_all add: same_table_def)
  show ?case
  proof (cases po2)
    case (Some p)
    then have p: "p < NPROC" "pstate (procs s ! p) = RUNNABLE" using sound 1(6) by simp_all
    from 1(2,3) pick Some have d: "dispatch i p s2 = Ok t" "po = Some p"
      by (auto simp: Let_def bindr_Ok_iff)
    from dispatch_OkD [OF d(1) own_entry_on_cpu [OF own2 1(4)]] own_entry_ncli [OF own2 i] 1(5,6) p tab2 own_entry_trans [OF i own2]
    show ?thesis by (simp add: picked_def d(2) p)
  next
    case None
    let ?s3 = "upd_cpu i (\<lambda>c. c\<lparr>consecutive_runs_queue := 0\<rparr>) s2"
    have i2: "i < length (cpus s2)" using own2 i by (auto simp: own_entry_def)
    have own3: "own_entry i s ?s3"
      using own_entry_trans [OF i own2] own_entry_upd_cpu [OF i2] by (simp add: same_cpu_def)
    have c3: "cproc (cpus ?s3 ! i) = cproc (cpus s ! i)" "procs ?s3 = procs s"
      using tab2 i i2 by (simp_all add: next_queue_def)
    show ?thesis
    proof (cases "current_queue (cpus ?s3 ! i) = NQUEUE - 1")
      case True
      with 1(2,3) pick None have "po = None" "t = ?s3" by (auto simp: Let_def)
      with own3 c3 show ?thesis by (simp add: picked_def)
    next
      case False
      with 1(2) pick None have "rec i ?s3 = Some r" by (auto simp: Let_def)
      from 1(1) [OF this] 1(3,5,6) own_entry_on_cpu [OF own3 1(4)] own_entry_ncli [OF own3 i] c3
      have "picked i ?s3 po t" by simp
      from picked_skip [OF this own3 i c3(2,1)] show ?thesis .
    qed
  qed
qed

end
