(* ===== verification/Sched_Smp.thy ===== *)
theory Sched_Smp
  imports Sched_Lock
begin

text \<open>
  All CPUs at once: each is in its scheduler or runs a process, and takes one
  lock-protected segment of \<^verbatim>\<open>src/proc.c\<close> at a time.  The segments are those of the
  scheduler loop and those a process executes.  The invariant ties the
  \<^verbatim>\<open>RUNNING\<close> processes of the table to the CPUs that run them.
\<close>

section \<open>The system\<close>

text \<open>
  What a CPU does: it is about to enter its scheduler loop, is inside the loop, has been
  switched back to from a process, has switched to a process that still holds the table
  lock, or runs a process that does not hold it. \<open>Leaked p\<close> is a CPU whose process \<open>p\<close> has called
  \<^verbatim>\<open>set_sjf_info\<close> with a pid out of range and runs on with the table lock.
\<close>

datatype mode = Idle | Looping | Back | Resumed nat | User nat | Leaked nat

record ksys =
  kst :: kstate
  kif :: "nat \<Rightarrow> bool"
  kmode :: "nat \<Rightarrow> mode"

definition kview :: "nat \<Rightarrow> ksys \<Rightarrow> kstate" where
  "kview i k = (kst k)\<lparr>lapicid := apicid (cpus (kst k) ! i), IF := kif k i\<rparr>"

definition kput :: "nat \<Rightarrow> kstate \<Rightarrow> mode \<Rightarrow> ksys \<Rightarrow> ksys" where
  "kput i t m k = \<lparr>kst = t, kif = (kif k)(i := IF t), kmode = (kmode k)(i := m)\<rparr>"

abbreviation ncpus :: "ksys \<Rightarrow> nat" where
  "ncpus k \<equiv> length (cpus (kst k))"

text \<open>
  Segments a running process, or an interrupt that it takes, executes without switching. A call of \<^verbatim>\<open>wait\<close> is one of them when it finds a
  zombie or returns -1. The last two rules are what is done without the table lock: a process writes fields other than the state of its own
  entry, or of an embryo while it creates a process, and gives up an embryo when \<^verbatim>\<open>fork\<close> fails.
\<close>

inductive call :: "nat \<Rightarrow> nat \<Rightarrow> kstate \<Rightarrow> kstate \<Rightarrow> bool" for i p where
  wakeup: "wakeup ch s = Ok t \<Longrightarrow> call i p s t"
| kill: "kill pd s = Ok (r, t) \<Longrightarrow> call i p s t"
| alloc: "alloc_slot s = Ok (r, t) \<Longrightarrow> call i p s t"
| publish: "pstate (procs s ! np) = EMBRYO \<Longrightarrow> fork_publish p np s = Ok t \<Longrightarrow> call i p s t"
| reap: "acquire_ptable s = Ok s1 \<Longrightarrow> wait_scan p (procs s1) = Zombie j \<Longrightarrow>
    release_ptable (upd_proc j (wait_reap (ticks s1)) s1) = Ok t \<Longrightarrow> call i p s t"
| no_wait: "acquire_ptable s = Ok s1 \<Longrightarrow> wait_scan p (procs s1) = No_kids \<or> wait_scan p (procs s1) = Kids \<and> killed (procs s1 ! p) \<Longrightarrow>
    release_ptable s1 = Ok t \<Longrightarrow> call i p s t"
| set_queue: "set_queue pd q s = Ok (r, t) \<Longrightarrow> call i p s t"
| set_sjf: "0 < pd \<Longrightarrow> pd < int NPROC \<Longrightarrow> set_sjf_info pd b c s = Ok (r, t) \<Longrightarrow> call i p s t"
| aging: "aging s = Ok t \<Longrightarrow> call i p s t"
| pushcli: "pushcli s = Ok t \<Longrightarrow> call i p s t"
| popcli: "popcli s = Ok t \<Longrightarrow> call i p s t"
| yield_keep: "ncli (cpus s ! i) = 0 \<Longrightarrow> yield s = Ok (Kept, t) \<Longrightarrow> call i p s t"
| clock: "call i p s (s\<lparr>ticks := ticks s + 1\<rparr>)"
| fields: "q = p \<or> pstate (procs s ! q) = EMBRYO \<Longrightarrow> pstate (f (procs s ! q)) = pstate (procs s ! q) \<Longrightarrow> call i p s (upd_proc q f s)"
| unalloc: "pstate (procs s ! q) = EMBRYO \<Longrightarrow> call i p s (upd_proc q (\<lambda>x. x\<lparr>pstate := UNUSED\<rparr>) s)"

text \<open>Segments of a process that end in a switch to the scheduler.\<close>

inductive switch :: "nat \<Rightarrow> nat \<Rightarrow> kstate \<Rightarrow> kstate \<Rightarrow> bool" for i p where
  yield: "ncli (cpus s ! i) = 0 \<Longrightarrow> yield s = Ok (Swtch ie, t) \<Longrightarrow> switch i p s t"
| sleep: "held_by i l \<Longrightarrow> ncli (cpus s ! i) = 1 \<Longrightarrow> sleep ch (Other_lk l) s = Ok (ie, lk, t) \<Longrightarrow> switch i p s t"
| wait: "ncli (cpus s ! i) = 0 \<Longrightarrow> acquire_ptable s = Ok s1 \<Longrightarrow> wait_scan p (procs s1) = Kids \<Longrightarrow> \<not> killed (procs s1 ! p) \<Longrightarrow>
    sleep (Some (Ch_proc p)) Ptable_lk s1 = Ok (ie, lk, t) \<Longrightarrow> switch i p s t"
| exit: "ncli (cpus s ! i) = 0 \<Longrightarrow> exit_table p s = Ok (ie, t) \<Longrightarrow> switch i p s t"

text \<open>
  How a process continues after a switch to it: in \<^verbatim>\<open>yield\<close>, in \<^verbatim>\<open>sleep\<close>, in \<^verbatim>\<open>forkret\<close>, or in \<^verbatim>\<open>wait\<close>, which
  looks for children again and returns, or goes back to sleep (\<open>resleep\<close> below).
\<close>

inductive resume :: "nat \<Rightarrow> kstate \<Rightarrow> kstate \<Rightarrow> bool" for p where
  yielded: "yield_resume ie s = Ok t \<Longrightarrow> resume p s t"
| slept: "sleep_wake p ie (Other_lk l) s = Ok t \<Longrightarrow> resume p s t"
| forked: "release_ptable s = Ok t \<Longrightarrow> resume p s t"
| reaps: "sleep_wake p ie Ptable_lk s = Ok s1 \<Longrightarrow> wait_scan p (procs s1) = Zombie j \<Longrightarrow>
    release_ptable (upd_proc j (wait_reap (ticks s1)) s1) = Ok t \<Longrightarrow> resume p s t"
| gives_up: "sleep_wake p ie Ptable_lk s = Ok s1 \<Longrightarrow> wait_scan p (procs s1) = No_kids \<or> wait_scan p (procs s1) = Kids \<and> killed (procs s1 ! p) \<Longrightarrow>
    release_ptable s1 = Ok t \<Longrightarrow> resume p s t"

inductive kstep :: "ksys \<Rightarrow> ksys \<Rightarrow> bool" where
  enter: "i < ncpus k \<Longrightarrow> kmode k i = Idle \<Longrightarrow> scheduler_enter (kview i k) = Ok t \<Longrightarrow> kstep k (kput i t Looping k)"
| pick: "i < ncpus k \<Longrightarrow> kmode k i = Looping \<Longrightarrow> scheduler_loop i (kview i k) = Some (Ok (Some p, t)) \<Longrightarrow>
    kstep k (kput i t (Resumed p) k)"
| none: "i < ncpus k \<Longrightarrow> kmode k i = Looping \<Longrightarrow> scheduler_loop i (kview i k) = Some (Ok (None, t)) \<Longrightarrow>
    release_ptable t = Ok u \<Longrightarrow> kstep k (kput i u Idle k)"
| resume: "i < ncpus k \<Longrightarrow> kmode k i = Resumed p \<Longrightarrow> resume p (kview i k) t \<Longrightarrow> kstep k (kput i t (User p) k)"
| resleep: "i < ncpus k \<Longrightarrow> kmode k i = Resumed p \<Longrightarrow> sleep_wake p ie Ptable_lk (kview i k) = Ok s1 \<Longrightarrow>
    wait_scan p (procs s1) = Kids \<Longrightarrow> \<not> killed (procs s1 ! p) \<Longrightarrow> sleep (Some (Ch_proc p)) Ptable_lk s1 = Ok (ie', lk, t) \<Longrightarrow>
    kstep k (kput i t Back k)"
| call: "i < ncpus k \<Longrightarrow> kmode k i = User p \<Longrightarrow> call i p (kview i k) t \<Longrightarrow> kstep k (kput i t (User p) k)"
| leak: "i < ncpus k \<Longrightarrow> kmode k i = User p \<Longrightarrow> pd \<le> 0 \<or> int NPROC \<le> pd \<Longrightarrow> set_sjf_info pd b c (kview i k) = Ok (r, t) \<Longrightarrow>
    kstep k (kput i t (Leaked p) k)"
| leaked_call: "i < ncpus k \<Longrightarrow> kmode k i = Leaked p \<Longrightarrow> call i p (kview i k) t \<Longrightarrow> kstep k (kput i t (Leaked p) k)"
| leaked_switch: "i < ncpus k \<Longrightarrow> kmode k i = Leaked p \<Longrightarrow> switch i p (kview i k) t \<Longrightarrow> kstep k (kput i t Back k)"
| tick: "i < ncpus k \<Longrightarrow> kmode k i = Idle \<Longrightarrow> aging ((kview i k)\<lparr>ticks := ticks (kview i k) + 1\<rparr>) = Ok t \<Longrightarrow> kstep k (kput i t Idle k)"
| interrupt: "i < ncpus k \<Longrightarrow> kmode k i = Idle \<Longrightarrow> wakeup ch (kview i k) = Ok t \<Longrightarrow> kstep k (kput i t Idle k)"
| switch: "i < ncpus k \<Longrightarrow> kmode k i = User p \<Longrightarrow> switch i p (kview i k) t \<Longrightarrow> kstep k (kput i t Back k)"
| again: "i < ncpus k \<Longrightarrow> kmode k i = Back \<Longrightarrow> scheduler_return i (kview i k) = (True, t) \<Longrightarrow>
    kstep k (kput i t Looping k)"
| leave: "i < ncpus k \<Longrightarrow> kmode k i = Back \<Longrightarrow> scheduler_return i (kview i k) = (False, t) \<Longrightarrow>
    release_ptable t = Ok u \<Longrightarrow> kstep k (kput i u Idle k)"

definition kinit :: "ksys \<Rightarrow> bool" where
  "kinit k \<longleftrightarrow> distinct (map apicid (cpus (kst k)))
     \<and> (\<forall>i < ncpus k. ncli (cpus (kst k) ! i) = 0 \<and> cproc (cpus (kst k) ! i) = None \<and> kmode k i = Idle)
     \<and> locked (ptable_lock (kst k)) = 0 \<and> lk_cpu (ptable_lock (kst k)) = None \<and> run_set (procs (kst k)) = {}
     \<and> length (procs (kst k)) = NPROC"

inductive kreach :: "ksys \<Rightarrow> bool" where
  init: "kinit k \<Longrightarrow> kreach k"
| step: "kreach k \<Longrightarrow> kstep k k' \<Longrightarrow> kreach k'"

section \<open>The invariant\<close>

fun mode_run :: "mode \<Rightarrow> nat set" where
  "mode_run (Resumed p) = {p}"
| "mode_run (User p) = {p}"
| "mode_run (Leaked p) = {p}"
| "mode_run _ = {}"

fun mode_locks :: "mode \<Rightarrow> bool" where
  "mode_locks Looping = True"
| "mode_locks Back = True"
| "mode_locks (Resumed p) = True"
| "mode_locks (Leaked p) = True"
| "mode_locks _ = False"

text \<open>What the mode says of the CPU's own entry.\<close>

fun mode_cpu :: "mode \<Rightarrow> cpu \<Rightarrow> bool" where
  "mode_cpu Idle c = (cproc c = None \<and> ncli c = 0)"
| "mode_cpu Looping c = (cproc c = None \<and> ncli c = 1)"
| "mode_cpu Back c = (ncli c = 1)"
| "mode_cpu (Resumed p) c = (cproc c = Some p \<and> ncli c = 1)"
| "mode_cpu (User p) c = (cproc c = Some p \<and> 0 \<le> ncli c)"
| "mode_cpu (Leaked p) c = (cproc c = Some p \<and> 0 \<le> ncli c)"

definition cpus_inv :: "ksys \<Rightarrow> bool" where
  "cpus_inv k \<longleftrightarrow> distinct (map apicid (cpus (kst k)))
     \<and> (\<forall>i < ncpus k. mode_cpu (kmode k i) (cpus (kst k) ! i) \<and> (0 < ncli (cpus (kst k) ! i) \<longrightarrow> \<not> kif k i))"

definition lock_owner :: "ksys \<Rightarrow> bool" where
  "lock_owner k \<longleftrightarrow> (locked (ptable_lock (kst k)) \<noteq> 0 \<longleftrightarrow> lk_cpu (ptable_lock (kst k)) \<noteq> None)
     \<and> (\<forall>i < ncpus k. mode_locks (kmode k i) \<longleftrightarrow> lk_cpu (ptable_lock (kst k)) = Some i)"

definition runs_inv :: "ksys \<Rightarrow> bool" where
  "runs_inv k \<longleftrightarrow> run_set (procs (kst k)) = (\<Union>i < ncpus k. mode_run (kmode k i))
     \<and> (\<forall>i < ncpus k. \<forall>j < ncpus k. i \<noteq> j \<longrightarrow> mode_run (kmode k i) \<inter> mode_run (kmode k j) = {})"

definition kinv :: "ksys \<Rightarrow> bool" where
  "kinv k \<longleftrightarrow> cpus_inv k \<and> lock_owner k \<and> runs_inv k \<and> length (procs (kst k)) = NPROC"

lemma kview_simps [simp]:
  "procs (kview i k) = procs (kst k)" "cpus (kview i k) = cpus (kst k)"
  "ptable_lock (kview i k) = ptable_lock (kst k)" "IF (kview i k) = kif k i"
  by (simp_all add: kview_def)

lemma kput_simps [simp]:
  "kst (kput i t m k) = t" "kif (kput i t m k) = (kif k)(i := IF t)" "kmode (kput i t m k) = (kmode k)(i := m)"
  by (simp_all add: kput_def)

lemma mode_cpu_ncli: "mode_cpu m c \<Longrightarrow> 0 \<le> ncli c"
  by (cases m) auto

lemma kview_on_cpu:
  assumes "cpus_inv k" and "i < ncpus k"
  shows "on_cpu i (kview i k)"
  using assms mode_cpu_ncli
  by (auto simp: cpus_inv_def on_cpu_def kview_def first_idx_Some distinct_conv_nth)

text \<open>
  One step of CPU \<open>i\<close> in general: its own entry and the lock change to fit the new mode,
  and the running processes change by what the CPU gives up and takes on.
\<close>

definition moves :: "nat \<Rightarrow> mode \<Rightarrow> kstate \<Rightarrow> mode \<Rightarrow> kstate \<Rightarrow> bool" where
  "moves i m s m' t \<longleftrightarrow> on_cpu i t \<and> cpus t = (cpus s)[i := cpus t ! i] \<and> apicid (cpus t ! i) = apicid (cpus s ! i)
     \<and> mode_cpu m' (cpus t ! i)
     \<and> (if mode_locks m' then held_by i (ptable_lock t)
        else if mode_locks m then locked (ptable_lock t) = 0 \<and> lk_cpu (ptable_lock t) = None
        else locked (ptable_lock t) = locked (ptable_lock s) \<and> lk_cpu (ptable_lock t) = lk_cpu (ptable_lock s))
     \<and> (mode_locks m' \<and> \<not> mode_locks m \<longrightarrow> locked (ptable_lock s) = 0)
     \<and> run_set (procs t) = (run_set (procs s) - mode_run m) \<union> mode_run m'
     \<and> mode_run m' \<inter> (run_set (procs s) - mode_run m) = {} \<and> length (procs t) = length (procs s)"

lemma runs_inv_put:
  assumes r: "runs_inv k" and i: "i < ncpus k" and len: "length (cpus t) = ncpus k"
    and t: "run_set (procs t) = (run_set (procs (kst k)) - mode_run (kmode k i)) \<union> mode_run m'"
    and new: "mode_run m' \<inter> (run_set (procs (kst k)) - mode_run (kmode k i)) = {}"
  shows "runs_inv (kput i t m' k)"
proof -
  let ?R = "\<lambda>j. mode_run (kmode k j)"
  have un: "run_set (procs (kst k)) = (\<Union>j < ncpus k. ?R j)"
    and dis: "\<And>a b. a < ncpus k \<Longrightarrow> b < ncpus k \<Longrightarrow> a \<noteq> b \<Longrightarrow> ?R a \<inter> ?R b = {}"
    using r by (auto simp: runs_inv_def)
  have rest: "run_set (procs (kst k)) - ?R i = (\<Union>j \<in> {..<ncpus k} - {i}. ?R j)"
    unfolding un using dis i by fastforce
  have "(\<Union>j < ncpus k. mode_run (((kmode k)(i := m')) j)) = (\<Union>j \<in> {..<ncpus k} - {i}. ?R j) \<union> mode_run m'"
    using i by (auto split: if_splits)
  moreover have "mode_run m' \<inter> ?R j = {}" if "j < ncpus k" "j \<noteq> i" for j
    using new that unfolding rest by auto
  ultimately show ?thesis
    using dis unfolding runs_inv_def by (simp add: len t rest) blast
qed

lemma moves_kinv:
  assumes inv: "kinv k" and i: "i < ncpus k" and mv: "moves i (kmode k i) (kview i k) m' t"
  shows "kinv (kput i t m' k)"
proof -
  have c: "cpus_inv k" and l: "lock_owner k" and r: "runs_inv k" using inv by (simp_all add: kinv_def)
  have cp: "cpus t = (cpus (kst k))[i := cpus t ! i]" and ap: "apicid (cpus t ! i) = apicid (cpus (kst k) ! i)"
    and mc: "mode_cpu m' (cpus t ! i)" and on: "on_cpu i t"
    using mv by (auto simp: moves_def)
  have len: "length (cpus t) = ncpus k" using cp by (metis length_list_update)
  have oth: "cpus t ! j = cpus (kst k) ! j" if "j \<noteq> i" for j using cp that by (metis nth_list_update_neq)
  have "map apicid (cpus t) = map apicid (cpus (kst k))"
    using len oth ap by (intro nth_equalityI) (auto, metis)
  then have "cpus_inv (kput i t m' k)"
    using c len oth mc on by (auto simp: cpus_inv_def on_cpu_def)
  moreover have "lock_owner (kput i t m' k)"
    using l mv i len by (auto simp: lock_owner_def moves_def held_by_def split: if_splits)
  moreover have "runs_inv (kput i t m' k)"
    using runs_inv_put [OF r i] mv len by (simp add: moves_def)
  ultimately show ?thesis using inv mv by (simp add: kinv_def moves_def)
qed

section \<open>Every segment is such a move\<close>

lemma set_eq_update: "i < length xs \<Longrightarrow> xs[i := y] = xs[i := xs[i := y] ! i]"
  by simp

lemma enter_moves:
  assumes "on_cpu i s" and "mode_cpu Idle (cpus s ! i)" and "scheduler_enter s = Ok t"
  shows "moves i Idle s Looping t"
proof -
  note i = on_cpu_length [OF assms(1)]
  have on: "on_cpu i (s\<lparr>IF := True\<rparr>)" using assms(1,2) by (simp add: on_cpu_def)
  have t: "t = grabbed i (s\<lparr>IF := True\<rparr>)" "locked (ptable_lock s) = 0"
    using assms(3) acquire_ptable_on [OF on] by (simp_all add: scheduler_enter_def split: if_splits)
  show ?thesis
    using on_cpu_grabbed [OF on] assms(2) t i by (simp add: moves_def pushed_def)
qed

lemma pick_moves:
  assumes "on_cpu i s" and "mode_cpu Looping (cpus s ! i)" and "held_by i (ptable_lock s)"
    and "picked i s (Some p) t" and "length (procs s) = NPROC"
  shows "moves i Looping s (Resumed p) t"
proof -
  note i = on_cpu_length [OF assms(1)]
  from assms(4) have own: "own_entry i s t" and p: "p < NPROC" "pstate (procs s ! p) = RUNNABLE"
    "procs t = (procs s)[p := (procs s ! p)\<lparr>wait_time := 0, pstate := RUNNING\<rparr>]" "cproc (cpus t ! i) = Some p"
    by (auto simp: picked_def)
  have "p \<notin> run_set (procs s)" using p(2) by (simp add: run_set_def)
  then show ?thesis
    using own_entry_on_cpu [OF own assms(1)] own i p assms(2,3,5)
    by (auto simp: moves_def own_entry_def same_cpu_def run_set_update)
qed

lemma free_moves:
  assumes "on_cpu i s" and "ncli (cpus s ! i) = 1" and "held_by i (ptable_lock s)"
    and "release_ptable s = Ok t" and "mode_locks m" and "mode_run m' = mode_run m" and "\<not> mode_locks m'"
    and "mode_cpu m' ((cpus s ! i)\<lparr>ncli := 0\<rparr>)" and "mode_run m \<subseteq> run_set (procs s)"
  shows "moves i m s m' t"
proof -
  note i = on_cpu_length [OF assms(1)]
  have t: "t = freed i s" using assms(1-4) by (simp add: release_ptable_on)
  have "cpus t ! i = (cpus s ! i)\<lparr>ncli := 0\<rparr>" using assms(2) i by (simp add: t popped_def)
  moreover have "on_cpu i t" using on_cpu_freed [OF assms(1)] assms(2) by (simp add: t)
  ultimately show ?thesis
    using assms i by (auto simp: moves_def t popped_def)
qed

lemma none_moves:
  assumes "on_cpu i s" and "mode_cpu Looping (cpus s ! i)" and "held_by i (ptable_lock s)"
    and "picked i s None t" and "release_ptable t = Ok u"
  shows "moves i Looping s Idle u"
proof -
  from assms(4) have own: "own_entry i s t" and p: "procs t = procs s" "cproc (cpus t ! i) = cproc (cpus s ! i)"
    by (auto simp: picked_def)
  note i = on_cpu_length [OF assms(1)]
  have "moves i Looping t Idle u"
    using own_entry_on_cpu [OF own assms(1)] own_entry_ncli [OF own i] assms(2,3,5) own p
    by (intro free_moves) (auto simp: own_entry_def)
  then show ?thesis using own p i by (auto simp: moves_def own_entry_def same_cpu_def)
qed

text \<open>A section that leaves the running processes alone is a move from a mode to itself.\<close>

lemma left_moves:
  assumes "on_cpu i s" and "mode_cpu m (cpus s ! i)" and "\<not> mode_locks m" and "calm (procs s) ps"
    and "mode_run m \<subseteq> run_set (procs s)" and "locked (ptable_lock s) = 0" and "lk_cpu (ptable_lock s) = None"
  shows "moves i m s m (left i ps s)"
proof -
  note i = on_cpu_length [OF assms(1)]
  have "mode_cpu m (cpus (settled i s) ! i)" using assms(2) i by (cases m) (auto simp: settled_def)
  then show ?thesis
    using on_cpu_left [OF assms(1)] assms i by (auto simp: moves_def calm_def settled_def)
qed

lemma cpu_moves:
  assumes "on_cpu i t" and "i < length (cpus s)" and "cpus t = (cpus s)[i := c]" and "apicid c = apicid (cpus s ! i)"
    and "mode_cpu m c" and "\<not> mode_locks m" and "procs t = procs s" and "ptable_lock t = ptable_lock s"
    and "mode_run m \<subseteq> run_set (procs s)"
  shows "moves i m s m t"
  using assms by (auto simp: moves_def)

lemma acquire_OkD: "on_cpu i s \<Longrightarrow> acquire_ptable s = Ok s1 \<Longrightarrow> locked (ptable_lock s) = 0 \<and> s1 = grabbed i s"
  by (simp add: acquire_ptable_on split: if_splits)

lemma alloc_slot_on:
  assumes "on_cpu i s" and "locked (ptable_lock s) = 0"
  shows "alloc_slot s = (case first_idx (\<lambda>p. pstate p = UNUSED) (procs s) of
      None \<Rightarrow> Ok (None, left i (procs s) s)
    | Some j \<Rightarrow> Ok (Some j, left i ((procs s)[j := (procs s ! j)\<lparr>pstate := EMBRYO, pid := nextpid s\<rparr>])
        (s\<lparr>nextpid := nextpid s + 1\<rparr>)))"
proof -
  have "(grabbed i s)\<lparr>nextpid := n\<rparr> = grabbed i (s\<lparr>nextpid := n\<rparr>)" for n
    by (simp add: grabbed_def pushed_def upd_cpu_def)
  then show ?thesis
    using assms release_section [of i "s\<lparr>nextpid := nextpid s + 1\<rparr>"]
    by (simp add: alloc_slot_def acquire_ptable_on release_grabbed upd_proc_grabbed split: option.split)
qed

definition sectioned :: "nat \<Rightarrow> kstate \<Rightarrow> kstate \<Rightarrow> bool" where
  "sectioned i s t \<longleftrightarrow> locked (ptable_lock s) = 0 \<and> (\<exists>ps n. t = left i ps (s\<lparr>nextpid := n\<rparr>) \<and> calm (procs s) ps)"

lemma sectionedI: "locked (ptable_lock s) = 0 \<Longrightarrow> calm (procs s) ps \<Longrightarrow> sectioned i s (left i ps s)"
  unfolding sectioned_def by (intro conjI exI [of _ ps] exI [of _ "nextpid s"]) simp_all

lemma acquire_free: "on_cpu i s \<Longrightarrow> bindr (acquire_ptable s) f = Ok y \<Longrightarrow> locked (ptable_lock s) = 0"
  using acquire_OkD by (auto simp: bindr_Ok_iff)

lemma wakeup_sectioned:
  assumes "on_cpu i s" and "wakeup ch s = Ok t"
  shows "sectioned i s t"
proof -
  have free: "locked (ptable_lock s) = 0" using assms by (auto simp: wakeup_def intro: acquire_free)
  show ?thesis using assms(2) unfolding wakeup_on [OF assms(1) free]
    by (auto intro!: sectionedI free calm_wake)
qed

lemma aging_sectioned:
  assumes "on_cpu i s" and "aging s = Ok t"
  shows "sectioned i s t"
proof -
  have free: "locked (ptable_lock s) = 0" using assms by (auto simp: aging_def intro: acquire_free)
  show ?thesis using assms(2) unfolding aging_on [OF assms(1) free]
    by (auto intro!: sectionedI free calm_map)
qed

lemma kill_sectioned:
  assumes "on_cpu i s" and "kill pd s = Ok (r, t)"
  shows "sectioned i s t"
proof -
  have free: "locked (ptable_lock s) = 0" using assms by (auto simp: kill_def intro: acquire_free)
  show ?thesis
    using assms(2) unfolding kill_on [OF assms(1) free]
    by (auto split: option.splits if_splits intro!: sectionedI free calm_update)
qed

lemma publish_sectioned:
  assumes "on_cpu i s" and "pstate (procs s ! np) = EMBRYO" and "fork_publish p np s = Ok t"
  shows "sectioned i s t"
proof -
  have free: "locked (ptable_lock s) = 0" using assms by (auto simp: fork_publish_def intro: acquire_free)
  show ?thesis
    using assms(2,3) unfolding fork_publish_on [OF assms(1) free]
    by (auto intro!: sectionedI free calm_update)
qed

lemma set_queue_sectioned:
  assumes "on_cpu i s" and "set_queue pd q s = Ok (r, t)"
  shows "t = s \<or> sectioned i s t"
proof (cases "pd \<le> 0 \<or> pd \<ge> int NPROC \<or> q > 3 \<or> q < 0")
  case True
  with assms(2) show ?thesis by (simp add: set_queue_def split: if_splits)
next
  case False
  then have free: "locked (ptable_lock s) = 0"
    using assms(2) acquire_OkD [OF assms(1)] by (auto simp: set_queue_def bindr_Ok_iff)
  have "set_queue pd q s = (case first_idx (\<lambda>p. pid p = pd) (procs s) of
      Some j \<Rightarrow> if queue (procs s ! j) = q then Ok (-1, left i (procs s) s)
        else Ok (0, left i ((procs s)[j := (procs s ! j)\<lparr>queue := q, arrival := sint (ticks s)\<rparr>]) s)
    | None \<Rightarrow> Ok (-1, left i (procs s) s))"
    using False by (intro set_queue_on assms free) auto
  with assms(2) show ?thesis
    by (auto split: option.splits if_splits intro!: sectionedI free calm_update)
qed

lemma set_sjf_sectioned:
  assumes "on_cpu i s" and "0 < pd" and "pd < int NPROC" and "set_sjf_info pd b c s = Ok (r, t)"
  shows "sectioned i s t"
proof -
  have free: "locked (ptable_lock s) = 0" using assms by (auto simp: set_sjf_info_def intro: acquire_free)
  show ?thesis
    using assms(2-4) unfolding set_sjf_info_on [OF assms(1) free]
    by (auto split: option.splits intro!: sectionedI free calm_update)
qed

lemma alloc_sectioned:
  assumes "on_cpu i s" and "alloc_slot s = Ok (r, t)"
  shows "sectioned i s t"
proof -
  have free: "locked (ptable_lock s) = 0" using assms by (auto simp: alloc_slot_def intro: acquire_free)
  have "calm (procs s) ((procs s)[j := (procs s ! j)\<lparr>pstate := EMBRYO, pid := n\<rparr>])"
    if "first_idx (\<lambda>p. pstate p = UNUSED) (procs s) = Some j" for j n
    using first_idx_sat [OF that] by (intro calm_update) simp
  then have "first_idx (\<lambda>p. pstate p = UNUSED) (procs s) = Some j \<Longrightarrow>
      sectioned i s (left i ((procs s)[j := (procs s ! j)\<lparr>pstate := EMBRYO, pid := m\<rparr>]) (s\<lparr>nextpid := n\<rparr>))" for j m n
    using free unfolding sectioned_def by blast
  then show ?thesis
    using assms(2) sectionedI [OF free, of "procs s" i] unfolding alloc_slot_on [OF assms(1) free]
    by (auto split: option.splits)
qed

lemma reap_sectioned:
  assumes "on_cpu i s" and "acquire_ptable s = Ok s1" and "wait_scan p (procs s1) = Zombie j"
    and "release_ptable (upd_proc j (wait_reap (ticks s1)) s1) = Ok t"
  shows "sectioned i s t"
proof -
  from acquire_OkD [OF assms(1,2)] have free: "locked (ptable_lock s) = 0" and s1: "s1 = grabbed i s" by auto
  have "pstate (procs s ! j) = ZOMBIE"
    using assms(3) first_idx_sat by (fastforce simp: s1 wait_scan_def split: option.splits if_splits)
  then show ?thesis
    using assms(4) by (auto simp: s1 upd_proc_grabbed release_section [OF assms(1)] wait_reap_def reset_sched_def
        intro!: sectionedI free calm_update)
qed

lemma no_wait_sectioned:
  assumes "on_cpu i s" and "acquire_ptable s = Ok s1" and "release_ptable s1 = Ok t"
  shows "sectioned i s t"
proof -
  from acquire_OkD [OF assms(1,2)] have free: "locked (ptable_lock s) = 0" and s1: "s1 = grabbed i s" by auto
  show ?thesis using assms(3) by (auto simp: s1 release_grabbed [OF assms(1)] intro!: sectionedI free)
qed

lemma moves_pre:
  assumes "moves i m u m' t" and "cpus u = (cpus s)[i := cpus u ! i]" and "apicid (cpus u ! i) = apicid (cpus s ! i)"
    and "ptable_lock u = ptable_lock s" and "length (procs u) = length (procs s)"
    and "run_set (procs u) = run_set (procs s)"
  shows "moves i m s m' t"
proof -
  have "cpus t = (cpus s)[i := cpus t ! i]"
    using assms(1,2) unfolding moves_def by (metis list_update_overwrite)
  then show ?thesis using assms by (simp add: moves_def)
qed

lemma popcli_OkD:
  assumes "on_cpu i s" and "popcli s = Ok t"
  shows "0 < ncli (cpus s ! i)"
proof -
  have "\<not> IF s" using assms(2) by (auto simp: popcli_def split: if_splits)
  then have "mycpu s = Ok i" using assms(1) by (intro mycpu_on_cpu)
  with assms(2) on_cpu_length [OF assms(1)] show ?thesis
    by (auto simp: popcli_def Let_def split: if_splits)
qed

lemma sectioned_moves:
  assumes "on_cpu i s" and "mode_cpu m (cpus s ! i)" and "\<not> mode_locks m"
    and "mode_run m \<subseteq> run_set (procs s)" and "lk_cpu (ptable_lock s) = None \<longleftrightarrow> locked (ptable_lock s) = 0"
    and "sectioned i s t"
  shows "moves i m s m t"
proof -
  from assms(6) obtain ps n where free: "locked (ptable_lock s) = 0" and t: "t = left i ps (s\<lparr>nextpid := n\<rparr>)"
    and calm: "calm (procs s) ps" unfolding sectioned_def by blast
  have "moves i m (s\<lparr>nextpid := n\<rparr>) m t"
    unfolding t using assms free calm by (intro left_moves) simp_all
  then show ?thesis by (simp add: moves_def)
qed

lemma yield_OkD:
  assumes "on_cpu i s" and "cproc (cpus s ! i) = Some p" and "p < length (procs s)" and "yield s = Ok r"
  shows "locked (ptable_lock s) = 0 \<and> 0 \<le> queue (procs s ! p) \<and> queue (procs s ! p) < int NQUEUE"
proof -
  have free: "locked (ptable_lock s) = 0" using assms(1,4) by (auto simp: yield_def intro: acquire_free)
  let ?s1 = "upd_proc p (\<lambda>x. x\<lparr>consecutive_runs := consecutive_runs x + 1\<rparr>) (grabbed i s)"
  have on: "on_cpu i ?s1" "on_cpu i (grabbed i s)" using on_cpu_grabbed [OF assms(1)] by simp_all
  have c: "cproc (cpus (grabbed i s) ! i) = Some p"
    using assms(2) on_cpu_length [OF assms(1)] by (simp add: pushed_def)
  have y: "\<exists>v. should_yield ?s1 = Ok v"
    using assms(1,4) free c on
    by (auto simp: yield_def acquire_ptable_on myproc_on settled_grabbed bindr_Ok_iff)
  have "\<not> (queue (procs s ! p) < 0 \<or> int NQUEUE \<le> queue (procs s ! p))"
  proof
    assume "queue (procs s ! p) < 0 \<or> int NQUEUE \<le> queue (procs s ! p)"
    then have "should_yield ?s1 = Undef ''queue_weights''"
      using c assms(3) by (intro should_yield_bad_queue [OF on(1), where p = p]) auto
    with y show False by simp
  qed
  with free show ?thesis by linarith
qed

lemma yield_moves:
  assumes "on_cpu i s" and "ncli (cpus s ! i) = 0" and "cproc (cpus s ! i) = Some p" and "p \<in> run_set (procs s)"
    and "lk_cpu (ptable_lock s) = None \<longleftrightarrow> locked (ptable_lock s) = 0" and "yield s = Ok (c, t)"
  shows "moves i (User p) s (case c of Kept \<Rightarrow> User p | Swtch _ \<Rightarrow> Back) t"
proof -
  have p: "p < length (procs s)" "pstate (procs s ! p) = RUNNING" using assms(4) by (simp_all add: run_set_def)
  note i = on_cpu_length [OF assms(1)]
  from yield_OkD [OF assms(1,3) p(1) assms(6)] have free: "locked (ptable_lock s) = 0"
    and q: "0 \<le> queue (procs s ! p)" "queue (procs s ! p) < int NQUEUE" by auto
  have out: "(c, t) = yield_outcome i p s"
    using yield_on [OF assms(1) free assms(2,3) p(1) q] assms(6) by simp
  define k where "k = (if slice_over (consecutive_runs_queue (cpus s ! i)) (queue (procs s ! p)) then 0
    else consecutive_runs_queue (cpus s ! i) + 1)"
  let ?f = "\<lambda>c :: cpu. c\<lparr>consecutive_runs_queue := k\<rparr>"
  have on: "on_cpu i (upd_cpu i ?f s)" using assms(1) by (intro on_cpu_upd_cpu) simp_all
  show ?thesis
  proof (cases c)
    case Kept
    with out have t: "t = left i ((procs s)[p := (procs s ! p)\<lparr>consecutive_runs := consecutive_runs (procs s ! p) + 1\<rparr>])
        (upd_cpu i ?f s)"
      by (auto simp: yield_outcome_def Let_def k_def split: if_splits)
    have "moves i (User p) (upd_cpu i ?f s) (User p) t"
      unfolding t using on assms(2-5) free p i by (intro left_moves) (auto intro!: calm_update)
    then show ?thesis using Kept i by (simp add: moves_def)
  next
    case (Swtch ie)
    with out have t: "t = upd_proc p (\<lambda>x. x\<lparr>consecutive_runs := 0, pstate := RUNNABLE\<rparr>) (upd_cpu i ?f (grabbed i s))"
      by (auto simp: yield_outcome_def Let_def k_def split: if_splits)
    have "on_cpu i t" unfolding t using on_cpu_grabbed [OF assms(1)] by (simp add: on_cpu_upd_cpu)
    then show ?thesis
      using Swtch i assms(2) free p by (auto simp: moves_def t pushed_def run_set_update)
  qed
qed

lemma sleep_moves:
  assumes "on_cpu i s" and "held_by i l" and "ncli (cpus s ! i) = 1" and "cproc (cpus s ! i) = Some p"
    and "p \<in> run_set (procs s)" and "sleep ch (Other_lk l) s = Ok (ie, lk, t)"
  shows "moves i (User p) s Back t"
proof -
  have p: "p < length (procs s)" "pstate (procs s ! p) = RUNNING" using assms(5) by (simp_all add: run_set_def)
  note i = on_cpu_length [OF assms(1)] and g = on_cpu_grabbed [OF assms(1)]
  have "settled i s = s" using assms(1,3) by (intro settled_id) simp_all
  then have free: "locked (ptable_lock s) = 0"
    using assms(1,4,6) acquire_OkD [OF assms(1)] by (auto simp: sleep_def myproc_on bindr_Ok_iff)
  have n: "ncli (cpus (grabbed i s) ! i) = 2" using ncli_grabbed [OF assms(1)] assms(3) by simp
  have t: "t = upd_proc p (\<lambda>x. x\<lparr>chan := ch, pstate := SLEEPING\<rparr>) (popped i (grabbed i s))"
    using sleep_on_other [OF assms(1) free assms(2-4) p(1)] assms(6) by (simp add: Let_def)
  have "on_cpu i t" unfolding t using on_cpu_popped [OF g] n by simp
  then show ?thesis
    using i n free p assms(3) by (auto simp: moves_def t popped_def pushed_def run_set_update)
qed

lemma exit_moves:
  assumes "on_cpu i s" and "ncli (cpus s ! i) = 0" and "cproc (cpus s ! i) = Some p"
    and "p \<in> run_set (procs s)" and "exit_table p s = Ok (ie, t)"
  shows "moves i (User p) s Back t"
proof -
  note i = on_cpu_length [OF assms(1)]
  have free: "locked (ptable_lock s) = 0" using assms(1,5) by (auto simp: exit_table_def intro: acquire_free)
  from exit_table_on [OF assms(1) free assms(2,3)] assms(4,5) obtain ps where
    t: "t = (grabbed i s)\<lparr>procs := ps\<rparr>" "length ps = length (procs s)" "run_set ps = run_set (procs s) - {p}"
    by (auto simp: run_set_def)
  have "on_cpu i t" unfolding t using on_cpu_grabbed [OF assms(1)] by simp
  then show ?thesis using i assms(2) free t by (auto simp: moves_def pushed_def)
qed

text \<open>\<^verbatim>\<open>sleep\<close> on the table lock itself, as \<^verbatim>\<open>wait\<close> calls it.\<close>

lemma wait_moves:
  assumes "on_cpu i s" and "ncli (cpus s ! i) = 0" and "cproc (cpus s ! i) = Some p" and "p \<in> run_set (procs s)"
    and "acquire_ptable s = Ok s1" and "sleep ch Ptable_lk s1 = Ok (ie, lk, t)"
  shows "moves i (User p) s Back t"
proof -
  have p: "p < length (procs s)" "pstate (procs s ! p) = RUNNING" using assms(4) by (simp_all add: run_set_def)
  note i = on_cpu_length [OF assms(1)] and g = on_cpu_grabbed [OF assms(1)]
  have free: "locked (ptable_lock s) = 0" and s1: "s1 = grabbed i s" using acquire_OkD [OF assms(1,5)] by auto
  have n: "ncli (cpus s1 ! i) = 1" "cproc (cpus s1 ! i) = Some p" using assms(2,3) i by (simp_all add: s1 pushed_def)
  have t: "t = upd_proc p (\<lambda>x. x\<lparr>chan := ch, pstate := SLEEPING\<rparr>) s1"
    using sleep_on_ptable [of i s1 p ch] g n p(1) assms(6) by (simp add: s1)
  have "on_cpu i t" using g by (simp add: t s1)
  then show ?thesis using i n free p by (auto simp: moves_def t s1 pushed_def run_set_update)
qed

text \<open>A process in \<^verbatim>\<open>wait\<close> that has been switched to and goes back to sleep.\<close>

lemma sleep_wake_on:
  assumes "on_cpu i s" and "mode_cpu (Resumed p) (cpus s ! i)" and "sleep_wake p ie Ptable_lk s = Ok s1"
  shows "s1 = upd_proc p (\<lambda>x. x\<lparr>chan := None\<rparr>) (upd_cpu i (\<lambda>c. c\<lparr>intena := ie\<rparr>) s)"
    and "on_cpu i s1" and "cpus s1 = (cpus s)[i := (cpus s ! i)\<lparr>intena := ie\<rparr>]" and "ptable_lock s1 = ptable_lock s" and "calm (procs s) (procs s1)"
proof -
  have "\<not> IF s" using assms(1,2) by (simp add: on_cpu_def)
  then have "mycpu s = Ok i" using assms(1) by (intro mycpu_on_cpu)
  then show s1: "s1 = upd_proc p (\<lambda>x. x\<lparr>chan := None\<rparr>) (upd_cpu i (\<lambda>c. c\<lparr>intena := ie\<rparr>) s)"
    using assms(3) by (simp add: sleep_wake_def sched_resume_def Let_def)
  have "on_cpu i (upd_cpu i (\<lambda>c. c\<lparr>intena := ie\<rparr>) s)" using assms(1) by (intro on_cpu_upd_cpu) simp_all
  then show "on_cpu i s1" by (simp add: s1)
  show "cpus s1 = (cpus s)[i := (cpus s ! i)\<lparr>intena := ie\<rparr>]" "ptable_lock s1 = ptable_lock s" "calm (procs s) (procs s1)"
    by (simp_all add: s1 upd_cpu_def calm_update)
qed

lemma resleep_moves:
  assumes "on_cpu i s" and "mode_cpu (Resumed p) (cpus s ! i)" and "held_by i (ptable_lock s)" and "p \<in> run_set (procs s)"
    and "sleep_wake p ie Ptable_lk s = Ok s1" and "sleep ch Ptable_lk s1 = Ok (ie', lk, t)"
  shows "moves i (Resumed p) s Back t"
proof -
  note w = sleep_wake_on [OF assms(1,2,5)] and i = on_cpu_length [OF assms(1)]
  have p: "p \<in> run_set (procs s1)" "length (procs s1) = length (procs s)" using w(5) assms(4) by (simp_all add: calm_def)
  have c: "ncli (cpus s1 ! i) = 1" "cproc (cpus s1 ! i) = Some p" using w(3) assms(2) i by simp_all
  have t: "t = upd_proc p (\<lambda>x. x\<lparr>chan := ch, pstate := SLEEPING\<rparr>) s1"
    using sleep_on_ptable [of i s1 p ch] w(2,4) c p assms(3,6) by (simp add: run_set_def)
  have "on_cpu i t" using w(2) by (simp add: t)
  moreover have "run_set (procs t) = run_set (procs s) - {p}" 
    using w(5) p run_set_update [of p "procs s1" "(procs s1 ! p)\<lparr>chan := ch, pstate := SLEEPING\<rparr>"] by (simp add: t calm_def) (auto simp: run_set_def)
  ultimately show ?thesis using w(3,4) assms(2,3) i p(2) by (auto simp: moves_def t)
qed

lemma switch_moves:
  assumes "switch i p s t" and "on_cpu i s" and "cproc (cpus s ! i) = Some p" and "p \<in> run_set (procs s)"
    and "lk_cpu (ptable_lock s) = None \<longleftrightarrow> locked (ptable_lock s) = 0"
  shows "moves i (User p) s Back t"
  using assms
proof cases
  case (yield ie)
  with yield_moves [OF assms(2) _ assms(3-5)] show ?thesis by fastforce
next
  case (sleep l ch ie lk)
  with sleep_moves [OF assms(2)] assms show ?thesis by blast
next
  case (wait s1 ie lk)
  with wait_moves [OF assms(2)] assms show ?thesis by blast
next
  case (exit ie)
  with exit_moves [OF assms(2)] assms show ?thesis by blast
qed

text \<open>A process that has just been switched to gives the lock back.\<close>

lemma resume_moves:
  assumes "resume p s t" and "on_cpu i s" and "mode_cpu (Resumed p) (cpus s ! i)" and "held_by i (ptable_lock s)"
    and "p \<in> run_set (procs s)"
  shows "moves i (Resumed p) s (User p) t"
proof -
  note i = on_cpu_length [OF assms(2)]
  have "\<not> IF s" using assms(2,3) by (simp add: on_cpu_def)
  then have my: "mycpu s = Ok i" using assms(2) by (intro mycpu_on_cpu)
  obtain u where u: "release_ptable u = Ok t" "on_cpu i u" "cpus u = (cpus s)[i := cpus u ! i]"
    "apicid (cpus u ! i) = apicid (cpus s ! i)" "ncli (cpus u ! i) = 1" "cproc (cpus u ! i) = Some p"
    "ptable_lock u = ptable_lock s" "length (procs u) = length (procs s)" "run_set (procs u) = run_set (procs s)"
  proof -
    have on: "on_cpu i (upd_cpu i (\<lambda>c. c\<lparr>intena := ie\<rparr>) s)" for ie
      using assms(2) by (intro on_cpu_upd_cpu) simp_all
    have calm: "run_set ((procs s)[p := (procs s ! p)\<lparr>chan := None\<rparr>]) = run_set (procs s)"
      using calm_update [of p "procs s" "(procs s ! p)\<lparr>chan := None\<rparr>"] by (simp add: calm_def)
    from assms(1) show thesis
    proof cases
      case (yielded ie)
      with my on i assms(3) show thesis
        by (intro that [of "upd_cpu i (\<lambda>c. c\<lparr>intena := ie\<rparr>) s"]) (auto simp: yield_resume_def sched_resume_def)
    next
      case (slept ie l)
      with my on i assms(3) calm show thesis
        by (intro that [of "upd_proc p (\<lambda>x. x\<lparr>chan := None\<rparr>) (upd_cpu i (\<lambda>c. c\<lparr>intena := ie\<rparr>) s)"])
          (auto simp: sleep_wake_def sched_resume_def Let_def)
    next
      case forked
      with assms(2,3) show thesis by (intro that [of s]) auto
    next
      case (reaps ie s1 j)
      note w = sleep_wake_on [OF assms(2,3) reaps(1)]
      have "pstate (procs s1 ! j) = ZOMBIE" using reaps(2) first_idx_sat by (fastforce simp: wait_scan_def split: option.splits if_splits)
      then have "calm (procs s1) ((procs s1)[j := wait_reap (ticks s1) (procs s1 ! j)])" by (intro calm_update) (simp add: wait_reap_def reset_sched_def)
      then have "calm (procs s) ((procs s1)[j := wait_reap (ticks s1) (procs s1 ! j)])" using calm_trans w(5) by blast
      then show thesis using reaps(3) w assms(3) i by (intro that [of "upd_proc j (wait_reap (ticks s1)) s1"]) (auto simp: calm_def)
    next
      case (gives_up ie s1)
      note w = sleep_wake_on [OF assms(2,3) gives_up(1)]
      show thesis using gives_up(3) w assms(3) i by (intro that [of s1]) (auto simp: calm_def)
    qed
  qed
  have "moves i (Resumed p) u (User p) t"
    using u assms(4,5) by (intro free_moves) auto
  from moves_pre [OF this u(3,4,7,8,9)] show ?thesis .
qed

lemma return_moves:
  assumes "on_cpu i s" and "mode_cpu Back (cpus s ! i)" and "held_by i (ptable_lock s)" and "scheduler_return i s = (b, t)"
  shows "moves i Back s Looping t \<and> on_cpu i t \<and> ptable_lock t = ptable_lock s"
proof -
  note i = on_cpu_length [OF assms(1)]
  have t: "t = upd_cpu i (\<lambda>c. c\<lparr>cproc := None\<rparr>) (upd_cpu i (\<lambda>c. c\<lparr>cr3 := V2P (kpgdir s)\<rparr>) s)"
    using assms(4) by (simp add: scheduler_return_def switchkvm_def Let_def)
  have "on_cpu i t" unfolding t using assms(1) i by (intro on_cpu_upd_cpu) simp_all
  then show ?thesis using assms(2,3) i by (auto simp: moves_def t)
qed

lemma call_moves:
  assumes "call i p s t" and "on_cpu i s" and "mode_cpu (User p) (cpus s ! i)" and "p \<in> run_set (procs s)"
    and "lk_cpu (ptable_lock s) = None \<longleftrightarrow> locked (ptable_lock s) = 0"
  shows "moves i (User p) s (User p) t"
proof -
  note i = on_cpu_length [OF assms(2)]
  have sec: "sectioned i s u \<Longrightarrow> moves i (User p) s (User p) u" for u
    using assms by (intro sectioned_moves) auto
  have same: "moves i (User p) s (User p) s"
    using assms(2-4) i by (intro cpu_moves [where c = "cpus s ! i"]) auto
  have calm: "calm (procs s) ps \<Longrightarrow> moves i (User p) s (User p) (s\<lparr>procs := ps\<rparr>)" for ps
    using assms(2-4) i by (auto simp: moves_def calm_def)
  from assms(1) show ?thesis
  proof cases
    case clock
    then show ?thesis using same assms(2) by (simp add: moves_def on_cpu_def)
  next
    case (fields q f)
    then show ?thesis using calm [of "(procs s)[q := f (procs s ! q)]"] calm_update [of q "procs s" "f (procs s ! q)"] by (simp add: upd_proc_def)
  next
    case (unalloc q)
    then show ?thesis
      using calm [of "(procs s)[q := (procs s ! q)\<lparr>pstate := UNUSED\<rparr>]"] calm_update [of q "procs s" "(procs s ! q)\<lparr>pstate := UNUSED\<rparr>"] by (simp add: upd_proc_def)
  next
    case (pushcli)
    then have "t = pushed i s" using assms(2) by (simp add: pushcli_on_cpu)
    then show ?thesis
      using on_cpu_pushed [OF assms(2)] assms(3,4) i
      by (intro cpu_moves [where c = "cpus (pushed i s) ! i"]) (auto simp: pushed_def)
  next
    case (popcli)
    have n: "0 < ncli (cpus s ! i)" using popcli_OkD [OF assms(2)] popcli by simp
    then have "t = popped i s" using popcli assms(2) by (simp add: popcli_on_cpu)
    then show ?thesis
      using on_cpu_popped [OF assms(2) n] n assms(3,4) i
      by (intro cpu_moves [where c = "cpus (popped i s) ! i"]) (auto simp: popped_def)
  next
    case yield_keep
    with yield_moves [OF assms(2) _ _ assms(4,5)] assms(3) show ?thesis by fastforce
  qed (use assms sec same in \<open>blast intro: wakeup_sectioned kill_sectioned alloc_sectioned publish_sectioned
      reap_sectioned no_wait_sectioned set_queue_sectioned set_sjf_sectioned aging_sectioned dest: set_queue_sectioned\<close>)+
qed

text \<open>
  A process with a leaked lock: every call that takes the lock panics, so that what can still happen leaves the table lock and the running
  processes as they are.
\<close>

lemma leak_moves:
  assumes "on_cpu i s" and "mode_cpu (User p) (cpus s ! i)" and "p \<in> run_set (procs s)" and "pd \<le> 0 \<or> int NPROC \<le> pd"
    and "set_sjf_info pd b c s = Ok (r, t)"
  shows "moves i (User p) s (Leaked p) t"
proof -
  have free: "locked (ptable_lock s) = 0" using assms(1,5) by (auto simp: set_sjf_info_def intro: acquire_free)
  have t: "t = grabbed i s" using set_sjf_info_on [OF assms(1) free] assms(4,5) by auto
  show ?thesis using on_cpu_grabbed [OF assms(1)] on_cpu_length [OF assms(1)] assms(2,3) free by (auto simp: moves_def t pushed_def)
qed

lemma held_acquire: "on_cpu i s \<Longrightarrow> held_by i (ptable_lock s) \<Longrightarrow> acquire_ptable s = Panic ''acquire''"
  by (simp add: acquire_ptable_on held_by_def)

lemma leaked_switch_none:
  assumes "on_cpu i s" and "held_by i (ptable_lock s)"
  shows "\<not> switch i p s t"
proof
  assume "switch i p s t"
  then show False
  proof cases
    case (yield ie)
    then show False using held_acquire [OF assms] by (simp add: yield_def)
  next
    case (sleep l ch ie lk)
    have "settled i s = s" using assms(1) sleep(2) by (intro settled_id) simp_all
    then show False using sleep(3) held_acquire [OF assms] assms(1) by (simp add: sleep_def myproc_on split: option.splits)
  qed (use held_acquire [OF assms] in \<open>simp_all add: exit_table_def\<close>)
qed

lemma leaked_call_moves:
  assumes "call i p s t" and "on_cpu i s" and "mode_cpu (Leaked p) (cpus s ! i)" and "p \<in> run_set (procs s)" and "held_by i (ptable_lock s)"
  shows "moves i (Leaked p) s (Leaked p) t"
proof -
  note i = on_cpu_length [OF assms(2)] and acq = held_acquire [OF assms(2,5)]
  have calm: "calm (procs s) ps \<Longrightarrow> moves i (Leaked p) s (Leaked p) (s\<lparr>procs := ps\<rparr>)" for ps
    using assms(2-5) i by (auto simp: moves_def calm_def)
  have cpu: "on_cpu i u \<Longrightarrow> cpus u = (cpus s)[i := c] \<Longrightarrow> apicid c = apicid (cpus s ! i) \<Longrightarrow> mode_cpu (Leaked p) c \<Longrightarrow> procs u = procs s \<Longrightarrow>
      ptable_lock u = ptable_lock s \<Longrightarrow> moves i (Leaked p) s (Leaked p) u" for u c
    using assms(4,5) i by (auto simp: moves_def)
  from assms(1) show ?thesis
  proof cases
    case clock
    then show ?thesis using calm [OF calm_refl] assms(2) by (simp add: moves_def on_cpu_def)
  next
    case (fields q f)
    then show ?thesis using calm [of "(procs s)[q := f (procs s ! q)]"] calm_update [of q "procs s" "f (procs s ! q)"] by (simp add: upd_proc_def)
  next
    case (unalloc q)
    then show ?thesis
      using calm [of "(procs s)[q := (procs s ! q)\<lparr>pstate := UNUSED\<rparr>]"] calm_update [of q "procs s" "(procs s ! q)\<lparr>pstate := UNUSED\<rparr>"] by (simp add: upd_proc_def)
  next
    case (set_queue pd q r)
    then have "t = s" using acq by (auto simp: set_queue_def split: if_splits)
    then show ?thesis using calm [OF calm_refl] by simp
  next
    case pushcli
    then have "t = pushed i s" using assms(2) by (simp add: pushcli_on_cpu)
    then show ?thesis using on_cpu_pushed [OF assms(2)] assms(3) i by (intro cpu [where c = "cpus (pushed i s) ! i"]) (auto simp: pushed_def)
  next
    case popcli
    have n: "0 < ncli (cpus s ! i)" using popcli_OkD [OF assms(2)] popcli by simp
    then have "t = popped i s" using popcli assms(2) by (simp add: popcli_on_cpu)
    then show ?thesis using on_cpu_popped [OF assms(2) n] n assms(3) i by (intro cpu [where c = "cpus (popped i s) ! i"]) (auto simp: popped_def)
  qed (use acq in \<open>simp_all add: wakeup_def kill_def alloc_slot_def fork_publish_def set_sjf_info_def aging_def yield_def\<close>)
qed

section \<open>Reachable states\<close>

lemma kinvD:
  assumes "kinv k" and "i < ncpus k"
  shows "on_cpu i (kview i k)" and "mode_cpu (kmode k i) (cpus (kview i k) ! i)"
    and "mode_locks (kmode k i) \<Longrightarrow> held_by i (ptable_lock (kview i k))"
    and "lk_cpu (ptable_lock (kview i k)) = None \<longleftrightarrow> locked (ptable_lock (kview i k)) = 0"
    and "mode_run (kmode k i) \<subseteq> run_set (procs (kview i k))" and "length (procs (kview i k)) = NPROC"
  using assms kview_on_cpu
  by (auto simp: kinv_def cpus_inv_def lock_owner_def held_by_def runs_inv_def)

lemma kstep_kinv: "kstep k k' \<Longrightarrow> kinv k \<Longrightarrow> kinv k'"
proof (induction rule: kstep.induct)
  case (enter i k t)
  note d = kinvD [OF enter(4,1)]
  show ?case
    by (rule moves_kinv [OF enter(4,1)]) (use d enter(2,3) in \<open>simp add: enter_moves\<close>)
next
  case (pick i k p t)
  note d = kinvD [OF pick(4,1)]
  have "picked i (kview i k) (Some p) t"
    using scheduler_loop_sound [OF pick(3)] d pick(2) by simp
  then show ?case
    using d pick(2) by (intro moves_kinv [OF pick(4,1)]) (simp add: pick_moves)
next
  case (none i k t u)
  note d = kinvD [OF none(5,1)]
  have "picked i (kview i k) None t"
    using scheduler_loop_sound [OF none(3)] d none(2) by simp
  then show ?case
    using d none(2,4) by (intro moves_kinv [OF none(5,1)]) (auto intro: none_moves)
next
  case (resume i k p t)
  note d = kinvD [OF resume(4,1)]
  show ?case
    using d resume(2,3) by (intro moves_kinv [OF resume(4,1)]) (simp add: resume_moves)
next
  case (call i k p t)
  note d = kinvD [OF call(4,1)]
  show ?case
    using d call(2,3) by (intro moves_kinv [OF call(4,1)]) (simp add: call_moves)
next
  case (resleep i k p ie s1 ie' lk t)
  note d = kinvD [OF resleep(7,1)]
  show ?case
    using d resleep(2) resleep_moves [OF d(1) _ _ _ resleep(3,6)] by (intro moves_kinv [OF resleep(7,1)]) simp
next
  case (leak i k p pd b c r t)
  note d = kinvD [OF leak(5,1)]
  show ?case
    using d leak(2) leak_moves [OF d(1) _ _ leak(3,4)] by (intro moves_kinv [OF leak(5,1)]) simp
next
  case (leaked_call i k p t)
  note d = kinvD [OF leaked_call(4,1)]
  show ?case
    using d leaked_call(2,3) by (intro moves_kinv [OF leaked_call(4,1)]) (simp add: leaked_call_moves)
next
  case (leaked_switch i k p t)
  note d = kinvD [OF leaked_switch(4,1)]
  show ?case using leaked_switch_none [OF d(1)] d(3) leaked_switch(2,3) by simp
next
  case (tick i k t)
  note d = kinvD [OF tick(4,1)]
  let ?s = "(kview i k)\<lparr>ticks := ticks (kview i k) + 1\<rparr>"
  have "on_cpu i ?s" using d(1) by (simp add: on_cpu_def)
  then have "moves i Idle ?s Idle t"
    using d tick(2) aging_sectioned [OF _ tick(3)] by (intro sectioned_moves) simp_all
  then have "moves i Idle (kview i k) Idle t" by (simp add: moves_def)
  then show ?case using tick(2) by (intro moves_kinv [OF tick(4,1)]) simp
next
  case (interrupt i k ch t)
  note d = kinvD [OF interrupt(4,1)]
  have "moves i Idle (kview i k) Idle t"
    using d interrupt(2) wakeup_sectioned [OF d(1) interrupt(3)] by (intro sectioned_moves) simp_all
  then show ?case using interrupt(2) by (intro moves_kinv [OF interrupt(4,1)]) simp
next
  case (switch i k p t)
  note d = kinvD [OF switch(4,1)]
  show ?case
    using d switch(2,3) by (intro moves_kinv [OF switch(4,1)]) (simp add: switch_moves)
next
  case (again i k t)
  note d = kinvD [OF again(4,1)]
  show ?case
    using return_moves [OF d(1) _ _ again(3)] d(2,3) again(2) by (intro moves_kinv [OF again(4,1)]) simp
next
  case (leave i k t u)
  note d = kinvD [OF leave(5,1)]
  have r: "moves i Back (kview i k) Looping t" "on_cpu i t" "ptable_lock t = ptable_lock (kview i k)"
    using return_moves [OF d(1) _ _ leave(3)] d(2,3) leave(2) by simp_all
  then have "moves i Looping t Idle u"
    using leave(4) by (intro free_moves) (auto simp: moves_def)
  then have "moves i Back t Idle u" by (simp add: moves_def)
  then have "moves i Back (kview i k) Idle u"
    by (rule moves_pre) (use r in \<open>auto simp: moves_def\<close>)
  then show ?case using leave(2) by (intro moves_kinv [OF leave(5,1)]) simp
qed

lemma kreach_kinv: "kreach k \<Longrightarrow> kinv k"
proof (induction rule: kreach.induct)
  case (init k)
  then show ?case
    by (auto simp: kinit_def kinv_def cpus_inv_def lock_owner_def runs_inv_def)
next
  case (step k k')
  then show ?case by (simp add: kstep_kinv)
qed

text \<open>A machine of two CPUs with one runnable process, and the steps by which CPU 0 comes to run it.\<close>

definition proc1 :: proc where
  "proc1 = blank_proc\<lparr>pstate := RUNNABLE, pid := 1, kstack := 0x80500000, pgdir := 0x80600000\<rparr>"

definition ksys0 :: ksys where
  "ksys0 = \<lparr>kst = boot_state\<lparr>cpus := [cpu0, cpu0\<lparr>apicid := 8\<rparr>], procs := proc1 # replicate 63 blank_proc\<rparr>,
     kif = (\<lambda>_. True), kmode = (\<lambda>_. Idle)\<rparr>"

lemma ksys0_table:
  "p < 64 \<Longrightarrow> procs (kst ksys0) ! p = (if p = 0 then proc1 else blank_proc)"
  "length (procs (kst ksys0)) = NPROC" "ncpus ksys0 = 2"
  by (simp_all add: ksys0_def NPROC_def nth_Cons')

lemma ksys0_reach: "kreach ksys0"
proof (rule kreach.init)
  have "run_set (procs (kst ksys0)) = {}"
    by (auto simp: run_set_def ksys0_table NPROC_def proc1_def blank_proc_def)
  then show "kinit ksys0"
    by (auto simp: kinit_def ksys0_table)
      (auto simp: ksys0_def boot_state_def cpu0_def initlock_def less_Suc_eq numeral_2_eq_2)
qed

lemma ksys0_runs:
  "\<exists>k. kreach k \<and> ncpus k = 2 \<and> kmode k 0 = User 0 \<and> ncli (cpus (kst k) ! 0) = 0
     \<and> queue (procs (kst k) ! 0) = 0"
proof -
  let ?v = "(kview 0 ksys0)\<lparr>IF := True\<rparr>" let ?g = "grabbed 0 ?v"
  have on: "on_cpu 0 ?v" by (simp add: on_cpu_def kview_def ksys0_def cpu0_def)
  have free: "locked (ptable_lock ?v) = 0" by (simp add: ksys0_def boot_state_def initlock_def)
  let ?k1 = "kput 0 ?g Looping ksys0"
  have s1: "kreach ?k1"
    using on free acquire_ptable_on [OF on]
    by (intro kreach.step [OF ksys0_reach] kstep.enter)
      (simp_all add: scheduler_enter_def ksys0_table, simp add: ksys0_def)
  have c1: "ncpus ?k1 = 2" "procs (kst ?k1) = procs (kst ksys0)" "kmode ?k1 0 = Looping"
    by (simp_all add: ksys0_table)
  note d = kinvD [OF kreach_kinv [OF s1], of 0, unfolded c1(1,3), simplified]
  have ok: "table_ok (procs (kst ksys0))" "bootable (procs (kst ksys0))"
    by (auto simp: table_ok_def bootable_def bursts_ok_def arrivals_ok_def ksys0_def NPROC_def proc1_def cand_def blank_proc_def)
  have q: "start_queue 0 (kview 0 ?k1) = 0"
    by (simp add: next_queue_def pushed_def) (simp add: ksys0_def cpu0_def)
  have "\<exists>po t. scheduler_loop 0 (kview 0 ?k1) = Some (Ok (po, t)) \<and> loop_ok 0 (start_queue 0 (kview 0 ?k1)) (kview 0 ?k1) po t"
    by (rule scheduler_loop_spec) (use d ok q in \<open>simp_all add: c1\<close>)
  then obtain po t where t: "scheduler_loop 0 (kview 0 ?k1) = Some (Ok (po, t))" "loop_ok 0 0 (kview 0 ?k1) po t"
    unfolding q by blast
  have cand: "cand (int x) (procs (kst ksys0) ! p) \<longleftrightarrow> p = 0 \<and> x = 0" if "p < NPROC" for p x
    using that ksys0_table(1) [of p] by (simp add: NPROC_def cand_def proc1_def blank_proc_def)
  have po: "po = Some 0"
  proof (cases po)
    case None
    then have "\<forall>q p. q < 3 \<and> p < NPROC \<longrightarrow> \<not> cand (int q) (procs (kst ksys0) ! p)"
      using t(2) unfolding loop_ok_def kview_simps c1(2) by simp
    then have "\<not> cand (int 0) (procs (kst ksys0) ! 0)" by (metis NPROC_def zero_less_numeral)
    then show ?thesis using cand [of 0 0] by (simp add: NPROC_def)
  next
    case (Some p)
    then show ?thesis using t(2) cand unfolding loop_ok_def kview_simps c1(2) by auto
  qed
  let ?k2 = "kput 0 t (Resumed 0) ?k1"
  have s2: "kreach ?k2"
    by (rule kreach.step [OF s1], rule kstep.pick) (use t(1) po c1 in simp_all)
  have own: "own_entry 0 (kview 0 ?k1) t" using t(2) by (simp add: loop_ok_def)
  then have c2: "ncpus ?k2 = 2" using c1(1) by (auto simp: own_entry_def)
  have tab: "queue (procs t ! 0) = 0" "procs t \<noteq> []"
    using t(2) po c1(2) ksys0_table(1) [of 0] ksys0_table(2)
    by (auto simp: loop_ok_def proc1_def blank_proc_def NPROC_def)
  note e = kinvD [OF kreach_kinv [OF s2], of 0, unfolded c2, simplified]
  have rel: "release_ptable (kview 0 ?k2) = Ok (freed 0 (kview 0 ?k2))"
    using release_ptable_on [OF e(1)] e(2,3) by simp
  let ?k3 = "kput 0 (freed 0 (kview 0 ?k2)) (User 0) ?k2"
  have s3: "kreach ?k3"
    by (rule kreach.step [OF s2], rule kstep.resume [where p = 0]) (use c2 rel in \<open>simp_all add: resume.forked\<close>)
  have "ncli (cpus (kst ?k3) ! 0) = 0" "ncpus ?k3 = 2"
    using e(2) c2 by (simp_all add: popped_def)
  with s3 tab show ?thesis by (intro exI [of _ ?k3]) simp
qed

section \<open>Properties\<close>

text \<open>C1: In every reachable state of the machine a process is RUNNING in the table exactly when a CPU has it as its current process
  and runs it, and no two CPUs run the same process. The CPUs go through their scheduler loops in any order; their processes fork, exit,
  wait (also asleep on the table lock), sleep with another lock, yield, kill, set queues and burst times, and write the other fields of their
  entries; interrupts wake processes, count ticks and age the queues, on idle CPUs too. A process that leaks the table lock
  by \<^verbatim>\<open>set_sjf_info\<close> with a pid out of range runs on with it.\<close>

theorem running_on_one_cpu:
  assumes "kreach k"
  shows "(p < NPROC \<and> pstate (procs (kst k) ! p) = RUNNING \<longleftrightarrow> (\<exists>i < ncpus k. p \<in> mode_run (kmode k i) \<and> cproc (cpus (kst k) ! i) = Some p))
    \<and> (\<forall>i < ncpus k. \<forall>j < ncpus k. p \<in> mode_run (kmode k i) \<and> p \<in> mode_run (kmode k j) \<longrightarrow> i = j)"
proof -
  have inv: "kinv k" using kreach_kinv [OF assms] .
  have len: "length (procs (kst k)) = NPROC" using inv by (simp add: kinv_def)
  have "p \<in> mode_run (kmode k i) \<Longrightarrow> i < ncpus k \<Longrightarrow> cproc (cpus (kst k) ! i) = Some p" for i
    using kinvD(2) [OF inv, of i] by (cases "kmode k i") auto
  moreover have "p < NPROC \<and> pstate (procs (kst k) ! p) = RUNNING \<longleftrightarrow> (\<exists>i < ncpus k. p \<in> mode_run (kmode k i))"
    using inv len by (auto simp: kinv_def runs_inv_def run_set_def set_eq_iff)
  moreover have "i = j" if "i < ncpus k" "j < ncpus k" "p \<in> mode_run (kmode k i)" "p \<in> mode_run (kmode k j)" for i j
    using inv that unfolding kinv_def runs_inv_def by blast
  ultimately show ?thesis by blast
qed

theorem running_on_one_cpu_witness:
  "\<exists>k. kreach k \<and> ncpus k = 2 \<and> kmode k 0 = User 0 \<and> pstate (procs (kst k) ! 0) = RUNNING \<and> kmode k 1 \<noteq> User 0"
proof -
  obtain k where k: "kreach k" "ncpus k = 2" "kmode k 0 = User 0" using ksys0_runs by blast
  have "cproc (cpus (kst k) ! 0) = Some 0" using kinvD(2) [OF kreach_kinv [OF k(1)], of 0] k by simp
  with running_on_one_cpu [OF k(1), of 0] k have "pstate (procs (kst k) ! 0) = RUNNING" "kmode k 1 \<noteq> User 0"
    by (auto simp: less_Suc_eq numeral_2_eq_2)
  with k show ?thesis by blast
qed

text \<open>C9: Giving up the CPU is safe: a process that runs without the table lock, holds no
  other lock and has a legal queue can call \<^verbatim>\<open>yield\<close> in every reachable state; it never
  panics in \<^verbatim>\<open>sched\<close> (it returns or switches, or spins while another CPU holds the lock).\<close>

theorem yield_never_panics:
  assumes "kreach k" and "i < ncpus k" and "kmode k i = User p" and "ncli (cpus (kst k) ! i) = 0"
    and "0 \<le> queue (procs (kst k) ! p)" and "queue (procs (kst k) ! p) < int NQUEUE"
  shows "yield (kview i k) = Block \<or> yield (kview i k) = Ok (yield_outcome i p (kview i k))"
proof -
  have inv: "kinv k" using kreach_kinv [OF assms(1)] .
  note d = kinvD [OF inv assms(2)]
  have p: "p < length (procs (kview i k))" using d(5) assms(3) by (auto simp: run_set_def)
  show ?thesis
  proof (cases "locked (ptable_lock (kst k)) = 0")
    case True
    then show ?thesis using yield_on [OF d(1)] d(2) assms p by simp
  next
    case False
    have "lk_cpu (ptable_lock (kst k)) \<noteq> Some i"
      using inv assms(2,3) by (auto simp: kinv_def lock_owner_def)
    with False show ?thesis using acquire_ptable_on [OF d(1)] by (simp add: yield_def)
  qed
qed

theorem yield_never_panics_witness:
  "\<exists>k. kreach k \<and> kmode k 0 = User 0
     \<and> (yield (kview 0 k) = Block \<or> yield (kview 0 k) = Ok (yield_outcome 0 0 (kview 0 k)))"
proof -
  obtain k where k: "kreach k" "ncpus k = 2" "kmode k 0 = User 0" "ncli (cpus (kst k) ! 0) = 0"
    "queue (procs (kst k) ! 0) = 0" using ksys0_runs by blast
  with yield_never_panics [of k 0 0] show ?thesis by (auto simp: NQUEUE_def)
qed



end
