(* ===== verification/Sched_Calls.thy ===== *)
theory Sched_Calls
  imports Sched_Lock
begin

text \<open>
  The system calls on scheduling data and call counters (\<^verbatim>\<open>src/proc.c\<close>): what they
  guarantee, where two of them go wrong, and the agreement of the per-CPU and the total
  call counters.
\<close>

section \<open>Setting burst times and queues\<close>

text \<open>C13: \<^verbatim>\<open>set_sjf_info\<close> with a pid outside the table range returns -1 and keeps the process
  table lock, with interrupts off: the next kernel routine of this CPU that takes the lock
  (here \<^verbatim>\<open>kill\<close> and \<^verbatim>\<open>wakeup\<close>) panics.\<close>

theorem set_sjf_info_leaks_lock:
  assumes "on_cpu i s" and "locked (ptable_lock s) = 0" and "pd \<le> 0 \<or> int NPROC \<le> pd"
  shows "\<exists>t. set_sjf_info pd b c s = Ok (-1, t) \<and> held_by i (ptable_lock t) \<and> \<not> IF t
    \<and> kill x t = Panic ''acquire'' \<and> wakeup ch t = Panic ''acquire''"
proof -
  have "set_sjf_info pd b c s = Ok (-1, grabbed i s)"
    using set_sjf_info_on [OF assms(1,2)] assms(3) by simp
  moreover have "acquire_ptable (grabbed i s) = Panic ''acquire''"
    using acquire_ptable_on [OF on_cpu_grabbed [OF assms(1)]] by simp
  ultimately show ?thesis by (auto simp: kill_def wakeup_def)
qed

theorem set_sjf_info_leaks_lock_witness:
  "\<exists>t. set_sjf_info 64 5 5 boot_state = Ok (-1, t) \<and> kill 1 t = Panic ''acquire''"
proof -
  have "on_cpu 0 boot_state" by (simp add: boot_state_def on_cpu_def cpu0_def)
  moreover have "locked (ptable_lock boot_state) = 0" by (simp add: boot_state_def initlock_def)
  ultimately show ?thesis
    using set_sjf_info_leaks_lock [of 0 boot_state 64 5 5 1 None] by (auto simp: NPROC_def)
qed

text \<open>\<^verbatim>\<open>set_queue\<close> accepts queue 3 although there are three queues numbered from 0: the
  process is then a candidate of none of the disciplines, and if it runs, its next
  \<^verbatim>\<open>yield\<close> indexes \<^verbatim>\<open>queue_weights\<close> out of its range.\<close>

theorem set_queue_accepts_missing_queue:
  assumes "on_cpu i s" and "locked (ptable_lock s) = 0" and "0 < pd" and "pd < int NPROC"
    and "first_idx (\<lambda>p. pid p = pd) (procs s) = Some j" and "queue (procs s ! j) \<noteq> 3"
  shows "\<exists>t. set_queue pd 3 s = Ok (0, t) \<and> queue (procs t ! j) = 3
    \<and> (\<forall>q < NQUEUE. \<not> cand (int q) (procs t ! j))
    \<and> (cproc (cpus t ! i) = Some j \<longrightarrow> should_yield t = Undef ''queue_weights'')"
proof -
  let ?ps = "(procs s)[j := (procs s ! j)\<lparr>queue := 3, arrival := sint (ticks s)\<rparr>]"
  have t: "set_queue pd 3 s = Ok (0, left i ?ps s)"
    using set_queue_on [OF assms(1-4), of 3] assms(5,6) by simp
  have q: "queue (?ps ! j) = 3" using first_idx_length [OF assms(5)] by simp
  have "should_yield (left i ?ps s) = Undef ''queue_weights''" if "cproc (cpus (left i ?ps s) ! i) = Some j"
    using q by (intro should_yield_bad_queue [OF on_cpu_left [OF assms(1)] that]) (simp add: NQUEUE_def)
  with t q show ?thesis by (auto simp: cand_def NQUEUE_def)
qed

theorem set_queue_accepts_missing_queue_witness:
  "\<exists>t. set_queue 4 3 (boot_state\<lparr>procs := blank_proc\<lparr>pid := 4\<rparr> # replicate 63 blank_proc\<rparr>) = Ok (0, t)
     \<and> queue (procs t ! 0) = 3" (is "\<exists>t. set_queue 4 3 ?s = _ \<and> _")
proof -
  have "on_cpu 0 ?s" by (simp add: boot_state_def on_cpu_def cpu0_def)
  moreover have "locked (ptable_lock ?s) = 0" by (simp add: boot_state_def initlock_def)
  moreover have "first_idx (\<lambda>p. pid p = 4) (procs ?s) = Some 0" "queue (procs ?s ! 0) \<noteq> 3"
    by (simp_all add: blank_proc_def)
  ultimately show ?thesis
    using set_queue_accepts_missing_queue [of 0 ?s 4 0] by (auto simp: NPROC_def)
qed

section \<open>Call counters\<close>

definition counters_agree :: "'a kst \<Rightarrow> bool" where
  "counters_agree s \<longleftrightarrow> total_count s = sum_list (map syscall_counter (cpus s))"

lemma sum_int_update: "i < length xs \<Longrightarrow> sum_list (xs[i := v]) = sum_list xs - xs ! i + (v :: int)"
  by (induction xs arbitrary: i) (auto split: nat.split)

lemma log_syscall_on:
  assumes "on_cpu i s" and "locked (total_lock s) = 0" and "cproc (cpus s ! i) = Some p"
  shows "if 1 \<le> num \<and> num \<le> int NSYSCALL
    then \<exists>t. log_syscall num s = Ok t \<and> total_count t = total_count s + syscall_weight num
      \<and> (\<exists>c. cpus t = (cpus s)[i := c] \<and> syscall_counter c = syscall_counter (cpus s ! i) + syscall_weight num)
      \<and> procs t = (procs s)[p := (procs s ! p)\<lparr>sc := (sc (procs s ! p))
            [nat (num - 1) := sc (procs s ! p) ! nat (num - 1) + 1]\<rparr>]
    else log_syscall num s = Undef ''sc''"
proof -
  note i = on_cpu_length [OF assms(1)] and p = on_cpu_pushed [OF assms(1)]
  let ?lk = "(total_lock s)\<lparr>locked := 1, lk_cpu := Some i\<rparr>"
  let ?f = "\<lambda>c :: cpu. c\<lparr>syscall_counter := syscall_counter c + syscall_weight num\<rparr>"
  let ?s2 = "upd_cpu i ?f ((pushed i s)\<lparr>total_lock := ?lk, total_count := total_count s + syscall_weight num\<rparr>)"
  have on2: "on_cpu i ?s2" using p by (intro on_cpu_upd_cpu) simp_all
  have n2: "0 < ncli (cpus ?s2 ! i)" using ncli_pushed [OF assms(1)] assms(1) i by (simp add: on_cpu_def)
  let ?s3 = "(popped i ?s2)\<lparr>total_lock := ?lk\<lparr>lk_cpu := None, locked := 0\<rparr>\<rparr>"
  have on3: "on_cpu i ?s3" using on_cpu_popped [OF on2 n2] by simp
  have c3: "cproc (cpus ?s3 ! i) = Some p" using assms(3) i by (simp add: popped_def pushed_def)
  have rel: "release ?lk ?s2 = Ok (?lk\<lparr>lk_cpu := None, locked := 0\<rparr>, popped i ?s2)"
    using release_on_cpu [OF on2 n2, of ?lk] by simp
  have eq: "log_syscall num s =
    (if num < 1 \<or> int NSYSCALL < num then Undef ''sc''
     else Ok (upd_proc p (\<lambda>x. x\<lparr>sc := (sc x)[nat (num - 1) := sc x ! nat (num - 1) + 1]\<rparr>) (settled i ?s3)))"
    using assms(2) rel myproc_on [OF on3] c3
    by (simp add: log_syscall_def acquire_on_cpu [OF assms(1)] mycpu_pushed [OF assms(1)] mycpu_on_cpu [OF p] Let_def)
  show ?thesis
    unfolding eq using i by (auto simp: settled_def popped_def pushed_def)
qed

text \<open>C11: A logged system call adds its weight to the total and to the counter of the CPU it runs on, and leaves the counters of the
  other CPUs, so that a total that is the sum over the CPUs stays so, and it counts one call of its number for the current
  process; a number outside 1 to 34 indexes the counter array out of its range. The lock of the total is free when the call starts.\<close>

theorem log_syscall_counts:
  assumes "on_cpu i s" and "locked (total_lock s) = 0" and "cproc (cpus s ! i) = Some p" and "counters_agree s"
  shows "if 1 \<le> num \<and> num \<le> int NSYSCALL
    then \<exists>t. log_syscall num s = Ok t \<and> counters_agree t \<and> total_count t = total_count s + syscall_weight num
      \<and> map syscall_counter (cpus t) = (map syscall_counter (cpus s))[i := syscall_counter (cpus s ! i) + syscall_weight num]
      \<and> procs t = (procs s)[p := (procs s ! p)\<lparr>sc := (sc (procs s ! p))
            [nat (num - 1) := sc (procs s ! p) ! nat (num - 1) + 1]\<rparr>]
    else log_syscall num s = Undef ''sc''"
proof -
  note i = on_cpu_length [OF assms(1)]
  then show ?thesis
    using log_syscall_on [OF assms(1-3), of num] assms(4) by (auto simp: counters_agree_def map_update sum_int_update)
qed

theorem log_syscall_counts_witness:
  "\<exists>t. log_syscall 15 (boot_state\<lparr>cpus := [cpu0\<lparr>cproc := Some 0\<rparr>]\<rparr>) = Ok t \<and> total_count t = 3
     \<and> map syscall_counter (cpus t) = [3]"
proof -
  let ?s = "boot_state\<lparr>cpus := [cpu0\<lparr>cproc := Some 0\<rparr>]\<rparr>"
  have "on_cpu 0 ?s" "locked (total_lock ?s) = 0" "counters_agree ?s"
    by (simp_all add: boot_state_def on_cpu_def cpu0_def initlock_def counters_agree_def)
  then show ?thesis
    using log_syscall_counts [of 0 ?s 0 15] by (auto simp: NSYSCALL_def syscall_weight_def boot_state_def cpu0_def)
qed

definition most_inv :: "int list \<Rightarrow> int \<times> nat option \<Rightarrow> bool" where
  "most_inv cs r \<longleftrightarrow> (\<forall>c \<in> set cs. c \<le> fst r) \<and> (case snd r of
       None \<Rightarrow> fst r = 0
     | Some j \<Rightarrow> j < length cs \<and> cs ! j = fst r \<and> 0 < fst r \<and> (\<forall>k < j. cs ! k < fst r))"

lemma most_inv_snoc:
  assumes "most_inv qs (mx, mi)"
  shows "most_inv (qs @ [c]) (if c > mx then (c, Some (length qs)) else (mx, mi))"
proof -
  have "0 \<le> mx" using assms by (auto simp: most_inv_def split: option.splits)
  moreover have "k < length qs \<Longrightarrow> mx < c \<Longrightarrow> qs ! k < c" for k
    using assms nth_mem [of k qs] unfolding most_inv_def by fastforce
  ultimately show ?thesis
    using assms by (cases "mx < c") (fastforce simp: most_inv_def nth_append split: option.splits)+
qed

lemma most_loop_inv: "most_inv qs (mx, mi) \<Longrightarrow> most_inv (qs @ cs) (most_loop (length qs) cs mx mi)"
proof (induction cs arbitrary: qs mx mi)
  case Nil
  then show ?case by simp
next
  case (Cons c cs)
  with most_inv_snoc [OF Cons.prems, of c] show ?case
    using Cons.IH [of "qs @ [c]"] by (auto split: if_splits)
qed

text \<open>\<^verbatim>\<open>get_most_invoked\<close> reports, for the first process with the pid, the call with the
  largest count (the lowest number among equals), none if nothing was called, and leaves
  the table as it was; an unknown pid gives -1.\<close>

theorem get_most_invoked_correct:
  assumes "on_cpu i s" and "locked (ptable_lock s) = 0"
  shows "case first_idx (\<lambda>p. pid p = pd) (procs s) of
      None \<Rightarrow> get_most_invoked pd s = Ok (-1, None, left i (procs s) s)
    | Some j \<Rightarrow> \<exists>r. get_most_invoked pd s = Ok (0, Some r, left i (procs s) s) \<and> most_inv (sc (procs s ! j)) r"
proof -
  have "most_inv (sc (procs s ! j)) (most_loop 0 (sc (procs s ! j)) 0 None)" for j
    using most_loop_inv [of "[]" 0 None] by (simp add: most_inv_def)
  then show ?thesis
    using assms by (auto simp: get_most_invoked_def acquire_ptable_on release_grabbed split: option.splits)
qed

theorem get_most_invoked_correct_witness:
  "get_most_invoked 9 boot_state = Ok (-1, None, left 0 (procs boot_state) boot_state)"
proof -
  have "on_cpu 0 boot_state" "locked (ptable_lock boot_state) = 0"
    by (simp_all add: boot_state_def on_cpu_def cpu0_def initlock_def)
  moreover have "first_idx (\<lambda>p. pid p = 9) (procs boot_state) = None"
    by (simp add: first_idx_None boot_state_def blank_proc_def)
  ultimately show ?thesis using get_most_invoked_correct [of 0 boot_state 9] by simp
qed

end
