(* ===== verification/Bytes.thy ===== *)
theory Bytes
  imports Kernel_Prelude
begin

text \<open>
  Byte arrays: copying into an array (\<^verbatim>\<open>memmove\<close> of a C object into a buffer), and
  the little-endian layout of 16-bit and 32-bit integers, as the kernel reads and
  writes them in disk blocks and user memory.
\<close>

named_theorems bytes_simps \<open>reading and writing byte arrays\<close>

text \<open>\<open>put d off bs\<close> overwrites the bytes of \<open>d\<close> from \<open>off\<close> on with \<open>bs\<close>.\<close>

definition put :: "'a list \<Rightarrow> nat \<Rightarrow> 'a list \<Rightarrow> 'a list" where
  "put d off bs = take off d @ bs @ drop (off + length bs) d"

definition slice :: "'a list \<Rightarrow> nat \<Rightarrow> nat \<Rightarrow> 'a list" where
  "slice d off n = take n (drop off d)"

definition le16 :: "16 word \<Rightarrow> byte list" where
  "le16 w = [ucast w, ucast (drop_bit 8 w)]"

definition le32 :: "uint \<Rightarrow> byte list" where
  "le32 w = [ucast w, ucast (drop_bit 8 w), ucast (drop_bit 16 w), ucast (drop_bit 24 w)]"

definition get16 :: "byte list \<Rightarrow> nat \<Rightarrow> 16 word" where
  "get16 d off = ucast (d ! off) OR push_bit 8 (ucast (d ! (off + 1)))"

definition get32 :: "byte list \<Rightarrow> nat \<Rightarrow> uint" where
  "get32 d off = ucast (d ! off) OR push_bit 8 (ucast (d ! (off + 1)))
     OR push_bit 16 (ucast (d ! (off + 2))) OR push_bit 24 (ucast (d ! (off + 3)))"

definition put16 :: "byte list \<Rightarrow> nat \<Rightarrow> 16 word \<Rightarrow> byte list" where
  "put16 d off w = put d off (le16 w)"

definition put32 :: "byte list \<Rightarrow> nat \<Rightarrow> uint \<Rightarrow> byte list" where
  "put32 d off w = put d off (le32 w)"

lemma length_put [simp, bytes_simps]: "off + length bs \<le> length d \<Longrightarrow> length (put d off bs) = length d"
  by (simp add: put_def)

lemma nth_put [bytes_simps]:
  assumes "off + length bs \<le> length d" and "i < length d"
  shows "put d off bs ! i = (if off \<le> i \<and> i < off + length bs then bs ! (i - off) else d ! i)"
  using assms by (auto simp: put_def nth_append min_def)

lemma length_slice [simp, bytes_simps]: "length (slice d off n) = min n (length d - off)"
  by (simp add: slice_def)

lemma nth_slice [bytes_simps]: "i < n \<Longrightarrow> off + i < length d \<Longrightarrow> slice d off n ! i = d ! (off + i)"
  by (simp add: slice_def)

lemma put_0_all: "length bs = length d \<Longrightarrow> put d 0 bs = bs"
  by (simp add: put_def)

lemma slice_put_same: "off + length bs \<le> length d \<Longrightarrow> slice (put d off bs) off (length bs) = bs"
  by (simp add: slice_def put_def)

lemma slice_put_other:
  assumes "off + length bs \<le> length d" and "off' + n \<le> length d" and "off' + n \<le> off \<or> off + length bs \<le> off'"
  shows "slice (put d off bs) off' n = slice d off' n"
  using assms by (intro nth_equalityI) (auto simp: nth_slice nth_put)

lemma put_slice_id: "off + n \<le> length d \<Longrightarrow> put d off (slice d off n) = d"
  by (intro nth_equalityI) (auto simp: nth_put nth_slice)

lemma length_le [simp]: "length (le16 w) = 2" "length (le32 v) = 4"
  by (simp_all add: le16_def le32_def)

lemma length_put16 [simp]: "off + 2 \<le> length d \<Longrightarrow> length (put16 d off w) = length d"
  and length_put32 [simp]: "off + 4 \<le> length d \<Longrightarrow> length (put32 d off v) = length d"
  by (simp_all add: put16_def put32_def)

lemma le16_join: "ucast (ucast w :: byte) OR push_bit 8 (ucast (ucast (drop_bit 8 w) :: byte)) = (w :: 16 word)"
  by (rule bit_word_eqI) (auto simp: bit_simps)

lemma le32_join:
  "ucast (ucast w :: byte) OR push_bit 8 (ucast (ucast (drop_bit 8 w) :: byte))
     OR push_bit 16 (ucast (ucast (drop_bit 16 w) :: byte)) OR push_bit 24 (ucast (ucast (drop_bit 24 w) :: byte))
   = (w :: uint)"
proof (rule bit_word_eqI)
  fix n
  assume "n < LENGTH(32)"
  then consider "n < 8" | "8 \<le> n" "n < 16" | "16 \<le> n" "n < 24" | "24 \<le> n" "n < 32" by fastforce
  then show "bit (ucast (ucast w :: byte) OR push_bit 8 (ucast (ucast (drop_bit 8 w) :: byte))
     OR push_bit 16 (ucast (ucast (drop_bit 16 w) :: byte)) OR push_bit 24 (ucast (ucast (drop_bit 24 w) :: byte)) :: uint) n
   = bit w n"
    by cases (auto simp: bit_simps)
qed

lemma get16_put16_same [simp, bytes_simps]: "off + 2 \<le> length d \<Longrightarrow> get16 (put16 d off w) off = w"
  by (simp add: get16_def put16_def nth_put le16_def le16_join)

lemma get32_put32_same [simp, bytes_simps]: "off + 4 \<le> length d \<Longrightarrow> get32 (put32 d off w) off = w"
  by (simp add: get32_def put32_def nth_put le32_def le32_join numeral_2_eq_2 [symmetric] nth_Cons')

text \<open>Writes elsewhere do not disturb a field.\<close>

lemma get_put_other [bytes_simps]:
  assumes "off + length bs \<le> length d"
  shows "off' + 4 \<le> length d \<Longrightarrow> off' + 4 \<le> off \<or> off + length bs \<le> off' \<Longrightarrow> get32 (put d off bs) off' = get32 d off'"
    and "off' + 2 \<le> length d \<Longrightarrow> off' + 2 \<le> off \<or> off + length bs \<le> off' \<Longrightarrow> get16 (put d off bs) off' = get16 d off'"
  using assms by (auto simp: get32_def get16_def nth_put)

lemma get_put32_other [simp, bytes_simps]:
  assumes "off + 4 \<le> length d"
  shows "off' + 4 \<le> length d \<Longrightarrow> off' + 4 \<le> off \<or> off + 4 \<le> off' \<Longrightarrow> get32 (put32 d off w) off' = get32 d off'"
    and "off' + 2 \<le> length d \<Longrightarrow> off' + 2 \<le> off \<or> off + 4 \<le> off' \<Longrightarrow> get16 (put32 d off w) off' = get16 d off'"
  using assms get_put_other [of off "le32 w" d off'] by (simp_all add: put32_def)

lemma get_put16_other [simp, bytes_simps]:
  assumes "off + 2 \<le> length d"
  shows "off' + 4 \<le> length d \<Longrightarrow> off' + 4 \<le> off \<or> off + 2 \<le> off' \<Longrightarrow> get32 (put16 d off w) off' = get32 d off'"
    and "off' + 2 \<le> length d \<Longrightarrow> off' + 2 \<le> off \<or> off + 2 \<le> off' \<Longrightarrow> get16 (put16 d off w) off' = get16 d off'"
  using assms get_put_other [of off "le16 w" d off'] by (simp_all add: put16_def)

lemma unat_uint_less: "unat (w :: uint) < 4294967296"
  using unsigned_less [of w, where ?'a = nat] by simp

lemma unat_of_nat_uint: "n < 4294967296 \<Longrightarrow> unat (word_of_nat n :: uint) = n"
  by (simp add: unsigned_of_nat take_bit_nat_eq_self)

lemma unat_add_uint: "unat (a :: uint) + unat b < 4294967296 \<Longrightarrow> unat (a + b) = unat a + unat b"
proof -
  assume "unat a + unat b < 4294967296"
  moreover have "a + b = word_of_nat (unat a + unat b)" by simp
  ultimately show ?thesis by (simp only: unat_of_nat_uint)
qed

lemma unat_add_wrap: "\<not> (a :: uint) + b < a \<Longrightarrow> unat (a + b) = unat a + unat b"
proof (rule ccontr)
  assume n: "\<not> a + b < a" and ne: "unat (a + b) \<noteq> unat a + unat b"
  then have big: "4294967296 \<le> unat a + unat b" using unat_add_uint [of a b] by linarith
  define k where "k = unat a + unat b - 4294967296"
  have k: "unat a + unat b = k + 4294967296" "k < 4294967296" "k < unat a"
    using big unat_uint_less [of a] unat_uint_less [of b] by (auto simp: k_def)
  have "a + b = word_of_nat (unat a + unat b)" by simp
  also have "\<dots> = word_of_nat k" unfolding k(1) of_nat_add by simp
  finally have "unat (a + b) = k" using k(2) by (simp only: unat_of_nat_uint)
  then show False using n k(3) by (simp add: word_less_nat_alt)
qed

lemma unat_sub_uint: "(b :: uint) \<le> a \<Longrightarrow> unat (a - b) = unat a - unat b"
  by (simp add: unat_sub)

end
