(* ===== verification/Bio.thy ===== *)
theory Bio
  imports Bytes
begin

text \<open>
  The buffer cache (\<^verbatim>\<open>src/bio.c\<close>, \<^verbatim>\<open>src/buf.h\<close>) over the synchronous disk driver
  (\<^verbatim>\<open>src/memide.c\<close>).  A file-system call runs on its own here: a spin lock section is
  one step, a sleep lock that is taken blocks the caller, and \<open>curpid\<close> is the pid of the
  process that runs.  The disk is the sequence of block writes it has received, with the
  contents they leave.
\<close>

section \<open>Data\<close>

definition BSIZE :: nat where "BSIZE = 512"
definition NBUF :: nat where "NBUF = 30"
definition ROOTDEV :: uint where "ROOTDEV = 1"

text \<open>A sleep lock without its name and its protecting spin lock.\<close>

record slk =
  sl_locked :: bool
  sl_pid :: int

definition free_slk :: slk where
  "free_slk = \<lparr>sl_locked = False, sl_pid = 0\<rparr>"

definition slk_acquire :: "int \<Rightarrow> slk \<Rightarrow> slk res" where
  "slk_acquire me l = (if sl_locked l then Block else Ok \<lparr>sl_locked = True, sl_pid = me\<rparr>)"

definition slk_release :: "slk \<Rightarrow> slk" where
  "slk_release l = free_slk"

definition slk_holding :: "int \<Rightarrow> slk \<Rightarrow> bool" where
  "slk_holding me l \<longleftrightarrow> sl_locked l \<and> sl_pid l = me"

text \<open>\<^verbatim>\<open>struct buf\<close>; the two flag bits are \<open>bvalid\<close> and \<open>bdirty\<close>, the list links are \<open>lru\<close> below.\<close>

record buf =
  bvalid :: bool
  bdirty :: bool
  bdev :: uint
  blockno :: uint
  block :: slk
  refcnt :: uint
  bdata :: "byte list"

record bstate =
  bufs :: "buf list"
  lru :: "nat list"
  disk :: "uint \<Rightarrow> byte list"
  dhist :: "(uint \<times> byte list) list"
  disksize :: uint
  curpid :: int

type_synonym 'a bst = "'a bstate_scheme"

definition upd_buf :: "nat \<Rightarrow> (buf \<Rightarrow> buf) \<Rightarrow> 'a bst \<Rightarrow> 'a bst" where
  "upd_buf i f s = s\<lparr>bufs := (bufs s)[i := f (bufs s ! i)]\<rparr>"

section \<open>Operations\<close>

definition iderw :: "nat \<Rightarrow> 'a bst \<Rightarrow> 'a bst res" where
  "iderw i s =
     (let b = bufs s ! i in
      guardr (slk_holding (curpid s) (block b)) ''iderw: buf not locked''
      (guardr (\<not> (bvalid b \<and> \<not> bdirty b)) ''iderw: nothing to do''
      (guardr (bdev b = 1) ''iderw: request not for disk 1''
      (guardr (blockno b < disksize s) ''iderw: block out of range''
        (Ok (if bdirty b
             then upd_buf i (\<lambda>b. b\<lparr>bdirty := False, bvalid := True\<rparr>)
                    (s\<lparr>disk := (disk s)(blockno b := bdata b), dhist := dhist s @ [(blockno b, bdata b)]\<rparr>)
             else upd_buf i (\<lambda>b. b\<lparr>bdata := disk s (blockno b), bvalid := True\<rparr>) s))))))"

text \<open>\<^verbatim>\<open>binit\<close>: every buffer is pushed to the front of the list.\<close>

definition blank_buf :: buf where
  "blank_buf = \<lparr>bvalid = False, bdirty = False, bdev = 0, blockno = 0, block = free_slk, refcnt = 0,
     bdata = replicate BSIZE 0\<rparr>"

definition binit :: "'a bst \<Rightarrow> 'a bst" where
  "binit s = s\<lparr>bufs := map (\<lambda>b. b\<lparr>block := free_slk\<rparr>) (bufs s), lru := rev [0..<length (bufs s)]\<rparr>"

definition acquire_buf :: "nat \<Rightarrow> 'a bst \<Rightarrow> (nat \<times> 'a bst) res" where
  "acquire_buf i s = bindr (slk_acquire (curpid s) (block (bufs s ! i))) (\<lambda>l. Ok (i, upd_buf i (\<lambda>b. b\<lparr>block := l\<rparr>) s))"

definition bget :: "uint \<Rightarrow> uint \<Rightarrow> 'a bst \<Rightarrow> (nat \<times> 'a bst) res" where
  "bget dev n s =
     (case find (\<lambda>i. bdev (bufs s ! i) = dev \<and> blockno (bufs s ! i) = n) (lru s) of
        Some i \<Rightarrow> acquire_buf i (upd_buf i (\<lambda>b. b\<lparr>refcnt := refcnt b + 1\<rparr>) s)
      | None \<Rightarrow>
         (case find (\<lambda>i. refcnt (bufs s ! i) = 0 \<and> \<not> bdirty (bufs s ! i)) (rev (lru s)) of
            Some i \<Rightarrow> acquire_buf i (upd_buf i (\<lambda>b. b\<lparr>bdev := dev, blockno := n, bvalid := False, bdirty := False,
                        refcnt := 1\<rparr>) s)
          | None \<Rightarrow> Panic ''bget: no buffers''))"

definition bread :: "uint \<Rightarrow> uint \<Rightarrow> 'a bst \<Rightarrow> (nat \<times> 'a bst) res" where
  "bread dev n s =
     bindr (bget dev n s) (\<lambda>(i, s1).
       if bvalid (bufs s1 ! i) then Ok (i, s1) else bindr (iderw i s1) (\<lambda>s2. Ok (i, s2)))"

definition bwrite :: "nat \<Rightarrow> 'a bst \<Rightarrow> 'a bst res" where
  "bwrite i s =
     guardr (slk_holding (curpid s) (block (bufs s ! i))) ''bwrite''
       (iderw i (upd_buf i (\<lambda>b. b\<lparr>bdirty := True\<rparr>) s))"

definition brelse :: "nat \<Rightarrow> 'a bst \<Rightarrow> 'a bst res" where
  "brelse i s =
     guardr (slk_holding (curpid s) (block (bufs s ! i))) ''brelse''
       (let s1 = upd_buf i (\<lambda>b. b\<lparr>block := slk_release (block b), refcnt := refcnt b - 1\<rparr>) s in
        Ok (if refcnt (bufs s1 ! i) = 0 then s1\<lparr>lru := i # remove1 i (lru s1)\<rparr> else s1))"

text \<open>Stores into the data of a buffer, by the code that holds it.\<close>

definition set_data :: "nat \<Rightarrow> byte list \<Rightarrow> 'a bst \<Rightarrow> 'a bst" where
  "set_data i d s = upd_buf i (\<lambda>b. b\<lparr>bdata := d\<rparr>) s"

section \<open>Invariant and abstraction\<close>

definition is_locked :: "'a bst \<Rightarrow> nat \<Rightarrow> bool" where
  "is_locked s i \<longleftrightarrow> sl_locked (block (bufs s ! i))"

text \<open>A buffer fits the disk: it is clean and equal to it, or dirty, or held and being changed.\<close>

definition buf_ok :: "'a bst \<Rightarrow> buf \<Rightarrow> bool" where
  "buf_ok s b \<longleftrightarrow> refcnt b = (if sl_locked (block b) then 1 else 0)
     \<and> (sl_locked (block b) \<longrightarrow> sl_pid (block b) = curpid s \<and> bvalid b)
     \<and> (bdirty b \<longrightarrow> bvalid b) \<and> (bdev b = 1 \<longleftrightarrow> bvalid b)
     \<and> (bvalid b \<longrightarrow> blockno b < disksize s \<and> length (bdata b) = BSIZE)
     \<and> (bvalid b \<and> \<not> bdirty b \<and> \<not> sl_locked (block b) \<longrightarrow> bdata b = disk s (blockno b))"

text \<open>No block of the disk has two buffers.\<close>

definition uniq_bufs :: "buf list \<Rightarrow> bool" where
  "uniq_bufs bs \<longleftrightarrow> (\<forall>i < NBUF. \<forall>j < NBUF. bdev (bs ! i) = 1 \<and> bdev (bs ! j) = 1
     \<and> blockno (bs ! i) = blockno (bs ! j) \<longrightarrow> i = j)"

definition binv :: "'a bst \<Rightarrow> bool" where
  "binv s \<longleftrightarrow> length (bufs s) = NBUF \<and> distinct (lru s) \<and> set (lru s) = {..<NBUF}
     \<and> (\<forall>i < NBUF. buf_ok s (bufs s ! i))
     \<and> uniq_bufs (bufs s) \<and> (\<forall>n. length (disk s n) = BSIZE)"

text \<open>The contents of a block as the file system sees it: the cached copy if there is one.\<close>

definition cached_at :: "'a bst \<Rightarrow> uint \<Rightarrow> nat \<Rightarrow> bool" where
  "cached_at s n i \<longleftrightarrow> i < NBUF \<and> bdev (bufs s ! i) = 1 \<and> blockno (bufs s ! i) = n \<and> bvalid (bufs s ! i)"

definition blk :: "'a bst \<Rightarrow> uint \<Rightarrow> byte list" where
  "blk s n = (case find (\<lambda>i. bdev (bufs s ! i) = 1 \<and> blockno (bufs s ! i) = n \<and> bvalid (bufs s ! i)) [0..<NBUF] of
      Some i \<Rightarrow> bdata (bufs s ! i) | None \<Rightarrow> disk s n)"

definition dirty_blk :: "'a bst \<Rightarrow> uint \<Rightarrow> bool" where
  "dirty_blk s n \<longleftrightarrow> (\<exists>i. cached_at s n i \<and> bdirty (bufs s ! i))"

definition held_blk :: "'a bst \<Rightarrow> uint \<Rightarrow> bool" where
  "held_blk s n \<longleftrightarrow> (\<exists>i. cached_at s n i \<and> is_locked s i)"

lemma cached_unique: "binv s \<Longrightarrow> cached_at s n i \<Longrightarrow> cached_at s n j \<Longrightarrow> i = j"
  unfolding binv_def uniq_bufs_def cached_at_def by blast

lemma uniq_keys:
  "binv s \<Longrightarrow> i < NBUF \<Longrightarrow> j < NBUF \<Longrightarrow> bdev (bufs s ! i) = 1 \<Longrightarrow> bdev (bufs s ! j) = 1 \<Longrightarrow>
   blockno (bufs s ! i) = blockno (bufs s ! j) \<longleftrightarrow> i = j"
  unfolding binv_def uniq_bufs_def by blast

lemma blk_cached:
  assumes "binv s" and "cached_at s n i"
  shows "blk s n = bdata (bufs s ! i)"
proof (cases "find (\<lambda>i. bdev (bufs s ! i) = 1 \<and> blockno (bufs s ! i) = n \<and> bvalid (bufs s ! i)) [0..<NBUF]")
  case None
  with assms(2) show ?thesis by (auto simp: find_None_iff cached_at_def)
next
  case (Some j)
  then have "cached_at s n j" by (auto simp: find_Some_iff cached_at_def)
  with cached_unique [OF assms] Some show ?thesis by (simp add: blk_def)
qed

lemma blk_uncached:
  assumes "\<And>i. \<not> cached_at s n i"
  shows "blk s n = disk s n"
proof -
  have "find (\<lambda>i. bdev (bufs s ! i) = 1 \<and> blockno (bufs s ! i) = n \<and> bvalid (bufs s ! i)) [0..<NBUF] = None"
    using assms by (auto simp: find_None_iff cached_at_def)
  then show ?thesis by (simp add: blk_def)
qed

lemma dirty_blk_cached: "binv s \<Longrightarrow> cached_at s n i \<Longrightarrow> dirty_blk s n \<longleftrightarrow> bdirty (bufs s ! i)"
  unfolding dirty_blk_def using cached_unique by blast

lemma held_blk_cached: "binv s \<Longrightarrow> cached_at s n i \<Longrightarrow> held_blk s n \<longleftrightarrow> is_locked s i"
  unfolding held_blk_def using cached_unique by blast

lemma length_blk: "binv s \<Longrightarrow> length (blk s n) = BSIZE"
proof (cases "\<exists>i. cached_at s n i")
  case True
  assume inv: "binv s"
  from True obtain i where i: "cached_at s n i" by blast
  then have "length (bdata (bufs s ! i)) = BSIZE" using inv by (auto simp: binv_def buf_ok_def cached_at_def)
  with blk_cached [OF inv i] show ?thesis by simp
next
  case False
  assume "binv s"
  with False show ?thesis by (auto simp: blk_uncached binv_def)
qed

text \<open>A clean block that nobody holds reads as on disk.\<close>

lemma blk_clean:
  assumes "binv s" and "\<not> dirty_blk s n" and "\<not> held_blk s n"
  shows "blk s n = disk s n"
proof (cases "\<exists>i. cached_at s n i")
  case True
  then obtain i where i: "cached_at s n i" by blast
  moreover have "bdata (bufs s ! i) = disk s n"
    using assms i by (auto simp: binv_def buf_ok_def cached_at_def dirty_blk_def held_blk_def is_locked_def)
  ultimately show ?thesis using blk_cached [OF assms(1)] by simp
next
  case False
  then show ?thesis by (auto simp: blk_uncached)
qed

section \<open>Changing one buffer\<close>

definition put_buf :: "nat \<Rightarrow> buf \<Rightarrow> nat list \<Rightarrow> 'a bst \<Rightarrow> 'a bst" where
  "put_buf i b l s = s\<lparr>bufs := (bufs s)[i := b], lru := l\<rparr>"

lemma put_buf_simps [simp]:
  "disk (put_buf i b l s) = disk s" "dhist (put_buf i b l s) = dhist s" "disksize (put_buf i b l s) = disksize s"
  "curpid (put_buf i b l s) = curpid s" "lru (put_buf i b l s) = l" "bufs (put_buf i b l s) = (bufs s)[i := b]"
  by (simp_all add: put_buf_def)

lemma buf_ok_cong: "disk t = disk s \<Longrightarrow> disksize t = disksize s \<Longrightarrow> curpid t = curpid s \<Longrightarrow> buf_ok t b = buf_ok s b"
  by (simp add: buf_ok_def)

lemma binv_put_buf:
  assumes "binv s" and "i < NBUF" and "distinct l" and "set l = {..<NBUF}" and "buf_ok s b"
    and "\<And>j. j < NBUF \<Longrightarrow> j \<noteq> i \<Longrightarrow> bdev b = 1 \<Longrightarrow> bdev (bufs s ! j) = 1 \<Longrightarrow> blockno (bufs s ! j) \<noteq> blockno b"
  shows "binv (put_buf i b l s)"
proof -
  have len: "length (bufs s) = NBUF" using assms(1) by (simp add: binv_def)
  have ok: "buf_ok (put_buf i b l s) x = buf_ok s x" for x by (rule buf_ok_cong) simp_all
  have nth: "bufs (put_buf i b l s) ! j = (if j = i then b else bufs s ! j)" for j
    using len assms(2) by simp
  have inj: "bdev (bufs s ! j) = 1 \<Longrightarrow> bdev (bufs s ! k) = 1 \<Longrightarrow> blockno (bufs s ! j) = blockno (bufs s ! k) \<Longrightarrow>
      j < NBUF \<Longrightarrow> k < NBUF \<Longrightarrow> j = k" for j k
    using assms(1) unfolding binv_def uniq_bufs_def by blast
  have "j = k" if "j < NBUF" "k < NBUF" "bdev (bufs (put_buf i b l s) ! j) = 1" "bdev (bufs (put_buf i b l s) ! k) = 1"
    "blockno (bufs (put_buf i b l s) ! j) = blockno (bufs (put_buf i b l s) ! k)" for j k
    using that inj [of j k] assms(6) [of j] assms(6) [of k] unfolding nth by (auto split: if_splits)
  then have "uniq_bufs (bufs (put_buf i b l s))" unfolding uniq_bufs_def by blast
  moreover have "buf_ok (put_buf i b l s) (bufs (put_buf i b l s) ! j)" if "j < NBUF" for j
    using assms(1,5) that unfolding ok nth by (simp add: binv_def)
  ultimately show ?thesis using assms(1,3,4) len unfolding binv_def by simp
qed

lemma cached_put_buf:
  "length (bufs s) = NBUF \<Longrightarrow> i < NBUF \<Longrightarrow> cached_at (put_buf i b l s) n j =
     (if j = i then bdev b = 1 \<and> blockno b = n \<and> bvalid b else cached_at s n j)"
  by (auto simp: cached_at_def)

lemma blk_put_buf:
  assumes "binv s" and "binv (put_buf i b l s)" and "i < NBUF"
  shows "blk (put_buf i b l s) n = (if bdev b = 1 \<and> blockno b = n \<and> bvalid b then bdata b
    else if cached_at s n i then disk s n else blk s n)"
proof -
  have len: "length (bufs s) = NBUF" using assms(1) by (simp add: binv_def)
  note c = cached_put_buf [OF len assms(3), of b l n]
  show ?thesis
  proof (cases "bdev b = 1 \<and> blockno b = n \<and> bvalid b")
    case True
    with c blk_cached [OF assms(2), of n i] assms(3) len show ?thesis by simp
  next
    case no: False
    show ?thesis
    proof (cases "cached_at s n i")
      case True
      then have "\<not> cached_at (put_buf i b l s) n j" for j
        using cached_unique [OF assms(1) True, of j] no by (cases "j = i") (simp_all add: c, blast)
      with True no show ?thesis by (auto simp: blk_uncached)
    next
      case False
      show ?thesis
      proof (cases "\<exists>j. cached_at s n j")
        case True
        then obtain j where j: "cached_at s n j" by blast
        with False have "j \<noteq> i" by blast
        with j c blk_cached [OF assms(2), of n j] blk_cached [OF assms(1) j] len no False show ?thesis by auto
      next
        case none: False
        then have "\<not> cached_at (put_buf i b l s) n j" for j using c no by auto
        with none no show ?thesis by (auto simp: blk_uncached)
      qed
    qed
  qed
qed

lemma dirty_put_buf:
  assumes "length (bufs s) = NBUF" and "i < NBUF"
    and "bdev b = 1 \<and> blockno b = n \<and> bvalid b \<and> bdirty b \<longleftrightarrow> cached_at s n i \<and> bdirty (bufs s ! i)"
  shows "dirty_blk (put_buf i b l s) n = dirty_blk s n"
proof -
  have "cached_at (put_buf i b l s) n j \<and> bdirty (bufs (put_buf i b l s) ! j) \<longleftrightarrow> cached_at s n j \<and> bdirty (bufs s ! j)" for j
    using assms by (cases "j = i") (auto simp: cached_put_buf)
  then show ?thesis by (simp add: dirty_blk_def)
qed

section \<open>Reading a block\<close>

text \<open>The buffer \<^verbatim>\<open>bread\<close> returns: valid, held by the caller, with the contents of the block.\<close>

definition has_buf :: "'a bst \<Rightarrow> nat \<Rightarrow> uint \<Rightarrow> byte list \<Rightarrow> bool" where
  "has_buf s i n d \<longleftrightarrow> cached_at s n i \<and> is_locked s i \<and> bdata (bufs s ! i) = d"

text \<open>What reading block \<open>n\<close> into buffer \<open>i\<close> leaves alone.\<close>

definition read_frame :: "'a bst \<Rightarrow> nat \<Rightarrow> 'a bst \<Rightarrow> bool" where
  "read_frame s i t \<longleftrightarrow> t = s\<lparr>bufs := bufs t, lru := lru t\<rparr> \<and> blk t = blk s \<and> dirty_blk t = dirty_blk s
     \<and> \<not> is_locked s i \<and> (\<forall>j < NBUF. j \<noteq> i \<longrightarrow> (is_locked t j \<longleftrightarrow> is_locked s j))
     \<and> (\<forall>j < NBUF. j \<noteq> i \<and> is_locked s j \<longrightarrow> bufs t ! j = bufs s ! j)"

lemma has_buf_frame: "has_buf s j m d \<Longrightarrow> read_frame s i t \<Longrightarrow> has_buf t j m d"
  by (auto simp: has_buf_def read_frame_def cached_at_def)

definition bread_buf :: "'a bst \<Rightarrow> uint \<Rightarrow> nat \<Rightarrow> buf \<Rightarrow> bool" where
  "bread_buf s n i b \<longleftrightarrow> i < NBUF \<and> \<not> is_locked s i \<and> bdev b = 1 \<and> blockno b = n \<and> bvalid b
     \<and> block b = \<lparr>sl_locked = True, sl_pid = curpid s\<rparr> \<and> refcnt b = 1 \<and> bdata b = blk s n
     \<and> (cached_at s n i \<and> bdirty b = bdirty (bufs s ! i)
        \<or> (\<forall>j. \<not> cached_at s n j) \<and> \<not> bdirty (bufs s ! i) \<and> \<not> bdirty b)"

lemma bread_put_buf:
  assumes "binv s" and "n < disksize s" and "\<not> held_blk s n"
  shows "ends {''bget: no buffers''} (bread 1 n s) (\<lambda>(i, t). \<exists>b. bread_buf s n i b \<and> t = put_buf i b (lru s) s)"
proof -
  have len: "length (bufs s) = NBUF" and lru: "set (lru s) = {..<NBUF}"
    and ok: "\<And>i. i < NBUF \<Longrightarrow> buf_ok s (bufs s ! i)" and dl: "length (disk s n) = BSIZE"
    using assms(1) by (auto simp: binv_def)
  let ?P = "\<lambda>i. bdev (bufs s ! i) = 1 \<and> blockno (bufs s ! i) = n"
  show ?thesis
  proof (cases "find ?P (lru s)")
    case (Some i)
    then have i: "i < NBUF" "?P i" using lru by (auto simp: find_Some_iff)
    with ok have v: "bvalid (bufs s ! i)" "cached_at s n i" by (auto simp: buf_ok_def cached_at_def)
    with assms(3) have nl: "\<not> is_locked s i" by (auto simp: held_blk_def)
    with ok [OF i(1)] have "refcnt (bufs s ! i) = 0" by (auto simp: buf_ok_def is_locked_def)
    with Some i v nl len show ?thesis
      using blk_cached [OF assms(1) v(2)]
      by (auto simp: bread_def bget_def acquire_buf_def slk_acquire_def is_locked_def upd_buf_def put_buf_def
          bread_buf_def intro!: exI [of _ "(bufs s ! i)\<lparr>refcnt := 1, block := \<lparr>sl_locked = True, sl_pid = curpid s\<rparr>\<rparr>"])
  next
    case None
    then have none: "\<not> cached_at s n j" for j using lru by (auto simp: find_None_iff cached_at_def)
    show ?thesis
    proof (cases "find (\<lambda>i. refcnt (bufs s ! i) = 0 \<and> \<not> bdirty (bufs s ! i)) (rev (lru s))")
      case nofree: None
      with None show ?thesis by (simp add: bread_def bget_def)
    next
      case (Some i)
      then have i: "i < NBUF" "refcnt (bufs s ! i) = 0" "\<not> bdirty (bufs s ! i)"
        using lru by (auto simp: find_Some_iff rev_nth)
      with ok [OF i(1)] have nl: "\<not> is_locked s i" by (auto simp: buf_ok_def is_locked_def split: if_splits)
      with None Some i len assms(2) none show ?thesis
        by (auto simp: bread_def bget_def acquire_buf_def slk_acquire_def is_locked_def upd_buf_def put_buf_def
            iderw_def Let_def slk_holding_def blk_uncached bread_buf_def
            intro!: exI [of _ "(bufs s ! i)\<lparr>bdev := 1, blockno := n, bdirty := False, refcnt := 1,
              block := \<lparr>sl_locked = True, sl_pid = curpid s\<rparr>, bdata := disk s n, bvalid := True\<rparr>"])
    qed
  qed
qed

lemma bread_spec:
  assumes inv: "binv s" and n: "n < disksize s" and nh: "\<not> held_blk s n"
  shows "ends {''bget: no buffers''} (bread 1 n s)
    (\<lambda>(i, t). binv t \<and> i < NBUF \<and> has_buf t i n (blk s n) \<and> read_frame s i t)"
proof (rule ends_mono [OF bread_put_buf [OF assms]])
  fix x :: "nat \<times> 'a bst"
  assume "case x of (i, t) \<Rightarrow> \<exists>b. bread_buf s n i b \<and> t = put_buf i b (lru s) s"
  then obtain i and b :: buf where x: "x = (i, put_buf i b (lru s) s)" and bb: "bread_buf s n i b" by auto
  then have i: "i < NBUF" and nl: "\<not> is_locked s i" and b: "bdev b = 1" "blockno b = n" "bvalid b"
    "block b = \<lparr>sl_locked = True, sl_pid = curpid s\<rparr>" "refcnt b = 1" "bdata b = blk s n"
    and old: "cached_at s n i \<and> bdirty b = bdirty (bufs s ! i)
      \<or> (\<forall>j. \<not> cached_at s n j) \<and> \<not> bdirty (bufs s ! i) \<and> \<not> bdirty b"
    by (simp_all add: bread_buf_def)
  let ?t = "put_buf i b (lru s) s"
  have len: "length (bufs s) = NBUF" using inv by (simp add: binv_def)
  have "buf_ok s b" using b length_blk [OF inv] n by (simp add: buf_ok_def)
  moreover have "blockno (bufs s ! j) \<noteq> blockno b" if "j < NBUF" "j \<noteq> i" "bdev (bufs s ! j) = 1" for j
  proof
    assume "blockno (bufs s ! j) = blockno b"
    then have "cached_at s n j" using that b inv by (auto simp: cached_at_def binv_def buf_ok_def)
    with old cached_unique [OF inv _ this] that show False by blast
  qed
  ultimately have t: "binv ?t" using inv i by (intro binv_put_buf) (auto simp: binv_def)
  have "blk ?t m = blk s m" for m
  proof (cases "cached_at s m i")
    case True
    show ?thesis
    proof (cases "m = n")
      case True
      with b blk_put_buf [OF inv t i] show ?thesis by simp
    next
      case False
      then have "\<forall>j. \<not> cached_at s n j" "\<not> bdirty (bufs s ! i)"
        using old True by (auto simp: cached_at_def)
      then have "\<not> dirty_blk s m" "\<not> held_blk s m"
        using nl dirty_blk_cached [OF inv True] held_blk_cached [OF inv True] by simp_all
      then have "blk s m = disk s m" using blk_clean [OF inv] by blast
      with True False b blk_put_buf [OF inv t i] show ?thesis by simp
    qed
  next
    case False
    with b blk_put_buf [OF inv t i, of m] show ?thesis by simp
  qed
  moreover have "dirty_blk ?t m = dirty_blk s m" for m
    by (rule dirty_put_buf [OF len i]) (use b old in \<open>auto simp: cached_at_def\<close>)
  moreover have "has_buf ?t i n (blk s n)" using b i len by (simp add: has_buf_def cached_at_def is_locked_def)
  ultimately show "case x of (i, t) \<Rightarrow> binv t \<and> i < NBUF \<and> has_buf t i n (blk s n) \<and> read_frame s i t"
    using t i nl by (auto simp: x read_frame_def put_buf_def is_locked_def)
qed

section \<open>Releasing and writing\<close>

text \<open>A held buffer that is dirty or agrees with the disk may be released.\<close>

lemma brelse_spec:
  assumes inv: "binv s" and i: "has_buf s i n d" and fits: "bdirty (bufs s ! i) \<or> d = disk s n"
  shows "\<exists>t. brelse i s = Ok t \<and> binv t \<and> t = s\<lparr>bufs := bufs t, lru := lru t\<rparr> \<and> blk t = blk s
    \<and> dirty_blk t = dirty_blk s \<and> \<not> is_locked t i \<and> (\<forall>j. j \<noteq> i \<longrightarrow> bufs t ! j = bufs s ! j)"
proof -
  have len: "length (bufs s) = NBUF" and lru: "distinct (lru s)" "set (lru s) = {..<NBUF}"
    using inv by (auto simp: binv_def)
  have c: "cached_at s n i" "i < NBUF" and lk: "is_locked s i" and d: "bdata (bufs s ! i) = d"
    using i by (auto simp: has_buf_def cached_at_def)
  then have ok: "buf_ok s (bufs s ! i)" using inv by (simp add: binv_def)
  let ?b = "(bufs s ! i)\<lparr>block := free_slk, refcnt := 0\<rparr>" let ?l = "i # remove1 i (lru s)"
  let ?t = "put_buf i ?b ?l s"
  have "brelse i s = Ok ?t"
    using ok lk len c by (simp add: brelse_def slk_holding_def is_locked_def buf_ok_def upd_buf_def slk_release_def
        put_buf_def Let_def)
  moreover have b: "buf_ok s ?b"
    using ok d fits c by (auto simp: buf_ok_def cached_at_def free_slk_def)
  have t: "binv ?t"
    using inv c(2) lru b cached_unique [OF inv c(1)]
    by (intro binv_put_buf) (auto simp: uniq_keys [OF inv])
  moreover have "blk ?t = blk s"
    using blk_put_buf [OF inv t c(2)] blk_cached [OF inv c(1)] c(1) by (auto simp: cached_at_def fun_eq_iff)
  moreover have "dirty_blk ?t m = dirty_blk s m" for m
    by (rule dirty_put_buf [OF len c(2)]) (use c in \<open>auto simp: cached_at_def\<close>)
  ultimately show ?thesis
    using c len by (intro exI [of _ ?t]) (auto simp: put_buf_def is_locked_def free_slk_def)
qed

lemma has_bufD:
  assumes "binv s" and "has_buf s i n d"
  shows "i < NBUF" "cached_at s n i" "buf_ok s (bufs s ! i)" "is_locked s i" "bdata (bufs s ! i) = d"
    "blk s n = d" "n < disksize s" "length d = BSIZE" "held_blk s n" "bdev (bufs s ! i) = 1" "blockno (bufs s ! i) = n"
proof -
  show i: "i < NBUF" "cached_at s n i" "is_locked s i" "bdata (bufs s ! i) = d"
    "bdev (bufs s ! i) = 1" "blockno (bufs s ! i) = n"
    using assms(2) by (auto simp: has_buf_def cached_at_def)
  show ok: "buf_ok s (bufs s ! i)" using i assms(1) by (simp add: binv_def)
  show "blk s n = d" using i blk_cached [OF assms(1)] by simp
  then show "length d = BSIZE" using length_blk [OF assms(1)] by auto
  show "n < disksize s" using ok i by (auto simp: buf_ok_def cached_at_def)
  show "held_blk s n" using i held_blk_cached [OF assms(1)] by blast
qed

text \<open>Changing the data or the dirty flag of a held buffer.\<close>

lemma put_held:
  fixes q :: bool
  assumes inv: "binv s" and i: "has_buf s i n d" and d': "length d' = BSIZE"
  defines "t \<equiv> put_buf i ((bufs s ! i)\<lparr>bdata := d', bdirty := q\<rparr>) (lru s) s"
  shows "binv t \<and> has_buf t i n d' \<and> blk t = (blk s)(n := d') \<and> bdirty (bufs t ! i) = q
    \<and> dirty_blk t = (dirty_blk s)(n := q) \<and> (\<forall>j. is_locked t j \<longleftrightarrow> is_locked s j)
    \<and> (\<forall>j. j \<noteq> i \<longrightarrow> bufs t ! j = bufs s ! j)"
proof -
  note h = has_bufD [OF inv i]
  have len: "length (bufs s) = NBUF" using inv by (simp add: binv_def)
  let ?b = "(bufs s ! i)\<lparr>bdata := d', bdirty := q\<rparr>"
  have v: "bvalid (bufs s ! i)" using h(2) by (simp add: cached_at_def)
  have ok: "buf_ok s ?b" using h(3,4) d' v by (auto simp: buf_ok_def is_locked_def)
  have t: "binv t"
    unfolding t_def by (rule binv_put_buf [OF inv h(1) _ _ ok]) (use inv h(1) uniq_keys [OF inv, of _ i] in \<open>auto simp: binv_def\<close>)
  have c: "cached_at t n i" using h(1,2) len by (simp add: t_def cached_at_def)
  have bt: "bufs t ! i = ?b" using h(1) len by (simp add: t_def)
  have "blk t m = ((blk s)(n := d')) m" for m
    using blk_put_buf [OF inv t [unfolded t_def] h(1), of m] h v unfolding t_def [symmetric]
    by (auto simp: cached_at_def)
  moreover have "dirty_blk t m = ((dirty_blk s)(n := q)) m" for m
  proof (cases "m = n")
    case True
    then show ?thesis using dirty_blk_cached [OF t c] bt by simp
  next
    case False
    then show ?thesis unfolding t_def using h
      by (simp) (rule dirty_put_buf [OF len h(1)], auto simp: cached_at_def)
  qed
  moreover have "is_locked t j \<longleftrightarrow> is_locked s j" for j
    using h(1) len by (cases "j = i") (simp_all add: t_def is_locked_def)
  ultimately show ?thesis
    using t c bt h(4) by (auto simp: has_buf_def t_def)
qed

lemma set_data_spec:
  assumes "binv s" and "has_buf s i n d" and "length d' = BSIZE"
  shows "binv (set_data i d' s) \<and> has_buf (set_data i d' s) i n d' \<and> blk (set_data i d' s) = (blk s)(n := d')
    \<and> dirty_blk (set_data i d' s) = dirty_blk s \<and> (\<forall>j. is_locked (set_data i d' s) j \<longleftrightarrow> is_locked s j)
    \<and> (\<forall>j. j \<noteq> i \<longrightarrow> bufs (set_data i d' s) ! j = bufs s ! j) \<and> disk (set_data i d' s) = disk s"
proof -
  have "set_data i d' s = put_buf i ((bufs s ! i)\<lparr>bdata := d', bdirty := bdirty (bufs s ! i)\<rparr>) (lru s) s"
    by (simp add: set_data_def upd_buf_def put_buf_def)
  moreover have "dirty_blk s n = bdirty (bufs s ! i)"
    using dirty_blk_cached [OF assms(1)] has_bufD(2) [OF assms(1,2)] by blast
  ultimately show ?thesis
    using put_held [OF assms, of "bdirty (bufs s ! i)"] by (auto simp: fun_eq_iff)
qed

lemma binv_disk:
  assumes "binv s" and "\<not> (\<exists>i. cached_at s n i \<and> \<not> is_locked s i)" and "length d = BSIZE"
  shows "binv (s\<lparr>disk := (disk s)(n := d), dhist := h\<rparr>)"
proof -
  have "buf_ok (s\<lparr>disk := (disk s)(n := d), dhist := h\<rparr>) (bufs s ! i)" if "i < NBUF" for i
  proof -
    have "buf_ok s (bufs s ! i)" using assms(1) that by (simp add: binv_def)
    moreover have "cached_at s n i \<Longrightarrow> is_locked s i" using assms(2) by blast
    ultimately show ?thesis using that unfolding buf_ok_def cached_at_def is_locked_def
      by (cases "bvalid (bufs s ! i)"; cases "sl_locked (block (bufs s ! i))") auto
  qed
  then show ?thesis using assms(1,3) by (simp add: binv_def)
qed

lemma bwrite_spec:
  assumes inv: "binv s" and i: "has_buf s i n d"
  shows "\<exists>t. bwrite i s = Ok t \<and> binv t \<and> has_buf t i n d \<and> t = s\<lparr>bufs := bufs t, disk := (disk s)(n := d),
      dhist := dhist s @ [(n, d)]\<rparr> \<and> blk t = blk s \<and> dirty_blk t = (dirty_blk s)(n := False)
    \<and> (\<forall>j. is_locked t j \<longleftrightarrow> is_locked s j) \<and> (\<forall>j. j \<noteq> i \<longrightarrow> bufs t ! j = bufs s ! j)"
proof -
  note h = has_bufD [OF inv i]
  have len: "length (bufs s) = NBUF" using inv by (simp add: binv_def)
  let ?s1 = "s\<lparr>disk := (disk s)(n := d), dhist := dhist s @ [(n, d)]\<rparr>"
  have "\<not> (\<exists>j. cached_at s n j \<and> \<not> is_locked s j)" using cached_unique [OF inv h(2)] h(4) by blast
  then have inv1: "binv ?s1" using binv_disk [OF inv _ h(8)] by blast
  have same: "cached_at ?s1 = cached_at s" "is_locked ?s1 = is_locked s" "dirty_blk ?s1 = dirty_blk s"
    by (auto simp: cached_at_def is_locked_def dirty_blk_def fun_eq_iff)
  have i1: "has_buf ?s1 i n d" using i same by (simp add: has_buf_def)
  have blk1: "blk ?s1 m = blk s m" for m
  proof (cases "\<exists>j. cached_at s m j")
    case True
    then obtain j where "cached_at s m j" by blast
    then show ?thesis using blk_cached [OF inv] blk_cached [OF inv1] same(1) by simp
  next
    case False
    with h(2) have "m \<noteq> n" by blast
    with False show ?thesis using same(1) by (auto simp: blk_uncached)
  qed
  let ?t = "put_buf i ((bufs ?s1 ! i)\<lparr>bdata := d, bdirty := False\<rparr>) (lru ?s1) ?s1"
  have hold: "slk_holding (curpid s) (block (bufs s ! i))"
    using h(3,4) by (auto simp: slk_holding_def buf_ok_def is_locked_def)
  have v: "bvalid (bufs s ! i)" using h(2) by (simp add: cached_at_def)
  have "(bufs s ! i)\<lparr>bdirty := False, bvalid := True\<rparr> = (bufs s ! i)\<lparr>bdata := d, bdirty := False\<rparr>"
    using v h(5) by (intro buf.equality) simp_all
  then have "bwrite i s = Ok ?t"
    using hold h len by (simp add: bwrite_def iderw_def upd_buf_def put_buf_def Let_def)
  moreover have "blk ?t = blk s" using put_held [OF inv1 i1 h(8), of False] blk1 h(6) by (auto simp: fun_eq_iff)
  ultimately show ?thesis
    using put_held [OF inv1 i1 h(8), of False] same by (intro exI [of _ ?t]) (auto simp: put_buf_def)
qed

section \<open>Composing block accesses\<close>

text \<open>The buffers that are held stay held and unchanged.\<close>

definition keeps :: "'a bst \<Rightarrow> 'a bst \<Rightarrow> bool" where
  "keeps s t \<longleftrightarrow> (\<forall>j < NBUF. (is_locked t j \<longleftrightarrow> is_locked s j) \<and> (is_locked s j \<longrightarrow> bufs t ! j = bufs s ! j))"

lemma keeps_refl [simp]: "keeps s s"
  by (simp add: keeps_def)

lemma keeps_trans [trans]: "keeps s t \<Longrightarrow> keeps t u \<Longrightarrow> keeps s u"
  by (simp add: keeps_def)

lemma keeps_has_buf: "keeps s t \<Longrightarrow> has_buf s i n d \<Longrightarrow> has_buf t i n d"
  by (auto simp: keeps_def has_buf_def cached_at_def)

lemma keeps_held: "keeps s t \<Longrightarrow> held_blk t n \<longleftrightarrow> held_blk s n"
  unfolding keeps_def held_blk_def cached_at_def by (intro iffI; metis)

text \<open>Changes of the cache only.\<close>

lemma cache_frame_trans:
  assumes t: "t = s\<lparr>bufs := bufs t, lru := lru t\<rparr>" and u: "u = t\<lparr>bufs := bufs u, lru := lru u\<rparr>"
  shows "u = s\<lparr>bufs := bufs u, lru := lru u\<rparr>"
proof -
  from t have "t\<lparr>bufs := bufs u, lru := lru u\<rparr> = s\<lparr>bufs := bufs t, lru := lru t\<rparr>\<lparr>bufs := bufs u, lru := lru u\<rparr>"
    by (rule arg_cong)
  with u show ?thesis by simp
qed

text \<open>Nothing is held.\<close>

definition quiet :: "'a bst \<Rightarrow> bool" where
  "quiet s \<longleftrightarrow> (\<forall>i < NBUF. \<not> is_locked s i)"

lemma quiet_keeps: "quiet s \<Longrightarrow> keeps s t \<Longrightarrow> quiet t"
  by (simp add: quiet_def keeps_def)

lemma quiet_held: "quiet s \<Longrightarrow> \<not> held_blk s n"
  by (auto simp: quiet_def held_blk_def cached_at_def)

text \<open>A buffer can be recycled; then, or when the block is cached, \<^verbatim>\<open>bget\<close> does not panic.\<close>

definition avail :: "'a bst \<Rightarrow> bool" where
  "avail s \<longleftrightarrow> (\<exists>i < NBUF. \<not> is_locked s i \<and> \<not> bdirty (bufs s ! i))"

lemma bread_no_panic:
  assumes "binv s" and "n < disksize s" and "\<not> held_blk s n" and "(\<exists>i. cached_at s n i) \<or> avail s"
  shows "bread 1 n s \<noteq> Panic ''bget: no buffers''"
proof -
  have lru: "set (lru s) = {..<NBUF}" and ok: "\<And>i. i < NBUF \<Longrightarrow> buf_ok s (bufs s ! i)"
    using assms(1) by (auto simp: binv_def)
  have "\<exists>i < NBUF. refcnt (bufs s ! i) = 0 \<and> \<not> bdirty (bufs s ! i)" if "avail s"
  proof -
    from that obtain i where "i < NBUF" "\<not> is_locked s i" "\<not> bdirty (bufs s ! i)" by (auto simp: avail_def)
    with ok [of i] show ?thesis by (auto simp: buf_ok_def is_locked_def)
  qed
  then have "bget 1 n s \<noteq> Panic ''bget: no buffers''"
    using lru assms(4)
    by (auto simp: bget_def acquire_buf_def slk_acquire_def find_None_iff cached_at_def split: option.splits)
  then show ?thesis
    by (cases "bget 1 n s")
      (auto simp: bread_def iderw_def Let_def guardr_def bindr_def split: res.splits if_splits)
qed

lemma bread_total:
  assumes "binv s" and "n < disksize s" and "\<not> held_blk s n" and "(\<exists>i. cached_at s n i) \<or> avail s"
  shows "ends {} (bread 1 n s) (\<lambda>(i, t). binv t \<and> i < NBUF \<and> has_buf t i n (blk s n) \<and> read_frame s i t)"
  by (rule ends_no_panic [OF bread_spec [OF assms(1-3)] bread_no_panic [OF assms]])

text \<open>A block that is only read: \<^verbatim>\<open>bread\<close>, uses of the data, \<^verbatim>\<open>brelse\<close>.\<close>

definition same_but_cache :: "'a bst \<Rightarrow> 'a bst \<Rightarrow> bool" where
  "same_but_cache s t \<longleftrightarrow> t = s\<lparr>bufs := bufs t, lru := lru t\<rparr> \<and> blk t = blk s \<and> dirty_blk t = dirty_blk s \<and> keeps s t"

lemma read_release:
  assumes inv: "binv s" and n: "n < disksize s" and nh: "\<not> held_blk s n"
    and t: "binv t" "has_buf t i n (blk s n)" "read_frame s i t"
  shows "\<exists>u. brelse i t = Ok u \<and> binv u \<and> same_but_cache s u"
proof -
  note h = has_bufD [OF t(1,2)]
  have fits: "bdirty (bufs t ! i) \<or> blk s n = disk t n"
  proof (cases "dirty_blk s n")
    case True
    then show ?thesis using dirty_blk_cached [OF t(1) h(2)] t(3) by (simp add: read_frame_def)
  next
    case False
    have "t = s\<lparr>bufs := bufs t, lru := lru t\<rparr>" using t(3) by (simp add: read_frame_def)
    then have "disk t = disk (s\<lparr>bufs := bufs t, lru := lru t\<rparr>)" by (rule arg_cong)
    then have "disk t = disk s" by simp
    with blk_clean [OF inv False nh] show ?thesis by simp
  qed
  from brelse_spec [OF t(1,2) fits] obtain u where u: "brelse i t = Ok u" "binv u" "u = t\<lparr>bufs := bufs u, lru := lru u\<rparr>"
    "blk u = blk t" "dirty_blk u = dirty_blk t" "\<not> is_locked u i" "\<forall>j. j \<noteq> i \<longrightarrow> bufs u ! j = bufs t ! j" by blast
  have "u = s\<lparr>bufs := bufs u, lru := lru u\<rparr>"
    by (rule cache_frame_trans [OF _ u(3)]) (use t(3) in \<open>simp add: read_frame_def\<close>)
  moreover have "(is_locked u j \<longleftrightarrow> is_locked s j) \<and> (is_locked s j \<longrightarrow> bufs u ! j = bufs s ! j)" if "j < NBUF" for j
    using u(6,7) t(3) that by (cases "j = i") (auto simp: read_frame_def is_locked_def)
  then have "keeps s u" by (simp add: keeps_def)
  ultimately show ?thesis using u t(3) by (auto simp: same_but_cache_def read_frame_def)
qed

text \<open>Counting: fewer dirty blocks and held buffers than buffers leave one to recycle.\<close>

definition nlocked :: "'a bst \<Rightarrow> nat" where
  "nlocked s = card {i. i < NBUF \<and> is_locked s i}"

lemma avail_count:
  assumes inv: "binv s" and few: "card {n. dirty_blk s n} + nlocked s < NBUF"
  shows "avail s"
proof (rule ccontr)
  assume "\<not> avail s"
  then have all: "{..<NBUF} \<subseteq> {i. i < NBUF \<and> is_locked s i} \<union> {i. i < NBUF \<and> bdirty (bufs s ! i)}"
    by (auto simp: avail_def)
  have c: "cached_at s (blockno (bufs s ! i)) i" if "i < NBUF" "bdirty (bufs s ! i)" for i
    using inv that by (auto simp: binv_def buf_ok_def cached_at_def)
  have "inj_on (\<lambda>i. blockno (bufs s ! i)) {i. i < NBUF \<and> bdirty (bufs s ! i)}"
    by (rule inj_onI) (use c cached_unique [OF inv] in \<open>simp, metis\<close>)
  moreover have "(\<lambda>i. blockno (bufs s ! i)) ` {i. i < NBUF \<and> bdirty (bufs s ! i)} \<subseteq> {n. dirty_blk s n}"
    using c by (auto simp: dirty_blk_def)
  moreover have "finite {n. dirty_blk s n}"
    by (rule finite_subset [OF _ finite_imageI [of "{..<NBUF}" "\<lambda>i. blockno (bufs s ! i)"]])
      (auto simp: dirty_blk_def cached_at_def)
  ultimately have "card {i. i < NBUF \<and> bdirty (bufs s ! i)} \<le> card {n. dirty_blk s n}"
    by (metis card_inj_on_le)
  moreover have "card {..<NBUF} \<le> card ({i. i < NBUF \<and> is_locked s i} \<union> {i. i < NBUF \<and> bdirty (bufs s ! i)})"
    by (rule card_mono [OF _ all]) auto
  ultimately show False
    using few card_Un_le [of "{i. i < NBUF \<and> is_locked s i}" "{i. i < NBUF \<and> bdirty (bufs s ! i)}"]
    by (simp add: nlocked_def)
qed

lemma nlocked_quiet: "quiet s \<Longrightarrow> nlocked s = 0"
proof -
  assume "quiet s"
  then have "{i. i < NBUF \<and> is_locked s i} = {}" by (auto simp: quiet_def)
  then show ?thesis by (simp only: nlocked_def card.empty)
qed

lemma nlocked_read: "read_frame s i t \<Longrightarrow> nlocked t \<le> Suc (nlocked s)"
proof -
  assume r: "read_frame s i t"
  then have "{j. j < NBUF \<and> is_locked t j} \<subseteq> insert i {j. j < NBUF \<and> is_locked s j}"
    by (auto simp: read_frame_def)
  then have "nlocked t \<le> card (insert i {j. j < NBUF \<and> is_locked s j})"
    unfolding nlocked_def by (rule card_mono [rotated]) simp
  also have "\<dots> \<le> Suc (nlocked s)" unfolding nlocked_def by (rule card_insert_le_m1) simp_all
  finally show ?thesis .
qed

text \<open>\<^verbatim>\<open>bread\<close> under either excuse: the panic is allowed, or cannot happen.\<close>

definition bread_ok :: "string set \<Rightarrow> 'a bst \<Rightarrow> uint \<Rightarrow> bool" where
  "bread_ok E s n \<longleftrightarrow> ''bget: no buffers'' \<in> E \<or> dirty_blk s n \<or> avail s"

lemma bread_ends:
  assumes "binv s" and "n < disksize s" and "\<not> held_blk s n" and "bread_ok E s n"
  shows "ends E (bread 1 n s) (\<lambda>(i, t). binv t \<and> i < NBUF \<and> has_buf t i n (blk s n) \<and> read_frame s i t)"
proof (cases "''bget: no buffers'' \<in> E")
  case True
  then show ?thesis using ends_weaken [OF bread_spec [OF assms(1-3)]] by simp
next
  case False
  then have "(\<exists>i. cached_at s n i) \<or> avail s" using assms(4) by (auto simp: bread_ok_def dirty_blk_def)
  then show ?thesis using ends_weaken [OF bread_total [OF assms(1-3)]] by simp
qed

text \<open>Two blocks are held at once while one is copied onto the other.\<close>

definition held_pair :: "'a bst \<Rightarrow> uint \<Rightarrow> nat \<Rightarrow> uint \<Rightarrow> nat \<Rightarrow> 'a bst \<Rightarrow> bool" where
  "held_pair s a i b j t \<longleftrightarrow> binv t \<and> has_buf t i a (blk s a) \<and> has_buf t j b (blk s b) \<and> i \<noteq> j
     \<and> t = s\<lparr>bufs := bufs t, lru := lru t\<rparr> \<and> blk t = blk s \<and> dirty_blk t = dirty_blk s
     \<and> \<not> is_locked s i \<and> \<not> is_locked s j
     \<and> (\<forall>k < NBUF. k \<noteq> i \<and> k \<noteq> j \<longrightarrow> (is_locked t k \<longleftrightarrow> is_locked s k) \<and> (is_locked s k \<longrightarrow> bufs t ! k = bufs s ! k))"

lemma held_pair_sym: "held_pair s a i b j t \<Longrightarrow> held_pair s b j a i t"
  by (auto simp: held_pair_def)

lemma read_frame_disksize: "read_frame s i t \<Longrightarrow> disksize t = disksize s"
proof -
  assume "read_frame s i t"
  then have "t = s\<lparr>bufs := bufs t, lru := lru t\<rparr>" by (simp add: read_frame_def)
  then have "disksize t = disksize (s\<lparr>bufs := bufs t, lru := lru t\<rparr>)" by (rule arg_cong)
  then show ?thesis by simp
qed

lemma read_frame_held:
  assumes "binv t" and "has_buf t i n d" and "read_frame s i t" and "m \<noteq> n" and "\<not> held_blk s m"
  shows "\<not> held_blk t m"
proof
  assume "held_blk t m"
  then obtain j where j: "cached_at t m j" "is_locked t j" by (auto simp: held_blk_def)
  have "j \<noteq> i" using j(1) has_bufD(2) [OF assms(1,2)] assms(4) by (auto simp: cached_at_def)
  with j assms(3,5) show False by (auto simp: read_frame_def held_blk_def cached_at_def)
qed

lemma read2:
  assumes inv: "binv s" and a: "a < disksize s" "\<not> held_blk s a" "bread_ok E s a"
    and b: "b < disksize s" "\<not> held_blk s b" and ab: "a \<noteq> b"
    and ok2: "\<And>i t. binv t \<Longrightarrow> read_frame s i t \<Longrightarrow> bread_ok E t b"
    and K: "\<And>i j t. held_pair s a i b j t \<Longrightarrow> ends E (K i j t) Q"
  shows "ends E (bindr (bread 1 a s) (\<lambda>(i, s1). bindr (bread 1 b s1) (\<lambda>(j, s2). K i j s2))) Q"
proof -
  have "ends E (bindr (bread 1 b t) (\<lambda>(j, u). K i j u)) Q"
    if t: "binv t" "has_buf t i a (blk s a)" "read_frame s i t" for i and t :: "'a bst"
  proof -
    have "ends E (bread 1 b t) (\<lambda>(j, u). binv u \<and> j < NBUF \<and> has_buf u j b (blk t b) \<and> read_frame t j u)"
      using t read_frame_disksize [OF t(3)] read_frame_held [OF t ab [symmetric] b(2)] b ok2 [OF t(1,3)]
      by (intro bread_ends) simp_all
    then show ?thesis
    proof (simp, elim ends_mono, clarify)
      fix j and u :: "'a bst"
      assume u: "binv u" "has_buf u j b (blk t b)" "read_frame t j u"
      have "u = t\<lparr>bufs := bufs u, lru := lru u\<rparr>" "t = s\<lparr>bufs := bufs t, lru := lru t\<rparr>"
        using u(3) t(3) by (simp_all add: read_frame_def)
      from cache_frame_trans [OF this(2,1)] have eq: "u = s\<lparr>bufs := bufs u, lru := lru u\<rparr>" .
      have ij: "i \<noteq> j" using u(3) has_bufD(4) [OF t(1,2)] by (auto simp: read_frame_def)
      moreover have "has_buf u i a (blk s a)" using has_buf_frame [OF t(2) u(3)] .
      moreover have "\<not> is_locked s j"
        using u(3) t(3) ij has_bufD(1) [OF u(1,2)] by (auto simp: read_frame_def)
      ultimately have "held_pair s a i b j u"
        using eq u t unfolding held_pair_def read_frame_def by auto
      then show "ends E (K i j u) Q" by (rule K)
    qed
  qed
  then show ?thesis using bread_ends [OF inv a]
    by simp (elim ends_mono, auto)
qed

text \<open>What a run of block writes may change, and the effect of one that writes \<open>d\<close> through to block \<open>a\<close>.\<close>

definition io_frame :: "'a bst \<Rightarrow> 'a bst \<Rightarrow> bool" where
  "io_frame s t \<longleftrightarrow> t = s\<lparr>disk := disk t, dhist := dhist t, bufs := bufs t, lru := lru t\<rparr>"

lemma io_frame_refl [simp]: "io_frame s s"
  by (simp add: io_frame_def)

lemma io_frame_trans [trans]: "io_frame s t \<Longrightarrow> io_frame t u \<Longrightarrow> io_frame s u"
proof -
  assume t: "io_frame s t" and u: "io_frame t u"
  let ?f = "\<lambda>x. x\<lparr>disk := disk u, dhist := dhist u, bufs := bufs u, lru := lru u\<rparr>"
  from t have "t = s\<lparr>disk := disk t, dhist := dhist t, bufs := bufs t, lru := lru t\<rparr>" by (simp add: io_frame_def)
  then have "?f t = ?f (s\<lparr>disk := disk t, dhist := dhist t, bufs := bufs t, lru := lru t\<rparr>)" by (rule arg_cong)
  moreover have "u = ?f t" using u by (simp add: io_frame_def)
  ultimately show ?thesis by (simp add: io_frame_def)
qed

lemma io_frame_simps: "io_frame s t \<Longrightarrow> disksize t = disksize s" "io_frame s t \<Longrightarrow> curpid t = curpid s"
proof -
  assume "io_frame s t"
  then have "t = s\<lparr>disk := disk t, dhist := dhist t, bufs := bufs t, lru := lru t\<rparr>" by (simp add: io_frame_def)
  from arg_cong [OF this, of disksize] arg_cong [OF this, of curpid]
  show "disksize t = disksize s" "curpid t = curpid s" by simp_all
qed

definition written :: "'a bst \<Rightarrow> uint \<Rightarrow> byte list \<Rightarrow> 'a bst \<Rightarrow> bool" where
  "written s a d t \<longleftrightarrow> binv t \<and> io_frame s t \<and> disk t = (disk s)(a := d) \<and> dhist t = dhist s @ [(a, d)]
     \<and> blk t = (blk s)(a := d) \<and> dirty_blk t = (dirty_blk s)(a := False) \<and> keeps s t"

lemma written_eq:
  "t = s\<lparr>disk := (disk s)(a := d), dhist := dhist s @ [(a, d)], bufs := bufs t, lru := lru t\<rparr> \<Longrightarrow>
   io_frame s t \<and> disk t = (disk s)(a := d) \<and> dhist t = dhist s @ [(a, d)]"
proof -
  assume eq: "t = s\<lparr>disk := (disk s)(a := d), dhist := dhist s @ [(a, d)], bufs := bufs t, lru := lru t\<rparr>"
  from arg_cong [OF eq, of disk] arg_cong [OF eq, of dhist]
  have *: "disk t = (disk s)(a := d)" "dhist t = dhist s @ [(a, d)]" by simp_all
  with eq show ?thesis unfolding io_frame_def * by blast
qed

lemma copy_tail:
  assumes inv: "binv s" and nb: "\<not> held_blk s b" and ab: "a \<noteq> b" and p: "held_pair s a i b j t"
  shows "ends E (bindr (bwrite i (set_data i (bdata (bufs t ! j)) t))
           (\<lambda>u. bindr (brelse j u) (\<lambda>u. brelse i u))) (written s a (blk s b))"
proof -
  have t: "binv t" "has_buf t i a (blk s a)" "has_buf t j b (blk s b)" and ij: "i \<noteq> j"
    and fr: "t = s\<lparr>bufs := bufs t, lru := lru t\<rparr>" and b: "blk t = blk s" "dirty_blk t = dirty_blk s"
    using p by (auto simp: held_pair_def)
  let ?d = "blk s b"
  have dj: "bdata (bufs t ! j) = ?d" "length ?d = BSIZE" using has_bufD [OF t(1,3)] by simp_all
  let ?t1 = "set_data i ?d t"
  note t1 = set_data_spec [OF t(1,2) dj(2)]
  have fr1: "?t1 = t\<lparr>bufs := bufs ?t1\<rparr>" by (simp add: set_data_def upd_buf_def)
  from t1 bwrite_spec [of ?t1 i a ?d] obtain t2 where t2: "bwrite i ?t1 = Ok t2" "binv t2" "has_buf t2 i a ?d"
    "t2 = ?t1\<lparr>bufs := bufs t2, disk := (disk ?t1)(a := ?d), dhist := dhist ?t1 @ [(a, ?d)]\<rparr>" "blk t2 = blk ?t1"
    "dirty_blk t2 = (dirty_blk ?t1)(a := False)" "\<forall>k. is_locked t2 k \<longleftrightarrow> is_locked ?t1 k" "\<forall>k. k \<noteq> i \<longrightarrow> bufs t2 ! k = bufs ?t1 ! k"
    by blast
  have disk: "disk t = disk s" "disk t2 = (disk s)(a := ?d)"
    using arg_cong [OF fr, of disk] arg_cong [OF t2(4), of disk] t1 by simp_all
  have j2: "bufs t2 ! j = bufs t ! j" using t1 t2(8) ij by auto
  then have h2: "has_buf t2 j b ?d" using t(3) by (simp add: has_buf_def cached_at_def is_locked_def)
  have "bdirty (bufs t2 ! j) \<or> ?d = disk t2 b"
  proof (cases "dirty_blk s b")
    case True
    then have "bdirty (bufs t ! j)" using dirty_blk_cached [OF t(1) has_bufD(2) [OF t(1,3)]] b by simp
    then show ?thesis using j2 by simp
  next
    case False
    then show ?thesis using blk_clean [OF inv False nb] disk(2) ab by simp
  qed
  from brelse_spec [OF t2(2) h2 this] obtain t3 where t3: "brelse j t2 = Ok t3" "binv t3" "t3 = t2\<lparr>bufs := bufs t3, lru := lru t3\<rparr>"
    "blk t3 = blk t2" "dirty_blk t3 = dirty_blk t2" "\<not> is_locked t3 j" "\<forall>k. k \<noteq> j \<longrightarrow> bufs t3 ! k = bufs t2 ! k" by blast
  have h3: "has_buf t3 i a ?d" using t2(3) t3(7) ij by (simp add: has_buf_def cached_at_def is_locked_def)
  have "disk t3 = disk t2" using arg_cong [OF t3(3), of disk] by simp
  then have "bdirty (bufs t3 ! i) \<or> ?d = disk t3 a" using disk(2) by simp
  from brelse_spec [OF t3(2) h3 this] obtain u where u: "brelse i t3 = Ok u" "binv u" "u = t3\<lparr>bufs := bufs u, lru := lru u\<rparr>"
    "blk u = blk t3" "dirty_blk u = dirty_blk t3" "\<not> is_locked u i" "\<forall>k. k \<noteq> i \<longrightarrow> bufs u ! k = bufs t3 ! k" by blast
  have "keeps s u"
    unfolding keeps_def
  proof (intro allI impI)
    fix k
    assume k: "k < NBUF"
    show "(is_locked u k \<longleftrightarrow> is_locked s k) \<and> (is_locked s k \<longrightarrow> bufs u ! k = bufs s ! k)"
    proof (cases "k = i \<or> k = j")
      case True
      then show ?thesis using p u(6,7) t3(6) ij by (auto simp: held_pair_def is_locked_def)
    next
      case False
      then have "bufs u ! k = bufs t ! k" using u(7) t3(7) t2(8) t1 by simp
      then show ?thesis using p False k by (simp add: held_pair_def is_locked_def)
    qed
  qed
  moreover have eq: "u = s\<lparr>disk := (disk s)(a := ?d), dhist := dhist s @ [(a, ?d)], bufs := bufs u, lru := lru u\<rparr>"
  proof -
    have "?t1 = s\<lparr>lru := lru t, bufs := bufs ?t1\<rparr>"
      using fr1 arg_cong [OF fr, of "\<lambda>x. x\<lparr>bufs := bufs ?t1\<rparr>"] by simp
    from arg_cong [OF this, of "\<lambda>x. x\<lparr>disk := (disk s)(a := ?d), dhist := dhist s @ [(a, ?d)], bufs := bufs u, lru := lru u\<rparr>"]
    have "?t1\<lparr>disk := (disk s)(a := ?d), dhist := dhist s @ [(a, ?d)], bufs := bufs u, lru := lru u\<rparr> =
      s\<lparr>disk := (disk s)(a := ?d), dhist := dhist s @ [(a, ?d)], bufs := bufs u, lru := lru u\<rparr>" by simp
    moreover have "disk ?t1 = disk s" "dhist ?t1 = dhist s"
      using arg_cong [OF fr, of disk] arg_cong [OF fr, of dhist] fr1 t1 by (simp_all add: set_data_def upd_buf_def)
    ultimately show ?thesis
      using u(3) arg_cong [OF t3(3), of "\<lambda>x. x\<lparr>bufs := bufs u, lru := lru u\<rparr>"]
        arg_cong [OF t2(4), of "\<lambda>x. x\<lparr>bufs := bufs u, lru := lru u\<rparr>"] by simp
  qed
  from written_eq [OF eq] have "io_frame s u \<and> disk u = (disk s)(a := ?d) \<and> dhist u = dhist s @ [(a, ?d)]" .
  ultimately show ?thesis
    using t2(1) t3(1) u(1,2,4,5) t3(4,5) t2(5,6) t1 b unfolding dj(1) by (simp add: written_def)
qed

text \<open>Rewriting one block: \<^verbatim>\<open>bread\<close>, a change of the data, \<^verbatim>\<open>bwrite\<close>, \<^verbatim>\<open>brelse\<close>.\<close>

lemma rewrite_tail:
  assumes t: "binv t" "has_buf t i a (blk s a)" "read_frame s i t" and d: "length d = BSIZE"
  shows "ends E (bindr (bwrite i (set_data i d t)) (\<lambda>u. brelse i u)) (written s a d)"
proof -
  have fr: "t = s\<lparr>bufs := bufs t, lru := lru t\<rparr>" and b: "blk t = blk s" "dirty_blk t = dirty_blk s"
    using t(3) by (auto simp: read_frame_def)
  let ?t1 = "set_data i d t"
  note t1 = set_data_spec [OF t(1,2) d]
  from t1 bwrite_spec [of ?t1 i a d] obtain t2 where t2: "bwrite i ?t1 = Ok t2" "binv t2" "has_buf t2 i a d"
    "t2 = ?t1\<lparr>bufs := bufs t2, disk := (disk ?t1)(a := d), dhist := dhist ?t1 @ [(a, d)]\<rparr>" "blk t2 = blk ?t1"
    "dirty_blk t2 = (dirty_blk ?t1)(a := False)" "\<forall>k. is_locked t2 k \<longleftrightarrow> is_locked ?t1 k" "\<forall>k. k \<noteq> i \<longrightarrow> bufs t2 ! k = bufs ?t1 ! k"
    by blast
  have "disk t2 a = d" using arg_cong [OF t2(4), of disk] by simp
  then have "bdirty (bufs t2 ! i) \<or> d = disk t2 a" by simp
  from brelse_spec [OF t2(2,3) this] obtain u where u: "brelse i t2 = Ok u" "binv u" "u = t2\<lparr>bufs := bufs u, lru := lru u\<rparr>"
    "blk u = blk t2" "dirty_blk u = dirty_blk t2" "\<not> is_locked u i" "\<forall>k. k \<noteq> i \<longrightarrow> bufs u ! k = bufs t2 ! k" by blast
  have "(is_locked u k \<longleftrightarrow> is_locked s k) \<and> (is_locked s k \<longrightarrow> bufs u ! k = bufs s ! k)" if "k < NBUF" for k
    using u(6,7) t2(8) t1 t(3) that by (cases "k = i") (auto simp: read_frame_def is_locked_def)
  then have "keeps s u" by (simp add: keeps_def)
  moreover have "?t1\<lparr>disk := (disk s)(a := d), dhist := dhist s @ [(a, d)], bufs := bufs u, lru := lru u\<rparr> =
      s\<lparr>disk := (disk s)(a := d), dhist := dhist s @ [(a, d)], bufs := bufs u, lru := lru u\<rparr>"
    using arg_cong [OF fr, of "\<lambda>x. x\<lparr>disk := (disk s)(a := d), dhist := dhist s @ [(a, d)], bufs := bufs u, lru := lru u\<rparr>"]
    by (simp add: set_data_def upd_buf_def)
  then have eq: "u = s\<lparr>disk := (disk s)(a := d), dhist := dhist s @ [(a, d)], bufs := bufs u, lru := lru u\<rparr>"
    using u(3) arg_cong [OF t2(4), of "\<lambda>x. x\<lparr>bufs := bufs u, lru := lru u\<rparr>"] arg_cong [OF fr, of disk] arg_cong [OF fr, of dhist]
    by (simp add: set_data_def upd_buf_def)
  from written_eq [OF eq] have "io_frame s u \<and> disk u = (disk s)(a := d) \<and> dhist u = dhist s @ [(a, d)]" .
  ultimately show ?thesis
    using t2(1) u(1,2,4,5) t2(5,6) t1 b by (simp add: written_def)
qed

lemma rewrite_block:
  assumes "binv s" and "a < disksize s" and "\<not> held_blk s a" and "bread_ok E s a"
    and "\<And>d. length d = BSIZE \<Longrightarrow> length (f d) = BSIZE"
  shows "ends E (bindr (bread 1 a s) (\<lambda>(i, t). bindr (bwrite i (set_data i (f (bdata (bufs t ! i))) t)) (\<lambda>u. brelse i u)))
    (written s a (f (blk s a)))"
proof -
  have "ends E (bindr (bwrite i (set_data i (f (bdata (bufs t ! i))) t)) (\<lambda>u. brelse i u)) (written s a (f (blk s a)))"
    if "binv t" "has_buf t i a (blk s a)" "read_frame s i t" for i and t :: "'a bst"
    using rewrite_tail [OF that, of "f (blk s a)"] has_bufD(5) [OF that(1,2)] assms(5) length_blk [OF assms(1)] by simp
  then show ?thesis using bread_ends [OF assms(1-4)] by simp (elim ends_mono, auto)
qed

section \<open>Reading back\<close>

definition rewrite :: "uint \<Rightarrow> byte list \<Rightarrow> 'a bst \<Rightarrow> 'a bst res" where
  "rewrite n d s = bindr (bread 1 n s) (\<lambda>(i, t). bindr (bwrite i (set_data i d t)) (\<lambda>u. brelse i u))"

text \<open>C18: A block reads back as it was last written.  When fewer buffers are held or dirty than
  the cache has, \<^verbatim>\<open>bread\<close>, a change of the data, \<^verbatim>\<open>bwrite\<close> and \<^verbatim>\<open>brelse\<close> of block \<open>n\<close> end
  without a panic, and a later \<^verbatim>\<open>bread\<close> of any block that nobody holds returns a buffer the
  caller holds, with the new data for \<open>n\<close> and the old contents for every other block.
\<close>

theorem bread_after_bwrite:
  assumes inv: "binv s" and n: "n < disksize s" "\<not> held_blk s n" and m: "m < disksize s" "\<not> held_blk s m"
    and room: "card {b. dirty_blk s b} + nlocked s < NBUF" and d: "length d = BSIZE"
  shows "\<exists>t i u. rewrite n d s = Ok t \<and> bread 1 m t = Ok (i, u) \<and> binv u \<and> disk u n = d
    \<and> slk_holding (curpid s) (block (bufs u ! i)) \<and> bdata (bufs u ! i) = (if m = n then d else blk s m)"
proof -
  have "bread_ok {} s n" using avail_count [OF inv room] by (simp add: bread_ok_def)
  from ends_emptyD [OF rewrite_block [OF inv n this, of "\<lambda>_. d"]] d
  obtain t where t: "rewrite n d s = Ok t" "written s n d t" by (auto simp: rewrite_def)
  then have w: "binv t" "io_frame s t" "disk t = (disk s)(n := d)" "blk t = (blk s)(n := d)" "dirty_blk t = (dirty_blk s)(n := False)" "keeps s t"
    by (simp_all add: written_def)
  have "{b. dirty_blk t b} \<subseteq> {b. dirty_blk s b}" using w(5) by auto
  moreover have "finite {b. dirty_blk s b}"
    by (rule finite_subset [of _ "(\<lambda>i. blockno (bufs s ! i)) ` {..<NBUF}"]) (auto simp: dirty_blk_def cached_at_def)
  ultimately have "card {b. dirty_blk t b} \<le> card {b. dirty_blk s b}" by (rule card_mono [rotated])
  moreover have "{i. i < NBUF \<and> is_locked t i} = {i. i < NBUF \<and> is_locked s i}" using w(6) by (auto simp: keeps_def)
  then have "nlocked t = nlocked s" by (simp only: nlocked_def)
  ultimately have "avail t" using avail_count [OF w(1)] room by simp
  then have "bread_ok {} t m" by (simp add: bread_ok_def)
  from ends_emptyD [OF bread_ends [OF w(1) _ _ this]] m keeps_held [OF w(6)] io_frame_simps [OF w(2)]
  obtain i u where u: "bread 1 m t = Ok (i, u)" "binv u" "i < NBUF" "has_buf u i m (blk t m)" "read_frame t i u" by auto
  note h = has_bufD [OF u(2,4)]
  have eq: "u = t\<lparr>bufs := bufs u, lru := lru u\<rparr>" using u(5) by (simp add: read_frame_def)
  have "disk u n = d" "curpid u = curpid s"
    using arg_cong [OF eq, of disk] arg_cong [OF eq, of curpid] w(3) io_frame_simps [OF w(2)] by simp_all
  moreover have "slk_holding (curpid u) (block (bufs u ! i))" using h by (auto simp: slk_holding_def buf_ok_def is_locked_def)
  ultimately show ?thesis using t(1) u h(5) w(4) by auto
qed

text \<open>An empty cache over a disk of zeroes.\<close>

definition demo_cache :: bstate where
  "demo_cache = binit \<lparr>bufs = replicate NBUF blank_buf, lru = [], disk = (\<lambda>_. replicate BSIZE 0), dhist = [],
     disksize = 1000, curpid = 1\<rparr>"

lemma demo_cache_bufs: "i < NBUF \<Longrightarrow> bufs demo_cache ! i = blank_buf"
  by (simp add: demo_cache_def binit_def blank_buf_def)

lemma demo_cache_ok: "binv demo_cache" "quiet demo_cache" "\<not> dirty_blk demo_cache m"
proof -
  have b: "buf_ok demo_cache (bufs demo_cache ! i)" if "i < NBUF" for i
    using that by (simp add: demo_cache_bufs buf_ok_def blank_buf_def free_slk_def)
  have "uniq_bufs (bufs demo_cache)" by (simp add: uniq_bufs_def demo_cache_bufs blank_buf_def)
  with b show "binv demo_cache" unfolding binv_def by (auto simp: demo_cache_def binit_def BSIZE_def)
  show "quiet demo_cache" by (simp add: quiet_def is_locked_def demo_cache_bufs blank_buf_def free_slk_def)
  show "\<not> dirty_blk demo_cache m" by (auto simp: dirty_blk_def cached_at_def demo_cache_bufs blank_buf_def)
qed

theorem bread_after_bwrite_witness:
  "\<exists>t i u. rewrite 50 (replicate BSIZE 7) demo_cache = Ok t \<and> bread 1 50 t = Ok (i, u) \<and> bdata (bufs u ! i) = replicate BSIZE 7"
proof -
  have "50 < disksize demo_cache" by (simp add: demo_cache_def binit_def)
  with bread_after_bwrite [of demo_cache 50 50 "replicate BSIZE 7"] demo_cache_ok nlocked_quiet [of demo_cache]
    quiet_held [of demo_cache 50]
  show ?thesis by (simp add: NBUF_def) blast
qed

end
