(* ===== verification/Log.thy ===== *)
theory Log
  imports Bio
begin

text \<open>
  The write-ahead log (\<^verbatim>\<open>src/log.c\<close>) and the superblock it is described by.  The log
  state extends the buffer cache.  A caller that must wait for log space blocks.  The
  disk receives the writes of a commit one block at a time; the last part shows what
  recovery makes of every prefix of them.
\<close>

section \<open>Data\<close>

definition LOGSIZE :: nat where "LOGSIZE = 30"
definition MAXOPBLOCKS :: nat where "MAXOPBLOCKS = 10"

record superblock =
  sb_size :: uint
  sb_nblocks :: uint
  sb_ninodes :: uint
  sb_nlog :: uint
  sb_logstart :: uint
  sb_inodestart :: uint
  sb_bmapstart :: uint

record log_state = bstate +
  lstart :: uint
  lsize :: int
  outstanding :: int
  committing :: bool
  ldev :: uint
  lh_n :: int
  lh_block :: "uint list"

type_synonym 'a lst = "'a log_state_scheme"

text \<open>An element of the array \<^verbatim>\<open>log.lh.block\<close>.\<close>

definition lh_at :: "'a lst \<Rightarrow> nat \<Rightarrow> uint res" where
  "lh_at s t = (if t < LOGSIZE then Ok (lh_block s ! t) else Undef ''log.lh.block'')"

definition log_blk :: "'a lst \<Rightarrow> nat \<Rightarrow> uint" where
  "log_blk s t = lstart s + of_nat t + 1"

section \<open>Operations\<close>

definition get_superblock :: "byte list \<Rightarrow> superblock" where
  "get_superblock d = \<lparr>sb_size = get32 d 0, sb_nblocks = get32 d 4, sb_ninodes = get32 d 8, sb_nlog = get32 d 12,
     sb_logstart = get32 d 16, sb_inodestart = get32 d 20, sb_bmapstart = get32 d 24\<rparr>"

definition readsb :: "uint \<Rightarrow> 'a bst \<Rightarrow> (superblock \<times> 'a bst) res" where
  "readsb dev s = bindr (bread dev 1 s) (\<lambda>(i, s1).
     let sb = get_superblock (bdata (bufs s1 ! i)) in bindr (brelse i s1) (\<lambda>s2. Ok (sb, s2)))"

text \<open>The header block: \<^verbatim>\<open>n\<close>, then the block numbers.\<close>

definition head_bytes :: "int \<Rightarrow> uint list \<Rightarrow> byte list \<Rightarrow> byte list" where
  "head_bytes n bs d = fold (\<lambda>i d. put32 d (4 + 4 * i) (bs ! i)) [0..<nat n] (put32 d 0 (of_int n))"

definition install_trans1 :: "nat \<Rightarrow> 'a lst \<Rightarrow> 'a lst res" where
  "install_trans1 tail s =
     bindr (lh_at s tail) (\<lambda>b.
     bindr (bread (ldev s) (log_blk s tail) s) (\<lambda>(l, s1).
     bindr (bread (ldev s) b s1) (\<lambda>(d, s2).
     bindr (bwrite d (set_data d (bdata (bufs s2 ! l)) s2)) (\<lambda>s3.
     bindr (brelse l s3) (\<lambda>s4. brelse d s4)))))"

definition install_trans :: "'a lst \<Rightarrow> 'a lst res" where
  "install_trans s = forr [0..<nat (lh_n s)] install_trans1 s"

definition read_head :: "'a lst \<Rightarrow> 'a lst res" where
  "read_head s =
     bindr (bread (ldev s) (lstart s) s) (\<lambda>(i, s1).
       let d = bdata (bufs s1 ! i); n = sint (get32 d 0) in
       if int LOGSIZE < n then Undef ''log.lh.block''
       else bindr (brelse i s1) (\<lambda>s2. Ok (s2\<lparr>lh_n := n,
              lh_block := fold (\<lambda>k bs. bs[k := get32 d (4 + 4 * k)]) [0..<nat n] (lh_block s2)\<rparr>)))"

definition write_head :: "'a lst \<Rightarrow> 'a lst res" where
  "write_head s =
     (if int LOGSIZE < lh_n s then Undef ''log.lh.block''
      else bindr (bread (ldev s) (lstart s) s) (\<lambda>(i, s1).
        bindr (bwrite i (set_data i (head_bytes (lh_n s) (lh_block s) (bdata (bufs s1 ! i))) s1)) (\<lambda>s2.
        brelse i s2)))"

definition recover_from_log :: "'a lst \<Rightarrow> 'a lst res" where
  "recover_from_log s =
     bindr (read_head s) (\<lambda>s1. bindr (install_trans s1) (\<lambda>s2. write_head (s2\<lparr>lh_n := 0\<rparr>)))"

definition initlog :: "uint \<Rightarrow> 'a lst \<Rightarrow> 'a lst res" where
  "initlog dev s =
     guardr (4 + 4 * LOGSIZE < BSIZE) ''initlog: too big logheader''
       (bindr (readsb dev s) (\<lambda>(sb, s1).
          recover_from_log (s1\<lparr>lstart := sb_logstart sb, lsize := sint (sb_nlog sb), ldev := dev\<rparr>)))"

definition begin_op :: "'a lst \<Rightarrow> 'a lst res" where
  "begin_op s =
     (if committing s then Block
      else if lh_n s + (outstanding s + 1) * int MAXOPBLOCKS > int LOGSIZE then Block
      else Ok (s\<lparr>outstanding := outstanding s + 1\<rparr>))"

definition write_log1 :: "nat \<Rightarrow> 'a lst \<Rightarrow> 'a lst res" where
  "write_log1 tail s =
     bindr (lh_at s tail) (\<lambda>b.
     bindr (bread (ldev s) (log_blk s tail) s) (\<lambda>(t, s1).
     bindr (bread (ldev s) b s1) (\<lambda>(f, s2).
     bindr (bwrite t (set_data t (bdata (bufs s2 ! f)) s2)) (\<lambda>s3.
     bindr (brelse f s3) (\<lambda>s4. brelse t s4)))))"

definition write_log :: "'a lst \<Rightarrow> 'a lst res" where
  "write_log s = forr [0..<nat (lh_n s)] write_log1 s"

definition commit :: "'a lst \<Rightarrow> 'a lst res" where
  "commit s =
     (if lh_n s > 0
      then bindr (write_log s) (\<lambda>s1. bindr (write_head s1) (\<lambda>s2. bindr (install_trans s2) (\<lambda>s3.
             write_head (s3\<lparr>lh_n := 0\<rparr>))))
      else Ok s)"

definition end_op :: "'a lst \<Rightarrow> 'a lst res" where
  "end_op s =
     (let s1 = s\<lparr>outstanding := outstanding s - 1\<rparr> in
      guardr (\<not> committing s1) ''log.committing''
        (if outstanding s1 = 0
         then bindr (commit (s1\<lparr>committing := True\<rparr>)) (\<lambda>s2. Ok (s2\<lparr>committing := False\<rparr>))
         else Ok s1))"

definition log_write :: "nat \<Rightarrow> 'a lst \<Rightarrow> 'a lst res" where
  "log_write b s =
     guardr (\<not> (lh_n s \<ge> int LOGSIZE \<or> lh_n s \<ge> lsize s - 1)) ''too big a transaction''
     (guardr (\<not> outstanding s < 1) ''log_write outside of trans''
       (let n = nat (lh_n s); no = blockno (bufs s ! b);
            i = (case first_idx (\<lambda>x. x = no) (take n (lh_block s)) of Some i \<Rightarrow> i | None \<Rightarrow> n);
            s1 = s\<lparr>lh_block := (lh_block s)[i := no], lh_n := (if i = n then lh_n s + 1 else lh_n s)\<rparr>
        in Ok (upd_buf b (\<lambda>x. x\<lparr>bdirty := True\<rparr>) s1)))"

section \<open>Invariant\<close>

definition logged :: "'a lst \<Rightarrow> uint list" where
  "logged s = take (nat (lh_n s)) (lh_block s)"

text \<open>The blocks of the log on disk: the header, then one block per entry.\<close>

definition log_area :: "'a lst \<Rightarrow> uint set" where
  "log_area s = {m. unat (lstart s) \<le> unat m \<and> unat m < unat (lstart s) + nat (lsize s)}"

text \<open>The shape of the log: its area lies on the disk and has room for the entries.\<close>

definition log_geom :: "'a lst \<Rightarrow> bool" where
  "log_geom s \<longleftrightarrow> ldev s = 1 \<and> 2 \<le> lsize s \<and> lsize s \<le> int LOGSIZE
     \<and> unat (lstart s) + nat (lsize s) \<le> unat (disksize s)"

definition log_entries :: "'a lst \<Rightarrow> bool" where
  "log_entries s \<longleftrightarrow> length (lh_block s) = LOGSIZE \<and> 0 \<le> lh_n s \<and> lh_n s \<le> lsize s - 1
     \<and> (\<forall>m \<in> set (logged s). m < disksize s \<and> m \<notin> log_area s)"

text \<open>Exactly the logged blocks are dirty: they are pinned in the cache until the commit.\<close>

definition log_wf :: "'a lst \<Rightarrow> bool" where
  "log_wf s \<longleftrightarrow> binv s \<and> log_geom s \<and> log_entries s \<and> distinct (logged s)
     \<and> (\<forall>m. dirty_blk s m \<longleftrightarrow> m \<in> set (logged s))"

lemma io_frame_log:
  fixes s t :: "'a lst"
  assumes "io_frame s t"
  shows "lstart t = lstart s" "lsize t = lsize s" "outstanding t = outstanding s" "committing t = committing s"
    "ldev t = ldev s" "lh_n t = lh_n s" "lh_block t = lh_block s" "disksize t = disksize s"
    "log_state.more t = log_state.more s"
proof -
  have eq: "t = s\<lparr>disk := disk t, dhist := dhist t, bufs := bufs t, lru := lru t\<rparr>"
    using assms by (simp add: io_frame_def)
  show "lstart t = lstart s" by (subst eq) simp
  show "lsize t = lsize s" by (subst eq) simp
  show "outstanding t = outstanding s" by (subst eq) simp
  show "committing t = committing s" by (subst eq) simp
  show "ldev t = ldev s" by (subst eq) simp
  show "lh_n t = lh_n s" by (subst eq) simp
  show "lh_block t = lh_block s" by (subst eq) simp
  show "disksize t = disksize s" by (subst eq) simp
  show "log_state.more t = log_state.more s" by (subst eq) simp
qed

lemma logged_frame: "io_frame s t \<Longrightarrow> logged t = logged s"
  by (simp add: logged_def io_frame_log)

lemma log_area_frame: "io_frame s t \<Longrightarrow> log_area t = log_area s"
  by (simp add: log_area_def io_frame_log)

lemma log_geom_frame: "io_frame s t \<Longrightarrow> log_geom t = log_geom s"
  by (simp add: log_geom_def io_frame_log)

lemma log_entries_frame: "io_frame s t \<Longrightarrow> log_entries t = log_entries s"
  by (simp add: log_entries_def io_frame_log logged_frame log_area_frame)

lemma lh_at_frame: "io_frame s t \<Longrightarrow> lh_at t = lh_at s"
  and log_blk_frame: "io_frame s t \<Longrightarrow> log_blk t = log_blk s"
  by (simp_all add: lh_at_def log_blk_def io_frame_log fun_eq_iff)

lemmas log_frame = lh_at_frame log_blk_frame io_frame_log logged_frame log_area_frame log_geom_frame log_entries_frame

lemma logged_nth: "log_entries s \<Longrightarrow> log_geom s \<Longrightarrow> t < nat (lh_n s) \<Longrightarrow>
  t < LOGSIZE \<and> lh_at s t = Ok (logged s ! t) \<and> logged s ! t \<in> set (logged s) \<and> t < length (logged s)"
  using nth_mem [of t "logged s"] by (auto simp: log_entries_def log_geom_def lh_at_def logged_def)

lemma length_logged: "log_entries s \<Longrightarrow> log_geom s \<Longrightarrow> length (logged s) = nat (lh_n s)"
  by (auto simp: log_entries_def log_geom_def logged_def)

lemma unat_log_blk: "log_geom s \<Longrightarrow> int t < lsize s - 1 \<Longrightarrow> unat (log_blk s t) = unat (lstart s) + t + 1"
proof -
  assume g: "log_geom s" and t: "int t < lsize s - 1"
  have "unat (lstart s) + t + 1 < 4294967296"
    using g t unat_uint_less [of "disksize s"] by (auto simp: log_geom_def)
  moreover have "log_blk s t = word_of_nat (unat (lstart s) + t + 1)"
    by (simp add: log_blk_def)
  ultimately show ?thesis by (simp only: unat_of_nat_uint)
qed

lemma log_blk_area:
  assumes "log_geom s" and "int t < lsize s - 1"
  shows "log_blk s t \<in> log_area s" "log_blk s t < disksize s" "log_blk s t \<noteq> lstart s"
proof -
  note u = unat_log_blk [OF assms]
  have "t + 1 < nat (lsize s)" using assms(2) by linarith
  moreover have "unat (lstart s) + nat (lsize s) \<le> unat (disksize s)" using assms(1) by (simp add: log_geom_def)
  ultimately show "log_blk s t \<in> log_area s" "log_blk s t < disksize s"
    by (simp_all add: log_area_def word_less_nat_alt u)
  show "log_blk s t \<noteq> lstart s" using u by auto
qed

lemma log_blk_inj: "log_geom s \<Longrightarrow> int t < lsize s - 1 \<Longrightarrow> int u < lsize s - 1 \<Longrightarrow> log_blk s t = log_blk s u \<longleftrightarrow> t = u"
  using unat_log_blk [of s t] unat_log_blk [of s u] by (metis add_left_cancel add_right_cancel)

lemma lstart_area: "log_geom s \<Longrightarrow> lstart s \<in> log_area s \<and> lstart s < disksize s"
  by (auto simp: log_area_def log_geom_def word_less_nat_alt)

section \<open>Sequences of block writes\<close>

definition apply_writes :: "(uint \<times> byte list) list \<Rightarrow> (uint \<Rightarrow> byte list) \<Rightarrow> uint \<Rightarrow> byte list" where
  "apply_writes ws d = fold (\<lambda>(n, b) d. d(n := b)) ws d"

lemma apply_writes_simps [simp]:
  "apply_writes [] d = d"
  "apply_writes ((n, b) # ws) d = apply_writes ws (d(n := b))"
  "apply_writes (ws @ vs) d = apply_writes vs (apply_writes ws d)"
  by (simp_all add: apply_writes_def)

lemma apply_writes_other: "n \<notin> fst ` set ws \<Longrightarrow> apply_writes ws d n = d n"
  by (induction ws rule: rev_induct) auto

lemma apply_writes_in: "distinct (map fst ws) \<Longrightarrow> (n, b) \<in> set ws \<Longrightarrow> apply_writes ws d n = b"
  by (induction ws rule: rev_induct) (auto simp: image_iff intro: rev_image_eqI)

lemma apply_writes_all: "n \<in> fst ` set ws \<Longrightarrow> (\<And>b. (n, b) \<in> set ws \<Longrightarrow> b = f n) \<Longrightarrow> apply_writes ws d n = f n"
proof (induction ws rule: rev_induct)
  case (snoc x xs)
  obtain m b where "x = (m, b)" by (cases x)
  with snoc show ?case by (cases "n = m") auto
qed simp

lemma apply_writes_same: "(\<And>n b. (n, b) \<in> set ws \<Longrightarrow> b = f n) \<Longrightarrow> apply_writes ws f = f"
  by (induction ws rule: rev_induct) auto

text \<open>The writes of the phases of a commit.\<close>

definition log_writes :: "'a lst \<Rightarrow> (uint \<times> byte list) list" where
  "log_writes s = map (\<lambda>t. (log_blk s t, blk s (logged s ! t))) [0..<nat (lh_n s)]"

definition home_writes :: "'a lst \<Rightarrow> (uint \<times> byte list) list" where
  "home_writes s = map (\<lambda>t. (logged s ! t, blk s (log_blk s t))) [0..<nat (lh_n s)]"

text \<open>A state reached from \<open>s\<close> by the writes \<open>ws\<close>, with nothing held.\<close>

definition after_writes :: "'a lst \<Rightarrow> (uint \<times> byte list) list \<Rightarrow> 'a lst \<Rightarrow> bool" where
  "after_writes s ws t \<longleftrightarrow> binv t \<and> quiet t \<and> io_frame s t \<and> disk t = apply_writes ws (disk s)
     \<and> dhist t = dhist s @ ws \<and> blk t = apply_writes ws (blk s)"

lemma after_writes_snoc:
  assumes "after_writes s ws t" and "written t a d u"
  shows "after_writes s (ws @ [(a, d)]) u"
  using assms io_frame_trans [of s t u] quiet_keeps [of t u]
  unfolding after_writes_def written_def by auto

lemma after_writes_trans: "after_writes s ws t \<Longrightarrow> after_writes t vs u \<Longrightarrow> after_writes s (ws @ vs) u"
  unfolding after_writes_def using io_frame_trans [of s t u] by auto

lemma after_writes_init: "binv s \<Longrightarrow> quiet s \<Longrightarrow> after_writes s [] s"
  by (simp add: after_writes_def)

section \<open>The phases of a commit\<close>

lemma ndirty_log: "log_wf s \<Longrightarrow> quiet s \<Longrightarrow> card {n. dirty_blk s n} + nlocked s < NBUF"
proof -
  assume s: "log_wf s" "quiet s"
  then have "{n. dirty_blk s n} = set (logged s)" by (auto simp: log_wf_def)
  then have "card {n. dirty_blk s n} \<le> nat (lh_n s)"
    using card_length [of "logged s"] by (simp add: logged_def)
  moreover have "nat (lh_n s) < 30" using s(1) by (auto simp: log_wf_def log_entries_def log_geom_def LOGSIZE_def)
  ultimately show ?thesis using nlocked_quiet [OF s(2)] by (simp add: NBUF_def)
qed

lemma write_log1_spec:
  assumes wf: "log_wf s" and w: "after_writes s (take t (log_writes s)) u" "dirty_blk u = dirty_blk s"
    and t: "t < nat (lh_n s)" and q: "quiet s"
  shows "ends {} (write_log1 t u) (\<lambda>v. after_writes s (take (Suc t) (log_writes s)) v \<and> dirty_blk v = dirty_blk s)"
proof -
  have u: "binv u" "quiet u" "io_frame s u" and bu: "blk u = apply_writes (take t (log_writes s)) (blk s)"
    using w by (simp_all add: after_writes_def)
  note f = log_frame [OF u(3)]
  have g: "log_geom s" "log_entries s" using wf by (simp_all add: log_wf_def)
  note n = logged_nth [OF g(2,1) t]
  have lt: "int t < lsize s - 1" using t g by (auto simp: log_entries_def)
  let ?a = "log_blk s t" let ?b = "logged s ! t"
  note a = log_blk_area [OF g(1) lt]
  have b: "?b < disksize s" "?b \<notin> log_area s" using n g(2) by (auto simp: log_entries_def)
  have d: "dirty_blk u ?b" using wf w(2) n by (simp add: log_wf_def)
  have "card {n. dirty_blk u n} + nlocked u < NBUF" using ndirty_log [OF wf q] w(2) nlocked_quiet [OF u(2)] by simp
  then have av: "avail u" by (rule avail_count [OF u(1)])
  have "blk u ?b = blk s ?b" unfolding bu
    by (rule apply_writes_other) (use b(2) log_blk_area(1) [OF g(1)] g(2) t in
      \<open>auto simp: log_writes_def take_map log_entries_def dest!: in_set_takeD\<close>)
  then have step: "take t (log_writes s) @ [(?a, blk u ?b)] = take (Suc t) (log_writes s)"
    using t by (simp add: log_writes_def take_Suc_conv_app_nth)
  have "ends {} (bindr (bread 1 ?a u) (\<lambda>(t, s1). bindr (bread 1 ?b s1) (\<lambda>(f, s2).
     bindr (bwrite t (set_data t (bdata (bufs s2 ! f)) s2)) (\<lambda>s3. bindr (brelse f s3) (\<lambda>s4. brelse t s4))))) (written u ?a (blk u ?b))"
  proof (rule read2 [OF u(1)])
    show "\<not> held_blk u ?a" "\<not> held_blk u ?b" by (rule quiet_held [OF u(2)])+
    show "?a < disksize u" "?b < disksize u" using a b f by simp_all
    show "?a \<noteq> ?b" using a(1) b(2) by auto
    show "bread_ok {} u ?a" using av by (simp add: bread_ok_def)
    show "bread_ok {} v ?b" if "read_frame u i v" for i and v :: "'a lst"
      using that d by (simp add: bread_ok_def read_frame_def)
    show "ends {} (bindr (bwrite i (set_data i (bdata (bufs v ! j)) v)) (\<lambda>s3. bindr (brelse j s3) (brelse i))) (written u ?a (blk u ?b))"
      if "held_pair u ?a i ?b j v" for i j and v :: "'a lst"
      by (rule copy_tail [OF u(1) quiet_held [OF u(2)] _ that]) (use a(1) b(2) in auto)
  qed
  moreover have "lh_at u t = Ok ?b" "ldev u = 1" "log_blk u t = ?a"
    using n g(1) f by (simp_all add: log_geom_def)
  ultimately have "ends {} (write_log1 t u) (written u ?a (blk u ?b))" by (simp add: write_log1_def)
  then show ?thesis
  proof (rule ends_mono)
    fix v
    assume v: "written u ?a (blk u ?b) v"
    have "\<not> dirty_blk s ?a" using wf a(1) g(2) by (auto simp: log_wf_def log_entries_def)
    then have "dirty_blk v = dirty_blk s" using v w(2) by (auto simp: written_def fun_eq_iff)
    then show "after_writes s (take (Suc t) (log_writes s)) v \<and> dirty_blk v = dirty_blk s"
      using after_writes_snoc [OF w(1) v] step by simp
  qed
qed

lemma write_log_spec:
  assumes "log_wf s" and "quiet s"
  shows "ends {} (write_log s) (\<lambda>t. after_writes s (log_writes s) t \<and> dirty_blk t = dirty_blk s)"
proof -
  have "ends {} (forr [0..<nat (lh_n s)] write_log1 s)
    (\<lambda>u. after_writes s (take (nat (lh_n s)) (log_writes s)) u \<and> dirty_blk u = dirty_blk s)"
  proof (rule ends_forr)
    show "after_writes s (take 0 (log_writes s)) s \<and> dirty_blk s = dirty_blk s"
      using assms after_writes_init [of s] by (simp add: log_wf_def)
  qed (use write_log1_spec [OF assms(1) _ _ _ assms(2)] in blast)
  then show ?thesis by (simp add: write_log_def log_writes_def)
qed

text \<open>Installing works for a commit (the home blocks are pinned) and for recovery (nothing is dirty).\<close>

definition installable :: "'a lst \<Rightarrow> bool" where
  "installable s \<longleftrightarrow> binv s \<and> log_geom s \<and> log_entries s \<and> (log_wf s \<or> (\<forall>m. \<not> dirty_blk s m))"

definition dirty_left :: "'a lst \<Rightarrow> nat \<Rightarrow> uint \<Rightarrow> bool" where
  "dirty_left s t m \<longleftrightarrow> dirty_blk s m \<and> m \<notin> set (take t (logged s))"

lemma install_ready:
  assumes i: "installable s" and q: "quiet s" and u: "binv u" "quiet u" "dirty_blk u = dirty_left s t" and t: "t < length (logged s)"
  shows "avail u" and "read_frame u k v \<Longrightarrow> binv v \<Longrightarrow> bread_ok {} v (logged s ! t)"
proof -
  have sub: "{n. dirty_blk u n} \<subseteq> {n. dirty_blk s n}" using u(3) by (auto simp: dirty_left_def)
  have fin: "finite {n. dirty_blk s n}"
    by (rule finite_subset [of _ "(\<lambda>i. blockno (bufs s ! i)) ` {..<NBUF}"]) (auto simp: dirty_blk_def cached_at_def)
  have le: "card {n. dirty_blk u n} \<le> card {n. dirty_blk s n}" by (rule card_mono [OF fin sub])
  have few: "card {n. dirty_blk u n} < NBUF"
    using i le ndirty_log [OF _ q] by (auto simp: installable_def NBUF_def)
  then show "avail u" using avail_count [OF u(1)] nlocked_quiet [OF u(2)] by simp
  assume r: "read_frame u k v" and v: "binv v"
  have dv: "dirty_blk v = dirty_blk u" using r by (simp add: read_frame_def)
  show "bread_ok {} v (logged s ! t)"
  proof (cases "\<forall>m. \<not> dirty_blk s m")
    case True
    then have "{n. dirty_blk v n} = {}" using sub dv by auto
    moreover have "nlocked v \<le> 1" using nlocked_read [OF r] nlocked_quiet [OF u(2)] by simp
    ultimately show ?thesis using avail_count [OF v] by (simp add: bread_ok_def NBUF_def)
  next
    case False
    with i have wf: "log_wf s" by (simp add: installable_def)
    then have "logged s ! t \<notin> set (take t (logged s))"
      using t by (auto simp: log_wf_def in_set_conv_nth nth_eq_iff_index_eq)
    then show ?thesis using dv u(3) wf t by (simp add: bread_ok_def dirty_left_def log_wf_def)
  qed
qed

lemma install_trans1_spec:
  assumes i: "installable s" and w: "after_writes s (take t (home_writes s)) u" "dirty_blk u = dirty_left s t"
    and t: "t < nat (lh_n s)" and q: "quiet s"
  shows "ends {} (install_trans1 t u) (\<lambda>v. after_writes s (take (Suc t) (home_writes s)) v \<and> dirty_blk v = dirty_left s (Suc t))"
proof -
  have u: "binv u" "quiet u" "io_frame s u" and bu: "blk u = apply_writes (take t (home_writes s)) (blk s)"
    using w by (simp_all add: after_writes_def)
  note f = log_frame [OF u(3)]
  have g: "log_geom s" "log_entries s" using i by (simp_all add: installable_def)
  note n = logged_nth [OF g(2,1) t]
  have lt: "int t < lsize s - 1" using t g by (auto simp: log_entries_def)
  let ?a = "log_blk s t" let ?b = "logged s ! t"
  note a = log_blk_area [OF g(1) lt]
  have b: "?b < disksize s" "?b \<notin> log_area s" using n g(2) by (auto simp: log_entries_def)
  have "?a \<notin> set (logged s)" using a(1) g(2) by (auto simp: log_entries_def)
  then have "?a \<noteq> logged s ! k" if "k < nat (lh_n s)" for k using that length_logged [OF g(2,1)] by auto
  then have "blk u ?a = blk s ?a" unfolding bu
    by (intro apply_writes_other) (fastforce simp: home_writes_def take_map dest!: in_set_takeD)
  then have step: "take t (home_writes s) @ [(?b, blk u ?a)] = take (Suc t) (home_writes s)"
    using t by (simp add: home_writes_def take_Suc_conv_app_nth)
  have "ends {} (bindr (bread 1 ?a u) (\<lambda>(l, s1). bindr (bread 1 ?b s1) (\<lambda>(d, s2).
     bindr (bwrite d (set_data d (bdata (bufs s2 ! l)) s2)) (\<lambda>s3. bindr (brelse l s3) (\<lambda>s4. brelse d s4))))) (written u ?b (blk u ?a))"
  proof (rule read2 [OF u(1)])
    show "\<not> held_blk u ?a" "\<not> held_blk u ?b" by (rule quiet_held [OF u(2)])+
    show "?a < disksize u" "?b < disksize u" using a b f by simp_all
    show "?a \<noteq> ?b" using a(1) b(2) by auto
    show "bread_ok {} u ?a" using install_ready(1) [OF i q u(1,2) w(2)] n by (simp add: bread_ok_def)
    show "bread_ok {} v ?b" if "binv v" "read_frame u k v" for k and v :: "'a lst"
      using install_ready(2) [OF i q u(1,2) w(2)] n that by blast
    show "ends {} (bindr (bwrite j (set_data j (bdata (bufs v ! k)) v)) (\<lambda>s3. bindr (brelse k s3) (brelse j))) (written u ?b (blk u ?a))"
      if "held_pair u ?a k ?b j v" for j k and v :: "'a lst"
      by (rule copy_tail [OF u(1) quiet_held [OF u(2)] _ held_pair_sym [OF that]]) (use a(1) b(2) in auto)
  qed
  moreover have "lh_at u t = Ok ?b" "ldev u = 1" "log_blk u t = ?a"
    using n g(1) f by (simp_all add: log_geom_def)
  ultimately have "ends {} (install_trans1 t u) (written u ?b (blk u ?a))" by (simp add: install_trans1_def)
  then show ?thesis
  proof (rule ends_mono)
    fix v
    assume v: "written u ?b (blk u ?a) v"
    have "dirty_blk v = dirty_left s (Suc t)"
      using v w(2) n by (auto simp: written_def fun_eq_iff dirty_left_def take_Suc_conv_app_nth)
    then show "after_writes s (take (Suc t) (home_writes s)) v \<and> dirty_blk v = dirty_left s (Suc t)"
      using after_writes_snoc [OF w(1) v] step by simp
  qed
qed

lemma install_trans_spec:
  assumes "installable s" and "quiet s"
  shows "ends {} (install_trans s) (\<lambda>t. after_writes s (home_writes s) t \<and> (\<forall>m. \<not> dirty_blk t m))"
proof -
  have "ends {} (forr [0..<nat (lh_n s)] install_trans1 s)
    (\<lambda>u. after_writes s (take (nat (lh_n s)) (home_writes s)) u \<and> dirty_blk u = dirty_left s (nat (lh_n s)))"
  proof (rule ends_forr)
    show "after_writes s (take 0 (home_writes s)) s \<and> dirty_blk s = dirty_left s 0"
      using assms after_writes_init [of s] by (auto simp: installable_def dirty_left_def)
  qed (use install_trans1_spec [OF assms(1) _ _ _ assms(2)] in blast)
  moreover have "take (nat (lh_n s)) (logged s) = logged s" by (simp add: logged_def)
  then have "\<not> dirty_left s (nat (lh_n s)) m" for m
    using assms(1) by (auto simp: dirty_left_def installable_def log_wf_def)
  ultimately show ?thesis by (simp add: install_trans_def home_writes_def) (elim ends_mono, auto)
qed

section \<open>The header block\<close>

text \<open>What the header on disk says.\<close>

definition head_n :: "byte list \<Rightarrow> int" where
  "head_n d = sint (get32 d 0)"

definition head_blocks :: "byte list \<Rightarrow> uint list" where
  "head_blocks d = map (\<lambda>k. get32 d (4 + 4 * k)) [0..<nat (head_n d)]"

lemma head_fold:
  fixes bs :: "uint list"
  assumes "length d = BSIZE" and "n \<le> LOGSIZE"
  defines "h \<equiv> fold (\<lambda>i d. put32 d (4 + 4 * i) (bs ! i)) [0..<n] d"
  shows "length h = BSIZE \<and> get32 h 0 = get32 d 0 \<and> (\<forall>k < n. get32 h (4 + 4 * k) = bs ! k)"
  using assms(2) unfolding h_def
proof (induction n)
  case 0
  then show ?case using assms(1) by simp
next
  case (Suc n)
  then show ?case by (auto simp: BSIZE_def LOGSIZE_def less_Suc_eq)
qed

lemma head_bytes_get:
  assumes "length d = BSIZE" and "0 \<le> n" and "n \<le> int LOGSIZE" and "nat n \<le> length bs"
  shows "length (head_bytes n bs d) = BSIZE" "head_n (head_bytes n bs d) = n"
    "head_blocks (head_bytes n bs d) = take (nat n) bs"
proof -
  let ?d = "put32 d 0 (of_int n)"
  have d: "length ?d = BSIZE" using assms(1) by (simp add: BSIZE_def)
  have n: "sint (of_int n :: uint) = n"
    using assms(2,3) by (simp add: LOGSIZE_def signed_of_int signed_take_bit_int_eq_self)
  note h = head_fold [OF d, of "nat n" bs]
  from h assms(3) show l: "length (head_bytes n bs d) = BSIZE" by (simp add: head_bytes_def)
  from h assms show nn: "head_n (head_bytes n bs d) = n" by (simp add: head_bytes_def head_n_def n BSIZE_def)
  show "head_blocks (head_bytes n bs d) = take (nat n) bs"
    unfolding head_blocks_def nn using h assms
    by (intro nth_equalityI) (auto simp: head_bytes_def)
qed

text \<open>Loading the header into memory.\<close>

lemma load_head:
  "n \<le> length bs \<Longrightarrow> fold (\<lambda>k bs. bs[k := f k]) [0..<n] bs = map f [0..<n] @ drop n bs"
proof (induction n)
  case (Suc n)
  then have "drop n bs = bs ! n # drop (Suc n) bs" by (simp add: Cons_nth_drop_Suc)
  with Suc show ?case by (simp add: list_update_append)
qed simp

section \<open>States that differ outside the cache\<close>

lemma cache_cong:
  fixes s :: "'a bst" and t :: "'b bst"
  assumes "bufs t = bufs s" and "disk t = disk s"
  shows cache_cong_at: "cached_at t = cached_at s" and cache_cong_locked: "is_locked t = is_locked s"
    and cache_cong_blk: "blk t = blk s"
    and cache_cong_dirty: "dirty_blk t = dirty_blk s" and cache_cong_held: "held_blk t = held_blk s"
    and cache_cong_quiet: "quiet t = quiet s"
proof -
  show c: "cached_at t = cached_at s" and l: "is_locked t = is_locked s"
    using assms by (simp_all add: cached_at_def is_locked_def fun_eq_iff)
  show "blk t = blk s" unfolding blk_def assms ..
  show "dirty_blk t = dirty_blk s" "held_blk t = held_blk s" "quiet t = quiet s"
    using assms c l by (simp_all add: dirty_blk_def held_blk_def quiet_def fun_eq_iff)
qed

lemma binv_cong:
  fixes s :: "'a bst" and t :: "'b bst"
  assumes "bufs t = bufs s" "lru t = lru s" "disk t = disk s" "disksize t = disksize s" "curpid t = curpid s"
  shows "binv t = binv s"
  using assms by (simp add: binv_def buf_ok_def)

lemma cache_upd_lh [simp]:
  fixes s :: "'a lst"
  shows "binv (s\<lparr>lh_n := n\<rparr>) = binv s" "blk (s\<lparr>lh_n := n\<rparr>) = blk s" "dirty_blk (s\<lparr>lh_n := n\<rparr>) = dirty_blk s"
    "quiet (s\<lparr>lh_n := n\<rparr>) = quiet s" "held_blk (s\<lparr>lh_n := n\<rparr>) = held_blk s"
    "binv (s\<lparr>lh_block := bs\<rparr>) = binv s" "blk (s\<lparr>lh_block := bs\<rparr>) = blk s" "dirty_blk (s\<lparr>lh_block := bs\<rparr>) = dirty_blk s"
    "quiet (s\<lparr>lh_block := bs\<rparr>) = quiet s" "held_blk (s\<lparr>lh_block := bs\<rparr>) = held_blk s"
  by (rule binv_cong cache_cong_blk cache_cong_dirty cache_cong_quiet cache_cong_held; simp)+

lemma log_upd_lh [simp]:
  fixes s :: "'a lst"
  shows "log_geom (s\<lparr>lh_n := n\<rparr>) = log_geom s" "log_area (s\<lparr>lh_n := n\<rparr>) = log_area s" "log_blk (s\<lparr>lh_n := n\<rparr>) = log_blk s"
    "log_geom (s\<lparr>lh_block := bs\<rparr>) = log_geom s" "log_area (s\<lparr>lh_block := bs\<rparr>) = log_area s" "log_blk (s\<lparr>lh_block := bs\<rparr>) = log_blk s"
  by (simp_all add: log_geom_def log_area_def log_blk_def fun_eq_iff)

lemma avail_quiet: "binv s \<Longrightarrow> quiet s \<Longrightarrow> \<forall>m. \<not> dirty_blk s m \<Longrightarrow> avail s"
  using avail_count [of s] nlocked_quiet [of s] by (simp add: NBUF_def)

lemma write_head_spec:
  assumes "binv s" and "quiet s" and "avail s" and "log_geom s" and "0 \<le> lh_n s" and "lh_n s \<le> int LOGSIZE"
    and "length (lh_block s) = LOGSIZE"
  shows "ends {} (write_head s) (written s (lstart s) (head_bytes (lh_n s) (lh_block s) (blk s (lstart s))))"
proof -
  have "bread_ok {} s (lstart s)" using assms(3) by (simp add: bread_ok_def)
  from rewrite_block [OF assms(1) _ quiet_held [OF assms(2)] this, of "head_bytes (lh_n s) (lh_block s)"]
  show ?thesis using assms lstart_area [OF assms(4)] head_bytes_get(1) [of _ "lh_n s" "lh_block s"]
    by (simp add: write_head_def log_geom_def)
qed

lemma read_head_spec:
  assumes inv: "binv s" "quiet s" "avail s" "log_geom s" and h: "head_n (blk s (lstart s)) \<le> int LOGSIZE"
    and l: "length (lh_block s) = LOGSIZE"
  defines "d \<equiv> blk s (lstart s)"
  shows "ends {} (read_head s) (\<lambda>t. \<exists>u. binv u \<and> same_but_cache s u
    \<and> t = u\<lparr>lh_n := head_n d, lh_block := head_blocks d @ drop (nat (head_n d)) (lh_block s)\<rparr>)"
proof -
  have a: "lstart s < disksize s" "\<not> held_blk s (lstart s)" "ldev s = 1"
    using lstart_area [OF inv(4)] quiet_held [OF inv(2)] inv(4) by (auto simp: log_geom_def)
  have "bread_ok {} s (lstart s)" using inv(3) by (simp add: bread_ok_def)
  note r = bread_ends [OF inv(1) a(1,2) this]
  show ?thesis unfolding read_head_def a(3)
  proof (simp, rule ends_mono [OF r], clarify)
    fix i and t :: "'a lst"
    assume t: "binv t" "has_buf t i (lstart s) (blk s (lstart s))" "read_frame s i t"
    from read_release [OF inv(1) a(1,2) t] obtain u where u: "brelse i t = Ok u" "binv u" "same_but_cache s u" by blast
    have "u = s\<lparr>bufs := bufs u, lru := lru u\<rparr>" using u(3) by (simp add: same_but_cache_def)
    from arg_cong [OF this, of lh_block] have "lh_block u = lh_block s" by simp
    moreover have "bdata (bufs t ! i) = d" using has_bufD(5) [OF t(1,2)] by (simp add: d_def)
    moreover have "nat (head_n d) \<le> length (lh_block s)" using h l by (simp add: d_def)
    note load_head [OF this, of "\<lambda>k. get32 d (4 + 4 * k)"]
    ultimately show "ends {} (let d = bdata (bufs t ! i); n = sint (get32 d 0) in
        if int LOGSIZE < n then Undef ''log.lh.block''
        else bindr (brelse i t) (\<lambda>s2. Ok (s2\<lparr>lh_n := n, lh_block := fold (\<lambda>k bs. bs[k := get32 d (4 + 4 * k)]) [0..<nat n] (lh_block s2)\<rparr>)))
      (\<lambda>t. \<exists>u. binv u \<and> same_but_cache s u
        \<and> t = u\<lparr>lh_n := head_n d, lh_block := head_blocks d @ drop (nat (head_n d)) (lh_block s)\<rparr>)"
      using u h by (auto simp: Let_def head_n_def [symmetric] head_blocks_def d_def)
  qed
qed

section \<open>Recovery\<close>

text \<open>The machine after a restart: an empty cache over whatever the disk holds.\<close>

definition rebooted :: "'a lst \<Rightarrow> bool" where
  "rebooted r \<longleftrightarrow> binv r \<and> quiet r \<and> (\<forall>m. \<not> dirty_blk r m) \<and> log_geom r \<and> length (lh_block r) = LOGSIZE"

text \<open>The header on disk is one that a commit may have written.\<close>

definition head_ok :: "'a lst \<Rightarrow> byte list \<Rightarrow> bool" where
  "head_ok r d \<longleftrightarrow> 0 \<le> head_n d \<and> head_n d \<le> lsize r - 1 \<and> (\<forall>m \<in> set (head_blocks d). m < disksize r \<and> m \<notin> log_area r)"

text \<open>The writes that recovery replays, from the disk alone.\<close>

definition replay :: "'a lst \<Rightarrow> (uint \<times> byte list) list" where
  "replay r = (let d = disk r (lstart r) in
     map (\<lambda>k. (head_blocks d ! k, disk r (log_blk r k))) [0..<nat (head_n d)])"

lemma rebooted_blk: "rebooted r \<Longrightarrow> blk r = disk r"
  using blk_clean [of r] quiet_held [of r] by (auto simp: rebooted_def fun_eq_iff)

lemma read_head_rebooted:
  assumes r: "rebooted r" and h: "head_ok r (disk r (lstart r))"
  shows "ends {} (read_head r) (\<lambda>t. rebooted t \<and> installable t \<and> disk t = disk r \<and> home_writes t = replay r
    \<and> lstart t = lstart r \<and> lsize t = lsize r \<and> disksize t = disksize r)"
proof -
  let ?d = "disk r (lstart r)"
  have b: "binv r" "quiet r" "log_geom r" and nd: "\<forall>m. \<not> dirty_blk r m" and l: "length (lh_block r) = LOGSIZE"
    using r by (simp_all add: rebooted_def)
  have d: "blk r (lstart r) = ?d" using rebooted_blk [OF r] by simp
  have n: "head_n ?d \<le> int LOGSIZE" "0 \<le> head_n ?d" using h b(3) by (auto simp: head_ok_def log_geom_def)
  have len: "length (head_blocks ?d) = nat (head_n ?d)" by (simp add: head_blocks_def)
  show ?thesis
  proof (rule ends_mono [OF read_head_spec [OF b(1,2) avail_quiet [OF b(1,2) nd] b(3) _ l]])
    show "head_n (blk r (lstart r)) \<le> int LOGSIZE" using n d by simp
    fix t
    assume "\<exists>u. binv u \<and> same_but_cache r u \<and> t = u\<lparr>lh_n := head_n (blk r (lstart r)),
      lh_block := head_blocks (blk r (lstart r)) @ drop (nat (head_n (blk r (lstart r)))) (lh_block r)\<rparr>"
    then obtain u where u: "binv u" "same_but_cache r u"
      "t = u\<lparr>lh_n := head_n ?d, lh_block := head_blocks ?d @ drop (nat (head_n ?d)) (lh_block r)\<rparr>" unfolding d by blast
    have eq: "u = r\<lparr>bufs := bufs u, lru := lru u\<rparr>" using u(2) by (simp add: same_but_cache_def)
    note sel = arg_cong [OF eq, of lstart] arg_cong [OF eq, of lsize] arg_cong [OF eq, of ldev]
      arg_cong [OF eq, of disksize] arg_cong [OF eq, of disk]
    have sel: "lstart u = lstart r" "lsize u = lsize r" "ldev u = ldev r" "disksize u = disksize r" "disk u = disk r"
      using sel by simp_all
    have q: "quiet u" "blk u = blk r" "dirty_blk u = dirty_blk r"
      using u(2) quiet_keeps [OF b(2)] by (auto simp: same_but_cache_def)
    have g: "log_geom u" "log_area u = log_area r" "log_blk u = log_blk r"
      using b(3) sel by (simp_all add: log_geom_def log_area_def log_blk_def fun_eq_iff)
    have lg: "logged t = head_blocks ?d" using len by (simp add: u(3) logged_def)
    have "log_entries t"
      using h n l len lg g sel by (auto simp: log_entries_def head_ok_def u(3))
    then have "installable t" using u(1) g q nd by (simp add: installable_def u(3))
    moreover have "rebooted t" using u(1) q nd g n len l by (simp add: rebooted_def u(3))
    moreover have "home_writes t = replay r"
      using lg g q(2) rebooted_blk [OF r] by (simp add: home_writes_def replay_def Let_def u(3))
    ultimately show "rebooted t \<and> installable t \<and> disk t = disk r \<and> home_writes t = replay r
      \<and> lstart t = lstart r \<and> lsize t = lsize r \<and> disksize t = disksize r"
      using sel by (simp add: u(3))
  qed
qed

text \<open>Recovery ends, with the log cleared and the replayed writes on the disk.\<close>

definition recovered :: "'a lst \<Rightarrow> 'a lst \<Rightarrow> bool" where
  "recovered r t \<longleftrightarrow> log_wf t \<and> quiet t \<and> lh_n t = 0 \<and> blk t = disk t \<and> head_n (disk t (lstart r)) = 0
     \<and> lstart t = lstart r \<and> lsize t = lsize r
     \<and> (\<forall>m. m \<noteq> lstart r \<longrightarrow> disk t m = apply_writes (replay r) (disk r) m)"

lemma write_head_0:
  assumes "after_writes t ws u" and "\<forall>m. \<not> dirty_blk u m" and "log_geom t" and "length (lh_block t) = LOGSIZE"
  shows "ends {} (write_head (u\<lparr>lh_n := 0\<rparr>)) (\<lambda>v. \<exists>h. head_n h = 0 \<and> written (u\<lparr>lh_n := 0\<rparr>) (lstart t) h v)"
proof -
  have u: "binv u" "quiet u" "io_frame t u" using assms(1) by (simp_all add: after_writes_def)
  note f = io_frame_log [OF u(3)]
  have g: "log_geom u" using assms(3) log_geom_frame [OF u(3)] by simp
  have "ends {} (write_head (u\<lparr>lh_n := 0\<rparr>))
    (written (u\<lparr>lh_n := 0\<rparr>) (lstart u) (head_bytes 0 (lh_block u) (blk u (lstart u))))"
    using write_head_spec [of "u\<lparr>lh_n := 0\<rparr>"] u g f assms(2,4) avail_quiet [of "u\<lparr>lh_n := 0\<rparr>"] by simp
  moreover have "head_n (head_bytes 0 (lh_block u) (blk u (lstart u))) = 0"
    using head_bytes_get(2) [of "blk u (lstart u)" 0 "lh_block u"] length_blk [OF u(1)] by simp
  ultimately show ?thesis using f by (auto elim!: ends_mono)
qed

lemma written_clean:
  assumes "written s a d t" and "binv s" and "quiet s" and "\<forall>m. \<not> dirty_blk s m"
  shows "binv t" "quiet t" "\<forall>m. \<not> dirty_blk t m" "blk t = disk t"
proof -
  show t: "binv t" "quiet t" "\<forall>m. \<not> dirty_blk t m"
    using assms quiet_keeps [of s t] by (auto simp: written_def)
  then show "blk t = disk t" using blk_clean [OF t(1)] quiet_held [OF t(2)] by auto
qed

lemma recover_spec:
  fixes r :: "'a lst"
  assumes r: "rebooted r" and h: "head_ok r (disk r (lstart r))"
  shows "ends {} (recover_from_log r) (recovered r)"
  unfolding recover_from_log_def ends_bindr
proof (rule ends_mono [OF read_head_rebooted [OF assms]], elim conjE)
  fix t :: "'a lst"
  assume t: "rebooted t" "installable t" "disk t = disk r" "home_writes t = replay r" "lstart t = lstart r"
    "lsize t = lsize r" "disksize t = disksize r"
  have b: "binv t" "quiet t" "log_geom t" "length (lh_block t) = LOGSIZE" using t(1) by (simp_all add: rebooted_def)
  show "ends {} (install_trans t) (\<lambda>u. ends {} (write_head (u\<lparr>lh_n := 0\<rparr>)) (recovered r))"
  proof (rule ends_mono [OF install_trans_spec [OF t(2) b(2)]], elim conjE)
    fix u :: "'a lst"
    assume u: "after_writes t (home_writes t) u" and nd: "\<forall>m. \<not> dirty_blk u m"
    let ?u = "u\<lparr>lh_n := 0\<rparr>"
    have bu: "binv u" "quiet u" "io_frame t u" "disk u = apply_writes (replay r) (disk r)"
      using u t(3,4) by (simp_all add: after_writes_def)
    note f = io_frame_log [OF bu(3)]
    show "ends {} (write_head ?u) (recovered r)"
    proof (rule ends_mono [OF write_head_0 [OF u nd b(3,4)]], elim exE conjE)
      fix v :: "'a lst" and h
      assume h: "head_n h = 0" and v: "written ?u (lstart t) h v"
      have fv: "io_frame ?u v" "disk v = (disk u)(lstart t := h)" using v by (simp_all add: written_def)
      note f' = io_frame_log [OF fv(1)]
      have c: "binv v" "quiet v" "\<forall>m. \<not> dirty_blk v m" "blk v = disk v"
        by (rule written_clean [OF v]; use bu nd in simp)+
      have "log_geom v" using log_geom_frame [OF fv(1)] log_geom_frame [OF bu(3)] b(3) by simp
      moreover have "log_entries v"
        using f f' b(3,4) by (simp add: log_entries_def logged_def log_geom_def)
      ultimately have "log_wf v" using c f' by (simp add: log_wf_def logged_def)
      then show "recovered r v"
        using c h fv bu(4) f f' t by (simp add: recovered_def)
    qed
  qed
qed

section \<open>Commit\<close>

definition commit_head :: "'a lst \<Rightarrow> byte list" where
  "commit_head s = head_bytes (lh_n s) (lh_block s) (blk s (lstart s))"

definition install_writes :: "'a lst \<Rightarrow> (uint \<times> byte list) list" where
  "install_writes s = map (\<lambda>b. (b, blk s b)) (logged s)"

text \<open>The disk writes of a commit: log, header, home blocks, cleared header.\<close>

definition commit_writes :: "'a lst \<Rightarrow> byte list \<Rightarrow> (uint \<times> byte list) list" where
  "commit_writes s h0 = (if lh_n s > 0 then log_writes s @ (lstart s, commit_head s) # install_writes s @ [(lstart s, h0)] else [])"

lemma log_writes_area: "log_wf s \<Longrightarrow> fst ` set (log_writes s) \<subseteq> log_area s - {lstart s}"
  using log_blk_area [of s] by (auto simp: log_writes_def log_wf_def log_entries_def)

lemma log_writes_keys:
  assumes "log_wf s"
  shows "distinct (map fst (log_writes s))"
proof -
  have "log_blk s x = log_blk s y \<longleftrightarrow> x = y" if "x < nat (lh_n s)" "y < nat (lh_n s)" for x y
    using that assms log_blk_inj [of s x y] by (auto simp: log_wf_def log_entries_def)
  then show ?thesis by (simp add: log_writes_def comp_def distinct_map inj_on_def)
qed

lemma log_writes_read:
  assumes "log_wf s" and "t < nat (lh_n s)"
  shows "apply_writes (log_writes s) d (log_blk s t) = blk s (logged s ! t)"
  by (rule apply_writes_in [OF log_writes_keys [OF assms(1)]]) (use assms(2) in \<open>auto simp: log_writes_def\<close>)

lemma commit_head_get:
  assumes "log_wf s"
  shows "head_n (commit_head s) = lh_n s" "head_blocks (commit_head s) = logged s"
  using assms head_bytes_get [of "blk s (lstart s)" "lh_n s" "lh_block s"] length_blk [of s]
  by (auto simp: commit_head_def log_wf_def log_entries_def log_geom_def logged_def)

lemma log_head_spec:
  assumes wf: "log_wf s" and q: "quiet s"
  shows "ends {} (bindr (write_log s) write_head)
    (\<lambda>t. after_writes s (log_writes s @ [(lstart s, commit_head s)]) t \<and> dirty_blk t = dirty_blk s)"
  unfolding ends_bindr
proof (rule ends_mono [OF write_log_spec [OF assms]], elim conjE)
  fix u :: "'a lst"
  assume u: "after_writes s (log_writes s) u" and du: "dirty_blk u = dirty_blk s"
  have b: "binv u" "quiet u" "io_frame s u" and bu: "blk u = apply_writes (log_writes s) (blk s)"
    using u by (simp_all add: after_writes_def)
  note f = log_frame [OF b(3)]
  have g: "log_geom s" "log_entries s" using wf by (simp_all add: log_wf_def)
  have av: "avail u"
    using avail_count [OF b(1)] ndirty_log [OF assms] du nlocked_quiet [OF b(2)] nlocked_quiet [OF q] by simp
  have "lstart s \<notin> fst ` set (log_writes s)" using log_writes_area [OF wf] by blast
  then have h: "head_bytes (lh_n u) (lh_block u) (blk u (lstart u)) = commit_head s"
    using f by (simp add: bu apply_writes_other commit_head_def)
  have "ends {} (write_head u) (written u (lstart s) (commit_head s))"
    using write_head_spec [OF b(1,2) av] f g h by (simp add: log_entries_def log_geom_def)
  then show "ends {} (write_head u)
    (\<lambda>t. after_writes s (log_writes s @ [(lstart s, commit_head s)]) t \<and> dirty_blk t = dirty_blk s)"
  proof (rule ends_mono)
    fix t
    assume t: "written u (lstart s) (commit_head s) t"
    have "\<not> dirty_blk s (lstart s)" using wf g lstart_area [OF g(1)] by (auto simp: log_wf_def log_entries_def)
    then show "after_writes s (log_writes s @ [(lstart s, commit_head s)]) t \<and> dirty_blk t = dirty_blk s"
      using after_writes_snoc [OF u t] t du by (auto simp: written_def fun_eq_iff)
  qed
qed

lemma home_is_install:
  assumes wf: "log_wf s" and t: "after_writes s (log_writes s @ [(lstart s, commit_head s)]) t"
  shows "home_writes t = install_writes s"
proof -
  have io: "io_frame s t" and bt: "blk t = (apply_writes (log_writes s) (blk s))(lstart s := commit_head s)"
    using t by (simp_all add: after_writes_def)
  note f = log_frame [OF io]
  have g: "log_geom s" "log_entries s" using wf by (simp_all add: log_wf_def)
  have "blk t (log_blk s k) = blk s (logged s ! k)" if "k < nat (lh_n s)" for k
  proof -
    have "int k < lsize s - 1" using that g(2) by (auto simp: log_entries_def)
    then show ?thesis using log_blk_area(3) [OF g(1)] log_writes_read [OF wf that] by (simp add: bt)
  qed
  then show ?thesis
    using f length_logged [OF g(2,1)] by (intro nth_equalityI) (auto simp: home_writes_def install_writes_def)
qed

lemma after_writes_lh0: "after_writes s ws t \<Longrightarrow> after_writes (s\<lparr>lh_n := 0\<rparr>) ws (t\<lparr>lh_n := 0\<rparr>)"
proof -
  assume w: "after_writes s ws t"
  then have "io_frame s t" by (simp add: after_writes_def)
  then have "t = s\<lparr>disk := disk t, dhist := dhist t, bufs := bufs t, lru := lru t\<rparr>" by (simp only: io_frame_def)
  from arg_cong [OF this, of "\<lambda>x. x\<lparr>lh_n := 0\<rparr>"]
  have "io_frame (s\<lparr>lh_n := 0\<rparr>) (t\<lparr>lh_n := 0\<rparr>)" by (simp add: io_frame_def)
  with w show ?thesis by (simp add: after_writes_def)
qed

lemma commit_spec:
  assumes wf: "log_wf s" and q: "quiet s" and n: "lh_n s > 0"
  shows "ends {} (commit s) (\<lambda>t. \<exists>h. head_n h = 0 \<and> after_writes (s\<lparr>lh_n := 0\<rparr>) (commit_writes s h) t \<and> (\<forall>m. \<not> dirty_blk t m))"
proof -
  let ?lw = "log_writes s @ [(lstart s, commit_head s)]"
  have step: "ends {} (bindr (install_trans t) (\<lambda>u. write_head (u\<lparr>lh_n := 0\<rparr>)))
    (\<lambda>t. \<exists>h. head_n h = 0 \<and> after_writes (s\<lparr>lh_n := 0\<rparr>) (commit_writes s h) t \<and> (\<forall>m. \<not> dirty_blk t m))"
    if t: "after_writes s ?lw t" and dt: "dirty_blk t = dirty_blk s" for t :: "'a lst"
    unfolding ends_bindr
  proof -
    have b: "binv t" "quiet t" "io_frame s t" using t by (simp_all add: after_writes_def)
    have "log_wf t" using wf b dt log_frame [OF b(3)] by (simp add: log_wf_def)
    then have i: "installable t" by (simp add: installable_def log_wf_def)
    then have g: "log_geom t" "length (lh_block t) = LOGSIZE" by (simp_all add: installable_def log_entries_def)
    show "ends {} (install_trans t) (\<lambda>u. ends {} (write_head (u\<lparr>lh_n := 0\<rparr>))
      (\<lambda>t. \<exists>h. head_n h = 0 \<and> after_writes (s\<lparr>lh_n := 0\<rparr>) (commit_writes s h) t \<and> (\<forall>m. \<not> dirty_blk t m)))"
    proof (rule ends_mono [OF install_trans_spec [OF i b(2)]], elim conjE)
      fix u :: "'a lst"
      assume u: "after_writes t (home_writes t) u" and nd: "\<forall>m. \<not> dirty_blk u m"
      have su: "after_writes (s\<lparr>lh_n := 0\<rparr>) (?lw @ install_writes s) (u\<lparr>lh_n := 0\<rparr>)"
        using after_writes_lh0 [OF after_writes_trans [OF t u]] home_is_install [OF wf t] by simp
      show "ends {} (write_head (u\<lparr>lh_n := 0\<rparr>))
        (\<lambda>t. \<exists>h. head_n h = 0 \<and> after_writes (s\<lparr>lh_n := 0\<rparr>) (commit_writes s h) t \<and> (\<forall>m. \<not> dirty_blk t m))"
      proof (rule ends_mono [OF write_head_0 [OF u nd g]], elim exE conjE)
        fix v :: "'a lst" and h
        assume h: "head_n h = 0" and v: "written (u\<lparr>lh_n := 0\<rparr>) (lstart t) h v"
        have "after_writes (s\<lparr>lh_n := 0\<rparr>) (commit_writes s h) v"
          using after_writes_snoc [OF su v] io_frame_log(1) [OF b(3)] n by (simp add: commit_writes_def)
        moreover have "\<forall>m. \<not> dirty_blk v m" using v nd by (simp add: written_def)
        ultimately show "\<exists>h. head_n h = 0 \<and> after_writes (s\<lparr>lh_n := 0\<rparr>) (commit_writes s h) v \<and> (\<forall>m. \<not> dirty_blk v m)"
          using h by blast
      qed
    qed
  qed
  have "commit s = bindr (bindr (write_log s) write_head) (\<lambda>t. bindr (install_trans t) (\<lambda>u. write_head (u\<lparr>lh_n := 0\<rparr>)))"
    using n by (simp add: commit_def bindr_assoc)
  then show ?thesis by (simp only:) (rule ends_bindI [OF log_head_spec [OF wf q]], elim conjE, rule step)
qed

text \<open>What a commit leaves.\<close>

lemma commit_result:
  assumes wf: "log_wf s" and w: "after_writes (s\<lparr>lh_n := 0\<rparr>) (commit_writes s h) t" and nd: "\<forall>m. \<not> dirty_blk t m"
    and n: "lh_n s > 0" and q: "quiet s"
  shows "log_wf t" "quiet t" "lh_n t = 0" "blk t = disk t" "\<And>m. m \<notin> log_area s \<Longrightarrow> disk t m = blk s m"
proof -
  have b: "binv t" "quiet t" "io_frame (s\<lparr>lh_n := 0\<rparr>) t" "disk t = apply_writes (commit_writes s h) (disk s)"
    using w by (simp_all add: after_writes_def)
  note f = log_frame [OF b(3)]
  have g: "log_geom s" "log_entries s" using wf by (simp_all add: log_wf_def)
  show "quiet t" "lh_n t = 0" using b f by simp_all
  have "log_entries t" using f g by (simp add: log_entries_def logged_def log_geom_def)
  then show "log_wf t" using b f g nd by (simp add: log_wf_def logged_def)
  show "blk t = disk t" using blk_clean [OF b(1)] quiet_held [OF b(2)] nd by auto
  fix m
  assume m: "m \<notin> log_area s"
  then have "m \<noteq> lstart s" "m \<notin> fst ` set (log_writes s)"
    using lstart_area [OF g(1)] log_writes_area [OF wf] by auto
  then have "disk t m = apply_writes (install_writes s) ((apply_writes (log_writes s) (disk s))(lstart s := commit_head s)) m"
    using b(4) n by (simp add: commit_writes_def)
  also have "\<dots> = blk s m"
  proof (cases "m \<in> set (logged s)")
    case True
    then show ?thesis by (intro apply_writes_all) (force simp: install_writes_def)+
  next
    case False
    then have "blk s m = disk s m" using wf q blk_clean [of s m] quiet_held [of s m] by (simp add: log_wf_def)
    with False \<open>m \<notin> fst ` set (log_writes s)\<close> \<open>m \<noteq> lstart s\<close> show ?thesis
      by (subst apply_writes_other) (auto simp: install_writes_def apply_writes_other)
  qed
  finally show "disk t m = blk s m" .
qed

section \<open>Crashes\<close>

text \<open>The machine restarts over a disk \<open>d\<close>, with the same layout as in \<open>s\<close>.\<close>

definition restarted :: "'a lst \<Rightarrow> (uint \<Rightarrow> byte list) \<Rightarrow> 'b lst \<Rightarrow> bool" where
  "restarted s d r \<longleftrightarrow> rebooted r \<and> disk r = d \<and> lstart r = lstart s \<and> lsize r = lsize s \<and> disksize r = disksize s"

lemma recover_empty:
  assumes "restarted s d r" and "head_n (d (lstart s)) = 0" and "log_geom s"
  shows "ends {} (recover_from_log r) (\<lambda>u. log_wf u \<and> quiet u \<and> lh_n u = 0 \<and> (\<forall>m. m \<noteq> lstart s \<longrightarrow> blk u m = d m))"
proof -
  have r: "rebooted r" "disk r = d" "lstart r = lstart s" "lsize r = lsize s" using assms(1) by (simp_all add: restarted_def)
  have "head_ok r (disk r (lstart r))"
    using assms r by (simp add: head_ok_def head_blocks_def log_geom_def)
  from recover_spec [OF r(1) this] show ?thesis
    by (rule ends_mono) (use assms r in \<open>auto simp: recovered_def replay_def\<close>)
qed

lemma recover_committed:
  assumes wf: "log_wf s" and r: "restarted s d r"
    and hd: "d (lstart s) = commit_head s"
    and lg: "\<And>t. t < nat (lh_n s) \<Longrightarrow> d (log_blk s t) = blk s (logged s ! t)"
    and home: "\<And>m. m \<notin> log_area s \<Longrightarrow> m \<notin> set (logged s) \<Longrightarrow> d m = blk s m"
  shows "ends {} (recover_from_log r) (\<lambda>u. log_wf u \<and> quiet u \<and> lh_n u = 0 \<and> (\<forall>m. m \<notin> log_area s \<longrightarrow> blk u m = blk s m))"
proof -
  have r': "rebooted r" "disk r = d" "lstart r = lstart s" "lsize r = lsize s" "disksize r = disksize s"
    using r by (simp_all add: restarted_def)
  have g: "log_geom s" "log_entries s" using wf by (simp_all add: log_wf_def)
  note h = commit_head_get [OF wf]
  have area: "log_area r = log_area s" "log_blk r = log_blk s" using r' by (simp_all add: log_area_def log_blk_def fun_eq_iff)
  have ok: "head_ok r (disk r (lstart r))"
    using g h r' hd area by (simp add: head_ok_def log_entries_def)
  have rep: "replay r = install_writes s"
    using h r' hd area lg length_logged [OF g(2,1)]
    by (intro nth_equalityI) (auto simp: replay_def Let_def install_writes_def)
  show ?thesis
  proof (rule ends_mono [OF recover_spec [OF r'(1) ok]], intro conjI allI impI)
    fix u m
    assume u: "recovered r u"
    then show "log_wf u" "quiet u" "lh_n u = 0" by (simp_all add: recovered_def)
    assume m: "m \<notin> log_area s"
    then have "m \<noteq> lstart s" using lstart_area [OF g(1)] by auto
    then have "blk u m = apply_writes (install_writes s) d m" using u rep r' by (simp add: recovered_def)
    also have "\<dots> = blk s m"
    proof (cases "m \<in> set (logged s)")
      case True
      then show ?thesis by (intro apply_writes_all) (force simp: install_writes_def)+
    next
      case False
      then show ?thesis by (subst apply_writes_other) (auto simp: install_writes_def home [OF m])
    qed
    finally show "blk u m = blk s m" .
  qed
qed

lemma crash_before_head:
  assumes wf: "log_wf s" and h: "head_n (disk s (lstart s)) = 0"
    and r: "restarted s (apply_writes (take k (log_writes s)) (disk s)) r"
  shows "ends {} (recover_from_log r) (\<lambda>u. log_wf u \<and> quiet u \<and> lh_n u = 0 \<and> (\<forall>m. m \<notin> log_area s \<longrightarrow> blk u m = disk s m))"
proof -
  have g: "log_geom s" using wf by (simp add: log_wf_def)
  have sub: "fst ` set (take k (log_writes s)) \<subseteq> log_area s - {lstart s}"
    using log_writes_area [OF wf] set_take_subset [of k "log_writes s"] by blast
  then have "apply_writes (take k (log_writes s)) (disk s) (lstart s) = disk s (lstart s)"
    by (intro apply_writes_other) blast
  moreover have "apply_writes (take k (log_writes s)) (disk s) m = disk s m" if "m \<notin> log_area s" for m
    using sub that by (intro apply_writes_other) blast
  moreover have "m \<noteq> lstart s" if "m \<notin> log_area s" for m using that lstart_area [OF g] by blast
  ultimately show ?thesis
    using h by (intro ends_mono [OF recover_empty [OF r _ g]]) simp_all
qed

lemma crash_after_head:
  assumes wf: "log_wf s" and q: "quiet s"
    and r: "restarted s (apply_writes (log_writes s @ (lstart s, commit_head s) # take k (install_writes s)) (disk s)) r"
  shows "ends {} (recover_from_log r) (\<lambda>u. log_wf u \<and> quiet u \<and> lh_n u = 0 \<and> (\<forall>m. m \<notin> log_area s \<longrightarrow> blk u m = blk s m))"
proof (rule recover_committed [OF wf r])
  have g: "log_geom s" "log_entries s" using wf by (simp_all add: log_wf_def)
  let ?d = "(apply_writes (log_writes s) (disk s))(lstart s := commit_head s)"
  have sub: "fst ` set (take k (install_writes s)) \<subseteq> set (logged s)"
    by (auto simp: install_writes_def dest!: in_set_takeD)
  then have d: "apply_writes (take k (install_writes s)) ?d m = ?d m" if "m \<notin> set (logged s)" for m
    using that by (intro apply_writes_other) blast
  have out: "m \<notin> set (logged s)" if "m \<in> log_area s" for m using that g(2) by (auto simp: log_entries_def)
  show "apply_writes (log_writes s @ (lstart s, commit_head s) # take k (install_writes s)) (disk s) (lstart s) = commit_head s"
    using lstart_area [OF g(1)] out by (simp add: d)
  show "apply_writes (log_writes s @ (lstart s, commit_head s) # take k (install_writes s)) (disk s) (log_blk s t) = blk s (logged s ! t)"
    if t: "t < nat (lh_n s)" for t
  proof -
    have "int t < lsize s - 1" using t g by (auto simp: log_entries_def)
    note a = log_blk_area [OF g(1) this]
    show ?thesis using a out log_writes_read [OF wf t] by (simp add: d)
  qed
  show "apply_writes (log_writes s @ (lstart s, commit_head s) # take k (install_writes s)) (disk s) m = blk s m"
    if m: "m \<notin> log_area s" "m \<notin> set (logged s)" for m
  proof -
    have "m \<noteq> lstart s" "m \<notin> fst ` set (log_writes s)"
      using m(1) lstart_area [OF g(1)] log_writes_area [OF wf] by auto
    moreover have "blk s m = disk s m" using wf m q blk_clean [of s m] quiet_held [of s m] by (simp add: log_wf_def)
    ultimately show ?thesis using m(2) by (simp add: d apply_writes_other)
  qed
qed

section \<open>Operations inside a transaction\<close>

text \<open>What a file-system routine may change below its own state.\<close>

definition fs_frame :: "'a lst \<Rightarrow> 'a lst \<Rightarrow> bool" where
  "fs_frame s t \<longleftrightarrow> t = s\<lparr>bufs := bufs t, lru := lru t, lh_n := lh_n t, lh_block := lh_block t\<rparr>"

lemma fs_frame_refl [simp]: "fs_frame s s"
  by (simp add: fs_frame_def)

lemma fs_frame_trans [trans]: "fs_frame s t \<Longrightarrow> fs_frame t u \<Longrightarrow> fs_frame s u"
proof -
  assume t: "fs_frame s t" and u: "fs_frame t u"
  let ?f = "\<lambda>x. x\<lparr>bufs := bufs u, lru := lru u, lh_n := lh_n u, lh_block := lh_block u\<rparr>"
  from t have "t = s\<lparr>bufs := bufs t, lru := lru t, lh_n := lh_n t, lh_block := lh_block t\<rparr>" by (simp only: fs_frame_def)
  then have "?f t = ?f (s\<lparr>bufs := bufs t, lru := lru t, lh_n := lh_n t, lh_block := lh_block t\<rparr>)" by (rule arg_cong)
  moreover have "u = ?f t" using u by (simp only: fs_frame_def)
  ultimately show ?thesis by (simp add: fs_frame_def)
qed

lemma fs_frame_sel:
  fixes s t :: "'a lst"
  assumes "fs_frame s t"
  shows "lstart t = lstart s" "lsize t = lsize s" "outstanding t = outstanding s" "committing t = committing s"
    "ldev t = ldev s" "disk t = disk s" "dhist t = dhist s" "disksize t = disksize s" "curpid t = curpid s"
    "log_state.more t = log_state.more s"
proof -
  have eq: "t = s\<lparr>bufs := bufs t, lru := lru t, lh_n := lh_n t, lh_block := lh_block t\<rparr>"
    using assms by (simp only: fs_frame_def)
  show "lstart t = lstart s" by (subst eq) simp
  show "lsize t = lsize s" by (subst eq) simp
  show "outstanding t = outstanding s" by (subst eq) simp
  show "committing t = committing s" by (subst eq) simp
  show "ldev t = ldev s" by (subst eq) simp
  show "disk t = disk s" by (subst eq) simp
  show "dhist t = dhist s" by (subst eq) simp
  show "disksize t = disksize s" by (subst eq) simp
  show "curpid t = curpid s" by (subst eq) simp
  show "log_state.more t = log_state.more s" by (subst eq) simp
qed

lemma fs_frame_area: "fs_frame s t \<Longrightarrow> log_area t = log_area s" "fs_frame s t \<Longrightarrow> log_geom t = log_geom s"
  by (simp_all add: log_area_def log_geom_def fs_frame_sel)

text \<open>A file-system call is running, and the cache and the log are sound.\<close>

definition in_op :: "'a lst \<Rightarrow> bool" where
  "in_op s \<longleftrightarrow> log_wf s \<and> 1 \<le> outstanding s"

lemma in_opD: "in_op s \<Longrightarrow> binv s" "in_op s \<Longrightarrow> log_wf s" "in_op s \<Longrightarrow> log_geom s" "in_op s \<Longrightarrow> ldev s = 1"
  by (simp_all add: in_op_def log_wf_def log_geom_def)

lemma cache_frame_fs: "t = s\<lparr>bufs := bufs t, lru := lru t\<rparr> \<Longrightarrow> fs_frame s t \<and> lh_n t = lh_n s \<and> lh_block t = lh_block s"
proof -
  assume eq: "t = s\<lparr>bufs := bufs t, lru := lru t\<rparr>"
  from arg_cong [OF eq, of lh_n] arg_cong [OF eq, of lh_block]
  have sel: "lh_n t = lh_n s" "lh_block t = lh_block s" by simp_all
  have "s\<lparr>bufs := b, lru := l\<rparr> = s\<lparr>bufs := b, lru := l, lh_n := lh_n s, lh_block := lh_block s\<rparr>" for b l
    by (rule log_state.equality) simp_all
  with eq have "t = s\<lparr>bufs := bufs t, lru := lru t, lh_n := lh_n s, lh_block := lh_block s\<rparr>" by (rule trans)
  then show ?thesis unfolding fs_frame_def sel by blast
qed

lemma log_wf_cache:
  assumes "log_wf s" and "binv t" and "t = s\<lparr>bufs := bufs t, lru := lru t\<rparr>" and "dirty_blk t = dirty_blk s"
  shows "log_wf t"
proof -
  note f = cache_frame_fs [OF assms(3)]
  then have *: "logged t = logged s" "log_area t = log_area s" "log_geom t = log_geom s" "lsize t = lsize s" "disksize t = disksize s"
    using fs_frame_area [of s t] fs_frame_sel [of s t] by (simp_all add: logged_def)
  then have "log_entries t = log_entries s" using f by (simp add: log_entries_def)
  with * assms show ?thesis by (simp add: log_wf_def)
qed

lemma same_but_cache_op: "in_op s \<Longrightarrow> binv t \<Longrightarrow> same_but_cache s t \<Longrightarrow> in_op t \<and> fs_frame s t"
  using log_wf_cache [of s t] cache_frame_fs [of t s] fs_frame_sel(3) [of s t] by (auto simp: in_op_def same_but_cache_def)

text \<open>The entry that \<^verbatim>\<open>log_write\<close> makes or finds.\<close>

definition log_add :: "uint \<Rightarrow> 'a lst \<Rightarrow> 'a lst" where
  "log_add no s = (let n = nat (lh_n s); i = (case first_idx (\<lambda>x. x = no) (take n (lh_block s)) of Some i \<Rightarrow> i | None \<Rightarrow> n)
     in s\<lparr>lh_block := (lh_block s)[i := no], lh_n := (if i = n then lh_n s + 1 else lh_n s)\<rparr>)"

lemma log_add_logged:
  assumes e: "log_entries s" and room: "lh_n s < lsize s - 1" "lsize s \<le> int LOGSIZE"
  shows "logged (log_add no s) = (if no \<in> set (logged s) then logged s else logged s @ [no])"
    and "length (lh_block (log_add no s)) = LOGSIZE" and "0 \<le> lh_n (log_add no s)" and "lh_n (log_add no s) \<le> lsize s - 1"
proof -
  have l: "length (lh_block s) = LOGSIZE" "0 \<le> lh_n s" "lh_n s \<le> lsize s - 1" using e by (simp_all add: log_entries_def)
  have n: "nat (lh_n s) < LOGSIZE" using room l by auto
  show "length (lh_block (log_add no s)) = LOGSIZE" "0 \<le> lh_n (log_add no s)" "lh_n (log_add no s) \<le> lsize s - 1"
    using l room by (simp_all add: log_add_def Let_def)
  show "logged (log_add no s) = (if no \<in> set (logged s) then logged s else logged s @ [no])"
  proof (cases "first_idx (\<lambda>x. x = no) (take (nat (lh_n s)) (lh_block s))")
    case None
    then have "no \<notin> set (logged s)" by (auto simp: first_idx_None logged_def)
    moreover have "take (Suc (nat (lh_n s))) ((lh_block s)[nat (lh_n s) := no]) = take (nat (lh_n s)) (lh_block s) @ [no]"
      using n l by (simp add: take_Suc_conv_app_nth)
    ultimately show ?thesis using None l by (simp add: log_add_def logged_def Let_def Suc_nat_eq_nat_zadd1 add.commute)
  next
    case (Some i)
    then have i: "i < nat (lh_n s)" "lh_block s ! i = no" using l n by (auto simp: first_idx_Some)
    then have "no \<in> set (logged s)" using l n by (auto simp: logged_def in_set_conv_nth intro!: exI [of _ i])
    moreover have "(lh_block s)[i := no] = lh_block s" using i by auto
    ultimately show ?thesis using Some i by (simp add: log_add_def logged_def Let_def)
  qed
qed

lemma log_add_same:
  "bufs (log_add no s) = bufs s" "lru (log_add no s) = lru s" "disk (log_add no s) = disk s" "dhist (log_add no s) = dhist s"
  "disksize (log_add no s) = disksize s" "curpid (log_add no s) = curpid s" "lstart (log_add no s) = lstart s"
  "lsize (log_add no s) = lsize s" "outstanding (log_add no s) = outstanding s" "ldev (log_add no s) = ldev s"
  by (simp_all add: log_add_def Let_def)

lemma log_write_spec:
  assumes wf: "in_op s" and i: "has_buf s i n d" and out: "n \<notin> log_area s"
  shows "ends {''too big a transaction''} (log_write i s) (\<lambda>t. in_op t \<and> fs_frame s t \<and> has_buf t i n d \<and> blk t = blk s
    \<and> bdirty (bufs t ! i) \<and> (\<forall>j. is_locked t j \<longleftrightarrow> is_locked s j) \<and> (\<forall>j. j \<noteq> i \<longrightarrow> bufs t ! j = bufs s ! j))"
proof (cases "lh_n s \<ge> int LOGSIZE \<or> lh_n s \<ge> lsize s - 1")
  case True
  then show ?thesis by (simp add: log_write_def)
next
  case False
  have w: "log_wf s" "binv s" "1 \<le> outstanding s" using wf by (simp_all add: in_op_def log_wf_def)
  have g: "log_geom s" "log_entries s" using w(1) by (simp_all add: log_wf_def)
  note h = has_bufD [OF w(2) i]
  let ?s = "log_add n s"
  let ?t = "put_buf i ((bufs ?s ! i)\<lparr>bdata := d, bdirty := True\<rparr>) (lru ?s) ?s"
  have "binv ?s = binv s" by (rule binv_cong) (simp_all add: log_add_same)
  then have inv: "binv ?s" using w(2) by simp
  have c: "cached_at ?s = cached_at s" "is_locked ?s = is_locked s" "blk ?s = blk s" "dirty_blk ?s = dirty_blk s"
    by (rule cache_cong; simp add: log_add_same)+
  have i': "has_buf ?s i n d" using i c by (simp add: has_buf_def log_add_same)
  note p = put_held [OF inv i' h(8), of True]
  have d: "(bufs s ! i)\<lparr>bdirty := True\<rparr> = (bufs s ! i)\<lparr>bdata := d, bdirty := True\<rparr>"
    using h(5) by (intro buf.equality) simp_all
  have eq: "log_write i s = Ok ?t"
    using False w(3) h(11) d
    by (simp add: log_write_def log_add_def [of n s] Let_def put_buf_def upd_buf_def)
  have "lsize s \<le> int LOGSIZE" "lh_n s < lsize s - 1" using False g(1) by (simp_all add: log_geom_def)
  note lg = log_add_logged [OF g(2) this(2,1), of n]
  have sel: "lstart ?t = lstart s" "lsize ?t = lsize s" "ldev ?t = ldev s" "disksize ?t = disksize s" "outstanding ?t = outstanding s"
    "lh_n ?t = lh_n ?s" "lh_block ?t = lh_block ?s" "logged ?t = logged ?s"
    by (simp_all add: put_buf_def log_add_same logged_def)
  have fr: "fs_frame s ?t" by (simp add: fs_frame_def log_add_def put_buf_def Let_def)
  have area: "log_area ?t = log_area s" "log_geom ?t = log_geom s" using fs_frame_area [OF fr] by simp_all
  have n: "n < disksize s" using h(7) .
  have "log_entries ?t" using g(2) lg out n unfolding log_entries_def area(1) sel by (auto split: if_splits)
  moreover have "distinct (logged ?t)" using w(1) lg(1) unfolding sel by (simp add: log_wf_def)
  moreover have "\<forall>m. dirty_blk ?t m \<longleftrightarrow> m \<in> set (logged ?t)"
    using p c(4) w(1) lg(1) unfolding sel by (auto simp: log_wf_def)
  ultimately have "log_wf ?t" using p g(1) area by (simp add: log_wf_def)
  then have "in_op ?t" using w(3) sel by (simp add: in_op_def)
  then show ?thesis unfolding eq using fr p c h(6) by (auto simp: log_add_same)
qed

text \<open>Changing, logging and releasing a buffer that is held.\<close>

lemma log_write_release:
  assumes u: "in_op u" "has_buf u i n d0" and d: "length d = BSIZE" and out: "n \<notin> log_area u"
  shows "ends {''too big a transaction''} (bindr (log_write i (set_data i d u)) (\<lambda>v. brelse i v))
    (\<lambda>v. in_op v \<and> fs_frame u v \<and> blk v = (blk u)(n := d) \<and> \<not> is_locked v i \<and> (\<forall>j. j \<noteq> i \<longrightarrow> bufs v ! j = bufs u ! j))"
proof -
  let ?t = "set_data i d u"
  note t = set_data_spec [OF in_opD(1) [OF u(1)] u(2) d]
  have eq: "?t = u\<lparr>bufs := bufs ?t, lru := lru ?t\<rparr>" by (simp add: set_data_def upd_buf_def)
  note f = cache_frame_fs [OF eq]
  have "log_wf ?t" using u(1) log_wf_cache [OF _ _ eq] t by (simp add: in_op_def)
  then have op: "in_op ?t" using u(1) f fs_frame_sel(3) [of u ?t] by (simp add: in_op_def)
  have out': "n \<notin> log_area ?t" using out fs_frame_area(1) f by blast
  have hb: "has_buf ?t i n d" using t by blast
  show ?thesis unfolding ends_bindr
  proof (rule ends_mono [OF log_write_spec [OF op hb out']], elim conjE)
    fix w :: "'a lst"
    assume w: "in_op w" "fs_frame ?t w" "has_buf w i n d" "blk w = blk ?t" "bdirty (bufs w ! i)"
      "\<forall>j. is_locked w j \<longleftrightarrow> is_locked ?t j" "\<forall>j. j \<noteq> i \<longrightarrow> bufs w ! j = bufs ?t ! j"
    have "binv w" using w(1) by (simp add: in_op_def log_wf_def)
    from brelse_spec [OF this w(3)] w(5) obtain v where v: "brelse i w = Ok v" "binv v" "v = w\<lparr>bufs := bufs v, lru := lru v\<rparr>"
      "blk v = blk w" "dirty_blk v = dirty_blk w" "\<not> is_locked v i" "\<forall>j. j \<noteq> i \<longrightarrow> bufs v ! j = bufs w ! j" by blast
    note fv = cache_frame_fs [OF v(3)]
    have "in_op v" using w(1) log_wf_cache [OF _ v(2,3,5)] fs_frame_sel(3) [of w v] fv by (simp add: in_op_def)
    moreover have "fs_frame u v" using f w(2) fv by (blast intro: fs_frame_trans)
    ultimately show "ends {''too big a transaction''} (brelse i w)
      (\<lambda>v. in_op v \<and> fs_frame u v \<and> blk v = (blk u)(n := d) \<and> \<not> is_locked v i \<and> (\<forall>j. j \<noteq> i \<longrightarrow> bufs v ! j = bufs u ! j))"
      using v w t by simp
  qed
qed

text \<open>The effect of a logged change: block \<open>n\<close> reads \<open>d\<close>, the disk is untouched.\<close>

definition modified :: "'a lst \<Rightarrow> uint \<Rightarrow> byte list \<Rightarrow> 'a lst \<Rightarrow> bool" where
  "modified s n d t \<longleftrightarrow> in_op t \<and> fs_frame s t \<and> blk t = (blk s)(n := d) \<and> keeps s t"

lemma read_frame_op:
  assumes "in_op s" and "binv t" and "read_frame s i t"
  shows "in_op t \<and> fs_frame s t"
proof -
  have eq: "t = s\<lparr>bufs := bufs t, lru := lru t\<rparr>" and d: "dirty_blk t = dirty_blk s"
    using assms(3) by (simp_all add: read_frame_def)
  have "log_wf t" using log_wf_cache [OF _ assms(2) eq d] assms(1) by (simp add: in_op_def)
  then show ?thesis using assms(1) cache_frame_fs [OF eq] fs_frame_sel(3) [of s t] by (simp add: in_op_def)
qed

lemma log_modify_tail:
  assumes s: "in_op s" and t: "binv t" "has_buf t i n (blk s n)" "read_frame s i t" and d: "length d = BSIZE" and out: "n \<notin> log_area s"
  shows "ends {''too big a transaction''} (bindr (log_write i (set_data i d t)) (\<lambda>u. brelse i u)) (modified s n d)"
proof -
  have op: "in_op t" "fs_frame s t" using read_frame_op [OF s t(1,3)] by simp_all
  have "n \<notin> log_area t" using out fs_frame_area(1) [OF op(2)] by simp
  from log_write_release [OF op(1) t(2) d this] show ?thesis
  proof (rule ends_mono, elim conjE)
    fix v
    assume v: "in_op v" "fs_frame t v" "blk v = (blk t)(n := d)" "\<not> is_locked v i" "\<forall>j. j \<noteq> i \<longrightarrow> bufs v ! j = bufs t ! j"
    have "(is_locked v k \<longleftrightarrow> is_locked s k) \<and> (is_locked s k \<longrightarrow> bufs v ! k = bufs s ! k)" if "k < NBUF" for k
      using v(4,5) t(3) that by (cases "k = i") (auto simp: read_frame_def is_locked_def)
    then have "keeps s v" by (simp add: keeps_def)
    then show "modified s n d v"
      using v fs_frame_trans [OF op(2) v(2)] t(3) by (simp add: modified_def read_frame_def)
  qed
qed

text \<open>The shapes of block access in the file system, with the panics of exhausted resources in \<open>E\<close>.\<close>

lemma log_modify:
  assumes s: "in_op s" and n: "n < disksize s" "\<not> held_blk s n" "n \<notin> log_area s"
    and E: "''bget: no buffers'' \<in> E" "''too big a transaction'' \<in> E"
    and f: "\<And>d. length d = BSIZE \<Longrightarrow> length (f d) = BSIZE"
  shows "ends E (bindr (bread 1 n s) (\<lambda>(i, t). bindr (log_write i (set_data i (f (bdata (bufs t ! i))) t)) (\<lambda>u. brelse i u)))
    (modified s n (f (blk s n)))"
proof (rule ends_bindI [OF bread_ends [OF in_opD(1) [OF s] n(1,2)]], simp add: bread_ok_def E, clarify)
  fix i and t :: "'a lst"
  assume t: "binv t" "has_buf t i n (blk s n)" "read_frame s i t"
  have "length (f (blk s n)) = BSIZE" using f length_blk [OF in_opD(1) [OF s]] by blast
  from ends_weaken [OF log_modify_tail [OF s t this n(3)]] E(2)
  show "ends E (bindr (log_write i (set_data i (f (bdata (bufs t ! i))) t)) (\<lambda>u. brelse i u)) (modified s n (f (blk s n)))"
    unfolding has_bufD(5) [OF t(1,2)] by blast
qed

lemma log_read:
  assumes s: "in_op s" and n: "n < disksize s" "\<not> held_blk s n" and E: "''bget: no buffers'' \<in> E"
    and K: "\<And>u. in_op u \<Longrightarrow> same_but_cache s u \<Longrightarrow> fs_frame s u \<Longrightarrow> ends E (K (blk s n) u) Q"
  shows "ends E (bindr (bread 1 n s) (\<lambda>(i, t). bindr (brelse i t) (\<lambda>u. K (bdata (bufs t ! i)) u))) Q"
proof (rule ends_bindI [OF bread_ends [OF in_opD(1) [OF s] n]], simp add: bread_ok_def E, clarify)
  fix i and t :: "'a lst"
  assume t: "binv t" "has_buf t i n (blk s n)" "read_frame s i t"
  from read_release [OF in_opD(1) [OF s] n t] obtain u where u: "brelse i t = Ok u" "binv u" "same_but_cache s u" by blast
  then show "ends E (bindr (brelse i t) (\<lambda>u. K (bdata (bufs t ! i)) u)) Q"
    using K same_but_cache_op [OF s u(2,3)] has_bufD(5) [OF t(1,2)] by simp
qed

lemma log_modify_cont:
  assumes s: "in_op s" and t: "binv t" "has_buf t i n (blk s n)" "read_frame s i t" and d: "length d = BSIZE"
    and out: "n \<notin> log_area s" and E: "''too big a transaction'' \<in> E"
    and K: "\<And>v. modified s n d v \<Longrightarrow> ends E (K v) Q"
  shows "ends E (bindr (log_write i (set_data i d t)) (\<lambda>u. bindr (brelse i u) K)) Q"
proof -
  have "ends E (bindr (log_write i (set_data i d t)) (\<lambda>u. brelse i u)) (modified s n d)"
    using ends_weaken [OF log_modify_tail [OF s t d out]] E by simp
  from ends_bindI [OF this K] show ?thesis by (simp only: bindr_assoc)
qed

lemma read_release_cont:
  assumes s: "in_op s" and n: "n < disksize s" "\<not> held_blk s n" and t: "binv t" "has_buf t i n (blk s n)" "read_frame s i t"
    and K: "\<And>u. in_op u \<Longrightarrow> fs_frame s u \<Longrightarrow> blk u = blk s \<Longrightarrow> keeps s u \<Longrightarrow> ends E (K u) Q"
  shows "ends E (bindr (brelse i t) K) Q"
proof -
  from read_release [OF in_opD(1) [OF s] n t] obtain u where u: "brelse i t = Ok u" "binv u" "same_but_cache s u" by blast
  then show ?thesis using K same_but_cache_op [OF s u(2,3)] by (simp add: same_but_cache_def)
qed

lemma bread_op:
  assumes s: "in_op s" and n: "n < disksize s" "\<not> held_blk s n" and E: "''bget: no buffers'' \<in> E"
  shows "ends E (bread 1 n s) (\<lambda>(i, t). binv t \<and> i < NBUF \<and> has_buf t i n (blk s n) \<and> read_frame s i t)"
  using bread_ends [OF in_opD(1) [OF s] n] E by (simp add: bread_ok_def)

section \<open>Beginning and ending an operation\<close>

lemma begin_op_reserves:
  "begin_op s = Ok t \<Longrightarrow> t = s\<lparr>outstanding := outstanding s + 1\<rparr> \<and> \<not> committing t
     \<and> lh_n t + outstanding t * int MAXOPBLOCKS \<le> int LOGSIZE"
  by (auto simp: begin_op_def split: if_splits)

text \<open>C15: A transaction is atomic.  From a state with a sound cache and log, whose log on disk
  is empty, \<^verbatim>\<open>commit\<close> ends without a panic with every logged block at its home.  If the
  machine stops after any prefix of the block writes it issues and restarts over the disk
  that prefix leaves, \<^verbatim>\<open>recover_from_log\<close> ends too, and every block outside the log holds
  its contents before the transaction when the header had not been written, and its
  contents after the transaction when it had.
\<close>

theorem commit_atomic:
  fixes s :: "'a lst"
  assumes wf: "log_wf s" and q: "quiet s" and h: "head_n (disk s (lstart s)) = 0"
  shows "\<exists>t. commit s = Ok t \<and> log_wf t \<and> lh_n t = 0 \<and> (\<forall>m. m \<notin> log_area s \<longrightarrow> disk t m = blk s m)
    \<and> (\<forall>ws ws' (r :: 'a lst). dhist t = dhist s @ ws @ ws' \<longrightarrow> restarted s (apply_writes ws (disk s)) r \<longrightarrow>
        (\<exists>u. recover_from_log r = Ok u \<and> log_wf u \<and> lh_n u = 0
          \<and> (\<forall>m. m \<notin> log_area s \<longrightarrow> blk u m = (if length ws \<le> nat (lh_n s) then disk s m else blk s m))))"
proof (cases "lh_n s > 0")
  case False
  then have n0: "lh_n s = 0" using wf by (simp add: log_wf_def log_entries_def)
  then have "\<not> dirty_blk s m" for m using wf by (simp add: log_wf_def logged_def)
  then have eq: "disk s m = blk s m" for m using blk_clean [of s m] quiet_held [OF q] wf by (simp add: log_wf_def)
  have "\<exists>u. recover_from_log r = Ok u \<and> log_wf u \<and> lh_n u = 0 \<and> (\<forall>m. m \<notin> log_area s \<longrightarrow> blk u m = disk s m)"
    if "restarted s (disk s) r" for r :: "'a lst"
    using ends_emptyD [OF crash_before_head [OF wf h, of 0 r]] that by auto
  then show ?thesis using False n0 wf eq by (auto simp: commit_def)
next
  case n: True
  from ends_emptyD [OF commit_spec [OF wf q n]] obtain t h0 where t: "commit s = Ok t" "head_n h0 = 0"
    "after_writes (s\<lparr>lh_n := 0\<rparr>) (commit_writes s h0) t" "\<forall>m. \<not> dirty_blk t m" by blast
  note c = commit_result [OF wf t(3,4) n q]
  have len: "length (log_writes s) = nat (lh_n s)" by (simp add: log_writes_def)
  have g: "log_geom s" using wf by (simp add: log_wf_def)
  have "\<exists>u. recover_from_log r = Ok u \<and> log_wf u \<and> lh_n u = 0
      \<and> (\<forall>m. m \<notin> log_area s \<longrightarrow> blk u m = (if length ws \<le> nat (lh_n s) then disk s m else blk s m))"
    if e: "dhist t = dhist s @ ws @ ws'" and r: "restarted s (apply_writes ws (disk s)) r" for ws ws' and r :: "'a lst"
  proof -
    let ?c = "commit_writes s h0"
    from e t(3) have cw: "?c = ws @ ws'" by (simp add: after_writes_def)
    then have ws: "ws = take (length ws) ?c" by simp
    consider "length ws \<le> nat (lh_n s)" | "nat (lh_n s) < length ws" "ws' \<noteq> []" | "nat (lh_n s) < length ws" "ws' = []"
      by linarith
    then show ?thesis
    proof cases
      case 1
      then have "ws = take (length ws) (log_writes s)" using ws n len by (simp add: commit_writes_def)
      with ends_emptyD [OF crash_before_head [OF wf h, of "length ws" r]] r 1 show ?thesis by auto
    next
      case 2
      define k where "k = length ws - Suc (nat (lh_n s))"
      have "length ws = Suc (nat (lh_n s) + k)" using 2(1) by (simp add: k_def)
      moreover have "length ws < length ?c" using cw 2(2) by simp
      then have "k \<le> length (install_writes s)" using n len \<open>length ws = _\<close> by (simp add: commit_writes_def)
      ultimately have "ws = log_writes s @ (lstart s, commit_head s) # take k (install_writes s)"
        using ws n len by (simp add: commit_writes_def)
      with ends_emptyD [OF crash_after_head [OF wf q, of k r]] r 2 show ?thesis by auto
    next
      case 3
      have "disk t = apply_writes ws (disk s)" using t(3) cw 3(2) by (simp add: after_writes_def)
      moreover have "disk t (lstart s) = h0" using t(3) n by (simp add: after_writes_def commit_writes_def)
      ultimately obtain u where u: "recover_from_log r = Ok u" "log_wf u" "lh_n u = 0"
        "\<forall>m. m \<noteq> lstart s \<longrightarrow> blk u m = disk t m"
        using ends_emptyD [OF recover_empty [OF r _ g]] t(2) by auto
      have "blk u m = blk s m" if "m \<notin> log_area s" for m
        using that u(4) c(5) [OF that] lstart_area [OF g] by (cases "m = lstart s") auto
      with u 3(1) show ?thesis by auto
    qed
  qed
  then show ?thesis using t(1) c by blast
qed


text \<open>C16: The last \<^verbatim>\<open>end_op\<close> makes the operation durable.  With nothing held, a running
  operation and no commit in progress, the end of the only operation never panics: it
  leaves an empty log, no operation, every block outside the log on disk as the operation
  saw it, and room for the next \<^verbatim>\<open>begin_op\<close>.
\<close>

theorem end_op_durable:
  assumes wf: "log_wf s" and q: "quiet s" and h: "head_n (disk s (lstart s)) = 0"
    and o: "outstanding s = 1" and c: "\<not> committing s"
  shows "\<exists>t. end_op s = Ok t \<and> log_wf t \<and> lh_n t = 0 \<and> outstanding t = 0 \<and> \<not> committing t
    \<and> (\<forall>m. m \<notin> log_area s \<longrightarrow> disk t m = blk s m) \<and> begin_op t = Ok (t\<lparr>outstanding := 1\<rparr>)"
proof -
  let ?s = "s\<lparr>outstanding := 0, committing := True\<rparr>"
  have cc: "bufs ?s = bufs s" "disk ?s = disk s" by simp_all
  have same: "blk ?s = blk s" "dirty_blk ?s = dirty_blk s" "quiet ?s = quiet s"
    by (rule cache_cong [OF cc])+
  have b: "binv ?s = binv s" by (rule binv_cong) simp_all
  have area: "log_area ?s = log_area s" by (simp add: log_area_def)
  have "log_geom ?s = log_geom s" "log_entries ?s = log_entries s" "logged ?s = logged s"
    by (simp_all add: log_geom_def log_entries_def logged_def log_area_def)
  with wf same b have wf': "log_wf ?s" by (simp add: log_wf_def)
  have q': "quiet ?s" using q same by simp
  show ?thesis
  proof (cases "lh_n s > 0")
    case True
    then have n': "lh_n ?s > 0" by simp
    from ends_emptyD [OF commit_spec [OF wf' q' n']] obtain t h0 where t: "commit ?s = Ok t" "head_n h0 = 0"
      "after_writes (?s\<lparr>lh_n := 0\<rparr>) (commit_writes ?s h0) t" "\<forall>m. \<not> dirty_blk t m" by blast
    note r = commit_result [OF wf' t(3,4) n' q']
    have f: "outstanding t = 0" using t(3) io_frame_log(3) [of "?s\<lparr>lh_n := 0\<rparr>" t] by (simp add: after_writes_def)
    have "log_wf (t\<lparr>committing := False\<rparr>)"
    proof -
      have b: "binv (t\<lparr>committing := False\<rparr>) = binv t" by (rule binv_cong) simp_all
      have "dirty_blk (t\<lparr>committing := False\<rparr>) = dirty_blk t" by (rule cache_cong_dirty) simp_all
      with b r(1) show ?thesis by (simp add: log_wf_def log_geom_def log_entries_def logged_def log_area_def)
    qed
    then show ?thesis using t(1) r f o c area same(1)
      by (intro exI [of _ "t\<lparr>committing := False\<rparr>"]) (simp add: end_op_def Let_def begin_op_def LOGSIZE_def MAXOPBLOCKS_def)
  next
    case False
    then have n0: "lh_n s = 0" using wf by (simp add: log_wf_def log_entries_def)
    then have "\<not> dirty_blk s m" for m using wf by (simp add: log_wf_def logged_def)
    then have eq: "disk s m = blk s m" for m using blk_clean [of s m] quiet_held [OF q] wf by (simp add: log_wf_def)
    have "s\<lparr>outstanding := 0, committing := False\<rparr> = s\<lparr>outstanding := 0\<rparr>" using c by (intro log_state.equality) simp_all
    moreover have "log_wf (s\<lparr>outstanding := 0, committing := False\<rparr>)"
    proof -
      have b: "binv (s\<lparr>outstanding := 0, committing := False\<rparr>) = binv s" by (rule binv_cong) simp_all
      have "dirty_blk (s\<lparr>outstanding := 0, committing := False\<rparr>) = dirty_blk s" by (rule cache_cong_dirty) simp_all
      with b wf show ?thesis by (simp add: log_wf_def log_geom_def log_entries_def logged_def log_area_def)
    qed
    ultimately show ?thesis using n0 o c eq
      by (intro exI [of _ "s\<lparr>outstanding := 0, committing := False\<rparr>"])
        (simp add: end_op_def Let_def commit_def begin_op_def LOGSIZE_def MAXOPBLOCKS_def)
  qed
qed

text \<open>Logging blocks that are not in the log yet, while the log has room.\<close>

lemma log_write_fresh:
  assumes "lsize s = 30" and "0 \<le> lh_n s" and "lh_n s < 29" and "1 \<le> outstanding s" and "length (lh_block s) = LOGSIZE"
    and "blockno (bufs s ! b) \<notin> set (logged s)"
  shows "\<exists>t. log_write b s = Ok t \<and> logged t = logged s @ [blockno (bufs s ! b)] \<and> lh_n t = lh_n s + 1 \<and> lsize t = lsize s
    \<and> outstanding t = outstanding s \<and> length (lh_block t) = LOGSIZE \<and> (\<forall>j. blockno (bufs t ! j) = blockno (bufs s ! j))"
proof -
  let ?n = "nat (lh_n s)" and ?no = "blockno (bufs s ! b)"
  let ?t = "upd_buf b (\<lambda>x. x\<lparr>bdirty := True\<rparr>) (s\<lparr>lh_block := (lh_block s)[?n := ?no], lh_n := lh_n s + 1\<rparr>)"
  have "first_idx (\<lambda>x. x = ?no) (take ?n (lh_block s)) = None" using assms(6) by (auto simp: first_idx_None logged_def)
  then have "log_write b s = Ok ?t" using assms(1-4) by (simp add: log_write_def LOGSIZE_def)
  moreover have "take (Suc ?n) ((lh_block s)[?n := ?no]) = take ?n (lh_block s) @ [?no]"
    using assms(3,5) by (simp add: take_Suc_conv_app_nth LOGSIZE_def)
  then have "logged ?t = logged s @ [?no]" using assms(2) by (simp add: logged_def upd_buf_def Suc_nat_eq_nat_zadd1 add.commute)
  moreover have "blockno (bufs ?t ! j) = blockno (bufs s ! j)" for j
    by (cases "b < length (bufs s)"; cases "j = b") (simp_all add: upd_buf_def list_update_beyond)
  ultimately show ?thesis using assms(5) by (intro exI [of _ ?t]) (simp add: upd_buf_def)
qed

lemma forr_append: "forr (xs @ ys) f s = bindr (forr xs f s) (forr ys f)"
  by (induction xs arbitrary: s) (auto simp: bindr_def split: res.split)

lemma log_write_all:
  assumes "lsize s = 30" and "0 \<le> lh_n s" and "lh_n s + int (length bs) \<le> 29" and "1 \<le> outstanding s" and "length (lh_block s) = LOGSIZE"
    and "distinct (logged s @ map (\<lambda>b. blockno (bufs s ! b)) bs)"
  shows "\<exists>t. forr bs log_write s = Ok t \<and> logged t = logged s @ map (\<lambda>b. blockno (bufs s ! b)) bs \<and> lh_n t = lh_n s + int (length bs)
    \<and> lsize t = lsize s"
  using assms
proof (induction bs arbitrary: s)
  case (Cons b bs)
  obtain t where t: "log_write b s = Ok t" "logged t = logged s @ [blockno (bufs s ! b)]" "lh_n t = lh_n s + 1" "lsize t = lsize s"
    "outstanding t = outstanding s" "length (lh_block t) = LOGSIZE" "\<forall>j. blockno (bufs t ! j) = blockno (bufs s ! j)"
    using log_write_fresh [of s b] Cons.prems by auto
  then show ?case using Cons.IH [of t] Cons.prems by (simp add: add.assoc)
qed simp

text \<open>C17: The reservation of \<^verbatim>\<open>begin_op\<close> counts one block too many. On the log that \<^verbatim>\<open>mkfs\<close> makes (30 blocks, header included), empty and with no
  operation running, three operations are admitted at once, which reserves 30 blocks. When they log the blocks of 30 buffers, no two of the same
  block, the first 29 are entered in the log, in order, and the 30th stops the machine with \<open>too big a transaction\<close>.
\<close>

theorem begin_op_overcommits:
  assumes "lsize s = 30" and "lh_n s = 0" and "outstanding s = 0" and "\<not> committing s" and "length (lh_block s) = LOGSIZE"
    and "length bs = 30" and "distinct (map (\<lambda>b. blockno (bufs s ! b)) bs)"
  shows "\<exists>t u. bindr (bindr (begin_op s) begin_op) begin_op = Ok t \<and> outstanding t = 3 \<and> outstanding t * int MAXOPBLOCKS = 30
    \<and> forr (take 29 bs) log_write t = Ok u \<and> logged u = map (\<lambda>b. blockno (bufs s ! b)) (take 29 bs)
    \<and> log_write (bs ! 29) u = Panic ''too big a transaction'' \<and> forr bs log_write t = Panic ''too big a transaction''"
proof -
  define t where "t = s\<lparr>outstanding := 3\<rparr>"
  have t: "bindr (bindr (begin_op s) begin_op) begin_op = Ok t" using assms(2-4) by (simp add: begin_op_def LOGSIZE_def MAXOPBLOCKS_def t_def)
  have "distinct (map (\<lambda>b. blockno (bufs s ! b)) (take 29 bs))" using assms(7) unfolding take_map [symmetric] by (rule distinct_take)
  moreover have "logged t = []" by (simp add: logged_def t_def assms(2))
  ultimately obtain u where u: "forr (take 29 bs) log_write t = Ok u" "logged u = map (\<lambda>b. blockno (bufs s ! b)) (take 29 bs)" "lh_n u = 29" "lsize u = 30"
    using log_write_all [of t "take 29 bs"] assms(1,2,5,6) by (auto simp: t_def)
  then have last: "log_write (bs ! 29) u = Panic ''too big a transaction''" by (simp add: log_write_def)
  have "bs = take 29 bs @ [bs ! 29]" using take_Suc_conv_app_nth [of 29 bs] assms(6) by simp
  then have "forr bs log_write t = bindr (forr (take 29 bs) log_write t) (forr [bs ! 29] log_write)" by (metis forr_append)
  with t u last show ?thesis by (auto simp: t_def MAXOPBLOCKS_def)
qed

text \<open>A disk of 1000 blocks of zeroes whose log of 30 blocks starts at block 2; block 50 has been changed and logged.\<close>

definition demo_buf :: buf where
  "demo_buf = \<lparr>bvalid = True, bdirty = True, bdev = 1, blockno = 50, block = free_slk, refcnt = 0, bdata = replicate BSIZE 7\<rparr>"

definition demo_log :: "unit lst" where
  "demo_log = \<lparr>bufs = demo_buf # replicate (NBUF - 1) blank_buf, lru = [0..<NBUF], disk = (\<lambda>_. replicate BSIZE 0), dhist = [],
     disksize = 1000, curpid = 1, lstart = 2, lsize = 30, outstanding = 1, committing = False, ldev = 1,
     lh_n = 1, lh_block = 50 # replicate (LOGSIZE - 1) 0\<rparr>"

lemma demo_bufs: "i < NBUF \<Longrightarrow> bufs demo_log ! i = (if i = 0 then demo_buf else blank_buf)"
  by (auto simp: demo_log_def nth_Cons' NBUF_def)

lemma demo_log_wf: "log_wf demo_log \<and> quiet demo_log"
proof -
  have b: "buf_ok demo_log (bufs demo_log ! i)" if "i < NBUF" for i
    using that by (simp add: demo_bufs buf_ok_def demo_buf_def blank_buf_def free_slk_def) (simp add: demo_log_def)
  have u: "uniq_bufs (bufs demo_log)"
    unfolding uniq_bufs_def by (auto simp: demo_bufs blank_buf_def split: if_splits)
  have "binv demo_log"
    unfolding binv_def using b u by (auto simp: demo_log_def NBUF_def BSIZE_def)
  moreover have "dirty_blk demo_log m \<longleftrightarrow> m = 50" for m
    unfolding dirty_blk_def cached_at_def
  proof
    assume "m = 50"
    moreover have "0 < NBUF" by (simp add: NBUF_def)
    ultimately show "\<exists>i. (i < NBUF \<and> bdev (bufs demo_log ! i) = 1 \<and> blockno (bufs demo_log ! i) = m \<and> bvalid (bufs demo_log ! i))
      \<and> bdirty (bufs demo_log ! i)"
      by (intro exI [of _ 0]) (simp add: demo_bufs demo_buf_def)
  qed (auto simp: demo_bufs demo_buf_def blank_buf_def split: if_splits)
  moreover have q: "quiet demo_log" by (simp add: quiet_def is_locked_def demo_bufs demo_buf_def blank_buf_def free_slk_def)
  moreover have lg: "logged demo_log = [50]" by (simp add: logged_def demo_log_def)
  moreover have "log_geom demo_log" by (simp add: log_geom_def demo_log_def LOGSIZE_def)
  moreover have "log_entries demo_log"
    unfolding log_entries_def lg by (simp add: demo_log_def LOGSIZE_def log_area_def)
  ultimately show ?thesis by (simp add: log_wf_def)
qed

theorem commit_atomic_witness:
  "log_wf demo_log \<and> quiet demo_log \<and> head_n (disk demo_log (lstart demo_log)) = 0
   \<and> (\<exists>t. commit demo_log = Ok t \<and> disk t 50 = replicate BSIZE 7)"
proof -
  have h: "head_n (disk demo_log (lstart demo_log)) = 0"
    by (simp add: demo_log_def head_n_def get32_def BSIZE_def)
  have "cached_at demo_log 50 0" by (simp add: cached_at_def demo_bufs NBUF_def demo_buf_def)
  then have "blk demo_log 50 = replicate BSIZE 7"
    using blk_cached [of demo_log 50 0] demo_log_wf by (simp add: log_wf_def demo_bufs NBUF_def demo_buf_def)
  moreover have "50 \<notin> log_area demo_log" by (simp add: log_area_def demo_log_def)
  ultimately show ?thesis using commit_atomic [of demo_log] demo_log_wf h by auto
qed

definition demo_full :: "unit lst" where
  "demo_full = demo_log\<lparr>bufs := map (\<lambda>i. demo_buf\<lparr>blockno := of_nat (40 + i)\<rparr>) [0..<NBUF], lh_n := 0, outstanding := 0\<rparr>"

theorem begin_op_overcommits_witness:
  "\<exists>t. bindr (bindr (begin_op demo_full) begin_op) begin_op = Ok t \<and> outstanding t = 3
     \<and> forr [0..<30] log_write t = Panic ''too big a transaction''"
proof -
  have "blockno (bufs demo_full ! b) = of_nat (40 + b)" if "b < 30" for b using that by (simp add: demo_full_def NBUF_def)
  then have "map (\<lambda>b. blockno (bufs demo_full ! b)) [0..<30] = map (\<lambda>b. of_nat (40 + b)) [0..<30]" by (intro map_cong) auto
  moreover have "distinct (map (\<lambda>b. of_nat (40 + b) :: uint) [0..<30])" by code_simp
  ultimately have "distinct (map (\<lambda>b. blockno (bufs demo_full ! b)) [0..<30])" by (simp only:)
  then show ?thesis using begin_op_overcommits [of demo_full "[0..<30]"] by (auto simp: demo_full_def demo_log_def LOGSIZE_def simp del: upt_rec_numeral)
qed

theorem end_op_durable_witness:
  "\<exists>t. end_op demo_log = Ok t \<and> lh_n t = 0 \<and> (\<forall>m. m \<notin> log_area demo_log \<longrightarrow> disk t m = blk demo_log m)"
proof -
  have "head_n (disk demo_log (lstart demo_log)) = 0" "outstanding demo_log = 1" "\<not> committing demo_log"
    by (simp_all add: demo_log_def head_n_def get32_def BSIZE_def)
  with end_op_durable [of demo_log] demo_log_wf show ?thesis by blast
qed

end
