(* ===== verification/CString.thy ===== *)
theory CString
  imports Bytes
begin

text \<open>
  The string routines of the kernel (\<^verbatim>\<open>src/string.c\<close>) and of the user library
  (\<^verbatim>\<open>src/ulib.c\<close>).  Memory is a map from 32-bit addresses to bytes; a routine that only
  reads through a pointer takes the bytes it points to, by offset.  The loops that look for
  a terminator need not end, so they are partial functions.
\<close>

section \<open>Memory\<close>

type_synonym mem = "uint \<Rightarrow> byte"
type_synonym cptr = "nat \<Rightarrow> byte"

text \<open>The bytes from address \<open>a\<close> on, and from offset 1 of a pointer on.\<close>

definition at :: "mem \<Rightarrow> uint \<Rightarrow> cptr" where
  "at m a = (\<lambda>i. m (a + of_nat i))"

definition nxt :: "cptr \<Rightarrow> cptr" where
  "nxt p = (\<lambda>i. p (Suc i))"

text \<open>A list of bytes in memory, followed by zeroes.\<close>

definition ptr :: "byte list \<Rightarrow> cptr" where
  "ptr l = (\<lambda>i. if i < length l then l ! i else 0)"

definition store32 :: "mem \<Rightarrow> uint \<Rightarrow> uint \<Rightarrow> mem" where
  "store32 m a w = m(a := ucast w, a + 1 := ucast (drop_bit 8 w), a + 2 := ucast (drop_bit 16 w), a + 3 := ucast (drop_bit 24 w))"

fun stosb :: "mem \<Rightarrow> uint \<Rightarrow> byte \<Rightarrow> nat \<Rightarrow> mem" where
  "stosb m a c 0 = m"
| "stosb m a c (Suc n) = stosb (m(a := c)) (a + 1) c n"

fun stosl :: "mem \<Rightarrow> uint \<Rightarrow> uint \<Rightarrow> nat \<Rightarrow> mem" where
  "stosl m a w 0 = m"
| "stosl m a w (Suc n) = stosl (store32 m a w) (a + 4) w n"

section \<open>Block operations\<close>

definition memset :: "mem \<Rightarrow> uint \<Rightarrow> uint \<Rightarrow> uint \<Rightarrow> mem" where
  "memset m dst c n =
     (if dst mod 4 = 0 \<and> n mod 4 = 0
      then let c' = c AND 0xFF in
           stosl m dst (push_bit 24 c' OR push_bit 16 c' OR push_bit 8 c' OR c') (unat (n div 4))
      else stosb m dst (ucast c) (unat n))"

fun memcmp :: "cptr \<Rightarrow> cptr \<Rightarrow> nat \<Rightarrow> int" where
  "memcmp s1 s2 0 = 0"
| "memcmp s1 s2 (Suc n) = (if s1 0 \<noteq> s2 0 then int (unat (s1 0)) - int (unat (s2 0)) else memcmp (nxt s1) (nxt s2) n)"

fun copy_up :: "mem \<Rightarrow> uint \<Rightarrow> uint \<Rightarrow> nat \<Rightarrow> mem" where
  "copy_up m d s 0 = m"
| "copy_up m d s (Suc n) = copy_up (m(d := m s)) (d + 1) (s + 1) n"

fun copy_down :: "mem \<Rightarrow> uint \<Rightarrow> uint \<Rightarrow> nat \<Rightarrow> mem" where
  "copy_down m d s 0 = m"
| "copy_down m d s (Suc n) = copy_down (m(d - 1 := m (s - 1))) (d - 1) (s - 1) n"

definition memmove :: "mem \<Rightarrow> uint \<Rightarrow> uint \<Rightarrow> uint \<Rightarrow> mem" where
  "memmove m dst src n =
     (if src < dst \<and> src + n > dst then copy_down m (dst + n) (src + n) (unat n)
      else copy_up m dst src (unat n))"

definition memcpy :: "mem \<Rightarrow> uint \<Rightarrow> uint \<Rightarrow> uint \<Rightarrow> mem" where
  "memcpy m dst src n = memmove m dst src n"

section \<open>Strings\<close>

fun strncmp :: "cptr \<Rightarrow> cptr \<Rightarrow> nat \<Rightarrow> int" where
  "strncmp p q 0 = 0"
| "strncmp p q (Suc n) = (if p 0 \<noteq> 0 \<and> p 0 = q 0 then strncmp (nxt p) (nxt q) n
     else int (unat (p 0)) - int (unat (q 0)))"

text \<open>\<^verbatim>\<open>strncpy\<close> and \<^verbatim>\<open>safestrcpy\<close>, by the bytes they write.\<close>

fun strncpy_loop :: "cptr \<Rightarrow> nat \<Rightarrow> byte list" where
  "strncpy_loop t 0 = []"
| "strncpy_loop t (Suc n) = (if t 0 \<noteq> 0 then t 0 # strncpy_loop (nxt t) n else 0 # replicate n 0)"

definition strncpy :: "cptr \<Rightarrow> int \<Rightarrow> byte list" where
  "strncpy t n = strncpy_loop t (nat n)"

fun safestrcpy_loop :: "cptr \<Rightarrow> nat \<Rightarrow> byte list" where
  "safestrcpy_loop t 0 = [0]"
| "safestrcpy_loop t (Suc n) = (if t 0 \<noteq> 0 then t 0 # safestrcpy_loop (nxt t) n else [0, 0])"

definition safestrcpy :: "cptr \<Rightarrow> int \<Rightarrow> byte list" where
  "safestrcpy t n = (if n \<le> 0 then [] else safestrcpy_loop t (nat (n - 1)))"

partial_function (option) strlen_loop :: "cptr \<Rightarrow> nat \<Rightarrow> nat option" where
  "strlen_loop s n = (if s n \<noteq> 0 then strlen_loop s (n + 1) else Some n)"

definition strlen :: "cptr \<Rightarrow> nat option" where
  "strlen s = strlen_loop s 0"

partial_function (option) strcpy :: "mem \<Rightarrow> uint \<Rightarrow> uint \<Rightarrow> mem option" where
  "strcpy m s t = (let m' = m(s := m t) in if m' s \<noteq> 0 then strcpy m' (s + 1) (t + 1) else Some m')"

partial_function (option) strcmp :: "cptr \<Rightarrow> cptr \<Rightarrow> int option" where
  "strcmp p q = (if p 0 \<noteq> 0 \<and> p 0 = q 0 then strcmp (nxt p) (nxt q)
     else Some (int (unat (p 0)) - int (unat (q 0))))"

text \<open>\<^verbatim>\<open>strchr\<close> returns the offset of the character, or nothing.\<close>

partial_function (option) strchr_loop :: "cptr \<Rightarrow> byte \<Rightarrow> nat \<Rightarrow> nat option option" where
  "strchr_loop s c i = (if s i \<noteq> 0 then if s i = c then Some (Some i) else strchr_loop s c (i + 1) else Some None)"

definition strchr :: "cptr \<Rightarrow> byte \<Rightarrow> nat option option" where
  "strchr s c = strchr_loop s c 0"

text \<open>Characters are signed: the digits are those between 48 and 57.\<close>

partial_function (option) atoi_loop :: "cptr \<Rightarrow> uint \<Rightarrow> uint option" where
  "atoi_loop s n = (if 48 \<le> sint (s 0) \<and> sint (s 0) \<le> 57
     then atoi_loop (nxt s) (n * 10 + (word_of_int (sint (s 0)) - 48)) else Some n)"

definition atoi :: "cptr \<Rightarrow> uint option" where
  "atoi s = atoi_loop s 0"

text \<open>The user library's \<^verbatim>\<open>memset\<close> and \<^verbatim>\<open>memmove\<close>.\<close>

definition umemset :: "mem \<Rightarrow> uint \<Rightarrow> uint \<Rightarrow> uint \<Rightarrow> mem" where
  "umemset m dst c n = stosb m dst (ucast c) (unat n)"

definition umemmove :: "mem \<Rightarrow> uint \<Rightarrow> uint \<Rightarrow> int \<Rightarrow> mem" where
  "umemmove m vdst vsrc n = copy_up m vdst vsrc (nat n)"

text \<open>\<^verbatim>\<open>gets\<close>: the bytes the terminal delivers before its end; the buffer it fills and the input left.\<close>

fun gets_loop :: "byte list \<Rightarrow> nat \<Rightarrow> byte list \<times> byte list" where
  "gets_loop inp 0 = ([], inp)"
| "gets_loop [] (Suc k) = ([], [])"
| "gets_loop (c # inp) (Suc k) = (if c = 10 \<or> c = 13 then ([c], inp)
     else let (l, r) = gets_loop inp k in (c # l, r))"

definition gets :: "byte list \<Rightarrow> int \<Rightarrow> byte list \<times> byte list" where
  "gets inp mx = (let (l, r) = gets_loop inp (nat (mx - 1)) in (l @ [0], r))"

section \<open>Filling memory\<close>

lemma unat_diff_Suc:
  assumes "x \<noteq> a"
  shows "unat (x - (a :: uint)) = Suc (unat (x - (a + 1)))"
proof -
  have "x - a \<noteq> 0" using assms by simp
  then have "unat (x - a - 1) = unat (x - a) - 1" "unat (x - a) \<noteq> 0"
    by (simp_all add: unat_minus_one unat_eq_zero)
  then show ?thesis by (simp add: diff_diff_eq)
qed

lemma stosb_fill: "n \<le> 4294967296 \<Longrightarrow> stosb m a c n x = (if unat (x - a) < n then c else m x)"
proof (induction n arbitrary: m a)
  case 0
  then show ?case by simp
next
  case (Suc n)
  show ?case
  proof (cases "x = a")
    case True
    have "unat (x - (a + 1)) = 4294967295" using True by (simp add: unsigned_minus_1_eq_mask mask_eq_exp_minus_1)
    then show ?thesis using Suc True by simp
  next
    case False
    then show ?thesis using Suc unat_diff_Suc [OF False] by simp
  qed
qed

lemma store32_fill: "store32 m a w x =
   (if x = a then ucast w else if x = a + 1 then ucast (drop_bit 8 w) else if x = a + 2 then ucast (drop_bit 16 w)
    else if x = a + 3 then ucast (drop_bit 24 w) else m x)"
  by (auto simp: store32_def)

lemma store32_stosb:
  assumes "\<And>k. k \<in> {0, 8, 16, 24} \<Longrightarrow> ucast (drop_bit k w) = (c :: byte)"
  shows "store32 m a w = stosb m a c 4"
proof -
  have four: "(4 :: nat) = Suc (Suc (Suc (Suc 0)))" by simp
  show ?thesis
    unfolding four store32_def using assms [of 0] assms [of 8] assms [of 16] assms [of 24] by (simp add: add.commute)
qed

lemma stosb_add: "stosb (stosb m a c i) (a + of_nat i) c j = stosb m a c (i + j)"
proof (induction i arbitrary: m a)
  case (Suc i)
  have "a + of_nat (Suc i) = a + 1 + of_nat i" by (simp add: add.assoc)
  then show ?case using Suc by (simp only: stosb.simps add_Suc)
qed simp

lemma stosl_stosb:
  assumes "\<And>k. k \<in> {0, 8, 16, 24} \<Longrightarrow> ucast (drop_bit k w) = (c :: byte)"
  shows "stosl m a w n = stosb m a c (4 * n)"
proof (induction n arbitrary: m a)
  case (Suc n)
  have "4 * Suc n = 4 + 4 * n" by simp
  then show ?case using Suc store32_stosb [OF assms, of m a] stosb_add [of m a c 4 "4 * n"] by simp
qed simp

lemma memset_word:
  fixes c :: uint
  assumes "k \<in> {0, 8, 16, 24}"
  defines "c' \<equiv> c AND 0xFF"
  shows "ucast (drop_bit k (push_bit 24 c' OR push_bit 16 c' OR push_bit 8 c' OR c')) = (ucast c :: byte)"
proof (rule bit_word_eqI)
  fix n
  assume n: "n < LENGTH(8)"
  have c': "c' = take_bit 8 c" by (simp add: c'_def take_bit_eq_mask mask_eq_exp_minus_1)
  from assms(1) consider "k = 0" | "k = 8" | "k = 16" | "k = 24" by blast
  then show "bit (ucast (drop_bit k (push_bit 24 c' OR push_bit 16 c' OR push_bit 8 c' OR c')) :: byte) n = bit (ucast c :: byte) n"
    by cases (use n in \<open>simp_all add: c' bit_simps\<close>)
qed

text \<open>\<^verbatim>\<open>memset\<close> fills exactly the given bytes: whether it stores words (an aligned
  destination and size) or bytes, the \<open>n\<close> bytes from \<open>dst\<close> on hold the low byte of \<open>c\<close> and
  every other byte is unchanged.
\<close>

theorem memset_fills: "memset m dst c n a = (if unat (a - dst) < unat n then ucast c else m a)"
proof (cases "dst mod 4 = 0 \<and> n mod 4 = 0")
  case True
  have "unat (n mod 4) = unat n mod 4" by (simp add: unat_mod_distrib)
  then have "unat n mod 4 = 0" using True by simp
  then have "4 * unat (n div 4) = unat n" using mult_div_mod_eq [of 4 "unat n"] by (simp add: unat_div_distrib)
  then show ?thesis
    using True stosl_stosb [OF memset_word, of m dst c "unat (n div 4)"] stosb_fill [of "unat n" m dst "ucast c" a]
      unat_uint_less [of n]
    by (simp add: memset_def Let_def)
next
  case False
  then show ?thesis using stosb_fill [of "unat n" m dst "ucast c" a] unat_uint_less [of n] by (auto simp: memset_def)
qed

section \<open>Moving memory\<close>

text \<open>What a move of \<open>n\<close> bytes should leave: the bytes of the source before the move.\<close>

definition moved :: "mem \<Rightarrow> uint \<Rightarrow> uint \<Rightarrow> nat \<Rightarrow> mem" where
  "moved m d s n a = (if unat (a - d) < n then m (s + (a - d)) else m a)"

text \<open>Copying upwards is right when no byte is read after it was overwritten.\<close>

lemma copy_up_moved:
  assumes "n < 4294967296" and "\<And>i j. j < i \<Longrightarrow> i < n \<Longrightarrow> s + of_nat i \<noteq> d + of_nat j"
  shows "copy_up m d s n = moved m d s n"
  using assms
proof (induction n arbitrary: m d s)
  case 0
  then show ?case by (simp add: moved_def fun_eq_iff)
next
  case (Suc n)
  have ih: "copy_up (m(d := m s)) (d + 1) (s + 1) n = moved (m(d := m s)) (d + 1) (s + 1) n"
  proof (rule Suc.IH)
    show "n < 4294967296" using Suc.prems(1) by simp
    show "s + 1 + of_nat i \<noteq> d + 1 + of_nat j" if "j < i" "i < n" for i j
      using Suc.prems(2) [of "Suc j" "Suc i"] that by (simp add: add.assoc)
  qed
  have "moved (m(d := m s)) (d + 1) (s + 1) n a = moved m d s (Suc n) a" for a
  proof (cases "a = d")
    case True
    have "unat (a - (d + 1)) = 4294967295" using True by (simp add: unsigned_minus_1_eq_mask mask_eq_exp_minus_1)
    then show ?thesis using True Suc.prems(1) by (simp add: moved_def)
  next
    case False
    note u = unat_diff_Suc [OF False]
    have "s + (a - d) \<noteq> d" if "unat (a - (d + 1)) < n"
    proof -
      have "of_nat (Suc (unat (a - (d + 1)))) = a - d" unfolding u [symmetric] by simp
      then show ?thesis using Suc.prems(2) [of 0 "Suc (unat (a - (d + 1)))"] that by simp
    qed
    then show ?thesis using u False by (simp add: moved_def algebra_simps)
  qed
  then show ?case using ih by (simp add: fun_eq_iff)
qed

text \<open>Copying downwards from the ends, likewise.\<close>

lemma copy_down_moved:
  assumes "n < 4294967296" and "\<And>i j. j < i \<Longrightarrow> i < n \<Longrightarrow> s - 1 - of_nat i \<noteq> d - 1 - of_nat j"
  shows "copy_down m d s n = moved m (d - of_nat n) (s - of_nat n) n"
  using assms
proof (induction n arbitrary: m d s)
  case 0
  then show ?case by (simp add: moved_def fun_eq_iff)
next
  case (Suc n)
  have ih: "copy_down (m(d - 1 := m (s - 1))) (d - 1) (s - 1) n
    = moved (m(d - 1 := m (s - 1))) (d - 1 - of_nat n) (s - 1 - of_nat n) n"
  proof (rule Suc.IH)
    show "n < 4294967296" using Suc.prems(1) by simp
    show "s - 1 - 1 - of_nat i \<noteq> d - 1 - 1 - of_nat j" if "j < i" "i < n" for i j
      using Suc.prems(2) [of "Suc j" "Suc i"] that by (simp add: algebra_simps)
  qed
  let ?d = "d - 1 - of_nat n" and ?s = "s - 1 - of_nat n"
  have nn: "unat (of_nat n :: uint) = n" using Suc.prems(1) by (intro unat_of_nat_uint) simp
  have "moved (m(d - 1 := m (s - 1))) ?d ?s n a = moved m ?d ?s (Suc n) a" for a
  proof (cases "a = d - 1")
    case True
    have off: "a - ?d = of_nat n" using True by simp
    then have "moved (m(d - 1 := m (s - 1))) ?d ?s n a = m (s - 1)" using nn True by (simp add: moved_def)
    also have "\<dots> = moved m ?d ?s (Suc n) a" using nn unfolding moved_def off by simp
    finally show ?thesis .
  next
    case False
    have ne: "unat (a - ?d) \<noteq> n"
    proof
      assume "unat (a - ?d) = n"
      then have "of_nat n = a - ?d" by (metis nn word_unat_eq_iff)
      then show False using False by (simp add: algebra_simps)
    qed
    have "?s + (a - ?d) \<noteq> d - 1" if lt: "unat (a - ?d) < n"
    proof
      assume eq: "?s + (a - ?d) = d - 1"
      have "of_nat (n - unat (a - ?d)) = of_nat n - (a - ?d)" using lt by (simp add: of_nat_diff)
      moreover have "s - 1 - (of_nat n - w) = ?s + w" for w :: uint by simp
      ultimately have "s - 1 - of_nat (n - unat (a - ?d)) = ?s + (a - ?d)" by (simp only:)
      also note eq
      finally have "s - 1 - of_nat (n - unat (a - ?d)) = d - 1" .
      then show False using Suc.prems(2) [of 0 "n - unat (a - ?d)"] lt by (simp add: less_Suc_eq_le)
    qed
    then show ?thesis using ne False by (auto simp: moved_def)
  qed
  then show ?case using ih by (simp add: fun_eq_iff diff_diff_eq)
qed

text \<open>C19: \<^verbatim>\<open>memmove\<close> is a move even when the regions overlap, in either direction: for regions
  that do not wrap around the address space, the destination receives the bytes the source
  had before the call and nothing else changes.
\<close>

theorem memmove_moves:
  assumes "unat src + unat n \<le> 4294967295" and "unat dst + unat n \<le> 4294967295"
  shows "memmove m dst src n = moved m dst src (unat n)"
proof (cases "src < dst \<and> src + n > dst")
  case True
  have lt: "unat src < unat dst" using True by (simp add: word_less_nat_alt)
  have "copy_down m (dst + n) (src + n) (unat n) = moved m (dst + n - of_nat (unat n)) (src + n - of_nat (unat n)) (unat n)"
  proof (rule copy_down_moved)
    show "unat n < 4294967296" by (rule unat_uint_less)
    fix i j
    assume ij: "j < i" "i < unat n"
    have u: "unat (w + n - 1 - of_nat k) = unat w + unat n - 1 - k" if "unat w + unat n \<le> 4294967295" "k < unat n" for w :: uint and k
    proof -
      have "w + n - 1 - of_nat k = of_nat (unat w + unat n - 1 - k)"
        using that by (simp add: of_nat_diff)
      then show ?thesis using that by (simp only: unat_of_nat_uint)
    qed
    show "src + n - 1 - of_nat i \<noteq> dst + n - 1 - of_nat j"
    proof
      assume "src + n - 1 - of_nat i = dst + n - 1 - of_nat j"
      from arg_cong [OF this, of unat] have "unat src + unat n - 1 - i = unat dst + unat n - 1 - j"
        by (simp only: u [OF assms(1) ij(2)] u [OF assms(2) order_less_trans [OF ij]])
      then show False using lt ij by linarith
    qed
  qed
  then show ?thesis using True by (simp add: memmove_def)
next
  case False
  have "copy_up m dst src (unat n) = moved m dst src (unat n)"
  proof (rule copy_up_moved)
    show "unat n < 4294967296" by (rule unat_uint_less)
    fix i j
    assume ij: "j < i" "i < unat n"
    have u: "unat (w + of_nat k) = unat w + k" if "unat w + unat n \<le> 4294967295" "k < unat n" for w :: uint and k
    proof -
      have "w + of_nat k = of_nat (unat w + k)" by simp
      then show ?thesis using that by (simp only: unat_of_nat_uint)
    qed
    have "unat (src + n) = unat src + unat n"
    proof -
      have "src + n = of_nat (unat src + unat n)" by simp
      then show ?thesis using assms(1) by (simp only: unat_of_nat_uint)
    qed
    then have ord: "unat dst \<le> unat src \<or> unat src + unat n \<le> unat dst"
      using False by (auto simp: word_less_nat_alt)
    show "src + of_nat i \<noteq> dst + of_nat j"
    proof
      assume "src + of_nat i = dst + of_nat j"
      from arg_cong [OF this, of unat] have "unat src + i = unat dst + j"
        by (simp only: u [OF assms(1) ij(2)] u [OF assms(2) order_less_trans [OF ij]])
      then show False using ord ij by linarith
    qed
  qed
  then show ?thesis using False by (auto simp: memmove_def)
qed

theorem memmove_moves_witness:
  "memmove (\<lambda>a. ucast a) 2 0 4 = moved (\<lambda>a. ucast a) 2 0 4 \<and> moved (\<lambda>a. ucast a) 2 0 4 (5 :: uint) = (3 :: byte)"
  using memmove_moves [of 0 4 2 "\<lambda>a. ucast a"] by (simp add: moved_def)

text \<open>The user library's \<^verbatim>\<open>memmove\<close> copies upwards only: moving two bytes up by one
  leaves the first byte twice, where a move would have kept the second.
\<close>

theorem umemmove_overlap: "umemmove (\<lambda>a. ucast a) 1 0 2 2 = (0 :: byte) \<and> moved (\<lambda>a. ucast a) 1 0 2 (2 :: uint) = (1 :: byte)"
proof -
  have two: "nat 2 = Suc (Suc 0)" by simp
  show ?thesis unfolding umemmove_def two by (simp add: moved_def)
qed

section \<open>Comparing and copying strings\<close>

text \<open>The string at a pointer, cut off after \<open>n\<close> characters.\<close>

fun str_take :: "nat \<Rightarrow> cptr \<Rightarrow> byte list" where
  "str_take 0 p = []"
| "str_take (Suc n) p = (if p 0 = 0 then [] else p 0 # str_take n (nxt p))"

lemma length_str_take: "length (str_take n p) \<le> n"
  by (induction n arbitrary: p) auto

lemma str_take_nonzero: "0 \<notin> set (str_take n p)"
  by (induction n arbitrary: p) auto

lemma unat_eq_byte: "int (unat (a :: byte)) - int (unat b) = 0 \<longleftrightarrow> a = b"
  by (simp add: word_uint_eq_iff)

lemma strncmp_0: "strncmp p q n = 0 \<longleftrightarrow> str_take n p = str_take n q"
proof (induction n arbitrary: p q)
  case (Suc n)
  then show ?case using unat_eq_byte [of "p 0" "q 0"] by auto
qed simp

lemma nxt_ptr [simp]: "nxt (ptr (x # xs)) = ptr xs" "ptr (x # xs) 0 = x" "ptr [] = (\<lambda>_. 0)"
  by (auto simp: nxt_def ptr_def fun_eq_iff)

lemma str_take_ptr: "0 \<notin> set xs \<Longrightarrow> str_take n (ptr xs) = take n xs"
proof (induction n arbitrary: xs)
  case (Suc n)
  then show ?case by (cases xs) auto
qed simp

lemma str_take_pad: "str_take n (ptr (xs @ replicate k 0)) = str_take n (ptr xs)"
proof (induction n arbitrary: xs)
  case (Suc n)
  show ?case
  proof (cases xs)
    case Nil
    have "ptr (replicate k 0) = (\<lambda>_. 0)" by (auto simp: ptr_def)
    with Nil show ?thesis by simp
  qed (use Suc in simp)
qed simp

lemma strncpy_loop_eq: "strncpy_loop t n = str_take n t @ replicate (n - length (str_take n t)) 0"
  by (induction n arbitrary: t) auto

lemma length_strncpy: "length (strncpy t n) = nat n"
  using length_str_take [of "nat n" t] by (simp add: strncpy_def strncpy_loop_eq)

text \<open>\<^verbatim>\<open>strncpy\<close> fills its whole field, and a field it filled compares equal, under
  \<^verbatim>\<open>strncmp\<close> with the same bound, to exactly the strings that agree with the copied one up
  to the bound or the end of the string.
\<close>

theorem strncpy_strncmp:
  "length (strncpy t (int n)) = n \<and> (strncmp p (ptr (strncpy t (int n))) n = 0 \<longleftrightarrow> str_take n p = str_take n t)"
proof -
  have "str_take n (ptr (strncpy t (int n))) = str_take n t"
    using str_take_ptr [OF str_take_nonzero [of n t], of n] length_str_take [of n t]
    by (simp add: strncpy_def strncpy_loop_eq str_take_pad)
  then show ?thesis using length_strncpy [of t "int n"] by (simp add: strncmp_0)
qed

lemma safestrcpy_loop_eq:
  "safestrcpy_loop t n = str_take n t @ (if length (str_take n t) < n then [0, 0] else [0])"
  by (induction n arbitrary: t) auto

text \<open>\<^verbatim>\<open>safestrcpy\<close> never writes past its buffer and always ends the string: for a buffer
  of \<open>n\<close> bytes it writes at most \<open>n\<close>, the string it leaves is the source cut to \<open>n - 1\<close>
  characters, and a terminator follows it.
\<close>

theorem safestrcpy_bounded:
  assumes "0 < n"
  shows "length (safestrcpy t n) \<le> nat n \<and> (\<exists>r. safestrcpy t n = str_take (nat (n - 1)) t @ 0 # r)"
  using assms length_str_take [of "nat (n - 1)" t] by (auto simp: safestrcpy_def safestrcpy_loop_eq)

theorem safestrcpy_bounded_witness:
  "length (safestrcpy (ptr [104, 101, 108, 108, 111]) 4) \<le> 4 \<and> safestrcpy (ptr [104, 101, 108, 108, 111]) 4 = [104, 101, 108, 0]"
  using safestrcpy_bounded [of 4 "ptr [104, 101, 108, 108, 111]"] by (simp add: safestrcpy_def numeral_3_eq_3)

text \<open>A terminated string, and the loops that stop at its end.\<close>

definition cstr :: "cptr \<Rightarrow> byte list \<Rightarrow> bool" where
  "cstr p l \<longleftrightarrow> 0 \<notin> set l \<and> (\<forall>i < length l. p i = l ! i) \<and> p (length l) = 0"

lemma strlen_from:
  assumes "cstr p l" and "i \<le> length l"
  shows "strlen_loop p i = Some (length l)"
  using assms(2)
proof (induction "length l - i" arbitrary: i)
  case 0
  then show ?case using assms(1) by (subst strlen_loop.simps) (simp add: cstr_def)
next
  case (Suc k)
  then have "i < length l" by simp
  moreover from this have "p i \<noteq> 0" using assms(1) nth_mem [of i l] by (auto simp: cstr_def simp del: nth_mem)
  ultimately show ?case using Suc by (subst strlen_loop.simps) simp
qed

lemma strlen_cstr: "cstr p l \<Longrightarrow> strlen p = Some (length l)"
  using strlen_from [of p l 0] by (simp add: strlen_def)

lemma cstr_ptr: "0 \<notin> set l \<Longrightarrow> cstr (ptr l) l"
  by (simp add: cstr_def ptr_def)

lemma cstr_nxt: "cstr p (x # l) \<Longrightarrow> p 0 = x \<and> x \<noteq> 0 \<and> cstr (nxt p) l"
  by (auto simp: cstr_def nxt_def)

lemma strcmp_differ: "p 0 = 0 \<or> p 0 \<noteq> q 0 \<Longrightarrow> strcmp p q = Some (int (unat (p 0)) - int (unat (q 0)))"
  by (subst strcmp.simps) auto

lemma strcmp_cstr: "cstr p l \<Longrightarrow> cstr q k \<Longrightarrow> \<exists>v. strcmp p q = Some v \<and> (v = 0 \<longleftrightarrow> l = k)"
proof (induction l arbitrary: p q k)
  case Nil
  have p: "p 0 = 0" using Nil(1) by (simp add: cstr_def)
  have "q 0 = 0 \<longleftrightarrow> k = []"
  proof (cases k)
    case (Cons y k')
    then show ?thesis using Nil(2) cstr_nxt [of q y k'] by simp
  qed (use Nil(2) in \<open>simp add: cstr_def\<close>)
  then show ?case using unat_eq_byte [of "p 0" "q 0"] strcmp_differ [of p q] p by metis
next
  case (Cons x l)
  note p = cstr_nxt [OF Cons.prems(1)]
  show ?case
  proof (cases "k \<noteq> [] \<and> hd k = x")
    case True
    then obtain k' where k: "k = x # k'" by (cases k) auto
    with Cons.prems(2) cstr_nxt [of q x k'] have q: "q 0 = x" "cstr (nxt q) k'" by auto
    from Cons.IH [OF _ q(2)] p obtain v where "strcmp (nxt p) (nxt q) = Some v" "v = 0 \<longleftrightarrow> l = k'" by blast
    then show ?thesis using p q(1) k by (subst strcmp.simps) simp
  next
    case False
    have "q 0 \<noteq> x"
    proof (cases k)
      case Nil
      then show ?thesis using p Cons.prems(2) by (auto simp: cstr_def)
    next
      case (Cons y k')
      then show ?thesis using False Cons.prems(2) cstr_nxt [of q y k'] by auto
    qed
    moreover have "k \<noteq> x # l" using False by auto
    ultimately show ?thesis using p unat_eq_byte [of "p 0" "q 0"] strcmp_differ [of p q] by metis
  qed
qed

end
