(* ===== verification/Fs.thy ===== *)
theory Fs
  imports Log CString
begin

text \<open>
  The file system proper (\<^verbatim>\<open>src/fs.c\<close>): block allocation, inodes and their cache, the
  contents of a file, directories and path names.  The state extends the log.  A pointer to
  an in-memory inode is its index in the inode cache; a path is the bytes of the C string.
  The device switch, which the console fills in, is the parameter \<open>dv\<close>.
\<close>

section \<open>Data\<close>

definition NINODE :: nat where "NINODE = 50"
definition NDEV :: int where "NDEV = 10"
definition ROOTINO :: uint where "ROOTINO = 1"
definition NDIRECT :: nat where "NDIRECT = 12"
definition NINDIRECT :: nat where "NINDIRECT = BSIZE div 4"
definition MAXFILE :: nat where "MAXFILE = NDIRECT + NINDIRECT"
definition IPB :: nat where "IPB = BSIZE div 64"
definition BPB :: nat where "BPB = BSIZE * 8"
definition DIRSIZ :: nat where "DIRSIZ = 14"
definition T_DIR :: "16 word" where "T_DIR = 1"
definition T_FILE :: "16 word" where "T_FILE = 2"
definition T_DEV :: "16 word" where "T_DEV = 3"

record dinode =
  dtype :: "16 word"
  dmajor :: "16 word"
  dminor :: "16 word"
  dnlink :: "16 word"
  dsize :: uint
  daddrs :: "uint list"

record inode =
  idev :: uint
  inum :: uint
  iref :: int
  ilk :: slk
  ivalid :: bool
  itype :: "16 word"
  imajor :: "16 word"
  iminor :: "16 word"
  inlink :: "16 word"
  isize :: uint
  addrs :: "uint list"

record stat =
  st_type :: "16 word"
  st_dev :: uint
  st_ino :: uint
  st_nlink :: "16 word"
  st_size :: uint

record fs_state = log_state +
  sb :: superblock
  icache :: "inode list"
  cwd :: nat

type_synonym 'a fss = "'a fs_state_scheme"

text \<open>\<^verbatim>\<open>devsw\<close>: the read and write functions of a device, where it has them.\<close>

type_synonym 'a devsw = "int \<Rightarrow> (nat \<Rightarrow> uint \<Rightarrow> 'a fss \<Rightarrow> (int \<times> byte list \<times> 'a fss) res) option
  \<times> (nat \<Rightarrow> byte list \<Rightarrow> uint \<Rightarrow> 'a fss \<Rightarrow> (int \<times> 'a fss) res) option"

definition upd_inode :: "nat \<Rightarrow> (inode \<Rightarrow> inode) \<Rightarrow> 'a fss \<Rightarrow> 'a fss" where
  "upd_inode p f s = s\<lparr>icache := (icache s)[p := f (icache s ! p)]\<rparr>"

section \<open>Blocks\<close>

definition IBLOCK :: "uint \<Rightarrow> superblock \<Rightarrow> uint" where
  "IBLOCK i b = i div of_nat IPB + sb_inodestart b"

definition BBLOCK :: "uint \<Rightarrow> superblock \<Rightarrow> uint" where
  "BBLOCK n b = n div of_nat BPB + sb_bmapstart b"

definition bzero :: "uint \<Rightarrow> uint \<Rightarrow> 'a lst \<Rightarrow> 'a lst res" where
  "bzero dev bno s = bindr (bread dev bno s) (\<lambda>(i, s1).
     bindr (log_write i (set_data i (replicate BSIZE 0) s1)) (\<lambda>s2. brelse i s2))"

text \<open>The mask \<^verbatim>\<open>m = 1 << (bi % 8)\<close>, and the byte \<^verbatim>\<open>data[bi/8]\<close> with it set or cleared.\<close>

definition bit_mask :: "nat \<Rightarrow> byte" where
  "bit_mask bi = push_bit (bi mod 8) 1"

definition bit_clear :: "byte list \<Rightarrow> nat \<Rightarrow> bool" where
  "bit_clear d bi \<longleftrightarrow> d ! (bi div 8) AND bit_mask bi = 0"

definition mark_used :: "nat \<Rightarrow> byte list \<Rightarrow> byte list" where
  "mark_used bi d = d[bi div 8 := d ! (bi div 8) OR bit_mask bi]"

definition mark_free :: "nat \<Rightarrow> byte list \<Rightarrow> byte list" where
  "mark_free bi d = d[bi div 8 := d ! (bi div 8) AND NOT (bit_mask bi)]"

text \<open>One turn of the outer loop of \<^verbatim>\<open>balloc\<close>, for \<^verbatim>\<open>b = k * BPB\<close>.\<close>

definition balloc1 :: "uint \<Rightarrow> nat \<Rightarrow> 'a fss \<Rightarrow> ('a fss + (uint \<times> 'a fss)) res" where
  "balloc1 dev k s =
     (let b = k * BPB in
      bindr (bread dev (BBLOCK (of_nat b) (sb s)) s) (\<lambda>(i, s1).
        let d = bdata (bufs s1 ! i) in
        case find (bit_clear d) [0..<min BPB (unat (sb_size (sb s)) - b)] of
          Some bi \<Rightarrow>
            bindr (log_write i (set_data i (mark_used bi d) s1)) (\<lambda>s2.
            bindr (brelse i s2) (\<lambda>s3.
            bindr (bzero dev (of_nat (b + bi)) s3) (\<lambda>s4. Ok (Inr (of_nat (b + bi), s4)))))
        | None \<Rightarrow> bindr (brelse i s1) (\<lambda>s2. Ok (Inl s2))))"

definition balloc :: "uint \<Rightarrow> 'a fss \<Rightarrow> (uint \<times> 'a fss) res" where
  "balloc dev s =
     bindr (forb [0..<(unat (sb_size (sb s)) + BPB - 1) div BPB] (balloc1 dev) s) (\<lambda>x.
       case x of Inl _ \<Rightarrow> Panic ''balloc: out of blocks'' | Inr r \<Rightarrow> Ok r)"

definition bfree :: "uint \<Rightarrow> uint \<Rightarrow> 'a fss \<Rightarrow> 'a fss res" where
  "bfree dev b s =
     bindr (bread dev (BBLOCK b (sb s)) s) (\<lambda>(i, s1).
       let bi = unat b mod BPB; d = bdata (bufs s1 ! i) in
       guardr (\<not> bit_clear d bi) ''freeing free block''
         (bindr (log_write i (set_data i (mark_free bi d) s1)) (\<lambda>s2. brelse i s2)))"

section \<open>Inodes\<close>

definition iinit :: "uint \<Rightarrow> 'a fss \<Rightarrow> 'a fss res" where
  "iinit dev s =
     bindr (readsb dev (s\<lparr>icache := map (\<lambda>ip. ip\<lparr>ilk := free_slk\<rparr>) (icache s)\<rparr>)) (\<lambda>(b, s1). Ok (s1\<lparr>sb := b\<rparr>))"

text \<open>\<^verbatim>\<open>(struct dinode*)bp->data + inum%IPB\<close>: the offset, and the fields there.\<close>

definition di_off :: "uint \<Rightarrow> nat" where
  "di_off i = (unat i mod IPB) * 64"

definition get_dinode :: "byte list \<Rightarrow> nat \<Rightarrow> dinode" where
  "get_dinode d off = \<lparr>dtype = get16 d off, dmajor = get16 d (off + 2), dminor = get16 d (off + 4), dnlink = get16 d (off + 6),
     dsize = get32 d (off + 8), daddrs = map (\<lambda>k. get32 d (off + 12 + 4 * k)) [0..<NDIRECT + 1]\<rparr>"

definition put_dinode :: "byte list \<Rightarrow> nat \<Rightarrow> dinode \<Rightarrow> byte list" where
  "put_dinode d off di = put d off (le16 (dtype di) @ le16 (dmajor di) @ le16 (dminor di) @ le16 (dnlink di)
     @ le32 (dsize di) @ concat (map le32 (daddrs di)))"

text \<open>\<^verbatim>\<open>iget\<close>: an entry that is in use for the inode, or the first free one.\<close>

definition iget :: "uint \<Rightarrow> uint \<Rightarrow> 'a fss \<Rightarrow> (nat \<times> 'a fss) res" where
  "iget dev i s =
     (case first_idx (\<lambda>ip. iref ip > 0 \<and> idev ip = dev \<and> inum ip = i) (icache s) of
        Some p \<Rightarrow> Ok (p, upd_inode p (\<lambda>ip. ip\<lparr>iref := iref ip + 1\<rparr>) s)
      | None \<Rightarrow>
         (case first_idx (\<lambda>ip. iref ip = 0) (icache s) of
            Some p \<Rightarrow> Ok (p, upd_inode p (\<lambda>ip. ip\<lparr>idev := dev, inum := i, iref := 1, ivalid := False\<rparr>) s)
          | None \<Rightarrow> Panic ''iget: no inodes''))"

definition ialloc1 :: "uint \<Rightarrow> 16 word \<Rightarrow> nat \<Rightarrow> 'a fss \<Rightarrow> ('a fss + (nat \<times> 'a fss)) res" where
  "ialloc1 dev ty n s =
     bindr (bread dev (IBLOCK (of_nat n) (sb s)) s) (\<lambda>(i, s1).
       let d = bdata (bufs s1 ! i); off = di_off (of_nat n) in
       if get16 d off = 0
       then bindr (log_write i (set_data i (put16 (put d off (replicate 64 0)) off ty) s1)) (\<lambda>s2.
            bindr (brelse i s2) (\<lambda>s3. bindr (iget dev (of_nat n) s3) (\<lambda>r. Ok (Inr r))))
       else bindr (brelse i s1) (\<lambda>s2. Ok (Inl s2)))"

definition ialloc :: "uint \<Rightarrow> 16 word \<Rightarrow> 'a fss \<Rightarrow> (nat \<times> 'a fss) res" where
  "ialloc dev ty s =
     bindr (forb [1..<unat (sb_ninodes (sb s))] (ialloc1 dev ty) s) (\<lambda>x.
       case x of Inl _ \<Rightarrow> Panic ''ialloc: no inodes'' | Inr r \<Rightarrow> Ok r)"

definition mem_dinode :: "inode \<Rightarrow> dinode" where
  "mem_dinode ip = \<lparr>dtype = itype ip, dmajor = imajor ip, dminor = iminor ip, dnlink = inlink ip, dsize = isize ip, daddrs = addrs ip\<rparr>"

definition iupdate :: "nat \<Rightarrow> 'a fss \<Rightarrow> 'a fss res" where
  "iupdate p s =
     (let ip = icache s ! p in
      bindr (bread (idev ip) (IBLOCK (inum ip) (sb s)) s) (\<lambda>(i, s1).
        bindr (log_write i (set_data i (put_dinode (bdata (bufs s1 ! i)) (di_off (inum ip)) (mem_dinode ip)) s1)) (\<lambda>s2.
        brelse i s2)))"

definition idup :: "nat \<Rightarrow> 'a fss \<Rightarrow> 'a fss" where
  "idup p s = upd_inode p (\<lambda>ip. ip\<lparr>iref := iref ip + 1\<rparr>) s"

definition ilock :: "nat \<Rightarrow> 'a fss \<Rightarrow> 'a fss res" where
  "ilock p s =
     guardr (\<not> iref (icache s ! p) < 1) ''ilock''
     (bindr (slk_acquire (curpid s) (ilk (icache s ! p))) (\<lambda>l.
       let s1 = upd_inode p (\<lambda>ip. ip\<lparr>ilk := l\<rparr>) s; ip = icache s1 ! p in
       if ivalid ip then Ok s1
       else bindr (bread (idev ip) (IBLOCK (inum ip) (sb s1)) s1) (\<lambda>(i, s2).
              let di = get_dinode (bdata (bufs s2 ! i)) (di_off (inum ip));
                  s3 = upd_inode p (\<lambda>ip. ip\<lparr>itype := dtype di, imajor := dmajor di, iminor := dminor di, inlink := dnlink di,
                         isize := dsize di, addrs := daddrs di\<rparr>) s2
              in bindr (brelse i s3) (\<lambda>s4.
                   let s5 = upd_inode p (\<lambda>ip. ip\<lparr>ivalid := True\<rparr>) s4 in
                   guardr (itype (icache s5 ! p) \<noteq> 0) ''ilock: no type'' (Ok s5)))))"

definition iunlock :: "nat \<Rightarrow> 'a fss \<Rightarrow> 'a fss res" where
  "iunlock p s =
     guardr (slk_holding (curpid s) (ilk (icache s ! p)) \<and> \<not> iref (icache s ! p) < 1) ''iunlock''
       (Ok (upd_inode p (\<lambda>ip. ip\<lparr>ilk := slk_release (ilk ip)\<rparr>) s))"

section \<open>The contents of an inode\<close>

definition bmap :: "nat \<Rightarrow> nat \<Rightarrow> 'a fss \<Rightarrow> (uint \<times> 'a fss) res" where
  "bmap p bn s =
     (let dev = idev (icache s ! p) in
      if bn < NDIRECT then
        let a = addrs (icache s ! p) ! bn in
        if a = 0 then bindr (balloc dev s) (\<lambda>(a, s1). Ok (a, upd_inode p (\<lambda>ip. ip\<lparr>addrs := (addrs ip)[bn := a]\<rparr>) s1))
        else Ok (a, s)
      else if bn - NDIRECT < NINDIRECT then
        bindr (let a = addrs (icache s ! p) ! NDIRECT in
               if a = 0 then bindr (balloc dev s) (\<lambda>(a, s1). Ok (a, upd_inode p (\<lambda>ip. ip\<lparr>addrs := (addrs ip)[NDIRECT := a]\<rparr>) s1))
               else Ok (a, s)) (\<lambda>(a, s1).
        bindr (bread dev a s1) (\<lambda>(i, s2).
          let off = 4 * (bn - NDIRECT); a' = get32 (bdata (bufs s2 ! i)) off in
          if a' = 0
          then bindr (balloc dev s2) (\<lambda>(a', s3).
               bindr (log_write i (set_data i (put32 (bdata (bufs s3 ! i)) off a') s3)) (\<lambda>s4.
               bindr (brelse i s4) (\<lambda>s5. Ok (a', s5))))
          else bindr (brelse i s2) (\<lambda>s3. Ok (a', s3))))
      else Panic ''bmap: out of range'')"

definition itrunc1 :: "nat \<Rightarrow> nat \<Rightarrow> 'a fss \<Rightarrow> 'a fss res" where
  "itrunc1 p i s =
     (let a = addrs (icache s ! p) ! i in
      if a \<noteq> 0 then bindr (bfree (idev (icache s ! p)) a s) (\<lambda>s1. Ok (upd_inode p (\<lambda>ip. ip\<lparr>addrs := (addrs ip)[i := 0]\<rparr>) s1))
      else Ok s)"

definition itrunc_ind :: "uint \<Rightarrow> nat \<Rightarrow> nat \<Rightarrow> 'a fss \<Rightarrow> 'a fss res" where
  "itrunc_ind dev i j s =
     (let a = get32 (bdata (bufs s ! i)) (4 * j) in if a \<noteq> 0 then bfree dev a s else Ok s)"

definition itrunc :: "nat \<Rightarrow> 'a fss \<Rightarrow> 'a fss res" where
  "itrunc p s =
     bindr (forr [0..<NDIRECT] (itrunc1 p) s) (\<lambda>s1.
       let dev = idev (icache s1 ! p); a = addrs (icache s1 ! p) ! NDIRECT in
       bindr (if a \<noteq> 0
              then bindr (bread dev a s1) (\<lambda>(i, s2).
                   bindr (forr [0..<NINDIRECT] (itrunc_ind dev i) s2) (\<lambda>s3.
                   bindr (brelse i s3) (\<lambda>s4.
                   bindr (bfree dev a s4) (\<lambda>s5.
                   Ok (upd_inode p (\<lambda>ip. ip\<lparr>addrs := (addrs ip)[NDIRECT := 0]\<rparr>) s5)))))
              else Ok s1) (\<lambda>s6.
       iupdate p (upd_inode p (\<lambda>ip. ip\<lparr>isize := 0\<rparr>) s6)))"

definition iput :: "nat \<Rightarrow> 'a fss \<Rightarrow> 'a fss res" where
  "iput p s =
     bindr (slk_acquire (curpid s) (ilk (icache s ! p))) (\<lambda>l.
       let s1 = upd_inode p (\<lambda>ip. ip\<lparr>ilk := l\<rparr>) s; ip = icache s1 ! p in
       bindr (if ivalid ip \<and> inlink ip = 0 \<and> iref ip = 1
              then bindr (itrunc p s1) (\<lambda>s2.
                   bindr (iupdate p (upd_inode p (\<lambda>ip. ip\<lparr>itype := 0\<rparr>) s2)) (\<lambda>s3.
                   Ok (upd_inode p (\<lambda>ip. ip\<lparr>ivalid := False\<rparr>) s3)))
              else Ok s1) (\<lambda>s4.
       Ok (upd_inode p (\<lambda>ip. ip\<lparr>ilk := slk_release (ilk ip), iref := iref ip - 1\<rparr>) s4)))"

definition iunlockput :: "nat \<Rightarrow> 'a fss \<Rightarrow> 'a fss res" where
  "iunlockput p s = bindr (iunlock p s) (iput p)"

definition stati :: "inode \<Rightarrow> stat" where
  "stati ip = \<lparr>st_type = itype ip, st_dev = idev ip, st_ino = inum ip, st_nlink = inlink ip, st_size = isize ip\<rparr>"

text \<open>The bytes of one turn of the copy loops: to the end of the block or of the request.\<close>

definition chunk :: "nat \<Rightarrow> nat \<Rightarrow> nat" where
  "chunk off n = min n (BSIZE - off mod BSIZE)"

lemma chunk_pos: "n \<noteq> 0 \<Longrightarrow> 0 < chunk off n"
  by (simp add: chunk_def BSIZE_def)

function readi_loop :: "nat \<Rightarrow> nat \<Rightarrow> nat \<Rightarrow> 'a fss \<Rightarrow> (byte list \<times> 'a fss) res" where
  "readi_loop p off n s =
     (if n = 0 then Ok ([], s)
      else bindr (bmap p (off div BSIZE) s) (\<lambda>(a, s1).
           bindr (bread (idev (icache s1 ! p)) a s1) (\<lambda>(i, s2).
           bindr (brelse i s2) (\<lambda>s3.
           bindr (readi_loop p (off + chunk off n) (n - chunk off n) s3) (\<lambda>(r, s4).
           Ok (slice (bdata (bufs s2 ! i)) (off mod BSIZE) (chunk off n) @ r, s4))))))"
  by pat_completeness auto
termination
  by (relation "measure (\<lambda>(p, off, n, s). n)") (use chunk_pos in \<open>auto intro: diff_less\<close>)

declare readi_loop.simps [simp del]

definition readi :: "'a devsw \<Rightarrow> nat \<Rightarrow> uint \<Rightarrow> uint \<Rightarrow> 'a fss \<Rightarrow> (int \<times> byte list \<times> 'a fss) res" where
  "readi dv p off n s =
     (let ip = icache s ! p in
      if itype ip = T_DEV then
        if sint (imajor ip) < 0 \<or> sint (imajor ip) \<ge> NDEV then Ok (-1, [], s)
        else (case fst (dv (sint (imajor ip))) of None \<Rightarrow> Ok (-1, [], s) | Some rd \<Rightarrow> rd p n s)
      else if off > isize ip \<or> off + n < off then Ok (-1, [], s)
      else let n' = (if off + n > isize ip then isize ip - off else n) in
           bindr (readi_loop p (unat off) (unat n') s) (\<lambda>(r, s1). Ok (int (unat n'), r, s1)))"

function writei_loop :: "nat \<Rightarrow> byte list \<Rightarrow> nat \<Rightarrow> nat \<Rightarrow> 'a fss \<Rightarrow> (nat \<times> 'a fss) res" where
  "writei_loop p src off n s =
     (if n = 0 then Ok (off, s)
      else bindr (bmap p (off div BSIZE) s) (\<lambda>(a, s1).
           bindr (bread (idev (icache s1 ! p)) a s1) (\<lambda>(i, s2).
           bindr (log_write i (set_data i (put (bdata (bufs s2 ! i)) (off mod BSIZE) (take (chunk off n) src)) s2)) (\<lambda>s3.
           bindr (brelse i s3) (\<lambda>s4.
           writei_loop p (drop (chunk off n) src) (off + chunk off n) (n - chunk off n) s4)))))"
  by pat_completeness auto
termination
  by (relation "measure (\<lambda>(p, src, off, n, s). n)") (use chunk_pos in \<open>auto intro: diff_less\<close>)

declare writei_loop.simps [simp del]

definition writei :: "'a devsw \<Rightarrow> nat \<Rightarrow> byte list \<Rightarrow> uint \<Rightarrow> uint \<Rightarrow> 'a fss \<Rightarrow> (int \<times> 'a fss) res" where
  "writei dv p src off n s =
     (let ip = icache s ! p in
      if itype ip = T_DEV then
        if sint (imajor ip) < 0 \<or> sint (imajor ip) \<ge> NDEV then Ok (-1, s)
        else (case snd (dv (sint (imajor ip))) of None \<Rightarrow> Ok (-1, s) | Some wr \<Rightarrow> wr p src n s)
      else if off > isize ip \<or> off + n < off then Ok (-1, s)
      else if off + n > of_nat (MAXFILE * BSIZE) then Ok (-1, s)
      else bindr (writei_loop p src (unat off) (unat n) s) (\<lambda>(off', s1).
           bindr (if n > 0 \<and> of_nat off' > isize (icache s1 ! p)
                  then iupdate p (upd_inode p (\<lambda>ip. ip\<lparr>isize := of_nat off'\<rparr>) s1) else Ok s1) (\<lambda>s2.
           Ok (int (unat n), s2))))"

section \<open>Directories\<close>

definition namecmp :: "byte list \<Rightarrow> byte list \<Rightarrow> int" where
  "namecmp a b = strncmp (ptr a) (ptr b) DIRSIZ"

text \<open>A directory entry: a 16-bit inode number, then the name.\<close>

definition de_inum :: "byte list \<Rightarrow> 16 word" where
  "de_inum de = get16 de 0"

definition de_name :: "byte list \<Rightarrow> byte list" where
  "de_name de = drop 2 de"

definition dirlookup1 :: "'a devsw \<Rightarrow> nat \<Rightarrow> byte list \<Rightarrow> nat \<Rightarrow> 'a fss \<Rightarrow> ('a fss + ((nat \<times> uint) \<times> 'a fss)) res" where
  "dirlookup1 dv p name k s =
     bindr (readi dv p (of_nat (16 * k)) 16 s) (\<lambda>(r, de, s1).
       guardr (r = 16) ''dirlookup read''
         (if de_inum de = 0 then Ok (Inl s1)
          else if namecmp name (de_name de) = 0
          then bindr (iget (idev (icache s1 ! p)) (ucast (de_inum de)) s1) (\<lambda>(ip, s2). Ok (Inr ((ip, of_nat (16 * k)), s2)))
          else Ok (Inl s1)))"

text \<open>The number of entries: the loop runs while \<^verbatim>\<open>16 * k < dp->size\<close>.\<close>

definition dir_slots :: "inode \<Rightarrow> nat" where
  "dir_slots dp = (unat (isize dp) + 15) div 16"

definition dirlookup :: "'a devsw \<Rightarrow> nat \<Rightarrow> byte list \<Rightarrow> 'a fss \<Rightarrow> ((nat \<times> uint) option \<times> 'a fss) res" where
  "dirlookup dv p name s =
     guardr (itype (icache s ! p) = T_DIR) ''dirlookup not DIR''
       (bindr (forb [0..<dir_slots (icache s ! p)] (dirlookup1 dv p name) s) (\<lambda>x.
          case x of Inl s1 \<Rightarrow> Ok (None, s1) | Inr (r, s1) \<Rightarrow> Ok (Some r, s1)))"

definition dirlink1 :: "'a devsw \<Rightarrow> nat \<Rightarrow> nat \<Rightarrow> 'a fss \<Rightarrow> ('a fss + (nat \<times> 'a fss)) res" where
  "dirlink1 dv p k s =
     bindr (readi dv p (of_nat (16 * k)) 16 s) (\<lambda>(r, de, s1).
       guardr (r = 16) ''dirlink read''
         (if de_inum de = 0 then Ok (Inr (16 * k, s1)) else Ok (Inl s1)))"

definition dirlink :: "'a devsw \<Rightarrow> nat \<Rightarrow> byte list \<Rightarrow> uint \<Rightarrow> 'a fss \<Rightarrow> (int \<times> 'a fss) res" where
  "dirlink dv p name ino s =
     bindr (dirlookup dv p name s) (\<lambda>(r, s1).
       case r of
         Some (ip, _) \<Rightarrow> bindr (iput ip s1) (\<lambda>s2. Ok (-1, s2))
       | None \<Rightarrow>
          bindr (forb [0..<dir_slots (icache s1 ! p)] (dirlink1 dv p) s1) (\<lambda>x.
            let (off, s2) = (case x of Inl s2 \<Rightarrow> (16 * dir_slots (icache s1 ! p), s2) | Inr r \<Rightarrow> r);
                de = le16 (ucast ino) @ strncpy (ptr name) (int DIRSIZ)
            in bindr (writei dv p de (of_nat off) 16 s2) (\<lambda>(r, s3).
                 guardr (r = 16) ''dirlink'' (Ok (0, s3)))))"

section \<open>Paths\<close>

definition slash :: byte where "slash = 47"

definition skipelem :: "byte list \<Rightarrow> (byte list \<times> byte list) option" where
  "skipelem path =
     (let s = dropWhile (\<lambda>c. c = slash) path in
      if s = [] then None
      else let elem = takeWhile (\<lambda>c. c \<noteq> slash) s; rest = dropWhile (\<lambda>c. c \<noteq> slash) s in
           Some (if length elem \<ge> DIRSIZ then take DIRSIZ elem else elem, dropWhile (\<lambda>c. c = slash) rest))"

lemma skipelem_shorter: "skipelem path = Some (e, r) \<Longrightarrow> length r < length path"
proof -
  assume sk: "skipelem path = Some (e, r)"
  define s where "s = dropWhile (\<lambda>c. c = slash) path"
  have s: "s \<noteq> []" "r = dropWhile (\<lambda>c. c = slash) (dropWhile (\<lambda>c. c \<noteq> slash) s)"
    using sk by (auto simp: skipelem_def Let_def s_def split: if_splits)
  have "hd s \<noteq> slash" using s(1) hd_dropWhile [of "\<lambda>c. c = slash" path] by (simp add: s_def)
  then have "length (dropWhile (\<lambda>c. c \<noteq> slash) s) < length s"
    using s(1) length_dropWhile_le [of _ "tl s"] by (cases s) (auto simp: less_Suc_eq_le)
  also have "length s \<le> length path" by (simp add: s_def length_dropWhile_le)
  finally show ?thesis using s(2) length_dropWhile_le [of "\<lambda>c. c = slash" "dropWhile (\<lambda>c. c \<noteq> slash) s"] by simp
qed

function namex_loop :: "'a devsw \<Rightarrow> byte list \<Rightarrow> bool \<Rightarrow> byte list \<Rightarrow> nat \<Rightarrow> 'a fss \<Rightarrow> ((nat \<times> byte list) option \<times> 'a fss) res" where
  "namex_loop dv path nip name ip s =
     (case skipelem path of
        None \<Rightarrow> if nip then bindr (iput ip s) (\<lambda>s1. Ok (None, s1)) else Ok (Some (ip, name), s)
      | Some (nm, path') \<Rightarrow>
          bindr (ilock ip s) (\<lambda>s1.
            if itype (icache s1 ! ip) \<noteq> T_DIR then bindr (iunlockput ip s1) (\<lambda>s2. Ok (None, s2))
            else if nip \<and> path' = [] then bindr (iunlock ip s1) (\<lambda>s2. Ok (Some (ip, nm), s2))
            else bindr (dirlookup dv ip nm s1) (\<lambda>(r, s2).
                   case r of
                     None \<Rightarrow> bindr (iunlockput ip s2) (\<lambda>s3. Ok (None, s3))
                   | Some (next, _) \<Rightarrow> bindr (iunlockput ip s2) (\<lambda>s3. namex_loop dv path' nip nm next s3))))"
  by pat_completeness auto
termination
  by (relation "measure (\<lambda>(dv, path, _). length path)") (auto dest: skipelem_shorter)

declare namex_loop.simps [simp del]

definition namex :: "'a devsw \<Rightarrow> byte list \<Rightarrow> bool \<Rightarrow> 'a fss \<Rightarrow> ((nat \<times> byte list) option \<times> 'a fss) res" where
  "namex dv path nip s =
     (if path \<noteq> [] \<and> hd path = slash
      then bindr (iget ROOTDEV ROOTINO s) (\<lambda>(ip, s1). namex_loop dv path nip [] ip s1)
      else namex_loop dv path nip [] (cwd s) (idup (cwd s) s))"

definition namei :: "'a devsw \<Rightarrow> byte list \<Rightarrow> 'a fss \<Rightarrow> (nat option \<times> 'a fss) res" where
  "namei dv path s = bindr (namex dv path False s) (\<lambda>(r, s1). Ok (map_option fst r, s1))"

definition nameiparent :: "'a devsw \<Rightarrow> byte list \<Rightarrow> 'a fss \<Rightarrow> ((nat \<times> byte list) option \<times> 'a fss) res" where
  "nameiparent dv path s = namex dv path True s"

end
