(* ===== verification/Fs_Alloc.thy ===== *)
theory Fs_Alloc
  imports Fs
begin

text \<open>
  Block allocation: the layout of the disk that \<^verbatim>\<open>mkfs\<close> makes, the free map as a predicate
  on block numbers, and what \<^verbatim>\<open>balloc\<close> and \<^verbatim>\<open>bfree\<close> do to it.
\<close>

section \<open>Frames\<close>

text \<open>A step of a file-system call: only the cache and the log header change.\<close>

definition fstep :: "'a fss \<Rightarrow> 'a fss \<Rightarrow> bool" where
  "fstep s t \<longleftrightarrow> in_op t \<and> fs_frame s t \<and> keeps s t"

lemma fstep_refl: "in_op s \<Longrightarrow> fstep s s"
  by (simp add: fstep_def)

lemma fstep_trans [trans]: "fstep s t \<Longrightarrow> fstep t u \<Longrightarrow> fstep s u"
  unfolding fstep_def by (blast intro: fs_frame_trans keeps_trans)

lemma fs_frame_fs:
  fixes s t :: "'a fss"
  assumes "fs_frame s t"
  shows "sb t = sb s" "icache t = icache s" "cwd t = cwd s" "fs_state.more t = fs_state.more s"
proof -
  have eq: "t = s\<lparr>bufs := bufs t, lru := lru t, lh_n := lh_n t, lh_block := lh_block t\<rparr>"
    using assms by (simp only: fs_frame_def)
  show "sb t = sb s" by (subst eq) simp
  show "icache t = icache s" by (subst eq) simp
  show "cwd t = cwd s" by (subst eq) simp
  show "fs_state.more t = fs_state.more s" by (subst eq) simp
qed

lemma fstep_fs: "fstep s t \<Longrightarrow> sb t = sb s" "fstep s t \<Longrightarrow> icache t = icache s" "fstep s t \<Longrightarrow> cwd t = cwd s"
  "fstep s t \<Longrightarrow> disksize t = disksize s" "fstep s t \<Longrightarrow> lstart t = lstart s" "fstep s t \<Longrightarrow> lsize t = lsize s"
  "fstep s t \<Longrightarrow> log_area t = log_area s" "fstep s t \<Longrightarrow> held_blk t n = held_blk s n" "fstep s t \<Longrightarrow> in_op t"
  "fstep s t \<Longrightarrow> curpid t = curpid s"
  by (simp_all add: fstep_def fs_frame_fs fs_frame_sel fs_frame_area keeps_held)

lemma modified_fstep: "modified s n d t \<Longrightarrow> fstep s t \<and> blk t = (blk s)(n := d)"
  by (simp add: modified_def fstep_def)

section \<open>Layout\<close>

definition data_start :: "superblock \<Rightarrow> nat" where
  "data_start b = unat (sb_bmapstart b) + unat (sb_size b) div BPB + 1"

text \<open>Boot block, superblock, log, inodes, free map, data: in this order, on the disk.\<close>

definition layout :: "'a fss \<Rightarrow> bool" where
  "layout s \<longleftrightarrow> lstart s = sb_logstart (sb s) \<and> 2 \<le> unat (lstart s)
     \<and> unat (lstart s) + nat (lsize s) \<le> unat (sb_inodestart (sb s))
     \<and> unat (sb_inodestart (sb s)) + unat (sb_ninodes (sb s)) div IPB + 1 \<le> unat (sb_bmapstart (sb s))
     \<and> data_start (sb s) \<le> unat (sb_size (sb s)) \<and> sb_size (sb s) \<le> disksize s"

definition is_data :: "'a fss \<Rightarrow> uint \<Rightarrow> bool" where
  "is_data s a \<longleftrightarrow> data_start (sb s) \<le> unat a \<and> unat a < unat (sb_size (sb s))"

lemma layout_fstep: "fstep s t \<Longrightarrow> layout t = layout s" "fstep s t \<Longrightarrow> is_data t = is_data s"
  by (simp_all add: layout_def is_data_def fstep_fs fun_eq_iff)

lemma BPB_val: "BPB = 4096" and IPB_val: "IPB = 8" and NINDIRECT_val: "NINDIRECT = 128"
  by (simp_all add: BPB_def IPB_def NINDIRECT_def BSIZE_def)

lemma unat_BBLOCK:
  assumes "layout s" and "unat a < unat (sb_size (sb s))"
  shows "unat (BBLOCK a (sb s)) = unat (sb_bmapstart (sb s)) + unat a div BPB"
proof -
  have "unat a div BPB \<le> unat (sb_size (sb s)) div BPB" using assms(2) by (simp add: div_le_mono)
  then have lt: "unat (sb_bmapstart (sb s)) + unat a div BPB < 4294967296"
    using assms(1) unat_uint_less [of "sb_size (sb s)"] by (simp add: layout_def data_start_def)
  have "unat (a div of_nat BPB) = unat a div BPB" by (simp add: BPB_val unat_div_distrib)
  then show ?thesis unfolding BBLOCK_def using lt by (subst unat_add_uint) simp_all
qed

text \<open>The blocks of the free map: on the disk, outside the log, below the data.\<close>

lemma bitmap_block:
  assumes s: "layout s" "log_geom s" and a: "unat a < unat (sb_size (sb s))"
  shows "BBLOCK a (sb s) < disksize s" "BBLOCK a (sb s) \<notin> log_area s" "\<not> is_data s (BBLOCK a (sb s))"
proof -
  have le: "unat a div BPB \<le> unat (sb_size (sb s)) div BPB" using a by (simp add: div_le_mono)
  note u = unat_BBLOCK [OF s(1) a]
  have sz: "unat (sb_size (sb s)) \<le> unat (disksize s)" using s(1) by (simp add: layout_def word_le_nat_alt)
  show "BBLOCK a (sb s) < disksize s" "BBLOCK a (sb s) \<notin> log_area s" "\<not> is_data s (BBLOCK a (sb s))"
    using u le sz s(1) by (auto simp: layout_def data_start_def log_area_def is_data_def word_less_nat_alt)
qed

lemma data_block:
  assumes "layout s" and "is_data s a"
  shows "a < disksize s" "a \<notin> log_area s" "a \<noteq> 0" "unat a < unat (sb_size (sb s))"
  using assms by (auto simp: layout_def data_start_def log_area_def is_data_def word_less_nat_alt word_le_nat_alt)

section \<open>The free map\<close>

definition used :: "'a fss \<Rightarrow> uint \<Rightarrow> bool" where
  "used s a \<longleftrightarrow> unat a < unat (sb_size (sb s)) \<and> \<not> bit_clear (blk s (BBLOCK a (sb s))) (unat a mod BPB)"

lemma bit_mask_and: "b AND bit_mask i = 0 \<longleftrightarrow> \<not> bit b (i mod 8)"
proof -
  have i: "i mod 8 < 8" by simp
  have "b AND bit_mask i = (if bit b (i mod 8) then push_bit (i mod 8) 1 else 0)"
    by (rule bit_word_eqI) (auto simp: bit_mask_def bit_simps)
  moreover have "push_bit (i mod 8) (1 :: byte) \<noteq> 0"
  proof
    assume "push_bit (i mod 8) (1 :: byte) = 0"
    then have "bit (push_bit (i mod 8) (1 :: byte)) (i mod 8) = bit (0 :: byte) (i mod 8)" by simp
    then show False using i by (simp add: bit_simps)
  qed
  ultimately show ?thesis by simp
qed

lemma bit_clear_iff: "bit_clear d i \<longleftrightarrow> \<not> bit (d ! (i div 8)) (i mod 8)"
  by (simp add: bit_clear_def bit_mask_and)

lemma same_bit: "i div 8 = j div 8 \<Longrightarrow> i mod 8 = j mod 8 \<longleftrightarrow> i = (j :: nat)"
  by (metis div_mult_mod_eq)

lemma bit_mask_bit: "bit (bit_mask i) (j mod 8) \<longleftrightarrow> i mod 8 = j mod 8"
proof -
  have "j mod 8 < 8" by simp
  then show ?thesis unfolding bit_mask_def by (simp add: bit_simps) linarith
qed

lemma mark_used_bit:
  assumes "length d = BSIZE" and "i < BPB" and "j < BPB"
  shows "bit_clear (mark_used i d) j \<longleftrightarrow> bit_clear d j \<and> j \<noteq> i" "length (mark_used i d) = BSIZE"
proof -
  have i: "i div 8 < length d" using assms by (simp add: BPB_val BSIZE_def)
  show "length (mark_used i d) = BSIZE" using assms by (simp add: mark_used_def)
  show "bit_clear (mark_used i d) j \<longleftrightarrow> bit_clear d j \<and> j \<noteq> i"
    using i same_bit [of i j] by (cases "i div 8 = j div 8") (auto simp: bit_clear_iff mark_used_def bit_or_iff bit_mask_bit)
qed

lemma mark_free_bit:
  assumes "length d = BSIZE" and "i < BPB" and "j < BPB"
  shows "bit_clear (mark_free i d) j \<longleftrightarrow> bit_clear d j \<or> j = i" "length (mark_free i d) = BSIZE"
proof -
  have i: "i div 8 < length d" using assms by (simp add: BPB_val BSIZE_def)
  have m: "j mod 8 < 8" by simp
  show "length (mark_free i d) = BSIZE" using assms by (simp add: mark_free_def)
  show "bit_clear (mark_free i d) j \<longleftrightarrow> bit_clear d j \<or> j = i"
    using i m same_bit [of i j] by (cases "i div 8 = j div 8") (auto simp: bit_clear_iff mark_free_def bit_and_iff bit_not_iff bit_mask_bit)
qed

text \<open>Two blocks that share a bit of the free map are one block.\<close>

lemma bitmap_inj:
  assumes "layout s" and "unat a < unat (sb_size (sb s))" and "unat b < unat (sb_size (sb s))"
    and "BBLOCK a (sb s) = BBLOCK b (sb s)" and "unat a mod BPB = unat b mod BPB"
  shows "a = b"
proof -
  have "unat a div BPB = unat b div BPB"
    using unat_BBLOCK [OF assms(1,2)] unat_BBLOCK [OF assms(1,3)] assms(4) by simp
  then have "unat a = unat b" using assms(5) by (metis div_mult_mod_eq)
  then show ?thesis by (simp add: word_unat_eq_iff)
qed

section \<open>Allocating a block\<close>

text \<open>The panics that stand for an exhausted resource.\<close>

definition limits :: "string set" where
  "limits = {''bget: no buffers'', ''too big a transaction'', ''balloc: out of blocks'', ''ialloc: no inodes'', ''iget: no inodes''}"

definition io_limits :: "string set" where
  "io_limits = {''bget: no buffers'', ''too big a transaction''}"

lemma in_io_limits [simp]: "''bget: no buffers'' \<in> io_limits" "''too big a transaction'' \<in> io_limits" "io_limits \<subseteq> limits"
  by (simp_all add: limits_def io_limits_def)

lemma in_limits [simp]: "''bget: no buffers'' \<in> limits" "''too big a transaction'' \<in> limits" "''balloc: out of blocks'' \<in> limits"
  "''ialloc: no inodes'' \<in> limits" "''iget: no inodes'' \<in> limits"
  by (simp_all add: limits_def)

text \<open>Free blocks are data blocks, and the blocks that are held are allocated data blocks.\<close>

definition alloc_ok :: "'a fss \<Rightarrow> bool" where
  "alloc_ok s \<longleftrightarrow> in_op s \<and> layout s
     \<and> (\<forall>a. unat a < unat (sb_size (sb s)) \<and> \<not> used s a \<longrightarrow> is_data s a)
     \<and> (\<forall>a. held_blk s a \<longrightarrow> used s a \<and> is_data s a)"

lemma alloc_okD: "alloc_ok s \<Longrightarrow> in_op s" "alloc_ok s \<Longrightarrow> layout s" "alloc_ok s \<Longrightarrow> log_geom s"
  "alloc_ok s \<Longrightarrow> unat a < unat (sb_size (sb s)) \<Longrightarrow> \<not> used s a \<Longrightarrow> is_data s a"
  "alloc_ok s \<Longrightarrow> held_blk s a \<Longrightarrow> used s a \<and> is_data s a" "alloc_ok s \<Longrightarrow> binv s"
  by (auto simp: alloc_ok_def in_opD)

text \<open>The effect of an allocation on the blocks.\<close>

definition alloc_blk :: "superblock \<Rightarrow> uint \<Rightarrow> (uint \<Rightarrow> byte list) \<Rightarrow> uint \<Rightarrow> byte list" where
  "alloc_blk b a f = f(BBLOCK a b := mark_used (unat a mod BPB) (f (BBLOCK a b)), a := replicate BSIZE 0)"

definition allocated :: "'a fss \<Rightarrow> uint \<Rightarrow> 'a fss \<Rightarrow> bool" where
  "allocated s a t \<longleftrightarrow> fstep s t \<and> \<not> used s a \<and> is_data s a \<and> blk t = alloc_blk (sb s) a (blk s)"

lemma bzero_spec:
  assumes "in_op s" and "layout s" and "is_data s a" and "\<not> held_blk s a"
  shows "ends io_limits (bzero 1 a s) (modified s a (replicate BSIZE 0))"
  using log_modify [OF assms(1) _ assms(4), of io_limits "\<lambda>_. replicate BSIZE 0"] data_block [OF assms(2,3)]
  by (simp add: bzero_def)

text \<open>No block of the group that one block of the free map describes is free.\<close>

definition full_group :: "'a fss \<Rightarrow> nat \<Rightarrow> bool" where
  "full_group s k \<longleftrightarrow> (\<forall>c. unat c < unat (sb_size (sb s)) \<longrightarrow> unat c div BPB = k \<longrightarrow> used s c)"

lemma balloc1_spec:
  assumes s: "alloc_ok s" and v: "fstep s v" "blk v = blk s" and k: "k < (unat (sb_size (sb s)) + BPB - 1) div BPB"
  shows "ends io_limits (balloc1 1 k v) (case_sum (\<lambda>u. fstep s u \<and> blk u = blk s \<and> full_group s k) (\<lambda>(a, t). allocated s a t))"
proof -
  let ?size = "unat (sb_size (sb s))"
  have op: "in_op v" and lay: "layout v" "log_geom v"
    using fstep_fs [OF v(1)] layout_fstep [OF v(1)] alloc_okD(2) [OF s] in_opD(3) by auto
  have kb: "k * BPB < ?size" using k by (auto simp: BPB_val)
  let ?n = "BBLOCK (of_nat (k * BPB)) (sb v)"
  have ukb: "unat (of_nat (k * BPB) :: uint) = k * BPB"
    using kb unat_uint_less [of "sb_size (sb s)"] by (intro unat_of_nat_uint) simp
  note n = bitmap_block [OF lay, of "of_nat (k * BPB)", unfolded ukb fstep_fs(1) [OF v(1)], OF kb]
  have nh: "\<not> held_blk v m" if "\<not> is_data s m \<or> \<not> used s m" for m
    using that alloc_okD(5) [OF s] fstep_fs(8) [OF v(1)] by auto
  have nn: "?n < disksize v" "\<not> held_blk v ?n" "?n \<notin> log_area v"
    using n nh layout_fstep(2) [OF v(1)] fstep_fs(1) [OF v(1)] by auto
  show ?thesis unfolding balloc1_def Let_def
  proof (rule ends_bindI [OF bread_op [OF op nn(1,2)]], simp, clarify)
    fix i and t :: "'a fss"
    assume t: "binv t" "has_buf t i ?n (blk v ?n)" "read_frame v i t"
    have d: "bdata (bufs t ! i) = blk v ?n" using has_bufD(5) [OF t(1,2)] .
    have ld: "length (blk v ?n) = BSIZE" by (rule length_blk [OF in_opD(1) [OF op]])
    show "ends io_limits
        (case find (bit_clear (bdata (bufs t ! i))) [0..<min BPB (unat (sb_size (sb v)) - k * BPB)] of
          None \<Rightarrow> bindr (brelse i t) (\<lambda>s2. Ok (Inl s2))
        | Some bi \<Rightarrow> bindr (log_write i (set_data i (mark_used bi (bdata (bufs t ! i))) t)) (\<lambda>s2.
            bindr (brelse i s2) (\<lambda>s3. bindr (bzero 1 (of_nat (k * BPB + bi)) s3) (\<lambda>s4. Ok (Inr (of_nat (k * BPB + bi), s4))))))
        (case_sum (\<lambda>u. fstep s u \<and> blk u = blk s \<and> full_group s k) (\<lambda>(a, t). allocated s a t))"
    proof (cases "find (bit_clear (bdata (bufs t ! i))) [0..<min BPB (unat (sb_size (sb v)) - k * BPB)]")
      case None
      have full: "full_group s k" unfolding full_group_def
      proof (intro allI impI)
        fix c :: uint
        assume c: "unat c < ?size" "unat c div BPB = k"
        have "unat (BBLOCK c (sb s)) = unat ?n"
          using unat_BBLOCK [OF alloc_okD(2) [OF s], of c] unat_BBLOCK [OF alloc_okD(2) [OF s], of "of_nat (k * BPB)"]
            c ukb kb fstep_fs(1) [OF v(1)] by (simp add: BPB_val)
        then have "BBLOCK c (sb s) = ?n" by (simp add: word_unat_eq_iff)
        moreover have "unat c = k * BPB + unat c mod BPB" using c(2) by (metis div_mult_mod_eq)
        then have "unat c mod BPB < min BPB (unat (sb_size (sb v)) - k * BPB)"
          using c(1) fstep_fs(1) [OF v(1)] by (simp add: BPB_val)
        ultimately show "used s c" using None d v(2) c(1) by (auto simp: find_None_iff used_def)
      qed
      have "ends io_limits (bindr (brelse i t) (\<lambda>s2. Ok (Inl s2))) (case_sum (\<lambda>u. fstep s u \<and> blk u = blk s \<and> full_group s k) (\<lambda>(a, t). allocated s a t))"
        by (rule read_release_cont [OF op nn(1,2) t]) (use v full fstep_trans [OF v(1)] in \<open>auto simp: fstep_def\<close>)
      then show ?thesis using None by simp
    next
      case (Some bi)
      then have bi: "bi < BPB" "k * BPB + bi < ?size" "bit_clear (blk v ?n) bi"
        using d kb fstep_fs(1) [OF v(1)] by (auto simp: find_Some_iff)
      define a where "a = (of_nat (k * BPB + bi) :: uint)"
      have ua: "unat a = k * BPB + bi" unfolding a_def using bi(2) unat_uint_less [of "sb_size (sb s)"] by (intro unat_of_nat_uint) simp
      have dm: "unat a div BPB = k" "unat a mod BPB = bi" using bi(1) by (simp_all add: ua)
      have lays: "layout s" using alloc_okD(2) [OF s] .
      have "unat (BBLOCK a (sb s)) = unat ?n"
        using unat_BBLOCK [OF lays, of a] unat_BBLOCK [OF lays, of "of_nat (k * BPB)"] bi(2) ua ukb kb dm fstep_fs(1) [OF v(1)]
        by (simp add: BPB_val)
      then have same: "BBLOCK a (sb s) = ?n" by (simp add: word_unat_eq_iff)
      then have free: "\<not> used s a" using bi(3) v(2) dm by (simp add: used_def)
      then have data: "is_data s a" using alloc_okD(4) [OF s] bi(2) ua by simp
      have "ends io_limits (bindr (log_write i (set_data i (mark_used bi (blk v ?n)) t)) (\<lambda>s2.
            bindr (brelse i s2) (\<lambda>s3. bindr (bzero 1 a s3) (\<lambda>s4. Ok (Inr (a, s4))))))
          (case_sum (\<lambda>u. fstep s u \<and> blk u = blk s \<and> full_group s k) (\<lambda>(a, t). allocated s a t))"
      proof (rule log_modify_cont [OF op t _ nn(3)])
        show "length (mark_used bi (blk v ?n)) = BSIZE" using mark_used_bit(2) [OF ld bi(1) bi(1)] .
        fix w :: "'a fss"
        assume "modified v ?n (mark_used bi (blk v ?n)) w"
        then have w: "fstep v w" "blk w = (blk v)(?n := mark_used bi (blk v ?n))" using modified_fstep by auto
        have sw: "fstep s w" by (rule fstep_trans [OF v(1) w(1)])
        have "ends io_limits (bzero 1 a w) (modified w a (replicate BSIZE 0))"
          using fstep_fs [OF sw] layout_fstep [OF sw] lays data nh [of a] free fstep_fs(8) [OF w(1)] by (intro bzero_spec) auto
        then show "ends io_limits (bindr (bzero 1 a w) (\<lambda>s4. Ok (Inr (a, s4))))
          (case_sum (\<lambda>u. fstep s u \<and> blk u = blk s \<and> full_group s k) (\<lambda>(a, t). allocated s a t))"
        proof (simp, elim ends_mono)
          fix x
          assume "modified w a (replicate BSIZE 0) x"
          then have x: "fstep w x" "blk x = (blk w)(a := replicate BSIZE 0)" using modified_fstep by auto
          show "allocated s a x"
            using fstep_trans [OF sw x(1)] free data x(2) w(2) v(2) same dm by (simp add: allocated_def alloc_blk_def)
        qed
      qed simp
      then show ?thesis unfolding a_def using Some d by simp
    qed
  qed
qed

text \<open>The allocator gives up only when every block is in use.\<close>

definition balloc_limits :: "'a fss \<Rightarrow> string set" where
  "balloc_limits s = (if \<forall>c. unat c < unat (sb_size (sb s)) \<longrightarrow> used s c then limits else io_limits)"

lemma balloc_spec:
  assumes s: "alloc_ok s"
  shows "ends (balloc_limits s) (balloc 1 s) (\<lambda>(a, t). allocated s a t)"
proof -
  let ?n = "(unat (sb_size (sb s)) + BPB - 1) div BPB"
  let ?P = "\<lambda>k u. fstep s u \<and> blk u = blk s \<and> (\<forall>j < k. full_group s j)"
  have "ends io_limits (forb [0..<?n] (balloc1 1) s) (case_sum (?P ?n) (\<lambda>(a, t). allocated s a t))"
  proof (rule ends_forb)
    show "?P 0 s" using fstep_refl alloc_okD(1) [OF s] by simp
    fix k u
    assume k: "k < ?n" and u: "?P k u"
    have "ends io_limits (balloc1 1 k u) (case_sum (\<lambda>u. fstep s u \<and> blk u = blk s \<and> full_group s k) (\<lambda>(a, t). allocated s a t))"
      using balloc1_spec [OF s _ _ k] u by blast
    then show "ends io_limits (balloc1 1 k u) (case_sum (?P (Suc k)) (\<lambda>(a, t). allocated s a t))"
      by (rule ends_mono) (use u in \<open>auto simp: less_Suc_eq split: sum.splits\<close>)
  qed
  then have "ends (balloc_limits s) (forb [0..<?n] (balloc1 1) s) (case_sum (?P ?n) (\<lambda>(a, t). allocated s a t))"
    by (rule ends_weaken) (simp add: balloc_limits_def)
  then show ?thesis unfolding balloc_def
  proof (rule ends_bindI)
    fix x
    assume x: "case_sum (?P ?n) (\<lambda>(a, t). allocated s a t) x"
    have "used s c" if "\<forall>j < ?n. full_group s j" "unat c < unat (sb_size (sb s))" for c
    proof -
      have "unat c div BPB < ?n" using that(2) by (simp add: BPB_val)
      then show ?thesis using that by (auto simp: full_group_def)
    qed
    then show "ends (balloc_limits s) (case x of Inl _ \<Rightarrow> Panic ''balloc: out of blocks'' | Inr r \<Rightarrow> Ok r) (\<lambda>(a, t). allocated s a t)"
      using x by (auto simp: balloc_limits_def split: sum.splits)
  qed
qed

lemma balloc_limits_sub: "balloc_limits s \<subseteq> limits"
  by (simp add: balloc_limits_def)

lemmas balloc_ends = ends_weaken [OF balloc_spec balloc_limits_sub]

text \<open>After an allocation: the block is used and zero, no other allocated or metadata block has changed.\<close>

definition is_bitmap :: "'a fss \<Rightarrow> uint \<Rightarrow> bool" where
  "is_bitmap s m \<longleftrightarrow> unat (sb_bmapstart (sb s)) \<le> unat m \<and> unat m < data_start (sb s)"

lemma bitmap_is_bitmap: "layout s \<Longrightarrow> unat a < unat (sb_size (sb s)) \<Longrightarrow> is_bitmap s (BBLOCK a (sb s))"
  using unat_BBLOCK [of s a] div_le_mono [of "unat a" "unat (sb_size (sb s))" BPB]
  by (simp add: is_bitmap_def data_start_def)

lemma data_not_bitmap: "is_data s a \<Longrightarrow> \<not> is_bitmap s a"
  by (simp add: is_data_def is_bitmap_def)

lemma allocated_blk:
  assumes "alloc_ok s" and "allocated s a t"
  shows "blk t a = replicate BSIZE 0" and "m \<noteq> a \<Longrightarrow> \<not> is_bitmap s m \<Longrightarrow> blk t m = blk s m"
  using assms bitmap_is_bitmap [OF alloc_okD(2) [OF assms(1)], of a] data_block(4) [of s a]
  by (auto simp: allocated_def alloc_blk_def alloc_okD)

lemma allocated_used:
  assumes s: "alloc_ok s" and t: "allocated s a t" and b: "unat b < unat (sb_size (sb s))"
  shows "used t b \<longleftrightarrow> used s b \<or> b = a"
proof -
  have lay: "layout s" using alloc_okD(2) [OF s] .
  have a: "is_data s a" "unat a < unat (sb_size (sb s))" using t data_block(4) [OF lay] by (auto simp: allocated_def)
  have sbt: "sb t = sb s" using t fstep_fs(1) [of s t] by (simp add: allocated_def)
  have "BBLOCK b (sb s) \<noteq> a" using bitmap_block(3) [OF lay alloc_okD(3) [OF s] b] a(1) by auto
  then have bt: "blk t (BBLOCK b (sb s)) = (if BBLOCK b (sb s) = BBLOCK a (sb s)
      then mark_used (unat a mod BPB) (blk s (BBLOCK a (sb s))) else blk s (BBLOCK b (sb s)))"
    using t by (simp add: allocated_def alloc_blk_def)
  have m: "unat a mod BPB < BPB" "unat b mod BPB < BPB" by (simp_all add: BPB_val)
  show ?thesis
  proof (cases "BBLOCK b (sb s) = BBLOCK a (sb s)")
    case True
    then have "unat b mod BPB = unat a mod BPB \<longleftrightarrow> b = a" using bitmap_inj [OF lay b a(2)] by blast
    then show ?thesis using True bt mark_used_bit(1) [OF length_blk [OF alloc_okD(6) [OF s]] m] a(2) b by (auto simp: used_def sbt)
  next
    case False
    then show ?thesis using bt b by (auto simp: used_def sbt)
  qed
qed

lemma is_data_used_frame: "fstep s t \<Longrightarrow> is_data t = is_data s" "fstep s t \<Longrightarrow> is_bitmap t = is_bitmap s"
  by (simp_all add: is_data_def is_bitmap_def fstep_fs fun_eq_iff)

lemma allocated_ok:
  assumes s: "alloc_ok s" and t: "allocated s a t"
  shows "alloc_ok t"
proof -
  have st: "fstep s t" and a: "is_data s a" using t by (simp_all add: allocated_def)
  note f = fstep_fs [OF st]
  have lay: "layout s" using alloc_okD(2) [OF s] .
  have "held_blk t b \<Longrightarrow> used t b \<and> is_data t b" for b
    using f alloc_okD(5) [OF s, of b] allocated_used [OF s t, of b] data_block(4) [OF lay, of b] layout_fstep(2) [OF st] by auto
  moreover have "is_data t b" if "unat b < unat (sb_size (sb t))" "\<not> used t b" for b
    using that f(1) alloc_okD(4) [OF s, of b] allocated_used [OF s t, of b] layout_fstep(2) [OF st] by auto
  ultimately show ?thesis
    using f(9) layout_fstep(1) [OF st] lay by (auto simp: alloc_ok_def)
qed

section \<open>Freeing a block\<close>

definition freed :: "'a fss \<Rightarrow> uint \<Rightarrow> 'a fss \<Rightarrow> bool" where
  "freed s a t \<longleftrightarrow> fstep s t \<and> blk t = (blk s)(BBLOCK a (sb s) := mark_free (unat a mod BPB) (blk s (BBLOCK a (sb s))))"

lemma bfree_spec:
  assumes s: "alloc_ok s" and a: "is_data s a" "used s a"
  shows "ends limits (bfree 1 a s) (freed s a)"
proof -
  have op: "in_op s" "layout s" "log_geom s" using alloc_okD [OF s] by auto
  have au: "unat a < unat (sb_size (sb s))" using data_block(4) [OF op(2) a(1)] .
  let ?n = "BBLOCK a (sb s)"
  note n = bitmap_block [OF op(2,3) au]
  have nh: "\<not> held_blk s ?n" using n(3) alloc_okD(5) [OF s] by blast
  show ?thesis unfolding bfree_def Let_def
  proof (rule ends_bindI [OF bread_op [OF op(1) n(1) nh]], simp, clarify)
    fix i and t :: "'a fss"
    assume t: "binv t" "has_buf t i ?n (blk s ?n)" "read_frame s i t"
    have d: "bdata (bufs t ! i) = blk s ?n" using has_bufD(5) [OF t(1,2)] .
    have m: "unat a mod BPB < BPB" by (simp add: BPB_val)
    have "length (mark_free (unat a mod BPB) (blk s ?n)) = BSIZE"
      using mark_free_bit(2) [OF length_blk [OF in_opD(1) [OF op(1)]] m m] .
    from ends_weaken [OF log_modify_tail [OF op(1) t this n(2)], of limits]
    have "ends limits (bindr (log_write i (set_data i (mark_free (unat a mod BPB) (blk s ?n)) t)) (\<lambda>s2. brelse i s2)) (freed s a)"
      by (rule ends_mono) (use modified_fstep in \<open>auto simp: freed_def limits_def\<close>)
    then show "ends limits (guardr (\<not> bit_clear (bdata (bufs t ! i)) (unat a mod BPB)) ''freeing free block''
        (bindr (log_write i (set_data i (mark_free (unat a mod BPB) (bdata (bufs t ! i))) t)) (brelse i))) (freed s a)"
      using a(2) by (simp add: d used_def)
  qed
qed

lemma freed_blk:
  assumes "alloc_ok s" and "is_data s a" and "freed s a t" and "\<not> is_bitmap s m"
  shows "blk t m = blk s m"
  using assms bitmap_is_bitmap [of s a] data_block(4) [of s a] by (auto simp: freed_def alloc_okD)

lemma freed_used:
  assumes s: "alloc_ok s" and a: "is_data s a" and t: "freed s a t" and b: "unat b < unat (sb_size (sb s))"
  shows "used t b \<longleftrightarrow> used s b \<and> b \<noteq> a"
proof -
  have lay: "layout s" using alloc_okD(2) [OF s] .
  have au: "unat a < unat (sb_size (sb s))" using data_block(4) [OF lay a] .
  have sbt: "sb t = sb s" using t fstep_fs(1) [of s t] by (simp add: freed_def)
  have m: "unat a mod BPB < BPB" "unat b mod BPB < BPB" by (simp_all add: BPB_val)
  show ?thesis
  proof (cases "BBLOCK b (sb s) = BBLOCK a (sb s)")
    case True
    then have "unat b mod BPB = unat a mod BPB \<longleftrightarrow> b = a" using bitmap_inj [OF lay b au] by blast
    then show ?thesis
      using True t mark_free_bit(1) [OF length_blk [OF alloc_okD(6) [OF s]] m] by (auto simp: used_def sbt freed_def)
  next
    case False
    then show ?thesis using t by (auto simp: used_def sbt freed_def)
  qed
qed

lemma freed_ok:
  assumes s: "alloc_ok s" and a: "is_data s a" and t: "freed s a t" and nh: "\<not> held_blk s a"
  shows "alloc_ok t"
proof -
  have st: "fstep s t" using t by (simp add: freed_def)
  note f = fstep_fs [OF st]
  have lay: "layout s" using alloc_okD(2) [OF s] .
  have "used t b \<and> is_data t b" if "held_blk t b" for b
  proof -
    have b: "used s b" "is_data s b" "b \<noteq> a" using that f alloc_okD(5) [OF s, of b] nh by auto
    then show ?thesis using freed_used [OF s a t, of b] data_block(4) [OF lay b(2)] layout_fstep(2) [OF st] by auto
  qed
  moreover have "is_data t b" if "unat b < unat (sb_size (sb t))" "\<not> used t b" for b
    using that f(1) alloc_okD(4) [OF s, of b] freed_used [OF s a t, of b] a layout_fstep(2) [OF st] by auto
  ultimately show ?thesis
    using f(9) layout_fstep(1) [OF st] lay by (auto simp: alloc_ok_def)
qed

end
