(* ===== verification/Fs_Bmap.thy ===== *)
theory Fs_Bmap
  imports Fs_Alloc
begin

text \<open>
  The block map of an inode as a function, the bytes of a file, and \<^verbatim>\<open>bmap\<close>, which
  finds or allocates the block of an offset without changing the bytes.
\<close>

section \<open>Steps that change the inode cache\<close>

lemma upd_icache [simp]:
  fixes s :: "'a fss"
  shows "binv (s\<lparr>icache := x\<rparr>) = binv s" "blk (s\<lparr>icache := x\<rparr>) = blk s" "dirty_blk (s\<lparr>icache := x\<rparr>) = dirty_blk s"
    "held_blk (s\<lparr>icache := x\<rparr>) = held_blk s" "quiet (s\<lparr>icache := x\<rparr>) = quiet s" "is_locked (s\<lparr>icache := x\<rparr>) = is_locked s"
  by (rule binv_cong cache_cong; simp)+

lemma upd_icache_op [simp]:
  fixes s :: "'a fss"
  shows "in_op (s\<lparr>icache := x\<rparr>) = in_op s" "layout (s\<lparr>icache := x\<rparr>) = layout s" "is_data (s\<lparr>icache := x\<rparr>) = is_data s"
    "is_bitmap (s\<lparr>icache := x\<rparr>) = is_bitmap s" "used (s\<lparr>icache := x\<rparr>) = used s" "alloc_ok (s\<lparr>icache := x\<rparr>) = alloc_ok s"
    "log_area (s\<lparr>icache := x\<rparr>) = log_area s"
proof -
  have w: "log_wf (s\<lparr>icache := x\<rparr>) = log_wf s"
    by (simp add: log_wf_def log_geom_def log_entries_def logged_def log_area_def)
  then show op: "in_op (s\<lparr>icache := x\<rparr>) = in_op s" by (simp add: in_op_def)
  show l: "layout (s\<lparr>icache := x\<rparr>) = layout s" and d: "is_data (s\<lparr>icache := x\<rparr>) = is_data s"
    and "is_bitmap (s\<lparr>icache := x\<rparr>) = is_bitmap s" and u: "used (s\<lparr>icache := x\<rparr>) = used s"
    by (simp_all add: layout_def is_data_def is_bitmap_def used_def fun_eq_iff)
  show "alloc_ok (s\<lparr>icache := x\<rparr>) = alloc_ok s" using op l d u by (simp add: alloc_ok_def)
  show "log_area (s\<lparr>icache := x\<rparr>) = log_area s" by (simp add: log_area_def)
qed

lemma keeps_icache [simp]: "keeps (s\<lparr>icache := x\<rparr>) t = keeps s t" "keeps s (t\<lparr>icache := x\<rparr>) = keeps s t"
  for s t :: "'a fss"
  by (simp_all add: keeps_def)

text \<open>A step that may also change entries of the inode cache.\<close>

definition istep :: "'a fss \<Rightarrow> 'a fss \<Rightarrow> bool" where
  "istep s t \<longleftrightarrow> fstep (s\<lparr>icache := icache t\<rparr>) t"

lemma istep_refl: "in_op s \<Longrightarrow> istep s s"
  by (simp add: istep_def fstep_refl)

lemma fs_frame_icache: "fs_frame s t \<Longrightarrow> fs_frame (s\<lparr>icache := x\<rparr>) (t\<lparr>icache := x\<rparr>)" for s t :: "'a fss"
proof -
  assume "fs_frame s t"
  then have "t = s\<lparr>bufs := bufs t, lru := lru t, lh_n := lh_n t, lh_block := lh_block t\<rparr>" by (simp only: fs_frame_def)
  from arg_cong [OF this, of "\<lambda>u. u\<lparr>icache := x\<rparr>"] show ?thesis by (simp add: fs_frame_def)
qed

lemma fstep_icache: "fstep s t \<Longrightarrow> fstep (s\<lparr>icache := x\<rparr>) (t\<lparr>icache := x\<rparr>)"
  unfolding fstep_def using fs_frame_icache [of s t x] by simp

lemma fstep_istep: "fstep s t \<Longrightarrow> istep s t"
  unfolding istep_def using fstep_icache [of s t "icache t"] by simp

lemma istep_trans [trans]: "istep s t \<Longrightarrow> istep t u \<Longrightarrow> istep s u"
  unfolding istep_def using fstep_icache [of "s\<lparr>icache := icache t\<rparr>" t "icache u"] fstep_trans by fastforce

lemma istep_upd: "istep s t \<Longrightarrow> istep s (t\<lparr>icache := x\<rparr>)"
  unfolding istep_def using fstep_icache [of "s\<lparr>icache := icache t\<rparr>" t x] by simp

lemma istep_upd_inode: "istep s t \<Longrightarrow> istep s (upd_inode p f t)"
  unfolding upd_inode_def by (rule istep_upd)

lemma istep_fs:
  assumes "istep s t"
  shows "sb t = sb s" "cwd t = cwd s" "disksize t = disksize s" "log_area t = log_area s" "held_blk t n = held_blk s n"
    "in_op t" "layout t = layout s" "is_data t = is_data s" "is_bitmap t = is_bitmap s" "curpid t = curpid s" "keeps s t"
proof -
  have f: "fstep (s\<lparr>icache := icache t\<rparr>) t" using assms by (simp add: istep_def)
  note g = fstep_fs [OF f] layout_fstep [OF f] is_data_used_frame [OF f]
  show "sb t = sb s" "cwd t = cwd s" "disksize t = disksize s" "log_area t = log_area s" "held_blk t n = held_blk s n"
    "in_op t" "layout t = layout s" "is_data t = is_data s" "is_bitmap t = is_bitmap s" "curpid t = curpid s"
    using g by simp_all
  show "keeps s t" using f by (simp add: fstep_def)
qed

lemma upd_inode_sel [simp]:
  "blk (upd_inode p f s) = blk s" "used (upd_inode p f s) = used s" "alloc_ok (upd_inode p f s) = alloc_ok s"
  "is_data (upd_inode p f s) = is_data s" "is_bitmap (upd_inode p f s) = is_bitmap s" "quiet (upd_inode p f s) = quiet s"
  "in_op (upd_inode p f s) = in_op s" "layout (upd_inode p f s) = layout s" "held_blk (upd_inode p f s) = held_blk s"
  "sb (upd_inode p f s) = sb s" "disksize (upd_inode p f s) = disksize s" "log_area (upd_inode p f s) = log_area s"
  "length (icache (upd_inode p f s)) = length (icache s)" "curpid (upd_inode p f s) = curpid s"
  "binv (upd_inode p f s) = binv s"
  by (simp_all add: upd_inode_def)

lemma icache_upd_inode: "p < length (icache s) \<Longrightarrow> icache (upd_inode p f s) ! q = (if p = q then f (icache s ! q) else icache s ! q)"
  by (simp add: upd_inode_def nth_list_update)

section \<open>The block map of an inode\<close>

definition faddr :: "(uint \<Rightarrow> byte list) \<Rightarrow> uint list \<Rightarrow> nat \<Rightarrow> uint" where
  "faddr f as bn = (if bn < NDIRECT then as ! bn
     else if as ! NDIRECT = 0 then 0 else get32 (f (as ! NDIRECT)) (4 * (bn - NDIRECT)))"

text \<open>The bytes of the file; a block that is not there reads as zeroes.\<close>

definition fbyte :: "(uint \<Rightarrow> byte list) \<Rightarrow> uint list \<Rightarrow> nat \<Rightarrow> byte" where
  "fbyte f as k = (let a = faddr f as (k div BSIZE) in if a = 0 then 0 else f a ! (k mod BSIZE))"

text \<open>The blocks of the file and its indirect block are allocated data blocks, each used once.\<close>

definition fmap_ok :: "'a fss \<Rightarrow> uint list \<Rightarrow> bool" where
  "fmap_ok s as \<longleftrightarrow> length as = NDIRECT + 1
     \<and> (as ! NDIRECT \<noteq> 0 \<longrightarrow> is_data s (as ! NDIRECT) \<and> used s (as ! NDIRECT))
     \<and> (\<forall>bn < MAXFILE. faddr (blk s) as bn \<noteq> 0 \<longrightarrow> is_data s (faddr (blk s) as bn) \<and> used s (faddr (blk s) as bn)
          \<and> faddr (blk s) as bn \<noteq> as ! NDIRECT
          \<and> (\<forall>bn' < MAXFILE. faddr (blk s) as bn' = faddr (blk s) as bn \<longrightarrow> bn' = bn))"

lemma MAXFILE_val: "MAXFILE = 140" and NDIRECT_val: "NDIRECT = 12"
  by (simp_all add: MAXFILE_def NDIRECT_def NINDIRECT_val)

lemma fmap_okD:
  assumes "fmap_ok s as"
  shows "length as = NDIRECT + 1" "as ! NDIRECT \<noteq> 0 \<Longrightarrow> is_data s (as ! NDIRECT) \<and> used s (as ! NDIRECT)"
    "bn < MAXFILE \<Longrightarrow> faddr (blk s) as bn \<noteq> 0 \<Longrightarrow> is_data s (faddr (blk s) as bn) \<and> used s (faddr (blk s) as bn)
       \<and> faddr (blk s) as bn \<noteq> as ! NDIRECT"
    "bn < MAXFILE \<Longrightarrow> bn' < MAXFILE \<Longrightarrow> faddr (blk s) as bn \<noteq> 0 \<Longrightarrow> faddr (blk s) as bn' = faddr (blk s) as bn \<Longrightarrow> bn' = bn"
  using assms unfolding fmap_ok_def by blast+

text \<open>The same map in a state where its blocks are still there.\<close>

lemma fbyte_cong:
  assumes "\<And>bn. bn < MAXFILE \<Longrightarrow> faddr g as' bn = faddr f as bn \<and> (faddr f as bn \<noteq> 0 \<longrightarrow> g (faddr f as bn) = f (faddr f as bn))"
    and "k < MAXFILE * BSIZE"
  shows "fbyte g as' k = fbyte f as k"
proof -
  have "k div BSIZE < MAXFILE" using assms(2) by (simp add: BSIZE_def MAXFILE_val)
  with assms(1) [of "k div BSIZE"] show ?thesis by (simp add: fbyte_def Let_def)
qed

text \<open>An entry of the map goes from nothing to a fresh zeroed block.\<close>

lemma grow_entry:
  assumes s: "fmap_ok s as" and bn: "bn < MAXFILE" "faddr (blk s) as bn = 0"
    and t: "\<And>j. j < MAXFILE \<Longrightarrow> faddr (blk t) as' j = (if j = bn then a else faddr (blk s) as j)"
      "as' ! NDIRECT = as ! NDIRECT" "length as' = NDIRECT + 1"
    and a: "is_data s a" "\<not> used s a" "used t a" "blk t a = replicate BSIZE 0"
    and fr: "is_data t = is_data s" "\<And>m. is_data s m \<Longrightarrow> used s m \<Longrightarrow> used t m"
      "\<And>m. is_data s m \<Longrightarrow> used s m \<Longrightarrow> m \<noteq> as ! NDIRECT \<Longrightarrow> blk t m = blk s m"
  shows "fmap_ok t as'" and "k < MAXFILE * BSIZE \<Longrightarrow> fbyte (blk t) as' k = fbyte (blk s) as k"
proof -
  note m = fmap_okD [OF s]
  have old: "faddr (blk s) as j \<noteq> a" if "j < MAXFILE" "faddr (blk s) as j \<noteq> 0" for j using m(3) [OF that] a(2) by auto
  have ai: "a \<noteq> as ! NDIRECT" if "as ! NDIRECT \<noteq> 0" using m(2) [OF that] a(2) by auto
  show "fmap_ok t as'" unfolding fmap_ok_def
  proof (intro conjI allI impI)
    show "length as' = NDIRECT + 1" by (rule t(3))
    assume "as' ! NDIRECT \<noteq> 0"
    then show "is_data t (as' ! NDIRECT)" "used t (as' ! NDIRECT)" using t(2) m(2) fr(1,2) by auto
  next
    fix j
    assume j: "j < MAXFILE" "faddr (blk t) as' j \<noteq> 0"
    show "is_data t (faddr (blk t) as' j)" "used t (faddr (blk t) as' j)"
      using j t(1) [OF j(1)] m(3) [OF j(1)] a(1,3) fr(1,2) by (auto split: if_splits)
    show "faddr (blk t) as' j \<noteq> as' ! NDIRECT"
      using j t(1) [OF j(1)] m(3) [OF j(1)] t(2) ai by (auto split: if_splits)
    fix j'
    assume j': "j' < MAXFILE" "faddr (blk t) as' j' = faddr (blk t) as' j"
    then show "j' = j"
      using j t(1) [OF j(1)] t(1) [OF j'(1)] old [OF j(1)] old [OF j'(1)] m(4) [OF j(1) j'(1)] by (auto split: if_splits)
  qed
  assume k: "k < MAXFILE * BSIZE"
  then have kb: "k div BSIZE < MAXFILE" by (simp add: BSIZE_def MAXFILE_val)
  have "k mod BSIZE < BSIZE" by (simp add: BSIZE_def)
  then show "fbyte (blk t) as' k = fbyte (blk s) as k"
    using t(1) [OF kb] bn(2) a(4) m(3) [OF kb] fr(3) by (auto simp: fbyte_def Let_def)
qed

text \<open>A fresh zeroed indirect block holds no entries.\<close>

lemma get32_zero: "off + 4 \<le> BSIZE \<Longrightarrow> get32 (replicate BSIZE 0) off = 0"
  by (simp add: get32_def)

lemma grow_indirect:
  assumes s: "fmap_ok s as" "as ! NDIRECT = 0"
    and a: "is_data s a" "\<not> used s a" "used t a" "blk t a = replicate BSIZE 0" "a \<noteq> 0"
    and fr: "is_data t = is_data s" "\<And>m. is_data s m \<Longrightarrow> used s m \<Longrightarrow> used t m"
      "\<And>m. is_data s m \<Longrightarrow> used s m \<Longrightarrow> blk t m = blk s m"
  shows "fmap_ok t (as[NDIRECT := a])" and "k < MAXFILE * BSIZE \<Longrightarrow> fbyte (blk t) (as[NDIRECT := a]) k = fbyte (blk s) as k"
    and "\<And>j. j < MAXFILE \<Longrightarrow> faddr (blk t) (as[NDIRECT := a]) j = faddr (blk s) as j"
proof -
  note m = fmap_okD [OF s(1)]
  show ad: "faddr (blk t) (as[NDIRECT := a]) j = faddr (blk s) as j" if "j < MAXFILE" for j
    using that s(2) a(4,5) m(1) get32_zero [of "4 * (j - NDIRECT)"]
    by (auto simp: faddr_def NDIRECT_val MAXFILE_val BSIZE_def)
  have old: "faddr (blk s) as j \<noteq> a" if "j < MAXFILE" "faddr (blk s) as j \<noteq> 0" for j using m(3) [OF that] a(2) by auto
  show "fmap_ok t (as[NDIRECT := a])" unfolding fmap_ok_def
  proof (intro conjI allI impI)
    show "length (as[NDIRECT := a]) = NDIRECT + 1" using m(1) by simp
    show "is_data t (as[NDIRECT := a] ! NDIRECT)" "used t (as[NDIRECT := a] ! NDIRECT)" using m(1) a fr(1) by simp_all
  next
    fix j
    assume j: "j < MAXFILE" "faddr (blk t) (as[NDIRECT := a]) j \<noteq> 0"
    have j': "faddr (blk s) as j \<noteq> 0" using j(2) ad [OF j(1)] by simp
    show "is_data t (faddr (blk t) (as[NDIRECT := a]) j)" "used t (faddr (blk t) (as[NDIRECT := a]) j)"
      "faddr (blk t) (as[NDIRECT := a]) j \<noteq> as[NDIRECT := a] ! NDIRECT"
      using m(3) [OF j(1) j'] ad [OF j(1)] fr(1,2) old [OF j(1) j'] m(1) by simp_all
    show "i = j" if "i < MAXFILE" "faddr (blk t) (as[NDIRECT := a]) i = faddr (blk t) (as[NDIRECT := a]) j" for i
      using that m(4) [OF j(1) that(1) j'] ad [OF that(1)] ad [OF j(1)] by simp
  qed
  assume "k < MAXFILE * BSIZE"
  then show "fbyte (blk t) (as[NDIRECT := a]) k = fbyte (blk s) as k"
    by (rule fbyte_cong [rotated]) (use ad m(3) fr(3) in auto)
qed

section \<open>bmap\<close>

definition iad :: "'a fss \<Rightarrow> nat \<Rightarrow> uint list" where
  "iad s p = addrs (icache s ! p)"

definition file_ok :: "'a fss \<Rightarrow> nat \<Rightarrow> bool" where
  "file_ok s p \<longleftrightarrow> alloc_ok s \<and> quiet s \<and> p < length (icache s) \<and> idev (icache s ! p) = 1 \<and> fmap_ok s (iad s p)"

text \<open>The blocks of the file: its data blocks and the indirect block.\<close>

definition own :: "'a fss \<Rightarrow> nat \<Rightarrow> uint set" where
  "own s p = insert (iad s p ! NDIRECT) (faddr (blk s) (iad s p) ` {..<MAXFILE})"

lemma ownI: "iad s p ! NDIRECT \<in> own s p" "j < MAXFILE \<Longrightarrow> faddr (blk s) (iad s p) j \<in> own s p"
  by (simp_all add: own_def)

text \<open>
  A step that may give inode \<open>p\<close> new blocks: its bytes are the same, the blocks of other
  files and the metadata other than the free map are untouched.
\<close>

definition mapped :: "'a fss \<Rightarrow> nat \<Rightarrow> 'a fss \<Rightarrow> bool" where
  "mapped s p t \<longleftrightarrow> istep s t \<and> file_ok t p \<and> icache t = (icache s)[p := (icache s ! p)\<lparr>addrs := iad t p\<rparr>]
     \<and> (\<forall>k < MAXFILE * BSIZE. fbyte (blk t) (iad t p) k = fbyte (blk s) (iad s p) k)
     \<and> (\<forall>m. is_data s m \<longrightarrow> used s m \<longrightarrow> used t m)
     \<and> own t p \<subseteq> own s p \<union> {m. is_data s m \<and> \<not> used s m}
     \<and> (iad t p ! NDIRECT = iad s p ! NDIRECT \<or> is_data s (iad t p ! NDIRECT) \<and> \<not> used s (iad t p ! NDIRECT))
     \<and> (\<forall>m. \<not> is_bitmap s m \<longrightarrow> (is_data s m \<longrightarrow> used s m \<and> m \<noteq> iad s p ! NDIRECT) \<longrightarrow> blk t m = blk s m)"

lemma mapped_refl: "file_ok s p \<Longrightarrow> mapped s p s"
  by (simp add: mapped_def file_ok_def istep_refl alloc_okD iad_def)

lemma mapped_trans:
  assumes st: "mapped s p t" and tu: "mapped t p u"
  shows "mapped s p u"
proof -
  have ist: "istep s t" "istep t u" using st tu by (simp_all add: mapped_def)
  note f = istep_fs [OF ist(1)]
  have ic: "icache t = (icache s)[p := (icache s ! p)\<lparr>addrs := iad t p\<rparr>]"
    "icache u = (icache t)[p := (icache t ! p)\<lparr>addrs := iad u p\<rparr>]" using st tu by (simp_all add: mapped_def)
  have pl: "p < length (icache s)" using st ic(1) by (simp add: mapped_def file_ok_def)
  then have "icache t ! p = (icache s ! p)\<lparr>addrs := iad t p\<rparr>" by (subst ic(1)) simp
  then have "icache u = (icache s)[p := (icache s ! p)\<lparr>addrs := iad u p\<rparr>]" using ic by simp
  moreover
  have S: "own t p \<subseteq> own s p \<union> {m. is_data s m \<and> \<not> used s m}" "\<And>m. is_data s m \<Longrightarrow> used s m \<Longrightarrow> used t m"
    "iad t p ! NDIRECT = iad s p ! NDIRECT \<or> is_data s (iad t p ! NDIRECT) \<and> \<not> used s (iad t p ! NDIRECT)"
    using st by (simp_all add: mapped_def)
  have T: "own u p \<subseteq> own t p \<union> {m. is_data s m \<and> \<not> used t m}" "\<And>m. is_data s m \<Longrightarrow> used t m \<Longrightarrow> used u m"
    "iad u p ! NDIRECT = iad t p ! NDIRECT \<or> is_data s (iad u p ! NDIRECT) \<and> \<not> used t (iad u p ! NDIRECT)"
    using tu f(8) by (simp_all add: mapped_def)
  have ind: "iad u p ! NDIRECT = iad s p ! NDIRECT \<or> is_data s (iad u p ! NDIRECT) \<and> \<not> used s (iad u p ! NDIRECT)"
    using S(2,3) T(3) by metis
  moreover have "blk u m = blk s m" if m: "\<not> is_bitmap s m" "is_data s m \<longrightarrow> used s m \<and> m \<noteq> iad s p ! NDIRECT" for m
  proof -
    have t: "blk t m = blk s m" using st m by (simp add: mapped_def)
    have "is_data t m \<longrightarrow> used t m \<and> m \<noteq> iad t p ! NDIRECT" using st m f(8) by (auto simp: mapped_def)
    then have "blk u m = blk t m" using tu m(1) f(9) by (simp add: mapped_def)
    with t show ?thesis by simp
  qed
  moreover have "own u p \<subseteq> own s p \<union> {m. is_data s m \<and> \<not> used s m}"
    using S(1,2) T(1) by blast
  ultimately show ?thesis
    using st tu istep_trans [OF ist] f(8) by (simp add: mapped_def)
qed

lemma mapped_alloc:
  assumes s: "file_ok s p" and t: "allocated s a t"
  shows "alloc_ok t" "is_data s a" "\<not> used s a" "used t a" "blk t a = replicate BSIZE 0" "a \<noteq> 0" "is_data t = is_data s"
    "is_data s m \<Longrightarrow> used s m \<Longrightarrow> used t m" "is_data s m \<Longrightarrow> used s m \<Longrightarrow> blk t m = blk s m"
    "\<not> is_bitmap s m \<Longrightarrow> (is_data s m \<longrightarrow> used s m) \<Longrightarrow> blk t m = blk s m" "fstep s t" "quiet t"
proof -
  have ok: "alloc_ok s" "quiet s" using s by (simp_all add: file_ok_def)
  have lay: "layout s" using alloc_okD(2) [OF ok(1)] .
  show "alloc_ok t" using allocated_ok [OF ok(1) t] .
  show d: "is_data s a" "\<not> used s a" "fstep s t" using t by (simp_all add: allocated_def)
  note da = data_block [OF lay d(1)]
  show "a \<noteq> 0" "blk t a = replicate BSIZE 0" using da allocated_blk(1) [OF ok(1) t] by simp_all
  show "used t a" using allocated_used [OF ok(1) t da(4)] by simp
  show "is_data t = is_data s" using layout_fstep(2) [OF d(3)] .
  show "quiet t" using d(3) ok(2) quiet_keeps [of s t] by (simp add: fstep_def)
  show "is_data s m \<Longrightarrow> used s m \<Longrightarrow> used t m" using allocated_used [OF ok(1) t, of m] data_block(4) [OF lay, of m] by simp
  show "\<not> is_bitmap s m \<Longrightarrow> (is_data s m \<longrightarrow> used s m) \<Longrightarrow> blk t m = blk s m"
    using allocated_blk(2) [OF ok(1) t, of m] d by auto
  then show "is_data s m \<Longrightarrow> used s m \<Longrightarrow> blk t m = blk s m" using data_not_bitmap [of s m] by auto
qed

lemma icache_set_addrs:
  fixes as :: "uint list"
  assumes "p < length (icache t)" and "icache t = icache s"
  defines "u \<equiv> upd_inode p (\<lambda>ip. ip\<lparr>addrs := as\<rparr>) t"
  shows "iad u p = as" "icache u = (icache s)[p := (icache s ! p)\<lparr>addrs := iad u p\<rparr>]" "idev (icache u ! p) = idev (icache s ! p)"
  using assms by (simp_all add: upd_inode_def iad_def)

text \<open>Giving a direct entry a block.\<close>

lemma map_direct:
  assumes s: "file_ok s p" and bn: "bn < NDIRECT" "iad s p ! bn = 0" and t: "allocated s a t"
  defines "u \<equiv> upd_inode p (\<lambda>ip. ip\<lparr>addrs := (addrs ip)[bn := a]\<rparr>) t"
  shows "mapped s p u" and "faddr (blk u) (iad u p) bn = a"
proof -
  note al = mapped_alloc [OF s t]
  have fm: "fmap_ok s (iad s p)" and pl: "p < length (icache s)" using s by (simp_all add: file_ok_def)
  note m = fmap_okD [OF fm]
  let ?as = "(iad s p)[bn := a]"
  have ic: "icache t = icache s" using fstep_fs(2) [OF al(11)] .
  have u: "u = upd_inode p (\<lambda>ip. ip\<lparr>addrs := ?as\<rparr>) t" by (simp add: u_def upd_inode_def iad_def ic)
  note iu = icache_set_addrs [of p t s ?as, folded u]
  have bn': "bn < MAXFILE" "faddr (blk s) (iad s p) bn = 0" using bn by (simp_all add: faddr_def MAXFILE_def)
  have ent: "faddr (blk u) ?as j = (if j = bn then a else faddr (blk s) (iad s p) j)" if "j < MAXFILE" for j
    using bn m(1,2) al(9) by (auto simp: faddr_def u_def NDIRECT_val)
  have st: "istep s u" using istep_upd_inode [OF fstep_istep [OF al(11)]] by (simp add: u_def)
  have bu: "blk u = blk t" "used u = used t" "is_data u = is_data t" "alloc_ok u = alloc_ok t" "quiet u = quiet t" by (simp_all add: u_def)
  have "fmap_ok u ?as"
    by (rule grow_entry(1) [OF fm bn', of u ?as a]) (use ent m al bu bn in \<open>auto simp: NDIRECT_val\<close>)
  moreover have "fbyte (blk u) ?as k = fbyte (blk s) (iad s p) k" if "k < MAXFILE * BSIZE" for k
    by (rule grow_entry(2) [OF fm bn', of u ?as a, OF _ _ _ _ _ _ _ _ _ _ that]) (use ent m al bu bn in \<open>auto simp: NDIRECT_val\<close>)
  moreover have "own u p \<subseteq> own s p \<union> {m. is_data s m \<and> \<not> used s m}"
    using ent iu pl ic bn al by (auto simp: own_def NDIRECT_val)
  ultimately show "mapped s p u"
    unfolding mapped_def file_ok_def using st al bu iu ic pl s bn by (simp add: u_def file_ok_def NDIRECT_val)
  show "faddr (blk u) (iad u p) bn = a" using ent [OF bn'(1)] iu pl ic by simp
qed

text \<open>Giving the inode an indirect block.\<close>

lemma map_indirect:
  assumes s: "file_ok s p" and z: "iad s p ! NDIRECT = 0" and t: "allocated s a t"
  defines "u \<equiv> upd_inode p (\<lambda>ip. ip\<lparr>addrs := (addrs ip)[NDIRECT := a]\<rparr>) t"
  shows "mapped s p u" and "iad u p ! NDIRECT = a"
proof -
  note al = mapped_alloc [OF s t]
  have fm: "fmap_ok s (iad s p)" and pl: "p < length (icache s)" using s by (simp_all add: file_ok_def)
  note m = fmap_okD [OF fm]
  let ?as = "(iad s p)[NDIRECT := a]"
  have ic: "icache t = icache s" using fstep_fs(2) [OF al(11)] .
  have u: "u = upd_inode p (\<lambda>ip. ip\<lparr>addrs := ?as\<rparr>) t" by (simp add: u_def upd_inode_def iad_def ic)
  note iu = icache_set_addrs [of p t s ?as, folded u]
  have st: "istep s u" using istep_upd_inode [OF fstep_istep [OF al(11)]] by (simp add: u_def)
  have bu: "blk u = blk t" "used u = used t" "is_data u = is_data t" "alloc_ok u = alloc_ok t" "quiet u = quiet t" by (simp_all add: u_def)
  have "fmap_ok u ?as"
    by (rule grow_indirect(1) [OF fm z, of a u]) (use al bu in auto)
  moreover have "fbyte (blk u) ?as k = fbyte (blk s) (iad s p) k" if "k < MAXFILE * BSIZE" for k
    by (rule grow_indirect(2) [OF fm z, of a u]) (use al bu that in auto)
  moreover have "faddr (blk u) ?as j = faddr (blk s) (iad s p) j" if "j < MAXFILE" for j
    by (rule grow_indirect(3) [OF fm z, of a u]) (use al bu that in auto)
  then have "own u p \<subseteq> own s p \<union> {m. is_data s m \<and> \<not> used s m}"
    using iu pl ic m(1) al by (auto simp: own_def)
  ultimately show "mapped s p u"
    unfolding mapped_def file_ok_def using st al bu iu ic pl s m(1) z by (simp add: u_def file_ok_def NDIRECT_val)
  show "iad u p ! NDIRECT = a" using iu pl ic m(1) by simp
qed

text \<open>While the indirect block is held, a block can be allocated and entered in it.\<close>

lemma hold_indirect:
  assumes s: "file_ok s p" and nz: "iad s p ! NDIRECT \<noteq> 0"
    and t: "binv t" "has_buf t i (iad s p ! NDIRECT) (blk s (iad s p ! NDIRECT))" "read_frame s i t"
  shows "alloc_ok t" and "used t = used s" and "is_data t = is_data s" and "icache t = icache s" and "fs_frame s t"
proof -
  let ?n = "iad s p ! NDIRECT"
  have ok: "alloc_ok s" "quiet s" and fm: "fmap_ok s (iad s p)" using s by (simp_all add: file_ok_def)
  have op: "in_op t" "fs_frame s t" using read_frame_op [OF alloc_okD(1) [OF ok(1)] t(1,3)] by simp_all
  note f = fs_frame_sel [OF op(2)] fs_frame_fs [OF op(2)]
  have bt: "blk t = blk s" using t(3) by (simp add: read_frame_def)
  show us: "used t = used s" and da: "is_data t = is_data s" by (simp_all add: used_def is_data_def bt f fun_eq_iff)
  have lay: "layout t = layout s" by (simp add: layout_def f)
  have "m = ?n" if "held_blk t m" for m
    using that read_frame_held [OF t, of m] quiet_held [OF ok(2), of m] by blast
  then have "used t m \<and> is_data t m" if "held_blk t m" for m
    using that fmap_okD(2) [OF fm nz] us da by auto
  then show "alloc_ok t" using op(1) lay us da ok(1) f by (auto simp: alloc_ok_def)
  show "icache t = icache s" "fs_frame s t" using f op(2) by simp_all
qed

lemma put32_entries:
  assumes "length d = BSIZE" and "i < NINDIRECT" and "j < NINDIRECT"
  shows "get32 (put32 d (4 * i) w) (4 * j) = (if j = i then w else get32 d (4 * j))"
proof (cases "j = i")
  case False
  then have "4 * j + 4 \<le> 4 * i \<or> 4 * i + 4 \<le> 4 * j" by linarith
  then show ?thesis using False assms get_put32_other(1) [of "4 * i" d "4 * j" w] by (simp add: BSIZE_def NINDIRECT_val)
qed (use assms in \<open>simp add: BSIZE_def NINDIRECT_val\<close>)

lemma map_entry:
  assumes s: "file_ok s p" and bn: "NDIRECT \<le> bn" "bn < MAXFILE" and nz: "iad s p ! NDIRECT \<noteq> 0"
    and z: "faddr (blk s) (iad s p) bn = 0"
    and t: "binv t" "has_buf t i (iad s p ! NDIRECT) (blk s (iad s p ! NDIRECT))" "read_frame s i t"
    and u: "allocated t a u"
    and v: "in_op v" "fs_frame u v" "blk v = (blk u)(iad s p ! NDIRECT := put32 (blk s (iad s p ! NDIRECT)) (4 * (bn - NDIRECT)) a)"
      "\<not> is_locked v i" "\<forall>j. j \<noteq> i \<longrightarrow> bufs v ! j = bufs u ! j"
  shows "mapped s p v" and "faddr (blk v) (iad v p) bn = a"
proof -
  let ?n = "iad s p ! NDIRECT"
  note h = hold_indirect [OF s nz t]
  have ok: "alloc_ok s" "quiet s" and fm: "fmap_ok s (iad s p)" and pl: "p < length (icache s)"
    using s by (simp_all add: file_ok_def)
  note m = fmap_okD [OF fm]
  have bt: "blk t = blk s" using t(3) by (simp add: read_frame_def)
  have us: "fstep t u" "\<not> used s a" "is_data s a" using u h by (simp_all add: allocated_def)
  have lay: "layout t" using alloc_okD(2) [OF h(1)] .
  note f = fs_frame_fs [OF v(2)] fs_frame_sel [OF v(2)] fstep_fs [OF us(1)] fs_frame_fs [OF h(5)] fs_frame_sel [OF h(5)]
  have bm: "is_bitmap t = is_bitmap s" by (simp add: is_bitmap_def f fun_eq_iff)
  have an: "a \<noteq> ?n" using m(2) [OF nz] us(2) by auto
  have uu: "used u b \<longleftrightarrow> used s b \<or> b = a" if "unat b < unat (sb_size (sb s))" for b
    using allocated_used [OF h(1) u, of b] that h(2) f by simp
  have nbm: "\<not> is_bitmap s ?n" using m(2) [OF nz] data_not_bitmap by blast
  have dv: "is_data v = is_data s" by (simp add: is_data_def f fun_eq_iff)
  have uv: "used v b \<longleftrightarrow> used s b \<or> b = a" if "unat b < unat (sb_size (sb s))" for b
  proof -
    have "BBLOCK b (sb s) \<noteq> ?n" using bitmap_is_bitmap [OF alloc_okD(2) [OF ok(1)] that] nbm by auto
    then show ?thesis using uu [OF that] v(3) f by (simp add: used_def)
  qed
  have usz: "unat b < unat (sb_size (sb s))" if "is_data s b" for b using data_block(4) [OF alloc_okD(2) [OF ok(1)] that] .
  have bv: "blk v b = blk s b" if "b \<noteq> a" "b \<noteq> ?n" "\<not> is_bitmap s b" for b
    using allocated_blk(2) [OF h(1) u, of b] that v(3) bt bm by simp
  have q: "quiet v"
  proof -
    have "\<not> is_locked v j" if j: "j < NBUF" for j
    proof (cases "j = i")
      case False
      then have "is_locked v j = is_locked t j" using v(5) us(1) j by (simp add: is_locked_def fstep_def keeps_def)
      also have "\<dots> = is_locked s j" using t(3) False j by (simp add: read_frame_def)
      finally show ?thesis using ok(2) j by (simp add: quiet_def)
    qed (use v(4) in simp)
    then show ?thesis by (simp add: quiet_def)
  qed
  have "fs_frame s v" using h(5) us(1) v(2) by (auto simp: fstep_def intro: fs_frame_trans)
  moreover have "keeps s v" using q ok(2) by (simp add: quiet_def keeps_def)
  ultimately have st: "fstep s v" using v(1) by (simp add: fstep_def)
  note fv = fstep_fs [OF st]
  have av: "alloc_ok v"
    using v(1) layout_fstep(1) [OF st] alloc_okD(2,4) [OF ok(1)] q quiet_held [OF q] dv uv fv(1) us(3)
    by (auto simp: alloc_ok_def)
  have ic: "icache v = icache s" "iad v p = iad s p" using fv(2) by (simp_all add: iad_def)
  have ent: "faddr (blk v) (iad s p) j = (if j = bn then a else faddr (blk s) (iad s p) j)" if "j < MAXFILE" for j
    using that bn nz v(3) length_blk [OF alloc_okD(6) [OF ok(1)], of ?n] put32_entries [of "blk s ?n" "bn - NDIRECT" "j - NDIRECT" a]
    by (auto simp: faddr_def MAXFILE_def)
  have za: "blk v a = replicate BSIZE 0" using allocated_blk(1) [OF h(1) u] v(3) an by simp
  have fr: "blk v b = blk s b" if "is_data s b" "used s b" "b \<noteq> ?n" for b
    using bv [of b] that us(2) data_not_bitmap [OF that(1)] by auto
  have "fmap_ok v (iad s p)"
    by (rule grow_entry(1) [OF fm bn(2) z, of v "iad s p" a]) (use ent m us uv usz za dv fr in auto)
  moreover have "fbyte (blk v) (iad s p) k = fbyte (blk s) (iad s p) k" if "k < MAXFILE * BSIZE" for k
    by (rule grow_entry(2) [OF fm bn(2) z, of v "iad s p" a]) (use ent m us uv usz za dv fr that in auto)
  moreover have "blk v b = blk s b" if "\<not> is_bitmap s b" "is_data s b \<longrightarrow> used s b \<and> b \<noteq> ?n" for b
    using bv [of b] that us(2,3) m(2) [OF nz] by auto
  moreover have "own v p \<subseteq> own s p \<union> {m. is_data s m \<and> \<not> used s m}"
    using ent ic us(2,3) by (auto simp: own_def)
  ultimately show "mapped s p v"
    unfolding mapped_def file_ok_def using fstep_istep [OF st] av q ic pl s uv usz by (simp add: file_ok_def iad_def)
  show "faddr (blk v) (iad v p) bn = a" using ent [OF bn(2)] ic by simp
qed

text \<open>A step that changes no block keeps the file.\<close>

lemma mapped_read:
  assumes s: "file_ok s p" and st: "fstep s u" and b: "blk u = blk s"
  shows "mapped s p u"
proof -
  have ok: "alloc_ok s" "quiet s" and fm: "fmap_ok s (iad s p)" using s by (simp_all add: file_ok_def)
  note f = fstep_fs [OF st]
  have "quiet u" using st quiet_keeps [OF ok(2)] by (simp add: fstep_def)
  then have eq: "used u = used s" "is_data u = is_data s" "quiet u" "icache u = icache s" "iad u p = iad s p" "own u p = own s p"
    using f unfolding used_def is_data_def iad_def own_def b by simp_all
  have "alloc_ok u" using ok(1) f eq layout_fstep(1) [OF st] quiet_held [OF eq(3)] by (simp add: alloc_ok_def)
  moreover have "fmap_ok u (iad u p)" using fm eq b by (simp add: fmap_ok_def)
  ultimately show ?thesis
    unfolding mapped_def file_ok_def using s eq fstep_istep [OF st] b by (simp add: file_ok_def iad_def)
qed

definition bmap_post :: "'a fss \<Rightarrow> nat \<Rightarrow> nat \<Rightarrow> uint \<times> 'a fss \<Rightarrow> bool" where
  "bmap_post s p bn = (\<lambda>(a, t). mapped s p t \<and> a = faddr (blk t) (iad t p) bn \<and> a \<noteq> 0)"

lemma bmap_direct:
  assumes s: "file_ok s p" and bn: "bn < NDIRECT"
  shows "ends limits (bmap p bn s) (bmap_post s p bn)"
proof (cases "iad s p ! bn = 0")
  case False
  then show ?thesis using bn mapped_refl [OF s] by (simp add: bmap_def Let_def bmap_post_def faddr_def iad_def)
next
  case True
  have ok: "alloc_ok s" "idev (icache s ! p) = 1" using s by (simp_all add: file_ok_def)
  have "ends limits (bindr (balloc 1 s) (\<lambda>(a, t). Ok (a, upd_inode p (\<lambda>ip. ip\<lparr>addrs := (addrs ip)[bn := a]\<rparr>) t))) (bmap_post s p bn)"
    by (rule ends_bindI [OF balloc_ends [OF ok(1)]])
      (use map_direct [OF s bn True] mapped_alloc(6) [OF s] in \<open>auto simp: bmap_post_def\<close>)
  then show ?thesis using bn ok(2) True by (simp add: bmap_def Let_def iad_def)
qed

text \<open>The second half of \<^verbatim>\<open>bmap\<close>, once there is an indirect block.\<close>

definition bmap_ind :: "nat \<Rightarrow> uint \<Rightarrow> 'a fss \<Rightarrow> (uint \<times> 'a fss) res" where
  "bmap_ind bn a s1 = bindr (bread 1 a s1) (\<lambda>(i, s2).
     let off = 4 * (bn - NDIRECT); a' = get32 (bdata (bufs s2 ! i)) off in
     if a' = 0
     then bindr (balloc 1 s2) (\<lambda>(a', s3).
          bindr (log_write i (set_data i (put32 (bdata (bufs s3 ! i)) off a') s3)) (\<lambda>s4.
          bindr (brelse i s4) (\<lambda>s5. Ok (a', s5))))
     else bindr (brelse i s2) (\<lambda>s3. Ok (a', s3)))"

lemma bmap_ind_alloc:
  assumes s: "file_ok s p" and bn: "NDIRECT \<le> bn" "bn < MAXFILE" and nz: "iad s p ! NDIRECT \<noteq> 0"
    and z: "faddr (blk s) (iad s p) bn = 0"
    and t: "binv t" "has_buf t i (iad s p ! NDIRECT) (blk s (iad s p ! NDIRECT))" "read_frame s i t"
    and u: "allocated t a u"
  shows "ends limits (bindr (log_write i (set_data i (put32 (bdata (bufs u ! i)) (4 * (bn - NDIRECT)) a) u)) (\<lambda>s4.
          bindr (brelse i s4) (\<lambda>s5. Ok (a, s5)))) (bmap_post s p bn)"
proof -
  let ?n = "iad s p ! NDIRECT" let ?d = "put32 (blk s ?n) (4 * (bn - NDIRECT)) a"
  have ok: "alloc_ok s" and fm: "fmap_ok s (iad s p)" using s by (simp_all add: file_ok_def)
  note h = hold_indirect [OF s nz t]
  have k: "keeps t u" "in_op u" "is_data t a" using u by (simp_all add: allocated_def fstep_def)
  have hb: "has_buf u i ?n (blk s ?n)" using keeps_has_buf [OF k(1) t(2)] .
  have du: "bdata (bufs u ! i) = blk s ?n" using has_bufD(5) [OF in_opD(1) [OF k(2)] hb] .
  have len: "length ?d = BSIZE" using length_blk [OF alloc_okD(6) [OF ok], of ?n] bn by (simp add: BSIZE_def MAXFILE_val NDIRECT_val)
  have na: "?n \<notin> log_area u"
    using data_block(2) [OF alloc_okD(2) [OF ok]] fmap_okD(2) [OF fm nz] fs_frame_area(1) [OF h(5)] u
      fstep_fs(7) [of t u] by (simp add: allocated_def)
  from ends_weaken [OF log_write_release [OF k(2) hb len na], of limits]
  have "ends limits (bindr (log_write i (set_data i ?d u)) (\<lambda>v. brelse i v))
    (\<lambda>v. mapped s p v \<and> faddr (blk v) (iad v p) bn = a)"
    by (rule ends_mono) (use map_entry [OF s bn nz z t u] in \<open>auto simp: limits_def\<close>)
  moreover have "a \<noteq> 0" using data_block(3) [OF alloc_okD(2) [OF h(1)] k(3)] .
  ultimately show ?thesis unfolding du bmap_post_def by (simp, elim ends_mono) (auto elim!: ends_mono)
qed

lemma bmap_ind_spec:
  assumes s: "file_ok s p" and bn: "NDIRECT \<le> bn" "bn < MAXFILE" and nz: "iad s p ! NDIRECT \<noteq> 0"
  shows "ends limits (bmap_ind bn (iad s p ! NDIRECT) s) (bmap_post s p bn)"
proof -
  let ?n = "iad s p ! NDIRECT"
  have ok: "alloc_ok s" "quiet s" and fm: "fmap_ok s (iad s p)" using s by (simp_all add: file_ok_def)
  note op = alloc_okD [OF ok(1)]
  have n: "?n < disksize s" "\<not> held_blk s ?n"
    using data_block(1) [OF op(2)] fmap_okD(2) [OF fm nz] quiet_held [OF ok(2)] by auto
  have fa: "faddr (blk s) (iad s p) bn = get32 (blk s ?n) (4 * (bn - NDIRECT))" using bn nz by (simp add: faddr_def)
  show ?thesis unfolding bmap_ind_def
  proof (rule ends_bindI [OF bread_op [OF op(1) n]], simp, clarify)
    fix i and t :: "'a fss"
    assume t: "binv t" "has_buf t i ?n (blk s ?n)" "read_frame s i t"
    note h = hold_indirect [OF s nz t]
    have d: "bdata (bufs t ! i) = blk s ?n" using has_bufD(5) [OF t(1,2)] .
    let ?K = "\<lambda>a' s3. bindr (log_write i (set_data i (put32 (bdata (bufs s3 ! i)) (4 * (bn - NDIRECT)) a') s3)) (\<lambda>s4.
          bindr (brelse i s4) (\<lambda>s5. Ok (a', s5)))"
    show "ends limits (let off = 4 * (bn - NDIRECT); a' = get32 (bdata (bufs t ! i)) off in
        if a' = 0 then bindr (balloc 1 t) (\<lambda>(a', s3). bindr (log_write i (set_data i (put32 (bdata (bufs s3 ! i)) off a') s3)) (\<lambda>s4.
          bindr (brelse i s4) (\<lambda>s5. Ok (a', s5))))
        else bindr (brelse i t) (\<lambda>s3. Ok (a', s3))) (bmap_post s p bn)"
    proof (cases "get32 (blk s ?n) (4 * (bn - NDIRECT)) = 0")
      case False
      have "ends limits (bindr (brelse i t) (\<lambda>s3. Ok (get32 (blk s ?n) (4 * (bn - NDIRECT)), s3))) (bmap_post s p bn)"
      proof (rule read_release_cont [OF op(1) n t])
        fix u :: "'a fss"
        assume u: "in_op u" "fs_frame s u" "blk u = blk s" "keeps s u"
        then have st: "fstep s u" by (simp add: fstep_def)
        then have eq: "iad u p = iad s p" by (simp add: iad_def fstep_fs)
        have "mapped s p u" by (rule mapped_read [OF s st u(3)])
        then show "ends limits (Ok (get32 (blk s ?n) (4 * (bn - NDIRECT)), u)) (bmap_post s p bn)"
          using False fa eq u(3) by (simp add: bmap_post_def)
      qed
      then show ?thesis using False d by simp
    next
      case True
      have "ends limits (bindr (balloc 1 t) (\<lambda>(a', s3). ?K a' s3)) (bmap_post s p bn)"
        by (rule ends_bindI [OF balloc_ends [OF h(1)]]) (use bmap_ind_alloc [OF s bn nz _ t] True fa in auto)
      then show ?thesis using True d by simp
    qed
  qed
qed

lemma bmap_spec:
  assumes s: "file_ok s p" and bn: "bn < MAXFILE"
  shows "ends limits (bmap p bn s) (bmap_post s p bn)"
proof (cases "bn < NDIRECT")
  case True
  then show ?thesis by (rule bmap_direct [OF s])
next
  case False
  have ok: "alloc_ok s" "idev (icache s ! p) = 1" using s by (simp_all add: file_ok_def)
  let ?A = "if iad s p ! NDIRECT = 0
    then bindr (balloc 1 s) (\<lambda>(a, s1). Ok (a, upd_inode p (\<lambda>ip. ip\<lparr>addrs := (addrs ip)[NDIRECT := a]\<rparr>) s1))
    else Ok (iad s p ! NDIRECT, s)"
  have "bn - NDIRECT < NINDIRECT" using False bn by (auto simp: MAXFILE_def)
  then have eq: "bmap p bn s = bindr ?A (\<lambda>(a, s1). bmap_ind bn a s1)"
    using False ok(2) by (simp add: bmap_def bmap_ind_def Let_def iad_def)
  have "ends limits ?A (\<lambda>(a, u). mapped s p u \<and> a = iad u p ! NDIRECT \<and> a \<noteq> 0)"
  proof (cases "iad s p ! NDIRECT = 0")
    case True
    have "ends limits (bindr (balloc 1 s) (\<lambda>(a, s1). Ok (a, upd_inode p (\<lambda>ip. ip\<lparr>addrs := (addrs ip)[NDIRECT := a]\<rparr>) s1)))
      (\<lambda>(a, u). mapped s p u \<and> a = iad u p ! NDIRECT \<and> a \<noteq> 0)"
      by (rule ends_bindI [OF balloc_ends [OF ok(1)]])
        (use map_indirect [OF s True] mapped_alloc(6) [OF s] in auto)
    then show ?thesis using True by simp
  qed (use mapped_refl [OF s] in simp)
  then show ?thesis unfolding eq
  proof (rule ends_bindI)
    fix x
    assume "case x of (a, u) \<Rightarrow> mapped s p u \<and> a = iad u p ! NDIRECT \<and> a \<noteq> 0"
    then obtain a u where x: "x = (a, u)" and u: "mapped s p u" "a = iad u p ! NDIRECT" "a \<noteq> 0" by (cases x) auto
    have fo: "file_ok u p" using u(1) by (simp add: mapped_def)
    have "ends limits (bmap_ind bn a u) (bmap_post u p bn)"
      using bmap_ind_spec [OF fo _ bn] False u by simp
    then have "ends limits (bmap_ind bn a u) (bmap_post s p bn)"
      by (rule ends_mono) (use mapped_trans [OF u(1)] in \<open>auto simp: bmap_post_def\<close>)
    then show "ends limits (case x of (a, s1) \<Rightarrow> bmap_ind bn a s1) (bmap_post s p bn)" using x by simp
  qed
qed

end
