(* ===== verification/Fs_File.thy ===== *)
theory Fs_File
  imports Fs_Bmap
begin

text \<open>
  Reading and writing a file: \<^verbatim>\<open>readi\<close> returns the bytes of the range, \<^verbatim>\<open>writei\<close> replaces
  them, and neither changes another file or the metadata beyond the free map and the inode.
\<close>

section \<open>Reading\<close>

lemma in_block_div: "off mod b + i < (b :: nat) \<Longrightarrow> (off + i) div b = off div b \<and> (off + i) mod b = off mod b + i"
proof -
  assume lt: "off mod b + i < b"
  have "off + i = b * (off div b) + (off mod b + i)" by simp
  then show ?thesis using lt by (metis add.commute div_mult_self4 div_less mod_mult_self2 mod_less add_0 mult.commute not_less_zero gr_zeroI)
qed

lemma fbyte_in_block:
  assumes "off mod BSIZE + n \<le> BSIZE" and "faddr f as (off div BSIZE) \<noteq> 0" and "length (f (faddr f as (off div BSIZE))) = BSIZE"
  shows "slice (f (faddr f as (off div BSIZE))) (off mod BSIZE) n = map (fbyte f as) [off..<off + n]"
proof (intro nth_equalityI)
  show "length (slice (f (faddr f as (off div BSIZE))) (off mod BSIZE) n) = length (map (fbyte f as) [off..<off + n])"
    using assms by simp
  fix i
  assume "i < length (slice (f (faddr f as (off div BSIZE))) (off mod BSIZE) n)"
  then have i: "i < n" by simp
  then have "(off + i) div BSIZE = off div BSIZE" "(off + i) mod BSIZE = off mod BSIZE + i"
    using assms(1) in_block_div [of off BSIZE i] by (simp_all add: BSIZE_def)
  then show "slice (f (faddr f as (off div BSIZE))) (off mod BSIZE) n ! i = map (fbyte f as) [off..<off + n] ! i"
    using assms i by (simp add: nth_slice fbyte_def Let_def)
qed

lemma chunk_le: "chunk off n \<le> n" "off mod BSIZE + chunk off n \<le> BSIZE"
  by (simp_all add: chunk_def BSIZE_def)

lemma readi_loop_spec:
  "file_ok s p \<Longrightarrow> off + n \<le> MAXFILE * BSIZE \<Longrightarrow>
   ends limits (readi_loop p off n s) (\<lambda>(r, t). mapped s p t \<and> r = map (fbyte (blk s) (iad s p)) [off..<off + n])"
proof (induction n arbitrary: off s rule: less_induct)
  case (less n)
  show ?case
  proof (cases "n = 0")
    case True
    then show ?thesis using mapped_refl [OF less.prems(1)] by (simp add: readi_loop.simps)
  next
    case False
    let ?m = "chunk off n" and ?bn = "off div BSIZE"
    have m: "0 < ?m" "?m \<le> n" "off mod BSIZE + ?m \<le> BSIZE" using chunk_pos [OF False] chunk_le by auto
    have bn: "?bn < MAXFILE" using False less.prems(2) by (simp add: BSIZE_def MAXFILE_val)
    let ?Q = "\<lambda>(r, t). mapped s p t \<and> r = map (fbyte (blk s) (iad s p)) [off..<off + n]"
    let ?K = "\<lambda>a s1. bindr (bread (idev (icache s1 ! p)) a s1) (\<lambda>(i, s2). bindr (brelse i s2) (\<lambda>s3.
        bindr (readi_loop p (off + ?m) (n - ?m) s3) (\<lambda>(r, s4). Ok (slice (bdata (bufs s2 ! i)) (off mod BSIZE) ?m @ r, s4))))"
    have step: "ends limits (?K a s1) ?Q"
      if b: "bmap_post s p ?bn (a, s1)" for a and s1 :: "'a fss"
    proof -
      have s1: "mapped s p s1" "a = faddr (blk s1) (iad s1 p) ?bn" "a \<noteq> 0" using b by (auto simp: bmap_post_def)
      have fo: "file_ok s1 p" using s1(1) by (simp add: mapped_def)
      then have ok: "alloc_ok s1" "quiet s1" "idev (icache s1 ! p) = 1" and fm: "fmap_ok s1 (iad s1 p)"
        by (simp_all add: file_ok_def)
      note op = alloc_okD [OF ok(1)]
      have a: "a < disksize s1" "\<not> held_blk s1 a"
        using data_block(1) [OF op(2)] fmap_okD(3) [OF fm bn] s1(2,3) quiet_held [OF ok(2)] by auto
      have same: "fbyte (blk s1) (iad s1 p) k = fbyte (blk s) (iad s p) k" if "k < MAXFILE * BSIZE" for k
        using s1(1) that by (simp add: mapped_def)
      have sl: "slice (blk s1 a) (off mod BSIZE) ?m = map (fbyte (blk s) (iad s p)) [off..<off + ?m]"
        using fbyte_in_block [OF m(3), of "blk s1" "iad s1 p"] s1(2,3) length_blk [OF op(6)] same less.prems(2) m(2) by simp
      have spl: "[off..<off + n] = [off..<off + ?m] @ [off + ?m..<off + n]" using m(2) upt_add_eq_append [of off "off + ?m" "n - ?m"] by simp
      show ?thesis unfolding ok(3)
      proof (rule log_read [OF op(1) a, of limits "\<lambda>d s3. bindr (readi_loop p (off + ?m) (n - ?m) s3)
          (\<lambda>(r, s4). Ok (slice d (off mod BSIZE) ?m @ r, s4))"])
        fix u :: "'a fss"
        assume u: "in_op u" "same_but_cache s1 u" "fs_frame s1 u"
        have st: "fstep s1 u" using u by (simp add: fstep_def same_but_cache_def)
        have mu: "mapped s1 p u" using mapped_read [OF fo st] u(2) by (simp add: same_but_cache_def)
        have su: "mapped s p u" "file_ok u p" using mapped_trans [OF s1(1) mu] mu by (simp_all add: mapped_def)
        have sb: "fbyte (blk u) (iad u p) k = fbyte (blk s) (iad s p) k" if "k < MAXFILE * BSIZE" for k
          using su(1) that by (simp add: mapped_def)
        have "n - ?m < n" "off + ?m + (n - ?m) \<le> MAXFILE * BSIZE" using m less.prems(2) False by simp_all
        from less.IH [OF this(1) su(2) this(2)]
        show "ends limits (bindr (readi_loop p (off + ?m) (n - ?m) u)
          (\<lambda>(r, s4). Ok (slice (blk s1 a) (off mod BSIZE) ?m @ r, s4))) ?Q"
          by (rule ends_bindI)
            (use sl spl mapped_trans [OF su(1)] m(2) less.prems(2) sb in \<open>auto simp: intro!: map_cong\<close>)
      qed simp
    qed
    have "ends limits (bindr (bmap p ?bn s) (\<lambda>(a, s1). ?K a s1)) ?Q"
      by (rule ends_bindI2 [OF bmap_spec [OF less.prems(1) bn]]) (rule step)
    then show ?thesis using False by (subst readi_loop.simps) simp
  qed
qed

text \<open>The bytes of a range.\<close>

definition fbytes :: "'a fss \<Rightarrow> nat \<Rightarrow> nat \<Rightarrow> nat \<Rightarrow> byte list" where
  "fbytes s p off n = map (fbyte (blk s) (iad s p)) [off..<off + n]"

text \<open>What \<^verbatim>\<open>readi\<close> returns for a file that is not a device.\<close>

lemma readi_spec:
  assumes s: "file_ok s p" and ty: "itype (icache s ! p) \<noteq> T_DEV" and off: "off \<le> isize (icache s ! p)" "\<not> off + n < off"
    and sz: "unat (isize (icache s ! p)) \<le> MAXFILE * BSIZE"
  defines "m \<equiv> min (unat n) (unat (isize (icache s ! p)) - unat off)"
  shows "ends limits (readi dv p off n s) (\<lambda>(r, bs, t). mapped s p t \<and> r = int m \<and> bs = fbytes s p (unat off) m)"
proof -
  let ?sz = "isize (icache s ! p)"
  let ?n = "if off + n > ?sz then ?sz - off else n"
  have o: "unat off \<le> unat ?sz" using off(1) by (simp add: word_le_nat_alt)
  have nw: "unat (off + n) = unat off + unat n"
    using off(2) unat_add_wrap [of off n] by simp
  have un: "unat ?n = m"
    using nw o unat_sub_uint [OF off(1)] by (auto simp: m_def word_less_nat_alt min_def)
  have "unat off + m \<le> MAXFILE * BSIZE" using o sz by (simp add: m_def)
  note loop = readi_loop_spec [OF s this]
  have "readi dv p off n s = bindr (readi_loop p (unat off) (unat ?n) s) (\<lambda>(r, s1). Ok (int (unat ?n), r, s1))"
    using ty off(2) leD [OF off(1)] by (simp add: readi_def Let_def)
  then have "readi dv p off n s = bindr (readi_loop p (unat off) m s) (\<lambda>(r, s1). Ok (int m, r, s1))"
    by (simp only: un)
  then show ?thesis by (simp only:) (rule ends_bindI2 [OF loop], simp add: fbytes_def)
qed

section \<open>Writing\<close>

text \<open>Rewriting one block of the file.\<close>

lemma write_block:
  assumes s: "file_ok s p" and bn: "bn < MAXFILE" and a: "a = faddr (blk s) (iad s p) bn" "a \<noteq> 0"
    and st: "fstep s v" and bv: "blk v = (blk s)(a := d)"
  shows "file_ok v p" and "k < MAXFILE * BSIZE \<Longrightarrow> fbyte (blk v) (iad v p) k = (if k div BSIZE = bn then d ! (k mod BSIZE) else fbyte (blk s) (iad s p) k)"
    and "own v p = own s p" and "used v = used s" and "iad v p = iad s p"
proof -
  have ok: "alloc_ok s" "quiet s" and fm: "fmap_ok s (iad s p)" and pl: "p < length (icache s)"
    using s by (simp_all add: file_ok_def)
  have lay: "layout s" using alloc_okD(2) [OF ok(1)] .
  note m = fmap_okD [OF fm] and f = fstep_fs [OF st]
  have da: "is_data s a" "a \<noteq> iad s p ! NDIRECT" using m(3) [OF bn] a by auto
  show ia: "iad v p = iad s p" using f(2) by (simp add: iad_def)
  have fa: "faddr (blk v) (iad s p) j = faddr (blk s) (iad s p) j" for j using da(2) by (simp add: faddr_def bv)
  show ow: "own v p = own s p" by (simp add: own_def ia fa)
  have "used v b = used s b" for b
    using bitmap_block(3) [OF lay alloc_okD(3) [OF ok(1)], of b] da(1) by (auto simp: used_def f bv)
  then show us: "used v = used s" by (simp add: fun_eq_iff)
  have dv: "is_data v = is_data s" using layout_fstep(2) [OF st] .
  have q: "quiet v" using st quiet_keeps [OF ok(2)] by (simp add: fstep_def)
  have "alloc_ok v" using ok(1) f us dv layout_fstep(1) [OF st] quiet_held [OF q] by (simp add: alloc_ok_def)
  moreover have "fmap_ok v (iad v p)" using fm fa us dv ia by (simp add: fmap_ok_def)
  ultimately show "file_ok v p" using q pl f(2) s by (simp add: file_ok_def)
  assume k: "k < MAXFILE * BSIZE"
  have kb: "k div BSIZE < MAXFILE" using k by (simp add: BSIZE_def MAXFILE_val)
  show "fbyte (blk v) (iad v p) k = (if k div BSIZE = bn then d ! (k mod BSIZE) else fbyte (blk s) (iad s p) k)"
  proof (cases "k div BSIZE = bn")
    case True
    then show ?thesis using a unfolding fbyte_def ia fa Let_def by (simp add: bv)
  next
    case False
    then have "faddr (blk s) (iad s p) (k div BSIZE) \<noteq> a" using a m(4) [OF bn kb] by auto
    then show ?thesis using False unfolding fbyte_def ia fa Let_def by (simp add: bv)
  qed
qed

text \<open>
  The effect of writing \<open>bs\<close> at \<open>off\<close>: those bytes of the file, new blocks for it, and
  nothing of what belongs to somebody else.
\<close>

definition wrote :: "'a fss \<Rightarrow> nat \<Rightarrow> nat \<Rightarrow> byte list \<Rightarrow> 'a fss \<Rightarrow> bool" where
  "wrote s p off bs t \<longleftrightarrow> istep s t \<and> file_ok t p \<and> icache t = (icache s)[p := (icache s ! p)\<lparr>addrs := iad t p\<rparr>]
     \<and> (\<forall>k < MAXFILE * BSIZE. fbyte (blk t) (iad t p) k =
          (if off \<le> k \<and> k < off + length bs then bs ! (k - off) else fbyte (blk s) (iad s p) k))
     \<and> (\<forall>m. is_data s m \<longrightarrow> used s m \<longrightarrow> used t m)
     \<and> own t p \<subseteq> own s p \<union> {m. is_data s m \<and> \<not> used s m}
     \<and> (\<forall>m. \<not> is_bitmap s m \<longrightarrow> (is_data s m \<longrightarrow> used s m \<and> m \<notin> own s p) \<longrightarrow> blk t m = blk s m)"

lemma mapped_wrote: "mapped s p t \<Longrightarrow> wrote s p off [] t"
  unfolding mapped_def wrote_def using ownI(1) [of s p] by auto

lemma wrote_trans:
  assumes st: "wrote s p off bs t" and tu: "wrote t p (off + length bs) cs u"
  shows "wrote s p off (bs @ cs) u"
proof -
  have ist: "istep s t" "istep t u" using st tu by (simp_all add: wrote_def)
  note f = istep_fs [OF ist(1)]
  have ic: "icache t = (icache s)[p := (icache s ! p)\<lparr>addrs := iad t p\<rparr>]"
    "icache u = (icache t)[p := (icache t ! p)\<lparr>addrs := iad u p\<rparr>]" using st tu by (simp_all add: wrote_def)
  have pl: "p < length (icache s)" using st ic(1) by (simp add: wrote_def file_ok_def)
  then have "icache t ! p = (icache s ! p)\<lparr>addrs := iad t p\<rparr>" by (subst ic(1)) simp
  then have "icache u = (icache s)[p := (icache s ! p)\<lparr>addrs := iad u p\<rparr>]" using ic by simp
  moreover
  have S: "own t p \<subseteq> own s p \<union> {m. is_data s m \<and> \<not> used s m}" "\<And>m. is_data s m \<Longrightarrow> used s m \<Longrightarrow> used t m"
    "\<And>m. \<not> is_bitmap s m \<Longrightarrow> is_data s m \<longrightarrow> used s m \<and> m \<notin> own s p \<Longrightarrow> blk t m = blk s m"
    using st by (simp_all add: wrote_def)
  have T: "own u p \<subseteq> own t p \<union> {m. is_data s m \<and> \<not> used t m}" "\<And>m. is_data s m \<Longrightarrow> used t m \<Longrightarrow> used u m"
    "\<And>m. \<not> is_bitmap s m \<Longrightarrow> is_data s m \<longrightarrow> used t m \<and> m \<notin> own t p \<Longrightarrow> blk u m = blk t m"
    using tu f(8,9) by (simp_all add: wrote_def)
  have "own u p \<subseteq> own s p \<union> {m. is_data s m \<and> \<not> used s m}" using S(1,2) T(1) by blast
  moreover have "blk u m = blk s m" if m: "\<not> is_bitmap s m" "is_data s m \<longrightarrow> used s m \<and> m \<notin> own s p" for m
  proof -
    have "is_data s m \<longrightarrow> used t m \<and> m \<notin> own t p" using m(2) S(1,2) by blast
    then show ?thesis using S(3) [OF m] T(3) [OF m(1)] by simp
  qed
  moreover have "fbyte (blk u) (iad u p) k = (if off \<le> k \<and> k < off + length (bs @ cs) then (bs @ cs) ! (k - off) else fbyte (blk s) (iad s p) k)"
    if k: "k < MAXFILE * BSIZE" for k
    using st tu k by (auto simp: wrote_def nth_append)
  ultimately show ?thesis
    using tu istep_trans [OF ist] S(2) T(2) by (simp add: wrote_def)
qed

text \<open>One turn of the loop: a range inside one block.\<close>

lemma wrote_chunk:
  assumes s: "file_ok s p" and a: "a = faddr (blk s) (iad s p) (off div BSIZE)" "a \<noteq> 0" and off: "off < MAXFILE * BSIZE"
    and bs: "off mod BSIZE + length bs \<le> BSIZE"
    and v: "modified s a (put (blk s a) (off mod BSIZE) bs) v"
  shows "wrote s p off bs v"
proof -
  have st: "fstep s v" and bv: "blk v = (blk s)(a := put (blk s a) (off mod BSIZE) bs)" using modified_fstep [OF v] by simp_all
  have bn: "off div BSIZE < MAXFILE" using off by (simp add: BSIZE_def MAXFILE_val)
  note w = write_block [OF s bn a st bv]
  have len: "length (blk s a) = BSIZE" using length_blk alloc_okD(6) s by (auto simp: file_ok_def)
  have "fbyte (blk v) (iad v p) k = (if off \<le> k \<and> k < off + length bs then bs ! (k - off) else fbyte (blk s) (iad s p) k)"
    if k: "k < MAXFILE * BSIZE" for k
  proof (cases "k div BSIZE = off div BSIZE")
    case True
    have kk: "k = BSIZE * (off div BSIZE) + k mod BSIZE" "off = BSIZE * (off div BSIZE) + off mod BSIZE"
      using True by (metis mult_div_mod_eq)+
    then have cmp: "off \<le> k \<longleftrightarrow> off mod BSIZE \<le> k mod BSIZE" "k < off + length bs \<longleftrightarrow> k mod BSIZE < off mod BSIZE + length bs"
      "k - off = k mod BSIZE - off mod BSIZE" by linarith+
    have "k mod BSIZE < BSIZE" by (simp add: BSIZE_def)
    then show ?thesis using w(2) [OF k] True a bs len cmp by (auto simp: nth_put fbyte_def Let_def)
  next
    case False
    have "\<not> (off \<le> k \<and> k < off + length bs)"
    proof
      assume c: "off \<le> k \<and> k < off + length bs"
      then have "off mod BSIZE + (k - off) < BSIZE" using bs by linarith
      from in_block_div [OF this] c False show False by simp
    qed
    then show ?thesis using w(2) [OF k] False by auto
  qed
  moreover have "blk v m = blk s m" if "is_data s m \<longrightarrow> used s m \<and> m \<notin> own s p" for m
    using that bv a ownI(2) [OF bn, of s p] fmap_okD(3) [OF _ bn, of s "iad s p"] s by (auto simp: file_ok_def)
  moreover have "icache v = (icache s)[p := (icache s ! p)\<lparr>addrs := iad v p\<rparr>]" using fstep_fs(2) [OF st] by (simp add: iad_def)
  ultimately show ?thesis
    using w fstep_istep [OF st] by (simp add: wrote_def)
qed

lemma writei_loop_spec:
  "file_ok s p \<Longrightarrow> off + n \<le> MAXFILE * BSIZE \<Longrightarrow> length src = n \<Longrightarrow>
   ends limits (writei_loop p src off n s) (\<lambda>(e, t). e = off + n \<and> wrote s p off src t)"
proof (induction n arbitrary: off src s rule: less_induct)
  case (less n)
  show ?case
  proof (cases "n = 0")
    case True
    then show ?thesis using mapped_wrote [OF mapped_refl [OF less.prems(1)]] less.prems(3) by (simp add: writei_loop.simps)
  next
    case False
    let ?m = "chunk off n" and ?bn = "off div BSIZE"
    have m: "0 < ?m" "?m \<le> n" "off mod BSIZE + ?m \<le> BSIZE" using chunk_pos [OF False] chunk_le by auto
    have bn: "?bn < MAXFILE" using False less.prems(2) by (simp add: BSIZE_def MAXFILE_val)
    let ?Q = "\<lambda>(e, t). e = off + n \<and> wrote s p off src t"
    let ?K = "\<lambda>a s1. bindr (bread (idev (icache s1 ! p)) a s1) (\<lambda>(i, s2).
       bindr (log_write i (set_data i (put (bdata (bufs s2 ! i)) (off mod BSIZE) (take ?m src)) s2)) (\<lambda>s3.
       bindr (brelse i s3) (\<lambda>s4. writei_loop p (drop ?m src) (off + ?m) (n - ?m) s4)))"
    have step: "ends limits (?K a s1) ?Q" if b: "bmap_post s p ?bn (a, s1)" for a and s1 :: "'a fss"
    proof -
      have s1: "mapped s p s1" "a = faddr (blk s1) (iad s1 p) ?bn" "a \<noteq> 0" using b by (auto simp: bmap_post_def)
      have fo: "file_ok s1 p" using s1(1) by (simp add: mapped_def)
      then have ok: "alloc_ok s1" "quiet s1" "idev (icache s1 ! p) = 1" and fm: "fmap_ok s1 (iad s1 p)"
        by (simp_all add: file_ok_def)
      note op = alloc_okD [OF ok(1)]
      have da: "is_data s1 a" using fmap_okD(3) [OF fm bn] s1(2,3) by simp
      have a: "a < disksize s1" "\<not> held_blk s1 a" "a \<notin> log_area s1"
        using data_block [OF op(2) da] quiet_held [OF ok(2)] by auto
      let ?bs = "take ?m src"
      have lb: "length ?bs = ?m" using m(2) less.prems(3) by simp
      have la: "length (blk s1 a) = BSIZE" by (rule length_blk [OF op(6)])
      show ?thesis unfolding ok(3)
      proof (rule ends_bindI2 [OF bread_op [OF op(1) a(1,2) in_limits(1)]])
        fix i and t :: "'a fss"
        assume "case (i, t) of (i, t) \<Rightarrow> binv t \<and> i < NBUF \<and> has_buf t i a (blk s1 a) \<and> read_frame s1 i t"
        then have t: "binv t" "has_buf t i a (blk s1 a)" "read_frame s1 i t" by simp_all
        have dd: "bdata (bufs t ! i) = blk s1 a" using has_bufD(5) [OF t(1,2)] .
        show "ends limits (bindr (log_write i (set_data i (put (bdata (bufs t ! i)) (off mod BSIZE) ?bs) t)) (\<lambda>s3.
          bindr (brelse i s3) (\<lambda>s4. writei_loop p (drop ?m src) (off + ?m) (n - ?m) s4))) ?Q"
          unfolding dd
        proof (rule log_modify_cont [OF op(1) t _ a(3)])
          show "length (put (blk s1 a) (off mod BSIZE) ?bs) = BSIZE" using la lb m(3) by simp
          fix v :: "'a fss"
          assume v: "modified s1 a (put (blk s1 a) (off mod BSIZE) ?bs) v"
          have "wrote s1 p off ?bs v" using wrote_chunk [OF fo s1(2,3) _ _ v] lb m less.prems(2) False by simp
          then have sv: "wrote s p off ?bs v" using wrote_trans [OF mapped_wrote [OF s1(1)], of off ?bs v] by simp
          then have fv: "file_ok v p" by (simp add: wrote_def)
          have "n - ?m < n" "off + ?m + (n - ?m) \<le> MAXFILE * BSIZE" "length (drop ?m src) = n - ?m"
            using m less.prems(2,3) False by simp_all
          from less.IH [OF this(1) fv this(2,3)]
          show "ends limits (writei_loop p (drop ?m src) (off + ?m) (n - ?m) v) ?Q"
            by (rule ends_mono) (use wrote_trans [OF sv, of "drop ?m src"] lb m(2) in auto)
        qed simp
      qed
    qed
    have "ends limits (bindr (bmap p ?bn s) (\<lambda>(a, s1). ?K a s1)) ?Q"
      by (rule ends_bindI2 [OF bmap_spec [OF less.prems(1) bn]]) (rule step)
    then show ?thesis using False by (subst writei_loop.simps) simp
  qed
qed

section \<open>Inodes on disk\<close>

lemma get_put_in:
  assumes "off + length bs \<le> length d"
  shows "k + 4 \<le> length bs \<Longrightarrow> get32 (put d off bs) (off + k) = get32 bs k"
    and "k + 2 \<le> length bs \<Longrightarrow> get16 (put d off bs) (off + k) = get16 bs k"
  using assms by (simp_all add: get32_def get16_def nth_put add.assoc)

lemma get_append:
  "length xs \<le> k \<Longrightarrow> get32 (xs @ ys) k = get32 ys (k - length xs)" "length xs \<le> k \<Longrightarrow> get16 (xs @ ys) k = get16 ys (k - length xs)"
  by (simp_all add: get32_def get16_def nth_append Suc_diff_le)

lemma get_le: "get32 (le32 v @ ys) 0 = v" "get16 (le16 w @ ys) 0 = w"
  by (simp_all add: get32_def get16_def le32_def le16_def le32_join le16_join)

lemma length_concat_le32 [simp]: "length (concat (map le32 as)) = 4 * length as"
  by (induction as) simp_all

lemma get_concat_le32: "i < length as \<Longrightarrow> get32 (concat (map le32 as)) (4 * i) = as ! i"
proof (induction as arbitrary: i)
  case (Cons a as)
  show ?case
  proof (cases i)
    case 0
    then show ?thesis using get_le(1) [of a "concat (map le32 as)"] by simp
  next
    case (Suc j)
    then show ?thesis using Cons by (simp add: get_append)
  qed
qed simp

text \<open>An inode survives its encoding in a block, and the other bytes of the block are unchanged.\<close>

lemma dinode_codec:
  assumes len: "length (daddrs di) = NDIRECT + 1" and off: "off + 64 \<le> length d"
  shows "get_dinode (put_dinode d off di) off = di
    \<and> (\<forall>j < length d. j < off \<or> off + 64 \<le> j \<longrightarrow> put_dinode d off di ! j = d ! j)"
proof -
  let ?bs = "le16 (dtype di) @ le16 (dmajor di) @ le16 (dminor di) @ le16 (dnlink di) @ le32 (dsize di) @ concat (map le32 (daddrs di))"
  have lb: "length ?bs = 64" using len by (simp add: NDIRECT_val)
  have ob: "off + length ?bs \<le> length d" using off lb by simp
  note g = get_put_in [OF ob, unfolded lb]
  have f: "get16 ?bs 0 = dtype di" "get16 ?bs 2 = dmajor di" "get16 ?bs 4 = dminor di" "get16 ?bs 6 = dnlink di"
    "get32 ?bs 8 = dsize di"
    by (simp_all add: get_append get_le)
  have a: "get32 ?bs (12 + 4 * k) = daddrs di ! k" if "k < NDIRECT + 1" for k
    using get_concat_le32 [of k "daddrs di"] that len by (simp add: get_append)
  have ad: "map (\<lambda>k. get32 (put d off ?bs) (off + 12 + 4 * k)) [0..<NDIRECT + 1] = daddrs di"
  proof (rule nth_equalityI)
    fix k
    assume "k < length (map (\<lambda>k. get32 (put d off ?bs) (off + 12 + 4 * k)) [0..<NDIRECT + 1])"
    then have k: "k < NDIRECT + 1" by simp
    have "get32 (put d off ?bs) (off + (12 + 4 * k)) = get32 ?bs (12 + 4 * k)" by (rule g(1)) (use k in \<open>simp add: NDIRECT_val\<close>)
    then show "map (\<lambda>k. get32 (put d off ?bs) (off + 12 + 4 * k)) [0..<NDIRECT + 1] ! k = daddrs di ! k"
      using a [OF k] k by (simp add: add.assoc del: upt_Suc)
  qed (use len in simp)
  have "get_dinode (put_dinode d off di) off = di"
    unfolding get_dinode_def put_dinode_def ad
    using g(2) [of 0] g(2) [of 2] g(2) [of 4] g(2) [of 6] g(1) [of 8] f by simp
  moreover have "put_dinode d off di ! j = d ! j" if "j < length d" "j < off \<or> off + 64 \<le> j" for j
    using that ob lb by (auto simp: put_dinode_def nth_put)
  ultimately show ?thesis by blast
qed

lemma length_put_dinode: "length (daddrs di) = NDIRECT + 1 \<Longrightarrow> off + 64 \<le> length d \<Longrightarrow> length (put_dinode d off di) = length d"
  by (simp add: put_dinode_def NDIRECT_val)

lemma di_off_le: "di_off i + 64 \<le> BSIZE"
  by (simp add: di_off_def IPB_val BSIZE_def)

text \<open>The blocks of inodes: on the disk, outside the log, the free map and the data.\<close>

lemma inode_block:
  assumes "layout s" and "i < sb_ninodes (sb s)"
  shows "IBLOCK i (sb s) < disksize s" "IBLOCK i (sb s) \<notin> log_area s" "\<not> is_data s (IBLOCK i (sb s))" "\<not> is_bitmap s (IBLOCK i (sb s))"
proof -
  have le: "unat i div IPB \<le> unat (sb_ninodes (sb s)) div IPB"
    using assms(2) by (simp add: div_le_mono word_less_nat_alt)
  have bounds: "unat (sb_inodestart (sb s)) + unat (sb_ninodes (sb s)) div IPB + 1 \<le> unat (sb_bmapstart (sb s))"
    "data_start (sb s) \<le> unat (sb_size (sb s))" "unat (sb_size (sb s)) \<le> unat (disksize s)"
    "unat (lstart s) + nat (lsize s) \<le> unat (sb_inodestart (sb s))"
    using assms(1) by (auto simp: layout_def word_le_nat_alt)
  have bm: "unat (sb_bmapstart (sb s)) < data_start (sb s)" by (simp add: data_start_def)
  have "unat (i div of_nat IPB) = unat i div IPB" by (simp add: IPB_val unat_div_distrib)
  then have "unat (IBLOCK i (sb s)) = unat (sb_inodestart (sb s)) + unat i div IPB"
    unfolding IBLOCK_def using le bounds bm unat_uint_less [of "sb_size (sb s)"] by (subst unat_add_uint) simp_all
  then show "IBLOCK i (sb s) < disksize s" "IBLOCK i (sb s) \<notin> log_area s" "\<not> is_data s (IBLOCK i (sb s))" "\<not> is_bitmap s (IBLOCK i (sb s))"
    using le bounds bm by (auto simp: word_less_nat_alt log_area_def is_data_def is_bitmap_def)
qed

definition inode_live :: "'a fss \<Rightarrow> nat \<Rightarrow> bool" where
  "inode_live s p \<longleftrightarrow> file_ok s p \<and> inum (icache s ! p) < sb_ninodes (sb s)"

lemma iupdate_spec:
  assumes s: "inode_live s p"
  defines "n \<equiv> IBLOCK (inum (icache s ! p)) (sb s)"
  shows "ends limits (iupdate p s) (modified s n (put_dinode (blk s n) (di_off (inum (icache s ! p))) (mem_dinode (icache s ! p))))"
proof -
  have fo: "file_ok s p" and i: "inum (icache s ! p) < sb_ninodes (sb s)" using s by (simp_all add: inode_live_def)
  then have ok: "alloc_ok s" "quiet s" "idev (icache s ! p) = 1" "length (addrs (icache s ! p)) = NDIRECT + 1"
    using fmap_okD(1) [of s "iad s p"] by (auto simp: file_ok_def iad_def)
  note b = inode_block [OF alloc_okD(2) [OF ok(1)] i, folded n_def]
  have "length (put_dinode d (di_off (inum (icache s ! p))) (mem_dinode (icache s ! p))) = BSIZE" if "length d = BSIZE" for d
    using length_put_dinode [of "mem_dinode (icache s ! p)" "di_off (inum (icache s ! p))" d] that ok(4) di_off_le
    by (simp add: mem_dinode_def)
  from log_modify [OF alloc_okD(1) [OF ok(1)] b(1) quiet_held [OF ok(2)] b(2) in_limits(1,2) this]
  show ?thesis using ok(3) by (simp add: iupdate_def Let_def n_def)
qed

text \<open>A change of a block that is neither data nor free map leaves the files alone.\<close>

lemma meta_write:
  assumes s: "file_ok s p" and n: "\<not> is_data s n" "\<not> is_bitmap s n" and st: "fstep s v" and bv: "blk v = (blk s)(n := d)"
  shows "file_ok v p" and "k < MAXFILE * BSIZE \<Longrightarrow> fbyte (blk v) (iad v p) k = fbyte (blk s) (iad s p) k"
    and "used v = used s" and "own v p = own s p"
proof -
  have ok: "alloc_ok s" "quiet s" and fm: "fmap_ok s (iad s p)" and pl: "p < length (icache s)"
    using s by (simp_all add: file_ok_def)
  have lay: "layout s" using alloc_okD(2) [OF ok(1)] .
  note m = fmap_okD [OF fm] and f = fstep_fs [OF st]
  have ia: "iad v p = iad s p" using f(2) by (simp add: iad_def)
  have fa: "faddr (blk v) (iad s p) j = faddr (blk s) (iad s p) j" for j using m(2) n(1) by (auto simp: faddr_def bv)
  have "used v b = used s b" for b using bitmap_is_bitmap [OF lay, of b] n(2) by (auto simp: used_def f bv)
  then show us: "used v = used s" by (simp add: fun_eq_iff)
  show "own v p = own s p" by (simp add: own_def ia fa)
  have dv: "is_data v = is_data s" using layout_fstep(2) [OF st] .
  have q: "quiet v" using st quiet_keeps [OF ok(2)] by (simp add: fstep_def)
  have "alloc_ok v" using ok(1) f us dv layout_fstep(1) [OF st] quiet_held [OF q] by (simp add: alloc_ok_def)
  moreover have "fmap_ok v (iad v p)" using fm fa us dv ia by (simp add: fmap_ok_def)
  ultimately show "file_ok v p" using q pl f(2) s by (simp add: file_ok_def)
  assume "k < MAXFILE * BSIZE"
  then show "fbyte (blk v) (iad v p) k = fbyte (blk s) (iad s p) k"
    by (rule fbyte_cong [rotated]) (use fa ia m(3) n(1) in \<open>auto simp: bv\<close>)
qed

end
