(* ===== verification/Fs_Rw.thy ===== *)
theory Fs_Rw
  imports Fs_File
begin

text \<open>
  The contract of \<^verbatim>\<open>writei\<close> and \<^verbatim>\<open>readi\<close>: reading back what was written, and the isolation of
  the other files.
\<close>

definition max_size :: "uint \<Rightarrow> nat \<Rightarrow> uint" where
  "max_size sz e = (if e > unat sz then of_nat e else sz)"

definition file_written :: "'a fss \<Rightarrow> nat \<Rightarrow> nat \<Rightarrow> byte list \<Rightarrow> 'a fss \<Rightarrow> bool" where
  "file_written s p off bs t \<longleftrightarrow> istep s t \<and> inode_live t p
     \<and> icache t = (icache s)[p := (icache s ! p)\<lparr>addrs := iad t p, isize := max_size (isize (icache s ! p)) (off + length bs)\<rparr>]
     \<and> (\<forall>k < MAXFILE * BSIZE. fbyte (blk t) (iad t p) k =
          (if off \<le> k \<and> k < off + length bs then bs ! (k - off) else fbyte (blk s) (iad s p) k))
     \<and> (\<forall>m. is_data s m \<longrightarrow> used s m \<longrightarrow> used t m)
     \<and> (\<forall>m. \<not> is_bitmap s m \<longrightarrow> m \<noteq> IBLOCK (inum (icache s ! p)) (sb s) \<longrightarrow> (is_data s m \<longrightarrow> used s m \<and> m \<notin> own s p) \<longrightarrow> blk t m = blk s m)"

lemma wrote_inode:
  assumes "wrote s p off bs t"
  shows "icache t ! p = (icache s ! p)\<lparr>addrs := iad t p\<rparr>" "p < length (icache s)" "length (icache t) = length (icache s)"
proof -
  have ic: "icache t = (icache s)[p := (icache s ! p)\<lparr>addrs := iad t p\<rparr>]" using assms by (simp add: wrote_def)
  show "length (icache t) = length (icache s)" by (subst ic) simp
  show pl: "p < length (icache s)" using assms ic by (simp add: wrote_def file_ok_def)
  show "icache t ! p = (icache s ! p)\<lparr>addrs := iad t p\<rparr>" using pl by (subst ic) simp
qed

text \<open>The last part of \<^verbatim>\<open>writei\<close>: the file has grown, the inode is written.\<close>

lemma grow_size:
  assumes s: "inode_live s p" and t: "wrote s p off bs t" and e: "unat (isize (icache s ! p)) < off + length bs"
  shows "ends limits (iupdate p (upd_inode p (\<lambda>ip. ip\<lparr>isize := of_nat (off + length bs)\<rparr>) t)) (file_written s p off bs)"
proof -
  define z :: uint where "z = of_nat (off + length bs)"
  let ?u = "upd_inode p (\<lambda>ip. ip\<lparr>isize := z\<rparr>) t"
  note w = wrote_inode [OF t]
  have ist: "istep s t" and fo: "file_ok t p" using t by (simp_all add: wrote_def)
  note f = istep_fs [OF ist]
  have iu: "icache ?u ! p = (icache t ! p)\<lparr>isize := z\<rparr>" using w by (simp add: icache_upd_inode)
  have au: "iad ?u p = iad t p" by (simp add: iad_def iu)
  have "fmap_ok ?u (iad t p) = fmap_ok t (iad t p)" by (simp add: fmap_ok_def)
  then have fu: "file_ok ?u p" using fo w by (simp add: file_ok_def au iu)
  have inu: "inum (icache ?u ! p) = inum (icache s ! p)" using w(1) by (simp add: iu)
  have live: "inode_live ?u p" using fu s f by (simp add: inode_live_def inu)
  let ?n = "IBLOCK (inum (icache s ! p)) (sb s)"
  have lay: "layout s" using s by (simp add: inode_live_def file_ok_def alloc_okD)
  note nb = inode_block [OF lay, of "inum (icache s ! p)"]
  have nb: "\<not> is_data ?u ?n" "\<not> is_bitmap ?u ?n" using nb s f by (simp_all add: inode_live_def)
  show ?thesis unfolding z_def [symmetric]
  proof (rule ends_mono [OF iupdate_spec [OF live]])
    fix v
    assume "modified ?u (IBLOCK (inum (icache ?u ! p)) (sb ?u)) (put_dinode (blk ?u (IBLOCK (inum (icache ?u ! p)) (sb ?u)))
      (di_off (inum (icache ?u ! p))) (mem_dinode (icache ?u ! p))) v"
    then obtain d where v: "modified ?u ?n d v" using inu f by simp
    have st: "fstep ?u v" and bv: "blk v = (blk ?u)(?n := d)" using modified_fstep [OF v] by simp_all
    note m = meta_write [OF fu nb st bv]
    have icv: "icache v = icache ?u" "sb v = sb s" using fstep_fs [OF st] f by simp_all
    then have av: "iad v p = iad t p" by (simp add: iad_def au [unfolded iad_def])
    have "istep s v" using istep_trans [OF istep_upd_inode [OF ist] fstep_istep [OF st]] .
    moreover have "icache v = (icache s)[p := (icache s ! p)\<lparr>addrs := iad v p, isize := max_size (isize (icache s ! p)) (off + length bs)\<rparr>]"
    proof -
      have "icache t = (icache s)[p := (icache s ! p)\<lparr>addrs := iad t p\<rparr>]" using t by (simp add: wrote_def)
      then show ?thesis using w(1) e by (simp add: icv av upd_inode_def max_size_def z_def)
    qed
    moreover have "inode_live v p" using m(1) live icv f by (simp add: inode_live_def)
    moreover have "fbyte (blk v) (iad v p) k =
          (if off \<le> k \<and> k < off + length bs then bs ! (k - off) else fbyte (blk s) (iad s p) k)" if "k < MAXFILE * BSIZE" for k
      using m(2) [OF that] t that by (simp add: au wrote_def)
    moreover have "used v b" if "is_data s b" "used s b" for b using m(3) t that by (simp add: wrote_def)
    moreover have "blk v b = blk s b" if "\<not> is_bitmap s b" "b \<noteq> ?n" "is_data s b \<longrightarrow> used s b \<and> b \<notin> own s p" for b
      using that t bv by (simp add: wrote_def)
    ultimately show "file_written s p off bs v" by (simp add: file_written_def)
  qed
qed

lemma writei_spec:
  assumes s: "inode_live s p" and ty: "itype (icache s ! p) \<noteq> T_DEV" and off: "off \<le> isize (icache s ! p)"
    and bnd: "unat off + length bs \<le> MAXFILE * BSIZE"
  shows "ends limits (writei dv p bs off (of_nat (length bs)) s) (\<lambda>(r, t). r = int (length bs) \<and> file_written s p (unat off) bs t)"
proof -
  define n where "n = (of_nat (length bs) :: uint)"
  let ?e = "unat off + length bs"
  have fo: "file_ok s p" using s by (simp add: inode_live_def)
  have small: "length bs < 4294967296" "?e < 4294967296" using bnd by (simp_all add: MAXFILE_val BSIZE_def)
  have un: "unat n = length bs" "unat (of_nat ?e :: uint) = ?e" unfolding n_def using small by (simp_all only: unat_of_nat_uint)
  have uo: "unat (off + n) = ?e" using small un(1) by (subst unat_add_uint) simp_all
  have c: "\<not> isize (icache s ! p) < off" "\<not> off + n < off" "\<not> of_nat (MAXFILE * BSIZE) < off + n"
    using off uo bnd by (simp_all add: word_less_nat_alt word_le_nat_alt MAXFILE_val BSIZE_def)
  have "writei dv p bs off n s = bindr (writei_loop p bs (unat off) (unat n) s) (\<lambda>(off', s1).
       bindr (if n > 0 \<and> of_nat off' > isize (icache s1 ! p)
              then iupdate p (upd_inode p (\<lambda>ip. ip\<lparr>isize := of_nat off'\<rparr>) s1) else Ok s1) (\<lambda>s2. Ok (int (unat n), s2)))"
    using ty c by (simp add: writei_def Let_def)
  then have eq: "writei dv p bs off n s = bindr (writei_loop p bs (unat off) (length bs) s) (\<lambda>(off', s1).
       bindr (if n > 0 \<and> of_nat off' > isize (icache s1 ! p)
              then iupdate p (upd_inode p (\<lambda>ip. ip\<lparr>isize := of_nat off'\<rparr>) s1) else Ok s1) (\<lambda>s2. Ok (int (length bs), s2)))"
    by (simp only: un(1))
  show ?thesis unfolding n_def [symmetric] eq
  proof (rule ends_bindI2 [OF writei_loop_spec [OF fo bnd refl]])
    fix e and t :: "'a fss"
    assume "case (e, t) of (e, t) \<Rightarrow> e = ?e \<and> wrote s p (unat off) bs t"
    then have e: "e = ?e" and t: "wrote s p (unat off) bs t" by simp_all
    note w = wrote_inode [OF t]
    have sz: "isize (icache t ! p) = isize (icache s ! p)" using w(1) by simp
    have cond: "n > 0 \<and> of_nat e > isize (icache t ! p) \<longleftrightarrow> unat (isize (icache s ! p)) < ?e"
      using un off by (auto simp: word_less_nat_alt word_le_nat_alt sz e)
    show "ends limits (bindr (if n > 0 \<and> of_nat e > isize (icache t ! p)
        then iupdate p (upd_inode p (\<lambda>ip. ip\<lparr>isize := of_nat e\<rparr>) t) else Ok t) (\<lambda>s2. Ok (int (length bs), s2)))
      (\<lambda>(r, t). r = int (length bs) \<and> file_written s p (unat off) bs t)"
    proof (cases "unat (isize (icache s ! p)) < ?e")
      case True
      then show ?thesis unfolding cond using grow_size [OF s t True] by (simp add: e)
    next
      case False
      have "icache t = (icache s)[p := (icache s ! p)\<lparr>addrs := iad t p, isize := isize (icache s ! p)\<rparr>]"
        using t by (simp add: wrote_def)
      moreover have "inode_live t p" using t s w(1) istep_fs(1) [of s t] by (simp add: wrote_def inode_live_def)
      ultimately have "file_written s p (unat off) bs t"
        using t False by (simp add: file_written_def wrote_def max_size_def)
      then show ?thesis unfolding cond using False by simp
    qed
  qed
qed

section \<open>Files as byte strings\<close>

text \<open>The abstract file: the bytes up to its size. Writing replaces a range of it.\<close>

definition file_of :: "'a fss \<Rightarrow> nat \<Rightarrow> byte list" where
  "file_of s p = fbytes s p 0 (unat (isize (icache s ! p)))"

definition pwrite :: "byte list \<Rightarrow> nat \<Rightarrow> byte list \<Rightarrow> byte list" where
  "pwrite c off bs = take off c @ bs @ drop (off + length bs) c"

definition pread :: "byte list \<Rightarrow> nat \<Rightarrow> nat \<Rightarrow> byte list" where
  "pread c off n = take n (drop off c)"

lemma length_pwrite: "off \<le> length c \<Longrightarrow> length (pwrite c off bs) = max (length c) (off + length bs)"
  by (simp add: pwrite_def)

lemma nth_pwrite:
  assumes "off \<le> length c" and "k < max (length c) (off + length bs)"
  shows "pwrite c off bs ! k = (if off \<le> k \<and> k < off + length bs then bs ! (k - off) else c ! k)"
  using assms by (auto simp: pwrite_def nth_append min_def)

lemma pread_pwrite: "off \<le> length c \<Longrightarrow> pread (pwrite c off bs) off (length bs) = bs"
  by (simp add: pread_def pwrite_def)

lemma length_file_of [simp]: "length (file_of s p) = unat (isize (icache s ! p))"
  by (simp add: file_of_def fbytes_def)

lemma file_of_nth: "k < unat (isize (icache s ! p)) \<Longrightarrow> file_of s p ! k = fbyte (blk s) (iad s p) k"
  by (simp add: file_of_def fbytes_def)

lemma fbytes_pread: "off + n \<le> unat (isize (icache s ! p)) \<Longrightarrow> fbytes s p off n = pread (file_of s p) off n"
  by (rule nth_equalityI) (simp_all add: fbytes_def pread_def file_of_def)

lemma unat_max_size: "e < 4294967296 \<Longrightarrow> unat (max_size z e) = max (unat z) e"
  by (auto simp: max_size_def unat_of_nat_uint)

lemma file_written_inode:
  assumes "file_written s p off bs t"
  shows "icache t ! p = (icache s ! p)\<lparr>addrs := iad t p, isize := max_size (isize (icache s ! p)) (off + length bs)\<rparr>"
    "q \<noteq> p \<Longrightarrow> icache t ! q = icache s ! q" "length (icache t) = length (icache s)"
proof -
  have ic: "icache t = (icache s)[p := (icache s ! p)\<lparr>addrs := iad t p, isize := max_size (isize (icache s ! p)) (off + length bs)\<rparr>]"
    and live: "inode_live t p" using assms by (simp_all add: file_written_def)
  show le: "length (icache t) = length (icache s)" by (subst ic) simp
  have "p < length (icache t)" using live by (simp add: inode_live_def file_ok_def)
  then have pl: "p < length (icache s)" using le by simp
  show "icache t ! p = (icache s ! p)\<lparr>addrs := iad t p, isize := max_size (isize (icache s ! p)) (off + length bs)\<rparr>"
    using pl by (subst ic) simp
  show "q \<noteq> p \<Longrightarrow> icache t ! q = icache s ! q" by (subst ic) simp
qed

lemma file_written_pwrite:
  assumes t: "file_written s p off bs t" and off: "off \<le> unat (isize (icache s ! p))"
    and sz: "unat (isize (icache s ! p)) \<le> MAXFILE * BSIZE" and bnd: "off + length bs \<le> MAXFILE * BSIZE"
  shows "file_of t p = pwrite (file_of s p) off bs"
proof -
  let ?m = "max (unat (isize (icache s ! p))) (off + length bs)"
  have ut: "unat (isize (icache t ! p)) = ?m"
    using file_written_inode(1) [OF t] bnd by (simp add: unat_max_size MAXFILE_val BSIZE_def)
  have m: "?m \<le> MAXFILE * BSIZE" using sz bnd by simp
  show ?thesis
  proof (rule nth_equalityI)
    show "length (file_of t p) = length (pwrite (file_of s p) off bs)" using off by (simp add: ut length_pwrite)
  next
    fix k assume "k < length (file_of t p)"
    then have k: "k < ?m" by (simp add: ut)
    have "file_of t p ! k = fbyte (blk t) (iad t p) k" using k by (simp add: file_of_nth ut)
    also have "\<dots> = (if off \<le> k \<and> k < off + length bs then bs ! (k - off) else fbyte (blk s) (iad s p) k)"
    proof -
      have "k < MAXFILE * BSIZE" using k m by (rule less_le_trans)
      with t show ?thesis by (simp add: file_written_def)
    qed
    also have "\<dots> = pwrite (file_of s p) off bs ! k"
    proof (cases "off \<le> k \<and> k < off + length bs")
      case True
      then show ?thesis using nth_pwrite [of off "file_of s p" k bs] off k by simp
    next
      case False
      then have "k < unat (isize (icache s ! p))" using k off by auto
      then show ?thesis using nth_pwrite [of off "file_of s p" k bs] off k False by (auto simp: file_of_nth)
    qed
    finally show "file_of t p ! k = pwrite (file_of s p) off bs ! k" .
  qed
qed

text \<open>Two cached inodes of different files: neither has a block of the other.\<close>

definition separate :: "'a fss \<Rightarrow> nat \<Rightarrow> nat \<Rightarrow> bool" where
  "separate s p q \<longleftrightarrow> p \<noteq> q \<and> fmap_ok s (iad s q) \<and> own s p \<inter> own s q \<subseteq> {0} \<and> unat (isize (icache s ! q)) \<le> MAXFILE * BSIZE"

lemma file_written_separate:
  assumes s: "inode_live s p" and t: "file_written s p off bs t" and q: "separate s p q"
  shows "file_of t q = file_of s q"
proof -
  have ic: "icache t ! q = icache s ! q" using file_written_inode(2) [OF t] q by (simp add: separate_def)
  then have ia: "iad t q = iad s q" by (simp add: iad_def)
  have fm: "fmap_ok s (iad s q)" using q by (simp add: separate_def)
  have lay: "layout s" using s by (simp add: inode_live_def file_ok_def alloc_okD)
  have nb: "\<not> is_data s (IBLOCK (inum (icache s ! p)) (sb s))" using inode_block(3) [OF lay] s by (simp add: inode_live_def)
  have keep: "blk t m = blk s m" if "m \<in> own s q" "m \<noteq> 0" "is_data s m" "used s m" for m
  proof -
    have "m \<notin> own s p" using q that(1,2) by (auto simp: separate_def)
    moreover have "m \<noteq> IBLOCK (inum (icache s ! p)) (sb s)" using nb that(3) by blast
    ultimately show ?thesis using t data_not_bitmap [OF that(3)] that(4) by (simp add: file_written_def)
  qed
  have ind: "blk t (iad s q ! NDIRECT) = blk s (iad s q ! NDIRECT)" if "iad s q ! NDIRECT \<noteq> 0"
    using keep [OF ownI(1) that] fmap_okD(2) [OF fm that] by simp
  have fa: "faddr (blk t) (iad s q) j = faddr (blk s) (iad s q) j" for j using ind by (simp add: faddr_def)
  have "fbyte (blk t) (iad t q) k = fbyte (blk s) (iad s q) k" if "k < MAXFILE * BSIZE" for k
    by (rule fbyte_cong [OF _ that]) (use keep [OF ownI(2)] fmap_okD(3) [OF fm] in \<open>auto simp: ia fa\<close>)
  then show ?thesis using q by (auto simp: file_of_def fbytes_def ic separate_def)
qed

text \<open>C21: \<^verbatim>\<open>writei\<close> refines a write to a byte string: for an offset inside the file and a range that
  fits into the largest file, it returns the number of bytes, the file is afterwards the old one with that range
  replaced, and every file it shares no block with is unchanged. Otherwise it has stopped with one of the
  panics for an exhausted resource (buffers, log space, disk blocks).
\<close>

theorem writei_refines:
  assumes "inode_live s p" and "itype (icache s ! p) \<noteq> T_DEV" and "off \<le> isize (icache s ! p)"
    and "unat (isize (icache s ! p)) \<le> MAXFILE * BSIZE" and "unat off + length bs \<le> MAXFILE * BSIZE"
  shows "ends limits (writei dv p bs off (of_nat (length bs)) s) (\<lambda>(r, t). r = int (length bs)
    \<and> file_of t p = pwrite (file_of s p) (unat off) bs \<and> (\<forall>q. separate s p q \<longrightarrow> file_of t q = file_of s q))"
proof (rule ends_mono [OF writei_spec [OF assms(1,2,3,5)]])
  fix x
  assume x: "case x of (r, t) \<Rightarrow> r = int (length bs) \<and> file_written s p (unat off) bs t"
  obtain r t where xe: "x = (r, t)" by (cases x)
  have o: "unat off \<le> unat (isize (icache s ! p))" using assms(3) by (simp add: word_le_nat_alt)
  show "case x of (r, t) \<Rightarrow> r = int (length bs) \<and> file_of t p = pwrite (file_of s p) (unat off) bs
      \<and> (\<forall>q. separate s p q \<longrightarrow> file_of t q = file_of s q)"
    using x file_written_pwrite [OF _ o assms(4,5), of t] file_written_separate [OF assms(1), of "unat off" bs t] by (simp add: xe)
qed

text \<open>C22: Reading back: a \<^verbatim>\<open>readi\<close> of the range that a \<^verbatim>\<open>writei\<close> has just written returns exactly the bytes written,
  across block boundaries and through the indirect block.
\<close>

theorem writei_readi:
  assumes live: "inode_live s p" and ty: "itype (icache s ! p) \<noteq> T_DEV" and off: "off \<le> isize (icache s ! p)"
    and sz: "unat (isize (icache s ! p)) \<le> MAXFILE * BSIZE" and bnd: "unat off + length bs \<le> MAXFILE * BSIZE"
  shows "ends limits (bindr (writei dv p bs off (of_nat (length bs)) s) (\<lambda>(r, t). readi dv p off (of_nat (length bs)) t))
    (\<lambda>(r, bs', u). r = int (length bs) \<and> bs' = bs)"
proof (rule ends_bindI2 [OF writei_spec [OF live ty off bnd]])
  fix r and t :: "'a fss"
  define n where "n = (of_nat (length bs) :: uint)"
  assume "case (r, t) of (r, t) \<Rightarrow> r = int (length bs) \<and> file_written s p (unat off) bs t"
  then have t: "file_written s p (unat off) bs t" by simp
  note i = file_written_inode(1) [OF t]
  have un: "unat n = length bs" unfolding n_def using bnd by (intro unat_of_nat_uint) (simp add: MAXFILE_val BSIZE_def)
  have o: "unat off \<le> unat (isize (icache s ! p))" using off by (simp add: word_le_nat_alt)
  have z: "unat (isize (icache t ! p)) = max (unat (isize (icache s ! p))) (unat off + length bs)"
    using i bnd by (simp add: unat_max_size MAXFILE_val BSIZE_def)
  have fo: "file_ok t p" using t by (simp add: file_written_def inode_live_def)
  have ty': "itype (icache t ! p) \<noteq> T_DEV" using ty i by simp
  have o': "off \<le> isize (icache t ! p)" "unat (isize (icache t ! p)) \<le> MAXFILE * BSIZE"
    using o sz bnd by (simp_all add: word_le_nat_alt z)
  have nw: "\<not> off + n < off"
    using bnd un by (simp add: word_less_nat_alt unat_add_uint MAXFILE_val BSIZE_def)
  have mn: "min (unat n) (unat (isize (icache t ! p)) - unat off) = length bs" using o by (simp add: un z)
  have "fbytes t p (unat off) (length bs) = bs"
    using fbytes_pread [of "unat off" "length bs" t p] file_written_pwrite [OF t o sz bnd] pread_pwrite [of "unat off" "file_of s p" bs] o z
    by simp
  then show "ends limits (readi dv p off (of_nat (length bs)) t) (\<lambda>(r, bs', u). r = int (length bs) \<and> bs' = bs)"
    using readi_spec [OF fo ty' o'(1) nw o'(2), of dv] unfolding mn n_def [symmetric] by (auto elim!: ends_mono)
qed

text \<open>C23: \<^verbatim>\<open>balloc\<close> hands out a block that was free: a data block, not in use before and in use now, filled with zeroes;
  every other block that is not part of the free map keeps its contents, and no other block changes between free and in use.
  It reports \<^verbatim>\<open>out of blocks\<close> only when every block of the disk is in use.
\<close>

theorem balloc_allocates:
  assumes s: "alloc_ok s"
  shows "ends (if \<forall>c. unat c < unat (sb_size (sb s)) \<longrightarrow> used s c then limits else {''bget: no buffers'', ''too big a transaction''})
    (balloc 1 s) (\<lambda>(a, t). is_data s a \<and> \<not> used s a \<and> used t a \<and> blk t a = replicate BSIZE 0
      \<and> (\<forall>m. m \<noteq> a \<longrightarrow> \<not> is_bitmap s m \<longrightarrow> blk t m = blk s m)
      \<and> (\<forall>b. b \<noteq> a \<longrightarrow> unat b < unat (sb_size (sb s)) \<longrightarrow> used t b = used s b))"
proof -
  have lim: "(if \<forall>c. unat c < unat (sb_size (sb s)) \<longrightarrow> used s c then limits else {''bget: no buffers'', ''too big a transaction''}) = balloc_limits s"
    unfolding balloc_limits_def io_limits_def by (rule refl)
  show ?thesis unfolding lim
  proof (rule ends_mono [OF balloc_spec [OF s]])
    fix x assume x: "case x of (a, t) \<Rightarrow> allocated s a t"
    obtain a t where xe: "x = (a, t)" by (cases x)
    have al: "allocated s a t" using x by (simp add: xe)
    have d: "is_data s a" "\<not> used s a" using al by (simp_all add: allocated_def)
    then have "unat a < unat (sb_size (sb s))" by (simp add: is_data_def)
    then have "used t a" using allocated_used [OF s al] by simp
    with d show "case x of (a, t) \<Rightarrow> is_data s a \<and> \<not> used s a \<and> used t a \<and> blk t a = replicate BSIZE 0
      \<and> (\<forall>m. m \<noteq> a \<longrightarrow> \<not> is_bitmap s m \<longrightarrow> blk t m = blk s m)
      \<and> (\<forall>b. b \<noteq> a \<longrightarrow> unat b < unat (sb_size (sb s)) \<longrightarrow> used t b = used s b)"
      using allocated_blk [OF s al] allocated_used [OF s al] by (simp add: xe)
  qed
qed

section \<open>A small disk\<close>

definition demo_bitmap :: "byte list" where
  "demo_bitmap = replicate 7 255 @ [7] @ replicate 504 0"

definition demo_fs :: "unit fss" where
  "demo_fs = \<lparr>bufs = replicate NBUF blank_buf, lru = [0..<NBUF],
     disk = (\<lambda>n. if n = 58 then demo_bitmap else replicate BSIZE 0), dhist = [],
     disksize = 1000, curpid = 1, lstart = 2, lsize = 30, outstanding = 1, committing = False, ldev = 1,
     lh_n = 0, lh_block = replicate LOGSIZE 0,
     sb = \<lparr>sb_size = 1000, sb_nblocks = 941, sb_ninodes = 200, sb_nlog = 30, sb_logstart = 2, sb_inodestart = 32, sb_bmapstart = 58\<rparr>,
     icache = [\<lparr>idev = 1, inum = 3, iref = 1, ilk = \<lparr>sl_locked = True, sl_pid = 1\<rparr>, ivalid = True, itype = T_FILE, imajor = 0, iminor = 0,
        inlink = 1, isize = 0, addrs = replicate (NDIRECT + 1) 0\<rparr>], cwd = 0\<rparr>"

lemma demo_fs_bufs: "i < NBUF \<Longrightarrow> bufs demo_fs ! i = blank_buf"
  by (simp add: demo_fs_def)

lemma demo_fs_uncached: "\<not> cached_at demo_fs n i" "\<not> dirty_blk demo_fs n" "quiet demo_fs"
  by (auto simp: cached_at_def dirty_blk_def quiet_def is_locked_def demo_fs_bufs blank_buf_def free_slk_def)

lemma demo_fs_blk: "blk demo_fs n = (if n = 58 then demo_bitmap else replicate BSIZE 0)"
proof -
  have "blk demo_fs n = disk demo_fs n" by (rule blk_uncached) (rule demo_fs_uncached)
  then show ?thesis by (simp add: demo_fs_def)
qed

lemma demo_fs_in_op: "in_op demo_fs"
proof -
  have "buf_ok demo_fs (bufs demo_fs ! i)" if "i < NBUF" for i
    using that by (simp add: demo_fs_bufs buf_ok_def blank_buf_def free_slk_def)
  moreover have "uniq_bufs (bufs demo_fs)" by (simp add: uniq_bufs_def demo_fs_bufs blank_buf_def)
  moreover have "length demo_bitmap = BSIZE" by (simp add: demo_bitmap_def BSIZE_def)
  ultimately have "binv demo_fs" unfolding binv_def by (auto simp: demo_fs_def)
  moreover have "logged demo_fs = []" by (simp add: logged_def demo_fs_def)
  ultimately show ?thesis using demo_fs_uncached(2)
    by (simp add: in_op_def log_wf_def log_geom_def log_entries_def) (simp add: demo_fs_def LOGSIZE_def MAXOPBLOCKS_def)
qed

lemma demo_bits: "k < 59 \<Longrightarrow> \<not> bit_clear demo_bitmap k"
proof -
  have "\<forall>k \<in> set [0..<59]. \<not> bit_clear demo_bitmap k" by code_simp
  then show "k < 59 \<Longrightarrow> \<not> bit_clear demo_bitmap k" by simp
qed

lemma demo_fs_sb: "sb demo_fs = \<lparr>sb_size = 1000, sb_nblocks = 941, sb_ninodes = 200, sb_nlog = 30, sb_logstart = 2, sb_inodestart = 32, sb_bmapstart = 58\<rparr>"
  by (simp add: demo_fs_def)

lemma demo_fs_alloc: "alloc_ok demo_fs"
proof -
  have lay: "layout demo_fs"
    by (simp add: layout_def data_start_def demo_fs_sb BPB_val IPB_val) (simp add: demo_fs_def)
  have "is_data demo_fs a" if a: "unat a < 1000" "\<not> used demo_fs a" for a
  proof (rule ccontr)
    assume "\<not> is_data demo_fs a"
    then have lt: "unat a < 59" using a(1) by (simp add: is_data_def demo_fs_sb data_start_def BPB_val)
    have "unat (BBLOCK a (sb demo_fs)) = unat (58 :: uint)"
      using unat_BBLOCK [OF lay, of a] lt by (simp add: demo_fs_sb BPB_val)
    then have "BBLOCK a (sb demo_fs) = 58" by (simp only: word_unat_eq_iff)
    with a demo_bits [OF lt] lt show False by (simp add: used_def demo_fs_blk BPB_val demo_fs_sb)
  qed
  then show ?thesis using demo_fs_in_op lay quiet_held [OF demo_fs_uncached(3)] by (simp add: alloc_ok_def demo_fs_sb)
qed

lemma demo_fs_live: "inode_live demo_fs 0"
proof -
  have ic: "icache demo_fs ! 0 = \<lparr>idev = 1, inum = 3, iref = 1, ilk = \<lparr>sl_locked = True, sl_pid = 1\<rparr>, ivalid = True, itype = T_FILE, imajor = 0, iminor = 0,
        inlink = 1, isize = 0, addrs = replicate (NDIRECT + 1) 0\<rparr>" "length (icache demo_fs) = 1"
    by (simp_all add: demo_fs_def)
  then have "fmap_ok demo_fs (iad demo_fs 0)" by (auto simp: fmap_ok_def iad_def faddr_def NDIRECT_val)
  then show ?thesis using demo_fs_alloc demo_fs_uncached(3) by (simp add: inode_live_def file_ok_def ic demo_fs_sb)
qed

lemma demo_fs_inode: "itype (icache demo_fs ! 0) = T_FILE" "isize (icache demo_fs ! 0) = 0" "file_of demo_fs 0 = []"
  by (simp_all add: demo_fs_def file_of_def fbytes_def)

theorem writei_refines_witness:
  "ends limits (writei (\<lambda>_. (None, None)) 0 (replicate 600 9) 0 600 demo_fs) (\<lambda>(r, t). r = 600 \<and> file_of t 0 = replicate 600 9)"
  using writei_refines [OF demo_fs_live, of 0 "replicate 600 9" "\<lambda>_. (None, None)"]
  by (simp add: demo_fs_inode T_FILE_def T_DEV_def MAXFILE_val BSIZE_def pwrite_def) (auto elim!: ends_mono)

theorem writei_readi_witness:
  "ends limits (bindr (writei (\<lambda>_. (None, None)) 0 (replicate 600 9) 0 600 demo_fs) (\<lambda>(r, t). readi (\<lambda>_. (None, None)) 0 0 600 t))
    (\<lambda>(r, bs, u). r = 600 \<and> bs = replicate 600 9)"
  using writei_readi [OF demo_fs_live, of 0 "replicate 600 9" "\<lambda>_. (None, None)"]
  by (simp add: demo_fs_inode T_FILE_def T_DEV_def MAXFILE_val BSIZE_def)

theorem balloc_allocates_witness:
  "ends {''bget: no buffers'', ''too big a transaction''} (balloc 1 demo_fs) (\<lambda>(a, t). \<not> used demo_fs a \<and> used t a)"
proof -
  have "bit_clear demo_bitmap 100" by code_simp
  moreover have "BBLOCK 100 (sb demo_fs) = 58" by (simp add: BBLOCK_def demo_fs_sb BPB_val)
  ultimately have "\<not> used demo_fs 100" by (simp add: used_def demo_fs_blk demo_fs_sb BPB_val)
  then have f: "\<not> (\<forall>c. unat c < unat (sb_size (sb demo_fs)) \<longrightarrow> used demo_fs c)" by (auto simp: demo_fs_sb intro!: exI [of _ 100])
  show ?thesis using balloc_allocates [OF demo_fs_alloc] unfolding if_not_P [OF f] by (auto elim!: ends_mono)
qed

end
