(* ===== verification/File.thy ===== *)
theory File
  imports Fs_Rw Pipe
begin

text \<open>
  Open files (\<^verbatim>\<open>src/file.c\<close>) and \<^verbatim>\<open>pipealloc\<close> of \<^verbatim>\<open>src/pipe.c\<close>. The state extends the file system by the
  table of open files, the descriptor table and the \<^verbatim>\<open>killed\<close> flag of the running process, and the pages that pipes
  live in. A pointer to an open file is its index in the table, a pointer to a pipe the index of its page. A read or
  write that has to wait for the other end of a pipe blocks.
\<close>

section \<open>State\<close>

definition NFILE :: nat where "NFILE = 100"
definition NOFILE :: nat where "NOFILE = 16"

datatype fdtype = FD_NONE | FD_PIPE | FD_INODE

record kfile =
  ftype :: fdtype
  fref :: int
  freadable :: bool
  fwritable :: bool
  fpipe :: nat
  fip :: nat
  foff :: uint

record file_state = fs_state +
  ftable :: "kfile list"
  ofile :: "nat option list"
  pipes :: "pipe option list"
  pkilled :: bool

type_synonym 'a fls = "'a file_state_scheme"
type_synonym 'a fdev = "'a file_state_ext devsw"

definition upd_file :: "nat \<Rightarrow> (kfile \<Rightarrow> kfile) \<Rightarrow> 'a fls \<Rightarrow> 'a fls" where
  "upd_file f g s = s\<lparr>ftable := (ftable s)[f := g (ftable s ! f)]\<rparr>"

section \<open>Operations\<close>

definition filealloc :: "'a fls \<Rightarrow> nat option \<times> 'a fls" where
  "filealloc s = (case first_idx (\<lambda>f. fref f = 0) (ftable s) of
       Some f \<Rightarrow> (Some f, upd_file f (\<lambda>x. x\<lparr>fref := 1\<rparr>) s)
     | None \<Rightarrow> (None, s))"

definition filedup :: "nat \<Rightarrow> 'a fls \<Rightarrow> 'a fls res" where
  "filedup f s = guardr (\<not> fref (ftable s ! f) < 1) ''filedup'' (Ok (upd_file f (\<lambda>x. x\<lparr>fref := fref x + 1\<rparr>) s))"

text \<open>\<^verbatim>\<open>pipeclose\<close> on the pipe of a file; the page goes back to the pool when both ends are closed.\<close>

definition close_pipe :: "nat \<Rightarrow> bool \<Rightarrow> 'a fls \<Rightarrow> 'a fls res" where
  "close_pipe p writable s = (case pipes s ! p of
       None \<Rightarrow> Undef ''use of a freed pipe''
     | Some q \<Rightarrow> let (q', _, freed) = pipeclose writable q in Ok (s\<lparr>pipes := (pipes s)[p := if freed then None else Some q']\<rparr>))"

definition fileclose :: "nat \<Rightarrow> 'a fls \<Rightarrow> 'a fls res" where
  "fileclose f s =
     (let ff = ftable s ! f in
      guardr (\<not> fref ff < 1) ''fileclose''
      (if fref ff - 1 > 0 then Ok (upd_file f (\<lambda>x. x\<lparr>fref := fref x - 1\<rparr>) s)
       else let s1 = upd_file f (\<lambda>x. x\<lparr>fref := 0, ftype := FD_NONE\<rparr>) s in
            if ftype ff = FD_PIPE then close_pipe (fpipe ff) (fwritable ff) s1
            else if ftype ff = FD_INODE then bindr (begin_op s1) (\<lambda>s2. bindr (iput (fip ff) s2) end_op)
            else Ok s1))"

definition filestat :: "nat \<Rightarrow> 'a fls \<Rightarrow> (stat option \<times> 'a fls) res" where
  "filestat f s =
     (let ff = ftable s ! f in
      if ftype ff = FD_INODE
      then bindr (ilock (fip ff) s) (\<lambda>s1. let st = stati (icache s1 ! fip ff) in bindr (iunlock (fip ff) s1) (\<lambda>s2. Ok (Some st, s2)))
      else Ok (None, s))"

definition read_pipe :: "nat \<Rightarrow> int \<Rightarrow> 'a fls \<Rightarrow> (int \<times> byte list \<times> 'a fls) res" where
  "read_pipe p n s = (case pipes s ! p of
       None \<Rightarrow> Undef ''use of a freed pipe''
     | Some q \<Rightarrow> (case piperead (pkilled s) n q of
           (q', _, Returned r, bs) \<Rightarrow> Ok (r, bs, s\<lparr>pipes := (pipes s)[p := Some q']\<rparr>)
         | (_, _, Asleep _, _) \<Rightarrow> Block))"

definition write_pipe :: "nat \<Rightarrow> byte list \<Rightarrow> int \<Rightarrow> 'a fls \<Rightarrow> (int \<times> 'a fls) res" where
  "write_pipe p src n s = (case pipes s ! p of
       None \<Rightarrow> Undef ''use of a freed pipe''
     | Some q \<Rightarrow> (case pipewrite (pkilled s) (\<lambda>i. src ! i) n 0 q of
           (q', _, Returned r, _) \<Rightarrow> Ok (r, s\<lparr>pipes := (pipes s)[p := Some q']\<rparr>)
         | (_, _, Asleep _, _) \<Rightarrow> Block))"

definition fileread :: "'a fdev \<Rightarrow> nat \<Rightarrow> int \<Rightarrow> 'a fls \<Rightarrow> (int \<times> byte list \<times> 'a fls) res" where
  "fileread dv f n s =
     (let ff = ftable s ! f in
      if \<not> freadable ff then Ok (-1, [], s)
      else if ftype ff = FD_PIPE then read_pipe (fpipe ff) n s
      else if ftype ff = FD_INODE then
        bindr (ilock (fip ff) s) (\<lambda>s1.
        bindr (readi dv (fip ff) (foff ff) (of_int n) s1) (\<lambda>(r, bs, s2).
          let s3 = (if r > 0 then upd_file f (\<lambda>x. x\<lparr>foff := foff x + of_int r\<rparr>) s2 else s2) in
        bindr (iunlock (fip ff) s3) (\<lambda>s4. Ok (r, bs, s4))))
      else Panic ''fileread'')"

text \<open>The largest piece of a write: the blocks of one operation of the log.\<close>

definition write_max :: int where
  "write_max = ((int MAXOPBLOCKS - 1 - 1 - 2) div 2) * 512"

text \<open>One turn of the loop of \<^verbatim>\<open>filewrite\<close>, for the piece \<open>src\<close> of \<open>n1\<close> bytes.\<close>

definition write_piece :: "'a fdev \<Rightarrow> nat \<Rightarrow> byte list \<Rightarrow> int \<Rightarrow> 'a fls \<Rightarrow> (int \<times> 'a fls) res" where
  "write_piece dv f src n1 s =
     bindr (begin_op s) (\<lambda>s1.
       let ip = fip (ftable s1 ! f) in
     bindr (ilock ip s1) (\<lambda>s2.
     bindr (writei dv ip src (foff (ftable s2 ! f)) (of_int n1) s2) (\<lambda>(r, s3).
       let s4 = (if r > 0 then upd_file f (\<lambda>x. x\<lparr>foff := foff x + of_int r\<rparr>) s3 else s3) in
     bindr (iunlock ip s4) (\<lambda>s5.
     bindr (end_op s5) (\<lambda>s6. Ok (r, s6))))))"

lemma write_max_val: "write_max = 1536"
  by (simp add: write_max_def MAXOPBLOCKS_def)

function filewrite_loop :: "'a fdev \<Rightarrow> nat \<Rightarrow> byte list \<Rightarrow> int \<Rightarrow> int \<Rightarrow> 'a fls \<Rightarrow> (int \<times> 'a fls) res" where
  "filewrite_loop dv f src n i s =
     (if i < n then
        let n1 = min (n - i) write_max in
        bindr (write_piece dv f (drop (nat i) src) n1 s) (\<lambda>(r, s1).
          if r < 0 then Ok (i, s1)
          else guardr (r = n1) ''short filewrite'' (filewrite_loop dv f src n (i + n1) s1))
      else Ok (i, s))"
  by pat_completeness auto
termination
  by (relation "measure (\<lambda>(dv, f, src, n, i, s). nat (n - i))") (auto simp: write_max_val)

declare filewrite_loop.simps [simp del]

definition filewrite :: "'a fdev \<Rightarrow> nat \<Rightarrow> byte list \<Rightarrow> int \<Rightarrow> 'a fls \<Rightarrow> (int \<times> 'a fls) res" where
  "filewrite dv f src n s =
     (let ff = ftable s ! f in
      if \<not> fwritable ff then Ok (-1, s)
      else if ftype ff = FD_PIPE then write_pipe (fpipe ff) src n s
      else if ftype ff = FD_INODE
      then bindr (filewrite_loop dv f src n 0 s) (\<lambda>(i, s1). Ok (if i = n then n else -1, s1))
      else Panic ''filewrite'')"

section \<open>Pipes as files\<close>

text \<open>
  \<^verbatim>\<open>pipealloc\<close>: two entries of the table and a page. A page of the allocator is filled with ones, which is
  what the data of the new pipe is.
\<close>

definition pipe_alloc_page :: "'a fls \<Rightarrow> nat option" where
  "pipe_alloc_page s = first_idx (\<lambda>q. q = None) (pipes s)"

definition pipealloc :: "'a fls \<Rightarrow> ((nat \<times> nat) option \<times> 'a fls) res" where
  "pipealloc s =
     (case filealloc s of
        (None, s1) \<Rightarrow> Ok (None, s1)
      | (Some f0, s1) \<Rightarrow>
         (case filealloc s1 of
            (None, s2) \<Rightarrow> bindr (fileclose f0 s2) (\<lambda>s3. Ok (None, s3))
          | (Some f1, s2) \<Rightarrow>
             (case pipe_alloc_page s2 of
                None \<Rightarrow> bindr (fileclose f0 s2) (\<lambda>s3. bindr (fileclose f1 s3) (\<lambda>s4. Ok (None, s4)))
              | Some p \<Rightarrow>
                  let s3 = s2\<lparr>pipes := (pipes s2)[p := Some (pipe_init (replicate PIPESIZE 1))]\<rparr>;
                      s4 = upd_file f0 (\<lambda>x. x\<lparr>ftype := FD_PIPE, freadable := True, fwritable := False, fpipe := p\<rparr>) s3;
                      s5 = upd_file f1 (\<lambda>x. x\<lparr>ftype := FD_PIPE, freadable := False, fwritable := True, fpipe := p\<rparr>) s4
                  in Ok (Some (f0, f1), s5))))"

end
