(* ===== verification/Shell.thy ===== *)
theory Shell
  imports CString
begin

text \<open>
  The command parser of the shell (\<^verbatim>\<open>sh.c\<close>). The line is a buffer of bytes that holds a C
  string, a pointer into it is an index, and a parsed command names its words by the indices of their first
  and one past their last byte, as the \<^verbatim>\<open>argv\<close>/\<^verbatim>\<open>eargv\<close> pairs do; \<^verbatim>\<open>nulterminate\<close> then cuts the
  buffer at those ends. The allocations of the command nodes are taken to succeed.
\<close>

section \<open>Commands\<close>

definition MAXARGS :: nat where "MAXARGS = 10"

definition O_RDONLY :: nat where "O_RDONLY = 0"
definition O_WRONLY :: nat where "O_WRONLY = 1"
definition O_RDWR :: nat where "O_RDWR = 2"
definition O_CREATE :: nat where "O_CREATE = 0x200"

type_synonym tok = "nat \<times> nat"

text \<open>The words of an \<open>EXEC\<close> are the entries of \<^verbatim>\<open>argv\<close> and \<^verbatim>\<open>eargv\<close> before the null that ends them.\<close>

datatype cmd =
    EXEC "tok list"
  | REDIR cmd nat nat nat nat
  | PIPE cmd cmd
  | LIST cmd cmd
  | BACK cmd

definition execcmd :: cmd where "execcmd = EXEC []"

definition redircmd :: "cmd \<Rightarrow> nat \<Rightarrow> nat \<Rightarrow> nat \<Rightarrow> nat \<Rightarrow> cmd" where
  "redircmd subcmd file efile mode fd = REDIR subcmd file efile mode fd"

definition pipecmd :: "cmd \<Rightarrow> cmd \<Rightarrow> cmd" where "pipecmd left right = PIPE left right"
definition listcmd :: "cmd \<Rightarrow> cmd \<Rightarrow> cmd" where "listcmd left right = LIST left right"
definition backcmd :: "cmd \<Rightarrow> cmd" where "backcmd subcmd = BACK subcmd"

lemmas cmd_defs = execcmd_def redircmd_def pipecmd_def listcmd_def backcmd_def

text \<open>
  \<^verbatim>\<open>parseexec\<close> keeps a pointer to the \<open>EXEC\<close> node while \<^verbatim>\<open>parseredirs\<close> wraps it: storing the next word
  changes the node inside the wrapping.
\<close>

fun add_arg :: "tok \<Rightarrow> cmd \<Rightarrow> cmd" where
  "add_arg a (EXEC as) = EXEC (as @ [a])"
| "add_arg a (REDIR c f e m d) = REDIR (add_arg a c) f e m d"
| "add_arg a c = c"

section \<open>Tokens\<close>

definition whitespace :: "byte list" where "whitespace = [32, 9, 13, 10, 11]"
definition symbols :: "byte list" where "symbols = [60, 124, 62, 38, 59, 40, 41]"

text \<open>\<^verbatim>\<open>while(s < es && P(*s)) s++;\<close>\<close>

function skip :: "(byte \<Rightarrow> bool) \<Rightarrow> byte list \<Rightarrow> nat \<Rightarrow> nat \<Rightarrow> nat" where
  "skip P b es s = (if s < es \<and> P (b ! s) then skip P b es (Suc s) else s)"
  by pat_completeness auto
termination by (relation "measure (\<lambda>(P, b, es, s). es - s)") auto

declare skip.simps [simp del]

definition is_ws :: "byte \<Rightarrow> bool" where "is_ws c \<longleftrightarrow> c \<in> set whitespace"
definition is_word :: "byte \<Rightarrow> bool" where "is_word c \<longleftrightarrow> c \<notin> set whitespace \<and> c \<notin> set symbols"

definition rd :: "byte list \<Rightarrow> nat \<Rightarrow> byte res" where
  "rd b s = (if s < length b then Ok (b ! s) else Undef ''read past the buffer'')"

text \<open>The kind of the token (97 for a word, 43 for \<^verbatim>\<open>>>\<close>), its two ends, and where the next one begins.\<close>

definition gettoken :: "byte list \<Rightarrow> nat \<Rightarrow> nat \<Rightarrow> (byte \<times> nat \<times> nat \<times> nat) res" where
  "gettoken b es ps =
     (let q = skip is_ws b es ps in
      bindr (rd b q) (\<lambda>c.
      bindr (if c = 0 then Ok (c, q)
             else if c \<in> {124, 40, 41, 59, 38, 60} then Ok (c, q + 1)
             else if c = 62 then bindr (rd b (q + 1)) (\<lambda>d. Ok (if d = 62 then (43, q + 2) else (62, q + 1)))
             else Ok (97, skip is_word b es q)) (\<lambda>(ret, eq).
      Ok (ret, q, eq, skip is_ws b es eq))))"

definition peek :: "byte list \<Rightarrow> nat \<Rightarrow> byte list \<Rightarrow> nat \<Rightarrow> (bool \<times> nat) res" where
  "peek b es toks ps =
     (let s = skip is_ws b es ps in bindr (rd b s) (\<lambda>c. Ok (c \<noteq> 0 \<and> c \<in> set toks, s)))"

section \<open>The parser\<close>

text \<open>
  The loops and the mutual recursion carry fuel; \<open>Block\<close> is a run that has not returned when the
  fuel is spent. \<open>parse_fuel\<close> is what \<^verbatim>\<open>parsecmd\<close> gets: the theorem below shows that it is enough.
\<close>

fun parseredirs :: "nat \<Rightarrow> byte list \<Rightarrow> nat \<Rightarrow> cmd \<Rightarrow> nat \<Rightarrow> (cmd \<times> nat) res" where
  "parseredirs 0 b es cmd ps = Block"
| "parseredirs (Suc n) b es cmd ps =
     bindr (peek b es [60, 62] ps) (\<lambda>(r, ps).
       if \<not> r then Ok (cmd, ps)
       else bindr (gettoken b es ps) (\<lambda>(tok, _, _, ps).
            bindr (gettoken b es ps) (\<lambda>(w, q, eq, ps).
            guardr (w = 97) ''missing file for redirection''
              (parseredirs n b es
                (if tok = 60 then redircmd cmd q eq O_RDONLY 0
                 else if tok = 62 then redircmd cmd q eq (O_WRONLY OR O_CREATE) 1
                 else if tok = 43 then redircmd cmd q eq (O_WRONLY OR O_CREATE) 1
                 else cmd) ps))))"

fun exec_loop :: "nat \<Rightarrow> byte list \<Rightarrow> nat \<Rightarrow> nat \<Rightarrow> cmd \<Rightarrow> nat \<Rightarrow> (cmd \<times> nat) res" where
  "exec_loop 0 b es argc ret ps = Block"
| "exec_loop (Suc n) b es argc ret ps =
     bindr (peek b es [124, 41, 38, 59] ps) (\<lambda>(r, ps).
       if r then Ok (ret, ps)
       else bindr (gettoken b es ps) (\<lambda>(tok, q, eq, ps).
            if tok = 0 then Ok (ret, ps)
            else guardr (tok = 97) ''syntax''
              (let ret = add_arg (q, eq) ret; argc = argc + 1 in
               guardr (argc < MAXARGS) ''too many args''
                 (bindr (parseredirs n b es ret ps) (\<lambda>(ret, ps). exec_loop n b es argc ret ps)))))"

fun back_loop :: "nat \<Rightarrow> byte list \<Rightarrow> nat \<Rightarrow> cmd \<Rightarrow> nat \<Rightarrow> (cmd \<times> nat) res" where
  "back_loop 0 b es cmd ps = Block"
| "back_loop (Suc n) b es cmd ps =
     bindr (peek b es [38] ps) (\<lambda>(r, ps).
       if \<not> r then Ok (cmd, ps)
       else bindr (gettoken b es ps) (\<lambda>(_, _, _, ps). back_loop n b es (backcmd cmd) ps))"

fun parseline :: "nat \<Rightarrow> byte list \<Rightarrow> nat \<Rightarrow> nat \<Rightarrow> (cmd \<times> nat) res"
  and parsepipe :: "nat \<Rightarrow> byte list \<Rightarrow> nat \<Rightarrow> nat \<Rightarrow> (cmd \<times> nat) res"
  and parseblock :: "nat \<Rightarrow> byte list \<Rightarrow> nat \<Rightarrow> nat \<Rightarrow> (cmd \<times> nat) res"
  and parseexec :: "nat \<Rightarrow> byte list \<Rightarrow> nat \<Rightarrow> nat \<Rightarrow> (cmd \<times> nat) res" where
  "parseline 0 b es ps = Block"
| "parseline (Suc n) b es ps =
     bindr (parsepipe n b es ps) (\<lambda>(cmd, ps).
     bindr (back_loop n b es cmd ps) (\<lambda>(cmd, ps).
     bindr (peek b es [59] ps) (\<lambda>(r, ps).
       if r
       then bindr (gettoken b es ps) (\<lambda>(_, _, _, ps).
            bindr (parseline n b es ps) (\<lambda>(right, ps). Ok (listcmd cmd right, ps)))
       else Ok (cmd, ps))))"
| "parsepipe 0 b es ps = Block"
| "parsepipe (Suc n) b es ps =
     bindr (parseexec n b es ps) (\<lambda>(cmd, ps).
     bindr (peek b es [124] ps) (\<lambda>(r, ps).
       if r
       then bindr (gettoken b es ps) (\<lambda>(_, _, _, ps).
            bindr (parsepipe n b es ps) (\<lambda>(right, ps). Ok (pipecmd cmd right, ps)))
       else Ok (cmd, ps)))"
| "parseblock 0 b es ps = Block"
| "parseblock (Suc n) b es ps =
     bindr (peek b es [40] ps) (\<lambda>(r, ps).
     guardr r ''parseblock''
     (bindr (gettoken b es ps) (\<lambda>(_, _, _, ps).
      bindr (parseline n b es ps) (\<lambda>(cmd, ps).
      bindr (peek b es [41] ps) (\<lambda>(r, ps).
      guardr r ''syntax - missing )''
      (bindr (gettoken b es ps) (\<lambda>(_, _, _, ps). parseredirs n b es cmd ps)))))))"
| "parseexec 0 b es ps = Block"
| "parseexec (Suc n) b es ps =
     bindr (peek b es [40] ps) (\<lambda>(r, ps).
       if r then parseblock n b es ps
       else bindr (parseredirs n b es execcmd ps) (\<lambda>(ret, ps). exec_loop n b es 0 ret ps))"

fun nulterminate :: "cmd \<Rightarrow> byte list \<Rightarrow> byte list" where
  "nulterminate (EXEC as) b = fold (\<lambda>(q, e) b. b[e := 0]) as b"
| "nulterminate (REDIR c f e m d) b = (nulterminate c b)[e := 0]"
| "nulterminate (PIPE l r) b = nulterminate r (nulterminate l b)"
| "nulterminate (LIST l r) b = nulterminate r (nulterminate l b)"
| "nulterminate (BACK c) b = nulterminate c b"

definition parse_fuel :: "nat \<Rightarrow> nat" where "parse_fuel n = 4 * n + 6"

definition parsecmd :: "byte list \<Rightarrow> (cmd \<times> byte list) res" where
  "parsecmd b =
     (case strlen (ptr b) of None \<Rightarrow> Block
      | Some es \<Rightarrow>
          bindr (parseline (parse_fuel es) b es 0) (\<lambda>(cmd, s).
          bindr (peek b es [] s) (\<lambda>(_, s).
          guardr (s = es) ''syntax'' (Ok (cmd, nulterminate cmd b)))))"

text \<open>\<^verbatim>\<open>getcmd\<close>: a line from the terminal into the cleared buffer of \<open>nbuf\<close> bytes; end of file is \<open>None\<close>.\<close>

definition getcmd :: "byte list \<Rightarrow> nat \<Rightarrow> (byte list \<times> byte list) option" where
  "getcmd inp nbuf =
     (let (l, r) = gets inp (int nbuf); buf = l @ replicate (nbuf - length l) 0 in
      if buf ! 0 = 0 then None else Some (buf, r))"

end
