(* ===== verification/Sysfile.thy ===== *)
theory Sysfile
  imports File Shell
begin

text \<open>
  The file-system calls (\<^verbatim>\<open>src/sysfile.c\<close>). The arguments are those \<^verbatim>\<open>argint\<close>, \<^verbatim>\<open>argptr\<close> and
  \<^verbatim>\<open>argstr\<close> fetch, with \<open>None\<close> for a fetch that fails; what the caller prints on the console is left out.
\<close>

section \<open>Descriptors\<close>

definition argfd :: "int option \<Rightarrow> 'a fls \<Rightarrow> (int \<times> nat) option" where
  "argfd a s = (case a of None \<Rightarrow> None
     | Some fd \<Rightarrow> if fd < 0 \<or> fd \<ge> int NOFILE then None
         else (case ofile s ! nat fd of None \<Rightarrow> None | Some f \<Rightarrow> Some (fd, f)))"

definition fdalloc :: "nat \<Rightarrow> 'a fls \<Rightarrow> int \<times> 'a fls" where
  "fdalloc f s = (case first_idx (\<lambda>x. x = None) (ofile s) of
       Some fd \<Rightarrow> (int fd, s\<lparr>ofile := (ofile s)[fd := Some f]\<rparr>)
     | None \<Rightarrow> (-1, s))"

definition clear_fd :: "int \<Rightarrow> 'a fls \<Rightarrow> 'a fls" where
  "clear_fd fd s = s\<lparr>ofile := (ofile s)[nat fd := None]\<rparr>"

definition sys_dup :: "int option \<Rightarrow> 'a fls \<Rightarrow> (int \<times> 'a fls) res" where
  "sys_dup a s = (case argfd a s of None \<Rightarrow> Ok (-1, s)
     | Some (_, f) \<Rightarrow>
         let (fd, s1) = fdalloc f s in
         if fd < 0 then Ok (-1, s1) else bindr (filedup f s1) (\<lambda>s2. Ok (fd, s2)))"

definition sys_read :: "'a fdev \<Rightarrow> int option \<Rightarrow> int option \<Rightarrow> 'a fls \<Rightarrow> (int \<times> byte list \<times> 'a fls) res" where
  "sys_read dv a n s = (case (argfd a s, n) of
       (Some (_, f), Some n) \<Rightarrow> fileread dv f n s
     | _ \<Rightarrow> Ok (-1, [], s))"

text \<open>The buffer of \<^verbatim>\<open>sys_write\<close>: the bytes at the pointer \<^verbatim>\<open>argptr\<close> fetched, with their number.\<close>

definition sys_write :: "'a fdev \<Rightarrow> int option \<Rightarrow> (byte list \<times> int) option \<Rightarrow> 'a fls \<Rightarrow> (int \<times> 'a fls) res" where
  "sys_write dv a p s = (case (argfd a s, p) of
       (Some (_, f), Some (src, n)) \<Rightarrow> filewrite dv f src n s
     | _ \<Rightarrow> Ok (-1, s))"

definition sys_close :: "int option \<Rightarrow> 'a fls \<Rightarrow> (int \<times> 'a fls) res" where
  "sys_close a s = (case argfd a s of None \<Rightarrow> Ok (-1, s)
     | Some (fd, f) \<Rightarrow> bindr (fileclose f (clear_fd fd s)) (\<lambda>s1. Ok (0, s1)))"

definition sys_fstat :: "int option \<Rightarrow> unit option \<Rightarrow> 'a fls \<Rightarrow> (stat option \<times> 'a fls) res" where
  "sys_fstat a st s = (case (argfd a s, st) of
       (Some (_, f), Some _) \<Rightarrow> filestat f s
     | _ \<Rightarrow> Ok (None, s))"

text \<open>The two descriptors of \<^verbatim>\<open>sys_pipe\<close>, for the files \<^verbatim>\<open>pipealloc\<close> returned.\<close>

definition pipe_fds :: "(nat \<times> nat) option \<Rightarrow> 'a fls \<Rightarrow> ((int \<times> int) option \<times> 'a fls) res" where
  "pipe_fds x s1 = (case x of None \<Rightarrow> Ok (None, s1)
     | Some (rdf, wrf) \<Rightarrow>
         let (fd0, s2) = fdalloc rdf s1;
             (fd1, s3) = (if fd0 < 0 then (-1, s2) else fdalloc wrf s2) in
         if fd0 < 0 \<or> fd1 < 0
         then let s4 = (if fd0 \<ge> 0 then clear_fd fd0 s3 else s3) in
              bindr (fileclose rdf s4) (\<lambda>s5. bindr (fileclose wrf s5) (\<lambda>s6. Ok (None, s6)))
         else Ok (Some (fd0, fd1), s3))"

definition sys_pipe :: "unit option \<Rightarrow> 'a fls \<Rightarrow> ((int \<times> int) option \<times> 'a fls) res" where
  "sys_pipe a s = (case a of None \<Rightarrow> Ok (None, s)
     | Some _ \<Rightarrow> bindr (pipealloc s) (\<lambda>(r, s1). pipe_fds r s1))"

section \<open>Links\<close>

definition fail_op :: "'a fls \<Rightarrow> (int \<times> 'a fls) res" where
  "fail_op s = bindr (end_op s) (\<lambda>s1. Ok (-1, s1))"

definition done_op :: "int \<Rightarrow> 'a fls \<Rightarrow> (int \<times> 'a fls) res" where
  "done_op r s = bindr (end_op s) (\<lambda>s1. Ok (r, s1))"

definition add_nlink :: "nat \<Rightarrow> 16 word \<Rightarrow> 'a fls \<Rightarrow> 'a fls res" where
  "add_nlink ip d s = iupdate ip (upd_inode ip (\<lambda>x. x\<lparr>inlink := inlink x + d\<rparr>) s)"

text \<open>The label \<^verbatim>\<open>bad\<close> of \<^verbatim>\<open>sys_link\<close>.\<close>

definition link_bad :: "nat \<Rightarrow> 'a fls \<Rightarrow> (int \<times> 'a fls) res" where
  "link_bad ip s =
     bindr (ilock ip s) (\<lambda>s1.
     bindr (add_nlink ip (-1) s1) (\<lambda>s2.
     bindr (iunlockput ip s2) fail_op))"

definition sys_link :: "'a fdev \<Rightarrow> byte list option \<Rightarrow> byte list option \<Rightarrow> 'a fls \<Rightarrow> (int \<times> 'a fls) res" where
  "sys_link dv a0 a1 s = (case (a0, a1) of
       (Some old, Some new) \<Rightarrow>
         bindr (begin_op s) (\<lambda>s1.
         bindr (namei dv old s1) (\<lambda>(r, s2).
         case r of None \<Rightarrow> fail_op s2
         | Some ip \<Rightarrow>
             bindr (ilock ip s2) (\<lambda>s3.
             if itype (icache s3 ! ip) = T_DIR then bindr (iunlockput ip s3) fail_op
             else bindr (add_nlink ip 1 s3) (\<lambda>s4.
                  bindr (iunlock ip s4) (\<lambda>s5.
                  bindr (nameiparent dv new s5) (\<lambda>(r, s6).
                  case r of None \<Rightarrow> link_bad ip s6
                  | Some (dp, name) \<Rightarrow>
                      bindr (ilock dp s6) (\<lambda>s7.
                      bindr (if idev (icache s7 ! dp) \<noteq> idev (icache s7 ! ip) then Ok (-1, s7)
                             else dirlink dv dp name (inum (icache s7 ! ip)) s7) (\<lambda>(r, s8).
                      if r < 0 then bindr (iunlockput dp s8) (link_bad ip)
                      else bindr (iunlockput dp s8) (\<lambda>s9.
                           bindr (iput ip s9) (done_op 0)))))))))) 
     | _ \<Rightarrow> Ok (-1, s))"

definition isdirempty1 :: "'a fdev \<Rightarrow> nat \<Rightarrow> nat \<Rightarrow> 'a fls \<Rightarrow> ('a fls + 'a fls) res" where
  "isdirempty1 dv dp k s =
     bindr (readi dv dp (of_nat (16 * k)) 16 s) (\<lambda>(r, de, s1).
       guardr (r = 16) ''isdirempty: readi'' (Ok (if de_inum de \<noteq> 0 then Inr s1 else Inl s1)))"

definition isdirempty :: "'a fdev \<Rightarrow> nat \<Rightarrow> 'a fls \<Rightarrow> (bool \<times> 'a fls) res" where
  "isdirempty dv dp s =
     bindr (forb [2..<dir_slots (icache s ! dp)] (isdirempty1 dv dp) s) (\<lambda>x.
       Ok (case x of Inl s1 \<Rightarrow> (True, s1) | Inr s1 \<Rightarrow> (False, s1)))"

definition dot :: "byte list" where "dot = [46]"
definition dotdot :: "byte list" where "dotdot = [46, 46]"

text \<open>
  From \<^verbatim>\<open>nameiparent\<close> on, \<^verbatim>\<open>sys_unlink\<close> and the end of \<^verbatim>\<open>sys_move_file\<close> are the same code.
\<close>

definition unlink_bad :: "nat \<Rightarrow> 'a fls \<Rightarrow> (int \<times> 'a fls) res" where
  "unlink_bad dp s = bindr (iunlockput dp s) fail_op"

definition unlink_entry :: "'a fdev \<Rightarrow> nat \<Rightarrow> nat \<Rightarrow> uint \<Rightarrow> 'a fls \<Rightarrow> (int \<times> 'a fls) res" where
  "unlink_entry dv dp ip off s =
     bindr (writei dv dp (replicate 16 0) off 16 s) (\<lambda>(r, s1).
     guardr (r = 16) ''unlink: writei''
     (bindr (if itype (icache s1 ! ip) = T_DIR then add_nlink dp (-1) s1 else Ok s1) (\<lambda>s2.
      bindr (iunlockput dp s2) (\<lambda>s3.
      bindr (add_nlink ip (-1) s3) (\<lambda>s4.
      bindr (iunlockput ip s4) (done_op 0))))))"

definition unlink_path :: "'a fdev \<Rightarrow> byte list \<Rightarrow> 'a fls \<Rightarrow> (int \<times> 'a fls) res" where
  "unlink_path dv path s =
     bindr (nameiparent dv path s) (\<lambda>(r, s1).
     case r of None \<Rightarrow> fail_op s1
     | Some (dp, name) \<Rightarrow>
         bindr (ilock dp s1) (\<lambda>s2.
         if namecmp name dot = 0 \<or> namecmp name dotdot = 0 then unlink_bad dp s2
         else bindr (dirlookup dv dp name s2) (\<lambda>(r, s3).
              case r of None \<Rightarrow> unlink_bad dp s3
              | Some (ip, off) \<Rightarrow>
                  bindr (ilock ip s3) (\<lambda>s4.
                  guardr (\<not> sint (inlink (icache s4 ! ip)) < 1) ''unlink: nlink < 1''
                  (bindr (if itype (icache s4 ! ip) = T_DIR then isdirempty dv ip s4 else Ok (True, s4)) (\<lambda>(e, s5).
                   if \<not> e then bindr (iunlockput ip s5) (unlink_bad dp)
                   else unlink_entry dv dp ip off s5))))))"

definition sys_unlink :: "'a fdev \<Rightarrow> byte list option \<Rightarrow> 'a fls \<Rightarrow> (int \<times> 'a fls) res" where
  "sys_unlink dv a s = (case a of None \<Rightarrow> Ok (-1, s)
     | Some path \<Rightarrow> bindr (begin_op s) (unlink_path dv path))"

section \<open>Creating and opening\<close>

definition create_dots :: "'a fdev \<Rightarrow> nat \<Rightarrow> nat \<Rightarrow> 'a fls \<Rightarrow> 'a fls res" where
  "create_dots dv dp ip s =
     bindr (add_nlink dp 1 s) (\<lambda>s1.
     bindr (dirlink dv ip dot (inum (icache s1 ! ip)) s1) (\<lambda>(r, s2).
     guardr (\<not> r < 0) ''create dots''
     (bindr (dirlink dv ip dotdot (inum (icache s2 ! dp)) s2) (\<lambda>(r, s3).
      guardr (\<not> r < 0) ''create dots'' (Ok s3)))))"

definition create :: "'a fdev \<Rightarrow> byte list \<Rightarrow> 16 word \<Rightarrow> 16 word \<Rightarrow> 16 word \<Rightarrow> 'a fls \<Rightarrow> (nat option \<times> 'a fls) res" where
  "create dv path ty major minor s =
     bindr (nameiparent dv path s) (\<lambda>(r, s1).
     case r of None \<Rightarrow> Ok (None, s1)
     | Some (dp, name) \<Rightarrow>
         bindr (ilock dp s1) (\<lambda>s2.
         bindr (dirlookup dv dp name s2) (\<lambda>(r, s3).
         case r of
           Some (ip, _) \<Rightarrow>
             bindr (iunlockput dp s3) (\<lambda>s4.
             bindr (ilock ip s4) (\<lambda>s5.
             if ty = T_FILE \<and> itype (icache s5 ! ip) = T_FILE then Ok (Some ip, s5)
             else bindr (iunlockput ip s5) (\<lambda>s6. Ok (None, s6))))
         | None \<Rightarrow>
             bindr (ialloc (idev (icache s3 ! dp)) ty s3) (\<lambda>(ip, s4).
             bindr (ilock ip s4) (\<lambda>s5.
             bindr (iupdate ip (upd_inode ip (\<lambda>x. x\<lparr>imajor := major, iminor := minor, inlink := 1\<rparr>) s5)) (\<lambda>s6.
             bindr (if ty = T_DIR then create_dots dv dp ip s6 else Ok s6) (\<lambda>s7.
             bindr (dirlink dv dp name (inum (icache s7 ! ip)) s7) (\<lambda>(r, s8).
             guardr (\<not> r < 0) ''create: dirlink''
             (bindr (iunlockput dp s8) (\<lambda>s9. Ok (Some ip, s9))))))))))) "

text \<open>\<^verbatim>\<open>(f = filealloc()) == 0 || (fd = fdalloc(f)) < 0\<close>, and the clean-up of the file when it fails.\<close>

definition file_fd :: "'a fls \<Rightarrow> ((nat \<times> int) option \<times> 'a fls) res" where
  "file_fd s =
     (case filealloc s of
        (None, s1) \<Rightarrow> Ok (None, s1)
      | (Some f, s1) \<Rightarrow>
          let (fd, s2) = fdalloc f s1 in
          if fd < 0 then bindr (fileclose f s2) (\<lambda>s3. Ok (None, s3)) else Ok (Some (f, fd), s2))"

definition set_file :: "nat \<Rightarrow> nat \<Rightarrow> bool \<Rightarrow> bool \<Rightarrow> 'a fls \<Rightarrow> 'a fls" where
  "set_file f ip r w s = upd_file f (\<lambda>x. x\<lparr>ftype := FD_INODE, fip := ip, foff := 0, freadable := r, fwritable := w\<rparr>) s"

text \<open>The inode \<^verbatim>\<open>sys_open\<close> opens, locked.\<close>

definition open_inode :: "'a fdev \<Rightarrow> byte list \<Rightarrow> int \<Rightarrow> 'a fls \<Rightarrow> (nat option \<times> 'a fls) res" where
  "open_inode dv path omode s =
     (if omode AND int O_CREATE \<noteq> 0 then create dv path T_FILE 0 0 s
      else bindr (namei dv path s) (\<lambda>(r, s1).
           case r of None \<Rightarrow> Ok (None, s1)
           | Some ip \<Rightarrow>
               bindr (ilock ip s1) (\<lambda>s2.
               if itype (icache s2 ! ip) = T_DIR \<and> omode \<noteq> int O_RDONLY
               then bindr (iunlockput ip s2) (\<lambda>s3. Ok (None, s3))
               else Ok (Some ip, s2))))"

definition sys_open :: "'a fdev \<Rightarrow> byte list option \<Rightarrow> int option \<Rightarrow> 'a fls \<Rightarrow> (int \<times> 'a fls) res" where
  "sys_open dv a0 a1 s = (case (a0, a1) of
       (Some path, Some omode) \<Rightarrow>
         bindr (begin_op s) (\<lambda>s1.
         bindr (open_inode dv path omode s1) (\<lambda>(r, s2).
         case r of None \<Rightarrow> fail_op s2
         | Some ip \<Rightarrow>
             bindr (file_fd s2) (\<lambda>(r, s3).
             case r of None \<Rightarrow> bindr (iunlockput ip s3) fail_op
             | Some (f, fd) \<Rightarrow>
                 bindr (iunlock ip s3) (\<lambda>s4.
                 bindr (end_op s4) (\<lambda>s5.
                 Ok (fd, set_file f ip (omode AND int O_WRONLY = 0) (omode AND int O_WRONLY \<noteq> 0 \<or> omode AND int O_RDWR \<noteq> 0) s5))))))
     | _ \<Rightarrow> Ok (-1, s))"

definition sys_mkdir :: "'a fdev \<Rightarrow> byte list option \<Rightarrow> 'a fls \<Rightarrow> (int \<times> 'a fls) res" where
  "sys_mkdir dv a s =
     bindr (begin_op s) (\<lambda>s1.
     case a of None \<Rightarrow> fail_op s1
     | Some path \<Rightarrow> bindr (create dv path T_DIR 0 0 s1) (\<lambda>(r, s2).
         case r of None \<Rightarrow> fail_op s2 | Some ip \<Rightarrow> bindr (iunlockput ip s2) (done_op 0)))"

definition sys_mknod :: "'a fdev \<Rightarrow> byte list option \<Rightarrow> int option \<Rightarrow> int option \<Rightarrow> 'a fls \<Rightarrow> (int \<times> 'a fls) res" where
  "sys_mknod dv a0 a1 a2 s =
     bindr (begin_op s) (\<lambda>s1.
     case (a0, a1, a2) of
       (Some path, Some major, Some minor) \<Rightarrow> bindr (create dv path T_DEV (of_int major) (of_int minor) s1) (\<lambda>(r, s2).
         case r of None \<Rightarrow> fail_op s2 | Some ip \<Rightarrow> bindr (iunlockput ip s2) (done_op 0))
     | _ \<Rightarrow> fail_op s1)"

definition sys_chdir :: "'a fdev \<Rightarrow> byte list option \<Rightarrow> 'a fls \<Rightarrow> (int \<times> 'a fls) res" where
  "sys_chdir dv a s =
     bindr (begin_op s) (\<lambda>s1.
     case a of None \<Rightarrow> fail_op s1
     | Some path \<Rightarrow> bindr (namei dv path s1) (\<lambda>(r, s2).
         case r of None \<Rightarrow> fail_op s2
         | Some ip \<Rightarrow>
             bindr (ilock ip s2) (\<lambda>s3.
             if itype (icache s3 ! ip) \<noteq> T_DIR then bindr (iunlockput ip s3) fail_op
             else bindr (iunlock ip s3) (\<lambda>s4.
                  bindr (iput (cwd s4) s4) (\<lambda>s5.
                  bindr (end_op s5) (\<lambda>s6. Ok (0, s6\<lparr>cwd := ip\<rparr>)))))))"

section \<open>Moving a file\<close>

text \<open>The copy loop, with fuel: \<open>Block\<close> when it is spent. A regular file needs one turn per 1024 bytes and one more.\<close>

fun move_loop :: "nat \<Rightarrow> 'a fdev \<Rightarrow> nat \<Rightarrow> nat \<Rightarrow> 'a fls \<Rightarrow> (bool \<times> 'a fls) res" where
  "move_loop 0 dv src_f dest_f s = Block"
| "move_loop (Suc n) dv src_f dest_f s =
     bindr (fileread dv src_f 1024 s) (\<lambda>(n_read, buffer, s1).
       if n_read > 0
       then bindr (filewrite dv dest_f buffer n_read s1) (\<lambda>(r, s2).
              if r \<noteq> n_read then Ok (False, s2) else move_loop n dv src_f dest_f s2)
       else Ok (True, s1))"

definition move_copy :: "nat \<Rightarrow> 'a fdev \<Rightarrow> byte list \<Rightarrow> nat \<times> int \<Rightarrow> nat \<times> int \<Rightarrow> 'a fls \<Rightarrow> (int \<times> 'a fls) res" where
  "move_copy fuel dv src = (\<lambda>(src_f, src_fd) (dest_f, dest_fd) s.
     bindr (move_loop fuel dv src_f dest_f s) (\<lambda>(ok, s1).
       if \<not> ok
       then bindr (fileclose src_f s1) (\<lambda>s2. bindr (fileclose dest_f s2) fail_op)
       else bindr (fileclose src_f (clear_fd src_fd s1)) (\<lambda>s2.
            bindr (fileclose dest_f (clear_fd dest_fd s2)) (\<lambda>s3.
            unlink_path dv src s3))))"

definition move_dest :: "nat \<Rightarrow> 'a fdev \<Rightarrow> byte list \<Rightarrow> byte list \<Rightarrow> nat \<times> int \<Rightarrow> 'a fls \<Rightarrow> (int \<times> 'a fls) res" where
  "move_dest fuel dv src dest srcf s =
     bindr (create dv dest T_FILE 0 0 s) (\<lambda>(r, s1).
     case r of None \<Rightarrow> fail_op s1
     | Some dest_ip \<Rightarrow>
         bindr (file_fd s1) (\<lambda>(r, s2).
         case r of
           None \<Rightarrow> bindr (fileclose (fst srcf) s2) (\<lambda>s3. bindr (iunlockput dest_ip s3) fail_op)
         | Some destf \<Rightarrow>
             bindr (iunlock dest_ip s2) (\<lambda>s3.
             move_copy fuel dv src srcf destf (set_file (fst destf) dest_ip False True s3))))"

definition sys_move_file :: "nat \<Rightarrow> 'a fdev \<Rightarrow> byte list option \<Rightarrow> byte list option \<Rightarrow> 'a fls \<Rightarrow> (int \<times> 'a fls) res" where
  "sys_move_file fuel dv a0 a1 s = (case (a0, a1) of
       (Some src, Some dest) \<Rightarrow>
         bindr (begin_op s) (\<lambda>s1.
         bindr (namei dv src s1) (\<lambda>(r, s2).
         case r of None \<Rightarrow> fail_op s2
         | Some src_ip \<Rightarrow>
             bindr (ilock src_ip s2) (\<lambda>s3.
             bindr (file_fd s3) (\<lambda>(r, s4).
             case r of None \<Rightarrow> bindr (iunlockput src_ip s4) fail_op
             | Some srcf \<Rightarrow>
                 bindr (iunlock src_ip s4) (\<lambda>s5.
                 move_dest fuel dv src dest srcf (set_file (fst srcf) src_ip True False s5))))))
     | _ \<Rightarrow> Ok (-1, s))"

end
