(* ===== verification/File_Frame.thy ===== *)
theory File_Frame
  imports Sysfile
begin

text \<open>
  The file system does not touch the open files: every routine of \<^verbatim>\<open>bio.c\<close>, \<^verbatim>\<open>log.c\<close> and
  \<^verbatim>\<open>fs.c\<close> that returns leaves the file table, the descriptors and the pipes as they were, as long as the
  devices do.
\<close>

definition rest :: "'a fls \<Rightarrow> kfile list \<times> nat option list \<times> pipe option list \<times> bool" where
  "rest s = (ftable s, ofile s, pipes s, pkilled s)"

lemma rest_upd [simp]:
  "rest (s\<lparr>bufs := a\<rparr>) = rest s" "rest (s\<lparr>lru := b\<rparr>) = rest s" "rest (s\<lparr>disk := c\<rparr>) = rest s" "rest (s\<lparr>dhist := d\<rparr>) = rest s"
  "rest (s\<lparr>outstanding := e\<rparr>) = rest s" "rest (s\<lparr>committing := f\<rparr>) = rest s" "rest (s\<lparr>lh_n := g\<rparr>) = rest s"
  "rest (s\<lparr>lh_block := h\<rparr>) = rest s" "rest (s\<lparr>icache := i\<rparr>) = rest s" "rest (s\<lparr>cwd := j\<rparr>) = rest s"
  "rest (upd_buf k u s) = rest s" "rest (upd_inode k v s) = rest s" "rest (set_data k w s) = rest s"
  by (simp_all add: rest_def upd_buf_def upd_inode_def set_data_def)

lemma if_Ok_iff: "(if c then a else b) = Ok y \<longleftrightarrow> c \<and> a = Ok y \<or> \<not> c \<and> b = Ok y"
  by simp

lemma case_Ok_iff:
  "(case r of None \<Rightarrow> a | Some x \<Rightarrow> f x) = Ok y \<longleftrightarrow> r = None \<and> a = Ok y \<or> (\<exists>x. r = Some x \<and> f x = Ok y)"
  "(case z of Inl u \<Rightarrow> g u | Inr v \<Rightarrow> h v) = Ok y \<longleftrightarrow> (\<exists>u. z = Inl u \<and> g u = Ok y) \<or> (\<exists>v. z = Inr v \<and> h v = Ok y)"
  "(case p of (c, d) \<Rightarrow> k c d) = Ok y \<longleftrightarrow> (\<exists>c d. p = (c, d) \<and> k c d = Ok y)"
  by (auto split: option.splits sum.splits prod.splits)

lemmas ok_simps = bindr_Ok_iff guardr_Ok_iff if_Ok_iff case_Ok_iff

lemma forr_rest:
  "forr xs f s = Ok t \<Longrightarrow> (\<And>i u v. f i u = Ok v \<Longrightarrow> rest v = rest u) \<Longrightarrow> rest t = rest s"
  by (induction xs arbitrary: s) (fastforce simp: ok_simps)+

lemma forb_rest:
  "forb xs f s = Ok x \<Longrightarrow> (\<And>i u y. f i u = Ok y \<Longrightarrow> case_sum rest g y = rest u) \<Longrightarrow> case_sum rest g x = rest s"
proof (induction xs arbitrary: s)
  case (Cons i xs)
  then obtain y where y: "f i s = Ok y" "(case y of Inl s' \<Rightarrow> forb xs f s' | Inr r \<Rightarrow> Ok (Inr r)) = Ok x" by (auto simp: ok_simps)
  show ?case
  proof (cases y)
    case (Inl u)
    then show ?thesis using Cons.IH [of u] Cons.prems(2) y by fastforce
  next
    case (Inr r)
    then show ?thesis using Cons.prems(2) [OF y(1)] y(2) by auto
  qed
qed auto

lemma scan_Ok: "(case x of Inl _ \<Rightarrow> Panic e | Inr r \<Rightarrow> Ok r) = Ok y \<longleftrightarrow> x = Inr y"
  by (auto split: sum.splits)

named_theorems rest_dest \<open>routines that leave the open files alone\<close>

lemma iderw_rest [rest_dest]: "iderw i s = Ok t \<Longrightarrow> rest t = rest s"
  by (auto simp: iderw_def Let_def ok_simps)

lemma bget_rest [rest_dest]: "bget dev n s = Ok (i, t) \<Longrightarrow> rest t = rest s"
  by (auto simp: bget_def acquire_buf_def ok_simps)

lemma bread_rest [rest_dest]: "bread dev n s = Ok (i, t) \<Longrightarrow> rest t = rest s"
  by (auto simp: bread_def ok_simps dest!: rest_dest)

lemma bwrite_rest [rest_dest]: "bwrite i s = Ok t \<Longrightarrow> rest t = rest s"
  by (auto simp: bwrite_def ok_simps dest!: rest_dest)

lemma brelse_rest [rest_dest]: "brelse i s = Ok t \<Longrightarrow> rest t = rest s"
  by (auto simp: brelse_def Let_def ok_simps)

lemma log_write_rest [rest_dest]: "log_write i s = Ok t \<Longrightarrow> rest t = rest s"
  by (auto simp: log_write_def Let_def ok_simps)

lemma install_trans1_rest [rest_dest]: "install_trans1 k s = Ok t \<Longrightarrow> rest t = rest s"
  by (auto simp: install_trans1_def ok_simps dest!: rest_dest)

lemma write_log1_rest [rest_dest]: "write_log1 k s = Ok t \<Longrightarrow> rest t = rest s"
  by (auto simp: write_log1_def ok_simps dest!: rest_dest)

lemma install_trans_rest [rest_dest]: "install_trans s = Ok t \<Longrightarrow> rest t = rest s"
  unfolding install_trans_def by (erule forr_rest) (rule install_trans1_rest)

lemma write_log_rest [rest_dest]: "write_log s = Ok t \<Longrightarrow> rest t = rest s"
  unfolding write_log_def by (erule forr_rest) (rule write_log1_rest)

lemma write_head_rest [rest_dest]: "write_head s = Ok t \<Longrightarrow> rest t = rest s"
  by (auto simp: write_head_def ok_simps dest!: rest_dest)

lemma commit_rest [rest_dest]: "commit s = Ok t \<Longrightarrow> rest t = rest s"
  by (auto simp: commit_def ok_simps dest!: rest_dest)

lemma begin_op_rest [rest_dest]: "begin_op s = Ok t \<Longrightarrow> rest t = rest s"
  by (auto simp: begin_op_def split: if_splits)

lemma end_op_rest [rest_dest]: "end_op s = Ok t \<Longrightarrow> rest t = rest s"
  by (auto simp: end_op_def Let_def ok_simps dest!: rest_dest)

lemma bzero_rest [rest_dest]: "bzero dev n s = Ok t \<Longrightarrow> rest t = rest s"
  by (auto simp: bzero_def ok_simps dest!: rest_dest)

lemma balloc_rest [rest_dest]: "balloc dev s = Ok (a, t) \<Longrightarrow> rest t = rest s"
proof -
  have 1: "balloc1 dev k u = Ok y \<Longrightarrow> case_sum rest (rest \<circ> snd) y = rest u" for k and u :: "'a fls" and y
    by (auto simp: balloc1_def Let_def ok_simps dest!: rest_dest)
  assume "balloc dev s = Ok (a, t)"
  then obtain x where x: "forb [0..<(unat (sb_size (sb s)) + BPB - 1) div BPB] (balloc1 dev) s = Ok x" "x = Inr (a, t)"
    by (auto simp: balloc_def ok_simps scan_Ok)
  from forb_rest [OF x(1) 1] x(2) show ?thesis by simp
qed

lemma bfree_rest [rest_dest]: "bfree dev b s = Ok t \<Longrightarrow> rest t = rest s"
  by (auto simp: bfree_def Let_def ok_simps dest!: rest_dest)

lemma iget_rest [rest_dest]: "iget dev i s = Ok (p, t) \<Longrightarrow> rest t = rest s"
  by (auto simp: iget_def ok_simps)

lemma ialloc_rest [rest_dest]: "ialloc dev ty s = Ok (p, t) \<Longrightarrow> rest t = rest s"
proof -
  have 1: "ialloc1 dev ty k u = Ok y \<Longrightarrow> case_sum rest (rest \<circ> snd) y = rest u" for k and u :: "'a fls" and y
    by (auto simp: ialloc1_def Let_def ok_simps dest!: rest_dest)
  assume "ialloc dev ty s = Ok (p, t)"
  then obtain x where x: "forb [1..<unat (sb_ninodes (sb s))] (ialloc1 dev ty) s = Ok x" "x = Inr (p, t)"
    by (auto simp: ialloc_def ok_simps scan_Ok)
  from forb_rest [OF x(1) 1] x(2) show ?thesis by simp
qed

lemma iupdate_rest [rest_dest]: "iupdate p s = Ok t \<Longrightarrow> rest t = rest s"
  by (auto simp: iupdate_def Let_def ok_simps dest!: rest_dest)

lemma ilock_rest [rest_dest]: "ilock p s = Ok t \<Longrightarrow> rest t = rest s"
  by (auto simp: ilock_def Let_def ok_simps dest!: rest_dest)

lemma iunlock_rest [rest_dest]: "iunlock p s = Ok t \<Longrightarrow> rest t = rest s"
  by (auto simp: iunlock_def ok_simps)

lemma bmap_rest [rest_dest]: "bmap p bn s = Ok (a, t) \<Longrightarrow> rest t = rest s"
  by (auto simp: bmap_def Let_def ok_simps dest!: rest_dest)

lemma itrunc_rest [rest_dest]: "itrunc p s = Ok t \<Longrightarrow> rest t = rest s"
proof -
  have 1: "itrunc1 p k u = Ok v \<Longrightarrow> rest v = rest u" for k and u v :: "'a fls"
    by (auto simp: itrunc1_def Let_def ok_simps dest!: rest_dest)
  have 2: "itrunc_ind dev i k u = Ok v \<Longrightarrow> rest v = rest u" for dev i k and u v :: "'a fls"
    by (auto simp: itrunc_ind_def Let_def ok_simps dest!: rest_dest)
  have 3: "forr xs (itrunc1 p) u = Ok v \<Longrightarrow> rest v = rest u" for xs and u v :: "'a fls"
    by (erule forr_rest) (rule 1)
  have 4: "forr xs (itrunc_ind dev i) u = Ok v \<Longrightarrow> rest v = rest u" for xs dev i and u v :: "'a fls"
    by (erule forr_rest) (rule 2)
  assume "itrunc p s = Ok t"
  then show ?thesis by (auto simp: itrunc_def Let_def ok_simps dest!: 3 4 rest_dest)
qed

lemma iput_rest [rest_dest]: "iput p s = Ok t \<Longrightarrow> rest t = rest s"
  by (auto simp: iput_def Let_def ok_simps dest!: rest_dest)

lemma iunlockput_rest [rest_dest]: "iunlockput p s = Ok t \<Longrightarrow> rest t = rest s"
  by (auto simp: iunlockput_def ok_simps dest!: rest_dest)

section \<open>With devices that leave the open files alone\<close>

definition dev_ok :: "'a fdev \<Rightarrow> bool" where
  "dev_ok dv \<longleftrightarrow> (\<forall>j rd p n s r bs t. fst (dv j) = Some rd \<longrightarrow> rd p n s = Ok (r, bs, t) \<longrightarrow> rest t = rest s)
     \<and> (\<forall>j wr p src n s r t. snd (dv j) = Some wr \<longrightarrow> wr p src n s = Ok (r, t) \<longrightarrow> rest t = rest s)"

lemma readi_loop_rest: "readi_loop p off n s = Ok (bs, t) \<Longrightarrow> rest t = rest s"
proof (induction p off n s arbitrary: bs t rule: readi_loop.induct)
  case (1 p off n s)
  show ?case
  proof (cases "n = 0")
    case True
    then show ?thesis using 1(2) by (subst (asm) readi_loop.simps) simp
  next
    case False
    obtain a s1 i s2 s3 r where s: "bmap p (off div BSIZE) s = Ok (a, s1)" "bread (idev (icache s1 ! p)) a s1 = Ok (i, s2)"
      "brelse i s2 = Ok s3" "readi_loop p (off + chunk off n) (n - chunk off n) s3 = Ok (r, t)"
      using 1(2) False by (subst (asm) readi_loop.simps) (auto simp: ok_simps)
    show ?thesis using 1(1) [OF False s(4)] s(1-3) by (auto dest!: rest_dest)
  qed
qed

lemma writei_loop_rest: "writei_loop p src off n s = Ok (o', t) \<Longrightarrow> rest t = rest s"
proof (induction p src off n s arbitrary: o' t rule: writei_loop.induct)
  case (1 p src off n s)
  show ?case
  proof (cases "n = 0")
    case True
    then show ?thesis using 1(2) by (subst (asm) writei_loop.simps) simp
  next
    case False
    obtain a s1 i s2 s3 s4 where s: "bmap p (off div BSIZE) s = Ok (a, s1)" "bread (idev (icache s1 ! p)) a s1 = Ok (i, s2)"
      "log_write i (set_data i (put (bdata (bufs s2 ! i)) (off mod BSIZE) (take (chunk off n) src)) s2) = Ok s3"
      "brelse i s3 = Ok s4" "writei_loop p (drop (chunk off n) src) (off + chunk off n) (n - chunk off n) s4 = Ok (o', t)"
      using 1(2) False by (subst (asm) writei_loop.simps) (auto simp: ok_simps)
    show ?thesis using 1(1) [OF False s(5)] s(1-4) by (auto dest!: rest_dest)
  qed
qed

lemma readi_rest: "readi dv p off n s = Ok (r, bs, t) \<Longrightarrow> dev_ok dv \<Longrightarrow> rest t = rest s"
  by (auto simp: readi_def Let_def ok_simps dev_ok_def dest!: readi_loop_rest)

lemma writei_rest: "writei dv p src off n s = Ok (r, t) \<Longrightarrow> dev_ok dv \<Longrightarrow> rest t = rest s"
  by (auto simp: writei_def Let_def ok_simps dev_ok_def dest!: writei_loop_rest rest_dest)

lemma dirlookup_rest: "dirlookup dv p name s = Ok (r, t) \<Longrightarrow> dev_ok dv \<Longrightarrow> rest t = rest s"
proof -
  assume d: "dev_ok dv"
  have 1: "dirlookup1 dv p name k u = Ok y \<Longrightarrow> case_sum rest (rest \<circ> snd) y = rest u" for k and u :: "'a fls" and y
    using d by (auto simp: dirlookup1_def ok_simps dest!: readi_rest rest_dest)
  assume "dirlookup dv p name s = Ok (r, t)"
  then obtain x where x: "forb [0..<dir_slots (icache s ! p)] (dirlookup1 dv p name) s = Ok x"
    "(case x of Inl s1 \<Rightarrow> Ok (None, s1) | Inr (r, s1) \<Rightarrow> Ok (Some r, s1)) = Ok (r, t)"
    by (auto simp: dirlookup_def ok_simps)
  from forb_rest [OF x(1) 1] x(2) show ?thesis by (cases x) auto
qed

lemma dirlink_rest: "dirlink dv p name ino s = Ok (r, t) \<Longrightarrow> dev_ok dv \<Longrightarrow> rest t = rest s"
proof -
  assume d: "dev_ok dv"
  have 1: "dirlink1 dv p k u = Ok y \<Longrightarrow> case_sum rest (rest \<circ> snd) y = rest u" for k and u :: "'a fls" and y
    using d by (auto simp: dirlink1_def ok_simps dest!: readi_rest)
  have 2: "forb xs (dirlink1 dv p) u = Ok x \<Longrightarrow> case_sum rest (rest \<circ> snd) x = rest u" for xs and u :: "'a fls" and x
    by (erule forb_rest) (rule 1)
  have 3: "(case x of Inl u \<Rightarrow> (a, u) | Inr r \<Rightarrow> r) = (off, u) \<Longrightarrow> case_sum rest (rest \<circ> snd) x = rest u" for x a off and u :: "'a fls"
    by (cases x) auto
  assume "dirlink dv p name ino s = Ok (r, t)"
  then show ?thesis using d
    by (auto simp: dirlink_def Let_def ok_simps dest!: 2 3 dirlookup_rest writei_rest rest_dest)
qed

lemma namex_loop_rest:
  "namex_loop dv path nip name ip s = Ok (r, t) \<Longrightarrow> dev_ok dv \<Longrightarrow> rest t = rest s"
proof (induction dv path nip name ip s arbitrary: r t rule: namex_loop.induct)
  case (1 dv path nip name ip s)
  show ?case
  proof (cases "skipelem path")
    case None
    then show ?thesis using 1(2) by (subst (asm) namex_loop.simps) (auto simp: ok_simps dest!: rest_dest)
  next
    case (Some x)
    obtain nm path' where x: "x = (nm, path')" by (cases x)
    obtain s1 where s1: "ilock ip s = Ok s1" using 1(2) Some x by (subst (asm) namex_loop.simps) (auto simp: ok_simps)
    show ?thesis
    proof (cases "itype (icache s1 ! ip) \<noteq> T_DIR \<or> nip \<and> path' = []")
      case True
      then show ?thesis using 1(2) Some x s1
        by (subst (asm) namex_loop.simps) (auto simp: ok_simps dest!: rest_dest)
    next
      case False
      obtain y s2 where y: "dirlookup dv ip nm s1 = Ok (y, s2)"
        using 1(2) Some x s1 False by (subst (asm) namex_loop.simps) (auto simp: ok_simps)
      show ?thesis
      proof (cases y)
        case None
        then show ?thesis using 1(2,3) Some x s1 False y
          by (subst (asm) namex_loop.simps) (auto simp: ok_simps dest!: dirlookup_rest rest_dest)
      next
        case y2: (Some z)
        obtain nx off where z: "z = (nx, off)" by (cases z)
        obtain s3 where s3: "iunlockput ip s2 = Ok s3" "namex_loop dv path' nip nm nx s3 = Ok (r, t)"
          using 1(2) Some x s1 False y y2 z by (subst (asm) namex_loop.simps) (auto simp: ok_simps)
        have "rest t = rest s3" using 1(1) [OF Some [unfolded x] refl _ _ y2 [unfolded z] refl s3(2) 1(3)] False by blast
        then show ?thesis using s1 y s3(1) 1(3) by (auto dest!: dirlookup_rest rest_dest)
      qed
    qed
  qed
qed

lemma namex_rest: "namex dv path nip s = Ok (r, t) \<Longrightarrow> dev_ok dv \<Longrightarrow> rest t = rest s"
  by (auto simp: namex_def idup_def ok_simps dest!: namex_loop_rest rest_dest)

lemma namei_rest: "namei dv path s = Ok (r, t) \<Longrightarrow> dev_ok dv \<Longrightarrow> rest t = rest s"
  by (auto simp: namei_def ok_simps dest!: namex_rest)

lemma nameiparent_rest: "nameiparent dv path s = Ok (r, t) \<Longrightarrow> dev_ok dv \<Longrightarrow> rest t = rest s"
  by (auto simp: nameiparent_def dest!: namex_rest)

lemmas dev_rest = readi_rest writei_rest dirlookup_rest dirlink_rest namei_rest nameiparent_rest

end
