(* ===== verification/File_Fd.thy ===== *)
theory File_Fd
  imports File_Frame
begin

text \<open>
  The descriptor table and the reference counts of the open files. The ghost \<open>e\<close> counts the references that the
  descriptors of the running process do not account for: those of other processes, and those that the code of a
  system call holds for itself in between.
\<close>

section \<open>The invariant\<close>

definition fd_ok :: "(nat \<Rightarrow> int) \<Rightarrow> 'a fls \<Rightarrow> bool" where
  "fd_ok e s \<longleftrightarrow> length (ftable s) = NFILE \<and> length (ofile s) = NOFILE
     \<and> (\<forall>f. Some f \<in> set (ofile s) \<longrightarrow> f < NFILE)
     \<and> (\<forall>f < NFILE. fref (ftable s ! f) = int (count_list (ofile s) (Some f)) + e f)
     \<and> (\<forall>f < NFILE. fref (ftable s ! f) = 0 \<longrightarrow> ftype (ftable s ! f) = FD_NONE)"

lemma fd_ok_rest: "rest t = rest s \<Longrightarrow> fd_ok e s \<Longrightarrow> fd_ok e t"
  by (simp add: fd_ok_def rest_def)

lemma fd_okD: "fd_ok e s \<Longrightarrow> length (ftable s) = NFILE" "fd_ok e s \<Longrightarrow> length (ofile s) = NOFILE"
  "fd_ok e s \<Longrightarrow> Some f \<in> set (ofile s) \<Longrightarrow> f < NFILE"
  "fd_ok e s \<Longrightarrow> f < NFILE \<Longrightarrow> fref (ftable s ! f) = int (count_list (ofile s) (Some f)) + e f"
  "fd_ok e s \<Longrightarrow> f < NFILE \<Longrightarrow> fref (ftable s ! f) = 0 \<Longrightarrow> ftype (ftable s ! f) = FD_NONE"
  by (auto simp: fd_ok_def)

lemma count_list_upd:
  "i < length xs \<Longrightarrow> int (count_list (xs[i := y]) x) = int (count_list xs x) - (if xs ! i = x then 1 else 0) + (if y = x then 1 else 0)"
proof (induction xs arbitrary: i)
  case (Cons a xs)
  show ?case
  proof (cases i)
    case (Suc k)
    then show ?thesis using Cons.IH [of k] Cons.prems by (simp split: if_splits)
  qed simp
qed simp

lemma count_pos: "x \<in> set xs \<Longrightarrow> 1 \<le> int (count_list xs x)"
  by (induction xs) auto

lemma fref_pos: "fd_ok e s \<Longrightarrow> Some f \<in> set (ofile s) \<Longrightarrow> 0 \<le> e f \<Longrightarrow> 1 \<le> fref (ftable s ! f)"
  using fd_okD(3,4) [of e s f] count_pos [of "Some f" "ofile s"] by simp

lemma upd_file_simps [simp]: "ofile (upd_file f g s) = ofile s" "pipes (upd_file f g s) = pipes s" "pkilled (upd_file f g s) = pkilled s"
  "length (ftable (upd_file f g s)) = length (ftable s)"
  "f < length (ftable s) \<Longrightarrow> ftable (upd_file f g s) ! k = (if k = f then g (ftable s ! f) else ftable s ! k)"
  by (auto simp: upd_file_def nth_list_update)

text \<open>A change of an entry of the table that moves its count by \<open>d\<close>.\<close>

lemma fd_ok_upd_file:
  assumes "fd_ok e s" and "f < NFILE" and "fref (g (ftable s ! f)) = fref (ftable s ! f) + d"
    and "fref (g (ftable s ! f)) = 0 \<Longrightarrow> ftype (g (ftable s ! f)) = FD_NONE"
  shows "fd_ok (e(f := e f + d)) (upd_file f g s)"
  using assms by (simp add: fd_ok_def)

lemma fd_ok_same: "fd_ok (e(f := e f + 0)) s = fd_ok e s"
  by simp

lemma fd_ok_ofile:
  assumes s: "fd_ok e s" and fd: "fd < NOFILE" and x: "\<And>f. x = Some f \<Longrightarrow> f < NFILE"
  shows "fd_ok (\<lambda>f. e f + (if ofile s ! fd = Some f then 1 else 0) - (if x = Some f then 1 else 0)) (s\<lparr>ofile := (ofile s)[fd := x]\<rparr>)"
proof -
  have l: "fd < length (ofile s)" using fd fd_okD(2) [OF s] by simp
  have "f < NFILE" if "Some f \<in> set ((ofile s)[fd := x])" for f
    using that set_update_subset_insert [of "ofile s" fd x] x [of f] fd_okD(3) [OF s, of f] by auto
  then show ?thesis using s l by (auto simp: fd_ok_def count_list_upd)
qed

section \<open>The pieces of the calls\<close>

lemma filealloc_fd:
  assumes s: "fd_ok e s" and a: "filealloc s = (r, t)"
  shows "case r of None \<Rightarrow> t = s | Some f \<Rightarrow> f < NFILE \<and> fd_ok (e(f := e f + 1)) t \<and> fref (ftable t ! f) = 1 \<and> ofile t = ofile s
    \<and> pipes t = pipes s \<and> pkilled t = pkilled s \<and> ftype (ftable t ! f) = FD_NONE \<and> fref (ftable s ! f) = 0
    \<and> (\<forall>k. k \<noteq> f \<longrightarrow> ftable t ! k = ftable s ! k)"
proof (cases "first_idx (\<lambda>f. fref f = 0) (ftable s)")
  case None
  then show ?thesis using a by (auto simp: filealloc_def)
next
  case (Some f)
  have f: "f < NFILE" "fref (ftable s ! f) = 0"
    using first_idx_length [OF Some] first_idx_sat [OF Some] fd_okD(1) [OF s] by simp_all
  note t = a [unfolded filealloc_def Some option.case]
  show ?thesis using t f s fd_ok_upd_file [OF s f(1), of "\<lambda>x. x\<lparr>fref := 1\<rparr>" 1] by (auto simp: fd_okD)
qed

lemma fdalloc_fd:
  assumes s: "fd_ok (e(f := e f + 1)) s" and f: "f < NFILE" and a: "fdalloc f s = (fd, t)"
  shows "fd = -1 \<and> t = s \<and> (\<forall>j < NOFILE. ofile s ! j \<noteq> None)
    \<or> 0 \<le> fd \<and> fd < int NOFILE \<and> ofile s ! nat fd = None \<and> (\<forall>j < nat fd. ofile s ! j \<noteq> None) \<and> fd_ok e t
      \<and> t = s\<lparr>ofile := (ofile s)[nat fd := Some f]\<rparr>"
proof (cases "first_idx (\<lambda>x. x = None) (ofile s)")
  case None
  have "\<forall>j < NOFILE. ofile s ! j \<noteq> None" using None fd_okD(2) [OF s] nth_mem [of _ "ofile s"] by (auto simp: first_idx_None)
  then show ?thesis using a [unfolded fdalloc_def None option.case] by simp
next
  case (Some k)
  have k: "k < NOFILE" "ofile s ! k = None" "\<forall>j < k. ofile s ! j \<noteq> None" using Some fd_okD(2) [OF s] by (auto simp: first_idx_Some)
  have e: "(\<lambda>g. (e(f := e f + 1)) g + (if ofile s ! k = Some g then 1 else 0) - (if Some f = Some g then 1 else 0)) = e"
    using k(2) by (auto simp: fun_eq_iff)
  have "fd_ok e (s\<lparr>ofile := (ofile s)[k := Some f]\<rparr>)" using fd_ok_ofile [OF s k(1), of "Some f", unfolded e] f by simp
  then show ?thesis using a k by (auto simp: fdalloc_def Some)
qed

lemma clear_fd_fd:
  assumes s: "fd_ok e s" and fd: "0 \<le> fd" "fd < int NOFILE" and f: "ofile s ! nat fd = Some f"
  shows "fd_ok (e(f := e f + 1)) (clear_fd fd s)"
proof -
  have e: "(\<lambda>g. e g + (if ofile s ! nat fd = Some g then 1 else 0) - (if None = Some g then 1 else 0)) = e(f := e f + 1)"
    using f by (auto simp: fun_eq_iff)
  show ?thesis using fd_ok_ofile [OF s, of "nat fd" None, unfolded e] fd by (simp add: clear_fd_def)
qed

lemma fd_ok_pipes [simp]: "fd_ok e (s\<lparr>pipes := p\<rparr>) = fd_ok e s"
  by (simp add: fd_ok_def)

lemma fileclose_fd:
  assumes s: "fd_ok (e(f := e f + 1)) s" and f: "f < NFILE" and c: "fileclose f s = Ok t"
  shows "fd_ok e t \<and> ofile t = ofile s"
proof -
  let ?ff = "ftable s ! f"
  have e: "(e(f := e f + 1))(f := (e(f := e f + 1)) f + - 1) = e" by (simp add: fun_eq_iff)
  have ge: "1 \<le> fref ?ff" using c by (auto simp: fileclose_def Let_def ok_simps)
  show ?thesis
  proof (cases "fref ?ff - 1 > 0")
    case True
    have "fd_ok e (upd_file f (\<lambda>x. x\<lparr>fref := fref x - 1\<rparr>) s)"
      using fd_ok_upd_file [OF s f, of "\<lambda>x. x\<lparr>fref := fref x - 1\<rparr>" "-1", unfolded e] True by simp
    then show ?thesis using c True by (auto simp: fileclose_def Let_def ok_simps)
  next
    case False
    let ?s = "upd_file f (\<lambda>x. x\<lparr>fref := 0, ftype := FD_NONE\<rparr>) s"
    have "fref ?ff = 1" using ge False by simp
    then have s1: "fd_ok e ?s"
      using fd_ok_upd_file [OF s f, of "\<lambda>x. x\<lparr>fref := 0, ftype := FD_NONE\<rparr>" "-1", unfolded e] by simp
    consider "close_pipe (fpipe ?ff) (fwritable ?ff) ?s = Ok t" | "t = ?s" | "rest t = rest ?s"
      using c False by (auto simp: fileclose_def Let_def ok_simps dest!: rest_dest)
    then show ?thesis
      by cases (use s1 fd_ok_rest [OF _ s1, of t] in \<open>auto simp: close_pipe_def Let_def ok_simps rest_def\<close>)
  qed
qed

lemma file_fd_fd:
  assumes s: "fd_ok e s" and c: "file_fd s = Ok (r, t)"
  shows "fd_ok e t \<and> (\<forall>f fd. r = Some (f, fd) \<longrightarrow> Some f \<in> set (ofile t) \<and> 0 \<le> fd \<and> fd < int NOFILE \<and> ofile s ! nat fd = None)"
proof -
  obtain a s1 where a: "filealloc s = (a, s1)" by (cases "filealloc s")
  show ?thesis
  proof (cases a)
    case None
    then show ?thesis using c filealloc_fd [OF s a] s by (simp add: file_fd_def a)
  next
    case (Some f)
    then have f: "f < NFILE" "fd_ok (e(f := e f + 1)) s1" "ofile s1 = ofile s" using filealloc_fd [OF s a] by simp_all
    obtain fd s2 where fd: "fdalloc f s1 = (fd, s2)" by (cases "fdalloc f s1")
    show ?thesis
    proof (cases "fd < 0")
      case True
      then have s2: "s2 = s1" using fdalloc_fd [OF f(2,1) fd] by auto
      then show ?thesis using c True fileclose_fd [OF f(2,1)] by (auto simp: file_fd_def a Some fd ok_simps)
    next
      case False
      have k: "0 \<le> fd" "fd < int NOFILE" "fd_ok e s2" "s2 = s1\<lparr>ofile := (ofile s1)[nat fd := Some f]\<rparr>" "ofile s1 ! nat fd = None"
        using fdalloc_fd [OF f(2,1) fd] False by auto
      have "nat fd < length (ofile s1)" using fd_okD(2) [OF f(2)] k by simp
      then have "Some f \<in> set (ofile s2)" using k(4) by (simp add: set_update_memI)
      then show ?thesis using c False k f(3) by (auto simp: file_fd_def a Some fd)
    qed
  qed
qed

section \<open>Calls that leave the open files alone\<close>

lemma fail_op_rest [rest_dest]: "fail_op s = Ok (r, t) \<Longrightarrow> rest t = rest s"
  by (auto simp: fail_op_def ok_simps dest!: rest_dest)

lemma done_op_rest [rest_dest]: "done_op k s = Ok (r, t) \<Longrightarrow> rest t = rest s"
  by (auto simp: done_op_def ok_simps dest!: rest_dest)

lemma add_nlink_rest [rest_dest]: "add_nlink ip d s = Ok t \<Longrightarrow> rest t = rest s"
  by (auto simp: add_nlink_def dest!: rest_dest)

lemma link_bad_rest [rest_dest]: "link_bad ip s = Ok (r, t) \<Longrightarrow> rest t = rest s"
  by (auto simp: link_bad_def ok_simps dest!: rest_dest)

lemma unlink_bad_rest [rest_dest]: "unlink_bad ip s = Ok (r, t) \<Longrightarrow> rest t = rest s"
  by (auto simp: unlink_bad_def ok_simps dest!: rest_dest)

lemma sys_link_rest: "sys_link dv a b s = Ok (r, t) \<Longrightarrow> dev_ok dv \<Longrightarrow> rest t = rest s"
  by (auto simp: sys_link_def ok_simps dest!: dev_rest rest_dest)

lemma isdirempty_rest: "isdirempty dv dp s = Ok (e, t) \<Longrightarrow> dev_ok dv \<Longrightarrow> rest t = rest s"
proof -
  assume d: "dev_ok dv"
  have 1: "isdirempty1 dv dp k u = Ok y \<Longrightarrow> case_sum rest rest y = rest u" for k and u :: "'a fls" and y
    using d by (auto simp: isdirempty1_def ok_simps dest!: dev_rest)
  assume "isdirempty dv dp s = Ok (e, t)"
  then obtain x where x: "forb [2..<dir_slots (icache s ! dp)] (isdirempty1 dv dp) s = Ok x"
    "(case x of Inl s1 \<Rightarrow> (True, s1) | Inr s1 \<Rightarrow> (False, s1)) = (e, t)" by (auto simp: isdirempty_def ok_simps)
  from forb_rest [OF x(1) 1] x(2) show ?thesis by (cases x) auto
qed

lemma unlink_path_rest: "unlink_path dv path s = Ok (r, t) \<Longrightarrow> dev_ok dv \<Longrightarrow> rest t = rest s"
  by (auto simp: unlink_path_def unlink_entry_def ok_simps dest!: isdirempty_rest dev_rest rest_dest)

lemma sys_unlink_rest: "sys_unlink dv a s = Ok (r, t) \<Longrightarrow> dev_ok dv \<Longrightarrow> rest t = rest s"
  by (auto simp: sys_unlink_def ok_simps dest!: unlink_path_rest rest_dest)

lemma create_rest: "create dv path ty j n s = Ok (r, t) \<Longrightarrow> dev_ok dv \<Longrightarrow> rest t = rest s"
  by (auto simp: create_def create_dots_def ok_simps dest!: dev_rest rest_dest)

lemma sys_mkdir_rest: "sys_mkdir dv a s = Ok (r, t) \<Longrightarrow> dev_ok dv \<Longrightarrow> rest t = rest s"
  by (auto simp: sys_mkdir_def ok_simps dest!: create_rest rest_dest)

lemma sys_mknod_rest: "sys_mknod dv a b c s = Ok (r, t) \<Longrightarrow> dev_ok dv \<Longrightarrow> rest t = rest s"
  by (auto simp: sys_mknod_def ok_simps dest!: create_rest rest_dest)

lemma sys_chdir_rest: "sys_chdir dv a s = Ok (r, t) \<Longrightarrow> dev_ok dv \<Longrightarrow> rest t = rest s"
  by (auto simp: sys_chdir_def ok_simps dest!: dev_rest rest_dest)

lemma filestat_rest: "filestat f s = Ok (r, t) \<Longrightarrow> rest t = rest s"
  by (auto simp: filestat_def Let_def ok_simps dest!: rest_dest)

section \<open>Calls on descriptors\<close>

lemma argfd_Some:
  assumes "argfd a s = Some (fd, f)" and "fd_ok e s"
  shows "0 \<le> fd" "fd < int NOFILE" "ofile s ! nat fd = Some f" "Some f \<in> set (ofile s)" "f < NFILE"
proof -
  show fd: "0 \<le> fd" "fd < int NOFILE" "ofile s ! nat fd = Some f" using assms(1) by (auto simp: argfd_def split: option.splits if_splits)
  then show "Some f \<in> set (ofile s)" using fd_okD(2) [OF assms(2)] by (metis nat_less_iff nth_mem)
  then show "f < NFILE" using fd_okD(3) [OF assms(2)] by blast
qed

lemma fd_ok_off:
  assumes "fd_ok e s" and "f < NFILE"
  shows "fd_ok e (upd_file f (\<lambda>x. x\<lparr>foff := foff x + k\<rparr>) s)"
  using fd_ok_upd_file [OF assms, of "\<lambda>x. x\<lparr>foff := foff x + k\<rparr>" 0] fd_okD(5) [OF assms] by simp

lemma pstat_Ok_iff:
  "(case st of Returned r \<Rightarrow> g r | Asleep c \<Rightarrow> h c) = Ok y \<longleftrightarrow> (\<exists>r. st = Returned r \<and> g r = Ok y) \<or> (\<exists>c. st = Asleep c \<and> h c = Ok y)"
  by (auto split: pstat.splits)

lemma fileread_fd:
  assumes c: "fileread dv f n s = Ok (r, bs, t)" and d: "dev_ok dv" and s: "fd_ok e s" and f: "f < NFILE"
  shows "fd_ok e t"
proof (cases "freadable (ftable s ! f) \<and> ftype (ftable s ! f) = FD_INODE")
  case True
  then obtain s1 s2 s3 where q: "ilock (fip (ftable s ! f)) s = Ok s1" "readi dv (fip (ftable s ! f)) (foff (ftable s ! f)) (of_int n) s1 = Ok (r, bs, s2)"
    "s3 = (if r > 0 then upd_file f (\<lambda>x. x\<lparr>foff := foff x + of_int r\<rparr>) s2 else s2)" "iunlock (fip (ftable s ! f)) s3 = Ok t"
    using c by (auto simp: fileread_def Let_def ok_simps)
  have "fd_ok e s2" using fd_ok_rest [OF readi_rest [OF q(2) d] fd_ok_rest [OF ilock_rest [OF q(1)] s]] .
  then have "fd_ok e s3" using fd_ok_off [OF _ f, of e s2 "of_int r"] q(3) by simp
  then show ?thesis using fd_ok_rest [OF iunlock_rest [OF q(4)]] by simp
next
  case False
  then show ?thesis using c s by (auto simp: fileread_def read_pipe_def Let_def ok_simps pstat_Ok_iff)
qed

lemma write_piece_fd:
  assumes c: "write_piece dv f src n s = Ok (r, t)" and d: "dev_ok dv" and s: "fd_ok e s" and f: "f < NFILE"
  shows "fd_ok e t"
proof -
  obtain s1 s2 s3 s4 s5 where q: "begin_op s = Ok s1" "ilock (fip (ftable s1 ! f)) s1 = Ok s2"
    "writei dv (fip (ftable s1 ! f)) src (foff (ftable s2 ! f)) (of_int n) s2 = Ok (r, s3)"
    "s4 = (if r > 0 then upd_file f (\<lambda>x. x\<lparr>foff := foff x + of_int r\<rparr>) s3 else s3)" "iunlock (fip (ftable s1 ! f)) s4 = Ok s5" "end_op s5 = Ok t"
    using c by (auto simp: write_piece_def Let_def ok_simps)
  have "fd_ok e s3" using fd_ok_rest [OF writei_rest [OF q(3) d] fd_ok_rest [OF ilock_rest [OF q(2)] fd_ok_rest [OF begin_op_rest [OF q(1)] s]]] .
  then have "fd_ok e s4" using fd_ok_off [OF _ f, of e s3 "of_int r"] q(4) by simp
  then show ?thesis using fd_ok_rest [OF end_op_rest [OF q(6)] fd_ok_rest [OF iunlock_rest [OF q(5)]]] by simp
qed

lemma filewrite_loop_fd:
  "filewrite_loop dv f src n i s = Ok (j, t) \<Longrightarrow> dev_ok dv \<Longrightarrow> fd_ok e s \<Longrightarrow> f < NFILE \<Longrightarrow> fd_ok e t"
proof (induction dv f src n i s arbitrary: j t rule: filewrite_loop.induct)
  case (1 dv f src n i s)
  show ?case
  proof (cases "i < n")
    case True
    let ?n = "min (n - i) write_max"
    obtain r s1 where q: "write_piece dv f (drop (nat i) src) ?n s = Ok (r, s1)"
      "(if r < 0 then Ok (i, s1) else guardr (r = ?n) ''short filewrite'' (filewrite_loop dv f src n (i + ?n) s1)) = Ok (j, t)"
      using 1(2) True by (subst (asm) filewrite_loop.simps) (auto simp: Let_def bindr_Ok_iff)
    have s1: "fd_ok e s1" using write_piece_fd [OF q(1) 1(3-5)] .
    show ?thesis using 1(1) [OF True refl _ _ 1(3) s1 1(5), of r] q(2) s1 by (auto simp: ok_simps)
  next
    case False
    then show ?thesis using 1(2,4) by (subst (asm) filewrite_loop.simps) simp
  qed
qed

lemma filewrite_fd:
  "filewrite dv f src n s = Ok (r, t) \<Longrightarrow> dev_ok dv \<Longrightarrow> fd_ok e s \<Longrightarrow> f < NFILE \<Longrightarrow> fd_ok e t"
  by (auto simp: filewrite_def write_pipe_def Let_def ok_simps pstat_Ok_iff dest: filewrite_loop_fd)

lemma sys_dup_fd:
  assumes c: "sys_dup a s = Ok (r, t)" and s: "fd_ok e s" and e: "\<And>f. 0 \<le> e f"
  shows "fd_ok e t"
proof (cases "argfd a s")
  case None
  then show ?thesis using c s by (simp add: sys_dup_def)
next
  case (Some x)
  obtain ofd f where x: "argfd a s = Some (ofd, f)" using Some by (cases x) simp
  note f = argfd_Some [OF x s]
  obtain fd s1 where fd: "fdalloc f s = (fd, s1)" by (cases "fdalloc f s")
  define e' where "e' = e(f := e f - 1)"
  have e': "e'(f := e' f + 1) = e" by (simp add: e'_def fun_eq_iff)
  note k = fdalloc_fd [of e' f s, unfolded e', OF s f(5) fd]
  show ?thesis
  proof (cases "fd < 0")
    case True
    then show ?thesis using c k s by (auto simp: sys_dup_def x fd)
  next
    case False
    then have s1: "fd_ok e' s1" and g: "\<not> fref (ftable s1 ! f) < 1 \<and> t = upd_file f (\<lambda>x. x\<lparr>fref := fref x + 1\<rparr>) s1"
      using c k by (auto simp: sys_dup_def x fd filedup_def ok_simps)
    show ?thesis using fd_ok_upd_file [OF s1 f(5), of "\<lambda>x. x\<lparr>fref := fref x + 1\<rparr>" 1, unfolded e'] g by simp
  qed
qed

lemma sys_close_fd:
  assumes c: "sys_close a s = Ok (r, t)" and s: "fd_ok e s"
  shows "fd_ok e t"
proof (cases "argfd a s")
  case None
  then show ?thesis using c s by (simp add: sys_close_def)
next
  case (Some x)
  obtain fd f where x: "argfd a s = Some (fd, f)" using Some by (cases x) simp
  note f = argfd_Some [OF x s]
  show ?thesis using fileclose_fd [OF clear_fd_fd [OF s f(1-3)] f(5)] c by (auto simp: sys_close_def x ok_simps)
qed

lemma sys_open_fd:
  assumes c: "sys_open dv a b s = Ok (r, t)" and d: "dev_ok dv" and s: "fd_ok e s" and e: "\<And>f. 0 \<le> e f"
  shows "fd_ok e t"
proof (cases "a = None \<or> b = None")
  case True
  then show ?thesis using c s by (auto simp: sys_open_def split: option.splits)
next
  case False
  then obtain path m where ab: "a = Some path" "b = Some m" by auto
  obtain s1 x s2 where q: "begin_op s = Ok s1" "open_inode dv path m s1 = Ok (x, s2)"
    using c by (auto simp: sys_open_def ab ok_simps)
  have "rest s2 = rest s1" using q(2) d by (auto simp: open_inode_def ok_simps dest!: create_rest dev_rest rest_dest)
  then have s2: "fd_ok e s2" using fd_ok_rest [OF _ fd_ok_rest [OF begin_op_rest [OF q(1)] s]] by blast
  show ?thesis
  proof (cases x)
    case None
    then have "rest t = rest s2" using c q by (auto simp: sys_open_def ab ok_simps dest!: rest_dest)
    then show ?thesis using fd_ok_rest s2 by blast
  next
    case (Some ip)
    obtain y s3 where y: "file_fd s2 = Ok (y, s3)" using c q Some by (auto simp: sys_open_def ab ok_simps)
    note ff = file_fd_fd [OF s2 y]
    show ?thesis
    proof (cases y)
      case None
      then have "rest t = rest s3" using c q Some y by (auto simp: sys_open_def ab ok_simps dest!: rest_dest)
      then show ?thesis using fd_ok_rest ff by blast
    next
      case z: (Some z)
      obtain f fd where ffd: "z = (f, fd)" by (cases z)
      obtain s4 s5 rr ww where w: "iunlock ip s3 = Ok s4" "end_op s4 = Ok s5" "t = set_file f ip rr ww s5"
        using c q Some y z ffd by (auto simp: sys_open_def ab ok_simps)
      have "rest s5 = rest s3" using w by (auto dest!: rest_dest)
      then have s5: "fd_ok e s5" "Some f \<in> set (ofile s5)" using ff z ffd fd_ok_rest by (auto simp: rest_def)
      have "1 \<le> fref (ftable s5 ! f)" using fref_pos [OF s5] e by simp
      then show ?thesis using w(3)
        fd_ok_upd_file [OF s5(1) fd_okD(3) [OF s5], of "\<lambda>x. x\<lparr>ftype := FD_INODE, fip := ip, foff := 0, freadable := rr, fwritable := ww\<rparr>" 0]
        by (simp add: set_file_def)
    qed
  qed
qed

section \<open>Pipes\<close>

definition pipe_ends :: "nat \<Rightarrow> nat \<Rightarrow> nat \<Rightarrow> 'a fls \<Rightarrow> bool" where
  "pipe_ends f0 f1 p t \<longleftrightarrow> f0 < NFILE \<and> f1 < NFILE \<and> f0 \<noteq> f1 \<and> p < length (pipes t)
     \<and> pipes t ! p = Some (pipe_init (replicate PIPESIZE 1))
     \<and> ftype (ftable t ! f0) = FD_PIPE \<and> freadable (ftable t ! f0) \<and> \<not> fwritable (ftable t ! f0) \<and> fpipe (ftable t ! f0) = p
     \<and> ftype (ftable t ! f1) = FD_PIPE \<and> \<not> freadable (ftable t ! f1) \<and> fwritable (ftable t ! f1) \<and> fpipe (ftable t ! f1) = p"

lemma pipealloc_fd:
  assumes s: "fd_ok e s" and c: "pipealloc s = Ok (r, t)"
  shows "case r of None \<Rightarrow> fd_ok e t
    | Some (f0, f1) \<Rightarrow> fd_ok (e(f0 := e f0 + 1, f1 := e f1 + 1)) t \<and> ofile t = ofile s \<and> pkilled t = pkilled s \<and> (\<exists>p. pipe_ends f0 f1 p t)"
proof -
  obtain a s1 where a: "filealloc s = (a, s1)" by (cases "filealloc s")
  show ?thesis
  proof (cases a)
    case None
    then show ?thesis using c filealloc_fd [OF s a] s by (auto simp: pipealloc_def a)
  next
    case (Some f0)
    note f0 = filealloc_fd [OF s a, unfolded Some option.case]
    obtain b s2 where b: "filealloc s1 = (b, s2)" by (cases "filealloc s1")
    have s1: "fd_ok (e(f0 := e f0 + 1)) s1" using f0 by blast
    show ?thesis
    proof (cases b)
      case None
      then have "s2 = s1" using filealloc_fd [OF s1 b] by simp
      then show ?thesis using c Some a b None f0 fileclose_fd [OF s1] by (auto simp: pipealloc_def ok_simps)
    next
      case b2: (Some f1)
      note f1 = filealloc_fd [OF s1 b, unfolded b2 option.case]
      have ne: "f0 \<noteq> f1" using f0 f1 by auto
      have s2: "fd_ok (e(f0 := e f0 + 1, f1 := e f1 + 1)) s2" using f1 ne by simp
      show ?thesis
      proof (cases "pipe_alloc_page s2")
        case None
        obtain s3 where q: "fileclose f0 s2 = Ok s3" "fileclose f1 s3 = Ok t" "r = None"
          using c None Some b2 a b by (auto simp: pipealloc_def ok_simps)
        have "fd_ok ((e(f1 := e f1 + 1))(f0 := (e(f1 := e f1 + 1)) f0 + 1)) s2" using s2 ne by (simp add: fun_upd_twist)
        then have "fd_ok (e(f1 := e f1 + 1)) s3" using fileclose_fd [OF _ _ q(1), of "e(f1 := e f1 + 1)"] f0 by blast
        then show ?thesis using fileclose_fd [OF _ _ q(2), of e] f1 q(3) by simp
      next
        case p: (Some p)
        have pl: "p < length (pipes s2)" using p first_idx_length by (auto simp: pipe_alloc_page_def)
        let ?s3 = "s2\<lparr>pipes := (pipes s2)[p := Some (pipe_init (replicate PIPESIZE 1))]\<rparr>"
        let ?g0 = "\<lambda>x. x\<lparr>ftype := FD_PIPE, freadable := True, fwritable := False, fpipe := p\<rparr>"
        let ?g1 = "\<lambda>x. x\<lparr>ftype := FD_PIPE, freadable := False, fwritable := True, fpipe := p\<rparr>"
        have t: "r = Some (f0, f1)" "t = upd_file f1 ?g1 (upd_file f0 ?g0 ?s3)"
          using c p Some b2 a b by (auto simp: pipealloc_def Let_def)
        have len: "f0 < length (ftable s2)" "f1 < length (ftable s2)" using f0 f1 fd_okD(1) [OF s2] by simp_all
        have "fref (ftable s2 ! f0) = 1" "fref (ftable s2 ! f1) = 1" using f0 f1 ne by auto
        then have "fd_ok (e(f0 := e f0 + 1, f1 := e f1 + 1)) t" using s2 len ne by (auto simp: fd_ok_def t)
        moreover have "pipe_ends f0 f1 p t" using f0 f1 ne pl len by (simp add: pipe_ends_def t)
        ultimately show ?thesis using t f0 f1 by auto
      qed
    qed
  qed
qed

lemma sys_pipe_fd:
  assumes c: "sys_pipe a s = Ok (r, t)" and s: "fd_ok e s"
  shows "fd_ok e t"
proof (cases a)
  case None
  then show ?thesis using c s by (simp add: sys_pipe_def)
next
  case (Some u)
  have c': "bindr (pipealloc s) (\<lambda>(x, s1). pipe_fds x s1) = Ok (r, t)" using c by (simp add: sys_pipe_def Some)
  then obtain x s1 where x: "pipealloc s = Ok (x, s1)" by (auto simp: bindr_Ok_iff)
  have c2: "pipe_fds x s1 = Ok (r, t)" using c' x by simp
  note pa = pipealloc_fd [OF s x]
  show ?thesis
  proof (cases x)
    case None
    then show ?thesis using c2 pa by (simp add: pipe_fds_def)
  next
    case (Some y)
    obtain f0 f1 where y: "x = Some (f0, f1)" using Some by (cases y) simp
    have f: "f0 < NFILE" "f1 < NFILE" "f0 \<noteq> f1" and s1: "fd_ok (e(f0 := e f0 + 1, f1 := e f1 + 1)) s1"
      using pa y by (auto simp: pipe_ends_def)
    define e1 where "e1 = e(f1 := e f1 + 1)"
    have s1': "fd_ok (e1(f0 := e1 f0 + 1)) s1" using s1 f(3) by (simp add: e1_def fun_upd_twist)
    obtain fd0 s2 where d0: "fdalloc f0 s1 = (fd0, s2)" by (cases "fdalloc f0 s1")
    note k0 = fdalloc_fd [OF s1' f(1) d0]
    have close2: "fd_ok e t'" if "fileclose f0 u = Ok v" "fileclose f1 v = Ok t'" "fd_ok (e1(f0 := e1 f0 + 1)) u" for u v t'
      using fileclose_fd [OF that(3) f(1) that(1)] fileclose_fd [OF _ f(2) that(2), of e] by (simp add: e1_def)
    show ?thesis
    proof (cases "fd0 < 0")
      case True
      then show ?thesis using c2 k0 s1' close2 by (auto simp: pipe_fds_def y d0 bindr_Ok_iff)
    next
      case False
      then have k: "0 \<le> fd0" "fd0 < int NOFILE" "fd_ok e1 s2" "s2 = s1\<lparr>ofile := (ofile s1)[nat fd0 := Some f0]\<rparr>" using k0 by auto
      obtain fd1 s3 where d1: "fdalloc f1 s2 = (fd1, s3)" by (cases "fdalloc f1 s2")
      note k1 = fdalloc_fd [OF k(3) [unfolded e1_def] f(2) d1]
      have nth: "ofile s2 ! nat fd0 = Some f0" using k fd_okD(2) [OF s1] by simp
      show ?thesis
      proof (cases "fd1 < 0")
        case True
        then have "s3 = s2" using k1 by auto
        then show ?thesis using c2 False True clear_fd_fd [OF k(3,1,2) nth] close2 by (auto simp: pipe_fds_def y d0 d1 bindr_Ok_iff)
      next
        case False2: False
        then show ?thesis using c2 False k1 by (auto simp: pipe_fds_def y d0 d1)
      qed
    qed
  qed
qed

end
