(* ===== verification/File_Calls.thy ===== *)
theory File_Calls
  imports File_Fd
begin

text \<open>The properties of the calls on descriptors.\<close>

section \<open>Sequences of calls\<close>

text \<open>The file-system calls other than \<^verbatim>\<open>move_file\<close>, with the arguments of the definitions above.\<close>

datatype fcall =
    Dup "int option"
  | Read "int option" "int option"
  | Write "int option" "(byte list \<times> int) option"
  | Close "int option"
  | Fstat "int option" "unit option"
  | Link "byte list option" "byte list option"
  | Unlink "byte list option"
  | Open "byte list option" "int option"
  | Mkdir "byte list option"
  | Mknod "byte list option" "int option" "int option"
  | Chdir "byte list option"
  | MkPipe "unit option"

definition run_call :: "'a fdev \<Rightarrow> fcall \<Rightarrow> 'a fls \<Rightarrow> 'a fls res" where
  "run_call dv c s = (case c of
       Dup a \<Rightarrow> bindr (sys_dup a s) (\<lambda>(_, t). Ok t)
     | Read a n \<Rightarrow> bindr (sys_read dv a n s) (\<lambda>(_, _, t). Ok t)
     | Write a p \<Rightarrow> bindr (sys_write dv a p s) (\<lambda>(_, t). Ok t)
     | Close a \<Rightarrow> bindr (sys_close a s) (\<lambda>(_, t). Ok t)
     | Fstat a p \<Rightarrow> bindr (sys_fstat a p s) (\<lambda>(_, t). Ok t)
     | Link a b \<Rightarrow> bindr (sys_link dv a b s) (\<lambda>(_, t). Ok t)
     | Unlink a \<Rightarrow> bindr (sys_unlink dv a s) (\<lambda>(_, t). Ok t)
     | Open a m \<Rightarrow> bindr (sys_open dv a m s) (\<lambda>(_, t). Ok t)
     | Mkdir a \<Rightarrow> bindr (sys_mkdir dv a s) (\<lambda>(_, t). Ok t)
     | Mknod a b c \<Rightarrow> bindr (sys_mknod dv a b c s) (\<lambda>(_, t). Ok t)
     | Chdir a \<Rightarrow> bindr (sys_chdir dv a s) (\<lambda>(_, t). Ok t)
     | MkPipe a \<Rightarrow> bindr (sys_pipe a s) (\<lambda>(_, t). Ok t))"

fun run_calls :: "'a fdev \<Rightarrow> fcall list \<Rightarrow> 'a fls \<Rightarrow> 'a fls res" where
  "run_calls dv [] s = Ok s"
| "run_calls dv (c # cs) s = bindr (run_call dv c s) (run_calls dv cs)"

lemma sys_read_fd: "sys_read dv a n s = Ok (r, bs, t) \<Longrightarrow> dev_ok dv \<Longrightarrow> fd_ok e s \<Longrightarrow> fd_ok e t"
  by (auto simp: sys_read_def ok_simps dest!: fileread_fd argfd_Some(5))

lemma sys_write_fd: "sys_write dv a p s = Ok (r, t) \<Longrightarrow> dev_ok dv \<Longrightarrow> fd_ok e s \<Longrightarrow> fd_ok e t"
  by (auto simp: sys_write_def ok_simps dest!: filewrite_fd argfd_Some(5))

lemma sys_fstat_rest: "sys_fstat a p s = Ok (r, t) \<Longrightarrow> rest t = rest s"
  by (auto simp: sys_fstat_def ok_simps dest!: filestat_rest)

lemmas call_rest = sys_fstat_rest sys_link_rest sys_unlink_rest sys_mkdir_rest sys_mknod_rest sys_chdir_rest

lemma run_call_fd:
  assumes "run_call dv c s = Ok t" and "dev_ok dv" and "fd_ok e s" and "\<And>f. 0 \<le> e f"
  shows "fd_ok e t"
proof (cases c)
  case (Dup a)
  then show ?thesis using assms by (auto simp: run_call_def bindr_Ok_iff intro: sys_dup_fd)
next
  case (Read a n)
  then show ?thesis using assms by (auto simp: run_call_def bindr_Ok_iff intro: sys_read_fd)
next
  case (Write a p)
  then show ?thesis using assms by (auto simp: run_call_def bindr_Ok_iff intro: sys_write_fd)
next
  case (Close a)
  then show ?thesis using assms by (auto simp: run_call_def bindr_Ok_iff intro: sys_close_fd)
next
  case (Open a m)
  then show ?thesis using assms by (auto simp: run_call_def bindr_Ok_iff intro: sys_open_fd)
next
  case (MkPipe a)
  then show ?thesis using assms by (auto simp: run_call_def bindr_Ok_iff intro: sys_pipe_fd)
qed (use assms fd_ok_rest [of t s e] in \<open>auto simp: run_call_def bindr_Ok_iff dest!: call_rest\<close>)

text \<open>C24: Reference counting of open files: whatever file-system calls a process makes (\<^verbatim>\<open>move_file\<close> apart), if they return,
  the count of every entry of the file table is the number of descriptors of the process that refer to it plus the references
  held elsewhere, every descriptor refers to an entry of the table, and an entry that nobody refers to is closed.
  The devices are assumed not to touch the file table.
\<close>

theorem descriptor_refs:
  assumes "run_calls dv cs s = Ok t" and "dev_ok dv" and "\<forall>f. 0 \<le> e f" and "fd_ok e s"
  shows "fd_ok e t"
  using assms
proof (induction cs arbitrary: s)
  case (Cons c cs)
  then obtain u where u: "run_call dv c s = Ok u" "run_calls dv cs u = Ok t" by (auto simp: bindr_Ok_iff)
  show ?case using Cons.IH [OF u(2)] run_call_fd [OF u(1)] Cons.prems by blast
qed simp

text \<open>\<^verbatim>\<open>dup\<close> never stops the machine: it fails exactly when the descriptor is not open or no descriptor is free, and
  leaves everything as it was; otherwise it returns the smallest free descriptor, which then refers to the same open file,
  with one more reference, and no other descriptor changes.
\<close>

theorem sys_dup_spec:
  assumes s: "fd_ok e s" and e: "\<forall>f. 0 \<le> e f"
  shows "ends {} (sys_dup (Some fd) s) (\<lambda>(r, t).
    if fd < 0 \<or> int NOFILE \<le> fd \<or> ofile s ! nat fd = None \<or> None \<notin> set (ofile s) then r = -1 \<and> t = s
    else 0 \<le> r \<and> r < int NOFILE \<and> ofile s ! nat r = None \<and> (\<forall>j < nat r. ofile s ! j \<noteq> None)
      \<and> ofile t = (ofile s)[nat r := ofile s ! nat fd]
      \<and> fref (ftable t ! the (ofile s ! nat fd)) = fref (ftable s ! the (ofile s ! nat fd)) + 1)"
proof (cases "argfd (Some fd) s")
  case None
  then have "fd < 0 \<or> int NOFILE \<le> fd \<or> ofile s ! nat fd = None" by (auto simp: argfd_def split: if_splits option.splits)
  then show ?thesis by (auto simp: sys_dup_def None)
next
  case (Some x)
  then obtain f where f: "argfd (Some fd) s = Some (fd, f)" by (auto simp: argfd_def split: if_splits option.splits)
  note af = argfd_Some [OF f s]
  obtain k s1 where k: "fdalloc f s = (k, s1)" by (cases "fdalloc f s")
  have e': "(e(f := e f - 1))(f := (e(f := e f - 1)) f + 1) = e" by (simp add: fun_eq_iff)
  note fa = fdalloc_fd [of "e(f := e f - 1)" f s, unfolded e', OF s af(5) k]
  have ref: "1 \<le> fref (ftable s ! f)" using fref_pos [OF s af(4)] e by simp
  have len: "length (ofile s) = NOFILE" "f < length (ftable s)" using fd_okD(1,2) [OF s] af(5) by simp_all
  show ?thesis
  proof (cases "k < 0")
    case True
    then have "None \<notin> set (ofile s)" using fa len by (auto simp: in_set_conv_nth)
    then show ?thesis using fa True by (auto simp: sys_dup_def f k)
  next
    case False
    then have kk: "0 \<le> k" "k < int NOFILE" "ofile s ! nat k = None" "\<forall>j < nat k. ofile s ! j \<noteq> None"
      "s1 = s\<lparr>ofile := (ofile s)[nat k := Some f]\<rparr>" using fa by auto
    have "None \<in> set (ofile s)" using kk(1-3) len nth_mem [of "nat k" "ofile s"] by simp
    then show ?thesis using kk af ref len False by (auto simp: sys_dup_def f k filedup_def)
  qed
qed

text \<open>Room for a new pipe: two entries of the file table, two descriptors and a page.\<close>

definition pipe_room :: "'a fls \<Rightarrow> bool" where
  "pipe_room s \<longleftrightarrow> (\<exists>f g. f < NFILE \<and> g < NFILE \<and> f \<noteq> g \<and> fref (ftable s ! f) = 0 \<and> fref (ftable s ! g) = 0)
     \<and> (\<exists>i j. i < NOFILE \<and> j < NOFILE \<and> i \<noteq> j \<and> ofile s ! i = None \<and> ofile s ! j = None) \<and> None \<in> set (pipes s)"

lemma pipewrite_upto: "pipewrite k ad n i p = (q, ws, st, j) \<Longrightarrow> int i \<le> n \<Longrightarrow> int j \<le> n"
proof (induction k ad n i p rule: pipewrite.induct)
  case (1 k ad n i p)
  show ?case
  proof (cases "int i < n \<and> \<not> pipe_full p")
    case True
    have "pipewrite k ad n (Suc i) (pipe_put (ad i) p) = (q, ws, st, j)" using 1(2) True by (subst (asm) pipewrite.simps) simp
    then show ?thesis using 1(1) True by simp
  next
    case False
    then show ?thesis using 1(2,3) by (subst (asm) pipewrite.simps) (auto split: if_splits)
  qed
qed

lemma filealloc_some: "length (ftable s) = NFILE \<Longrightarrow> f < NFILE \<Longrightarrow> fref (ftable s ! f) = 0 \<Longrightarrow> \<exists>g t. filealloc s = (Some g, t)"
  by (cases "first_idx (\<lambda>f. fref f = 0) (ftable s)") (auto simp: filealloc_def first_idx_None)

lemma fdalloc_some: "length (ofile s) = NOFILE \<Longrightarrow> j < NOFILE \<Longrightarrow> ofile s ! j = None \<Longrightarrow> \<exists>k t. fdalloc f s = (int k, t)"
proof -
  assume "length (ofile s) = NOFILE" "j < NOFILE" "ofile s ! j = None"
  then have "None \<in> set (ofile s)" using nth_mem [of j "ofile s"] by simp
  then have "first_idx (\<lambda>x. x = None) (ofile s) \<noteq> None" by (auto simp: first_idx_None)
  then show ?thesis by (auto simp: fdalloc_def)
qed

lemma pipealloc_some:
  assumes s: "fd_ok e s" and r: "pipe_room s"
  shows "\<exists>f0 f1 t. pipealloc s = Ok (Some (f0, f1), t)"
proof -
  obtain f g where fg: "f < NFILE" "g < NFILE" "f \<noteq> g" "fref (ftable s ! f) = 0" "fref (ftable s ! g) = 0"
    using r unfolding pipe_room_def by blast
  obtain f0 s1 where a: "filealloc s = (Some f0, s1)" using filealloc_some [OF fd_okD(1) [OF s] fg(1,4)] by blast
  note f0 = filealloc_fd [OF s a, unfolded option.case]
  obtain h where h: "h \<noteq> f0" "h < NFILE" "fref (ftable s ! h) = 0" using fg by metis
  have s1: "fd_ok (e(f0 := e f0 + 1)) s1" using f0 by blast
  have "fref (ftable s1 ! h) = 0" using f0 h by simp
  then obtain f1 s2 where b: "filealloc s1 = (Some f1, s2)" using filealloc_some [OF fd_okD(1) [OF s1] h(2)] by blast
  note f1 = filealloc_fd [OF s1 b, unfolded option.case]
  have "None \<in> set (pipes s2)" using r f0 f1 by (simp add: pipe_room_def)
  then have "pipe_alloc_page s2 \<noteq> None" by (auto simp: pipe_alloc_page_def first_idx_None)
  then obtain p where "pipe_alloc_page s2 = Some p" by auto
  then show ?thesis using a b by (simp add: pipealloc_def Let_def)
qed

lemma sys_pipe_some:
  assumes s: "fd_ok e s" and r: "pipe_room s"
  shows "\<exists>fd0 fd1 f0 f1 p t. sys_pipe (Some u) s = Ok (Some (fd0, fd1), t) \<and> fd0 \<noteq> fd1 \<and> pipe_ends f0 f1 p t \<and> pkilled t = pkilled s
    \<and> argfd (Some fd0) t = Some (fd0, f0) \<and> argfd (Some fd1) t = Some (fd1, f1)"
proof -
  obtain f0 f1 s1 where pa: "pipealloc s = Ok (Some (f0, f1), s1)" using pipealloc_some [OF s r] by blast
  have q: "fd_ok (e(f0 := e f0 + 1, f1 := e f1 + 1)) s1" "ofile s1 = ofile s" "pkilled s1 = pkilled s"
    and "\<exists>p. pipe_ends f0 f1 p s1" using pipealloc_fd [OF s pa] by simp_all
  then obtain p where pe: "pipe_ends f0 f1 p s1" by blast
  have f: "f0 < NFILE" "f1 < NFILE" "f0 \<noteq> f1" using pe by (simp_all add: pipe_ends_def)
  obtain i j where ij: "i < NOFILE" "j < NOFILE" "i \<noteq> j" "ofile s ! i = None" "ofile s ! j = None"
    using r unfolding pipe_room_def by blast
  define e1 where "e1 = e(f1 := e f1 + 1)"
  have s1: "fd_ok (e1(f0 := e1 f0 + 1)) s1" using q(1) f(3) by (simp add: e1_def fun_upd_twist)
  have l1: "length (ofile s1) = NOFILE" by (rule fd_okD(2) [OF s1])
  obtain k0 s2 where d0: "fdalloc f0 s1 = (int k0, s2)" using fdalloc_some [OF l1 ij(1)] ij(4) q(2) by metis
  have k0: "k0 < NOFILE" "ofile s1 ! k0 = None" "fd_ok e1 s2" "s2 = s1\<lparr>ofile := (ofile s1)[k0 := Some f0]\<rparr>"
    using fdalloc_fd [OF s1 f(1) d0] by auto
  have l2: "length (ofile s2) = NOFILE" by (rule fd_okD(2) [OF k0(3)])
  obtain h where h: "h \<noteq> k0" "h < NOFILE" "ofile s ! h = None" using ij by metis
  then have "ofile s2 ! h = None" using k0(4) q(2) by simp
  then obtain k1 s3 where d1: "fdalloc f1 s2 = (int k1, s3)" using fdalloc_some [OF l2 h(2)] by metis
  have k1: "k1 < NOFILE" "ofile s2 ! k1 = None" "s3 = s2\<lparr>ofile := (ofile s2)[k1 := Some f1]\<rparr>"
    using fdalloc_fd [OF k0(3) [unfolded e1_def] f(2) d1] by auto
  have ne: "k0 \<noteq> k1" using k1(2) k0(1,4) l1 by auto
  have "sys_pipe (Some u) s = Ok (Some (int k0, int k1), s3)" by (simp add: sys_pipe_def pa pipe_fds_def d0 d1)
  moreover have "pipe_ends f0 f1 p s3" using pe k0(4) k1(3) by (simp add: pipe_ends_def)
  moreover have "argfd (Some (int k0)) s3 = Some (int k0, f0)" "argfd (Some (int k1)) s3 = Some (int k1, f1)"
    using k0 k1 l1 l2 ne by (simp_all add: argfd_def)
  moreover have "pkilled s3 = pkilled s" using k0(4) k1(3) q(3) by simp
  ultimately show ?thesis using ne by (metis of_nat_eq_iff)
qed

text \<open>C25: What a process writes into a pipe it reads back: \<^verbatim>\<open>pipe\<close> returns two new descriptors when two entries of the file
  table, two descriptors and a page are free; a \<^verbatim>\<open>write\<close> to the second of at most \<^verbatim>\<open>PIPESIZE\<close> bytes returns their
  number, and a \<^verbatim>\<open>read\<close> of at least that many from the first returns exactly those bytes.
\<close>

theorem pipe_write_read:
  assumes s: "fd_ok e s" and r: "pipe_room s" and kl: "\<not> pkilled s"
    and n: "length bs \<le> PIPESIZE" "bs \<noteq> []" "int (length bs) \<le> n"
  shows "\<exists>fd0 fd1 s1 s2 s3. sys_pipe (Some ()) s = Ok (Some (fd0, fd1), s1) \<and> fd0 \<noteq> fd1
    \<and> sys_write dv (Some fd1) (Some (bs, int (length bs))) s1 = Ok (int (length bs), s2)
    \<and> sys_read dv (Some fd0) (Some n) s2 = Ok (int (length bs), bs, s3)"
proof -
  obtain fd0 fd1 f0 f1 p s1 where a: "sys_pipe (Some ()) s = Ok (Some (fd0, fd1), s1)" "fd0 \<noteq> fd1" "pipe_ends f0 f1 p s1"
    "pkilled s1 = pkilled s" "argfd (Some fd0) s1 = Some (fd0, f0)" "argfd (Some fd1) s1 = Some (fd1, f1)"
    using sys_pipe_some [OF s r, of "()"] by blast
  define q where "q = pipe_init (replicate PIPESIZE 1)"
  have pq: "pipes s1 ! p = Some q" "p < length (pipes s1)" using a(3) by (simp_all add: pipe_ends_def q_def)
  have q: "pipe_inv q" "pipe_list q = []" using pipe_init_inv [of "replicate PIPESIZE 1"] by (simp_all add: q_def)
  obtain q1 ws st j where w: "pipewrite False (\<lambda>i. bs ! i) (int (length bs)) 0 q = (q1, ws, st, j)"
    by (cases "pipewrite False (\<lambda>i. bs ! i) (int (length bs)) 0 q") auto
  note ws = pipewrite_spec [OF w q(1)]
  have lq: "length (pipe_list q1) = j" using ws q(2) by simp
  then have "j \<le> PIPESIZE" using ring.bounded [of q1] ws by simp
  have st: "st = Returned (int (length bs)) \<and> length bs \<le> j"
    using ws lq n(1) by (auto simp: pipe_full_iff)
  have jl: "j = length bs" using pipewrite_upto [OF w] st by simp
  have l1: "pipe_list q1 = bs" "pipe_inv q1" using ws q(2) jl by (simp_all add: map_nth)
  define s2 where "s2 = s1\<lparr>pipes := (pipes s1)[p := Some q1]\<rparr>"
  have W: "sys_write dv (Some fd1) (Some (bs, int (length bs))) s1 = Ok (int (length bs), s2)"
    using a(3,4) kl pq w st by (simp add: sys_write_def a(6) filewrite_def write_pipe_def pipe_ends_def s2_def)
  obtain q2 wr sr br where rd: "piperead False n q1 = (q2, wr, sr, br)" by (cases "piperead False n q1") auto
  note rs = piperead_spec [OF rd l1(2)]
  have ne: "\<not> pipe_empty q1" using l1(1) n(2) by (simp add: pipe_empty_iff)
  have sr: "sr = Returned (int (length br)) \<and> length br = min (nat n) (length (pipe_list q1))"
    using rs ne by (elim conjE disjE) (rule conjI, assumption+ | (erule notE, assumption))+
  have bq: "bs = br @ pipe_list q2" using conjunct1 [OF conjunct2 [OF rs]] by (simp only: l1(1))
  have lb: "length br = length bs" using sr l1(1) n(3) by simp
  then have "pipe_list q2 = []" using arg_cong [OF bq, of length] by simp
  then have br: "sr = Returned (int (length bs))" "br = bs" using bq sr by simp_all
  have R: "sys_read dv (Some fd0) (Some n) s2 = Ok (int (length bs), bs, s2\<lparr>pipes := (pipes s2)[p := Some q2]\<rparr>)"
  proof -
    have "argfd (Some fd0) s2 = Some (fd0, f0)" using a(5) by (auto simp: argfd_def s2_def split: if_splits)
    then show ?thesis using a(3,4) kl pq rd br by (simp add: sys_read_def fileread_def read_pipe_def pipe_ends_def s2_def)
  qed
  show ?thesis using a(1,2) W R by blast
qed

section \<open>A process without open files\<close>

definition blank_file :: kfile where
  "blank_file = \<lparr>ftype = FD_NONE, fref = 0, freadable = False, fwritable = False, fpipe = 0, fip = 0, foff = 0\<rparr>"

definition demo_files :: "unit fls" where
  "demo_files = \<lparr>bufs = bufs demo_fs, lru = lru demo_fs, disk = disk demo_fs, dhist = [], disksize = 1000, curpid = 1,
     lstart = 2, lsize = 30, outstanding = 0, committing = False, ldev = 1, lh_n = 0, lh_block = replicate LOGSIZE 0,
     sb = sb demo_fs, icache = icache demo_fs, cwd = 0,
     ftable = replicate NFILE blank_file, ofile = replicate NOFILE None, pipes = [None], pkilled = False\<rparr>"

lemma demo_files_sel: "ftable demo_files = replicate NFILE blank_file" "ofile demo_files = replicate NOFILE None"
  "pipes demo_files = [None]" "\<not> pkilled demo_files"
  by (simp_all add: demo_files_def)

lemma count_list_replicate: "count_list (replicate n x) y = (if x = y then n else 0)"
  by (induction n) auto

lemma demo_files_ok: "fd_ok (\<lambda>_. 0) demo_files"
  by (simp add: fd_ok_def demo_files_sel count_list_replicate blank_file_def)

lemma demo_files_room: "pipe_room demo_files"
proof -
  have "0 < NFILE \<and> 1 < NFILE \<and> (0 :: nat) \<noteq> 1" "0 < NOFILE \<and> 1 < NOFILE" by (simp_all add: NFILE_def NOFILE_def)
  then show ?thesis unfolding pipe_room_def demo_files_sel
    by (intro conjI exI [of _ 0] exI [of _ 1]) (simp_all add: blank_file_def)
qed

theorem pipe_write_read_witness:
  "\<exists>fd0 fd1 s1 s2 s3. sys_pipe (Some ()) demo_files = Ok (Some (fd0, fd1), s1)
    \<and> sys_write (\<lambda>_. (None, None)) (Some fd1) (Some ([1, 2, 3], 3)) s1 = Ok (3, s2)
    \<and> sys_read (\<lambda>_. (None, None)) (Some fd0) (Some 10) s2 = Ok (3, [1, 2, 3], s3)"
  using pipe_write_read [OF demo_files_ok demo_files_room demo_files_sel(4), of "[1, 2, 3]" 10 "\<lambda>_. (None, None)"]
  by (simp add: PIPESIZE_def) blast

text \<open>The state after a \<^verbatim>\<open>pipe\<close>: descriptors 0 and 1 are open.\<close>

lemma demo_pipe: "\<exists>t. run_calls dv [MkPipe (Some ())] demo_files = Ok t \<and> fd_ok (\<lambda>_. 0) t"
proof -
  obtain x t where t: "sys_pipe (Some ()) demo_files = Ok (x, t)" using sys_pipe_some [OF demo_files_ok demo_files_room, of "()"] by blast
  then show ?thesis using sys_pipe_fd [OF t demo_files_ok] by (simp add: run_call_def)
qed

theorem descriptor_refs_witness:
  "\<exists>t. run_calls (\<lambda>_. (None, None)) [MkPipe (Some ()), Dup None] demo_files = Ok t \<and> fd_ok (\<lambda>_. 0) t"
proof -
  have d: "dev_ok (\<lambda>_. (None, None))" by (simp add: dev_ok_def)
  obtain t where "run_calls (\<lambda>_. (None, None)) [MkPipe (Some ())] demo_files = Ok t" using demo_pipe by blast
  then have t: "run_calls (\<lambda>_. (None, None)) [MkPipe (Some ()), Dup None] demo_files = Ok t"
    by (auto simp: run_call_def sys_dup_def argfd_def bindr_Ok_iff)
  show ?thesis using descriptor_refs [OF t d _ demo_files_ok] t by simp
qed

definition demo_open :: "unit fls" where
  "demo_open = demo_files\<lparr>ftable := (replicate NFILE blank_file)[0 := blank_file\<lparr>fref := 1, ftype := FD_INODE\<rparr>],
     ofile := (replicate NOFILE None)[0 := Some 0]\<rparr>"

lemma demo_open_ok: "fd_ok (\<lambda>_. 0) demo_open"
proof -
  have "count_list ((replicate NOFILE None)[0 := Some 0]) (Some f) = (if f = 0 then 1 else 0)" for f :: nat
    using count_list_upd [of 0 "replicate NOFILE (None :: nat option)" "Some 0" "Some f"] by (auto simp: count_list_replicate NOFILE_def split: if_splits)
  moreover have "Some f \<in> set ((replicate NOFILE None)[0 := Some 0]) \<Longrightarrow> f < NFILE" for f :: nat
    using set_update_subset_insert [of "replicate NOFILE (None :: nat option)" 0 "Some 0"] by (auto simp: NFILE_def)
  ultimately show ?thesis by (auto simp: fd_ok_def demo_open_def blank_file_def nth_list_update)
qed

theorem sys_dup_spec_witness:
  "\<exists>r t. sys_dup (Some 0) demo_open = Ok (r, t) \<and> 0 \<le> r \<and> ofile demo_open ! nat r = None \<and> ofile t = (ofile demo_open)[nat r := Some 0]"
proof -
  have o: "ofile demo_open ! 0 = Some 0" "ofile demo_open ! 1 = None" "length (ofile demo_open) = NOFILE"
    by (simp_all add: demo_open_def NOFILE_def)
  have "None \<in> set (ofile demo_open)" unfolding in_set_conv_nth using o by (intro exI [of _ 1]) (simp add: NOFILE_def)
  then show ?thesis using sys_dup_spec [OF demo_open_ok, of 0, THEN ends_emptyD] o by (auto simp: NOFILE_def)
qed

end
