(* ===== verification/Kalloc.thy ===== *)
theory Kalloc
  imports CString
begin

text \<open>
  The page allocator (\<^verbatim>\<open>src/kalloc.c\<close>) on byte-addressed kernel memory: the free pages are linked through
  their first word, as in the code. The spin lock sections are single steps; \<^verbatim>\<open>end\<close>, the first address after the
  kernel, is a field of the state. The allocator is used through the interface \<open>page_pool\<close>.
\<close>

section \<open>Addresses and words in memory\<close>

definition PGSIZE :: uint where "PGSIZE = 4096"
definition PHYSTOP :: uint where "PHYSTOP = 0xE000000"
definition EXTMEM :: uint where "EXTMEM = 0x100000"

definition PGROUNDUP :: "uint \<Rightarrow> uint" where "PGROUNDUP sz = (sz + PGSIZE - 1) AND NOT (PGSIZE - 1)"
definition PGROUNDDOWN :: "uint \<Rightarrow> uint" where "PGROUNDDOWN a = a AND NOT (PGSIZE - 1)"

definition load32 :: "mem \<Rightarrow> uint \<Rightarrow> uint" where
  "load32 m a = ucast (m a) OR push_bit 8 (ucast (m (a + 1))) OR push_bit 16 (ucast (m (a + 2))) OR push_bit 24 (ucast (m (a + 3)))"

section \<open>The allocator\<close>

record kmem =
  kmemory :: mem
  freelist :: uint
  kend :: uint

type_synonym 'a kst = "'a kmem_scheme"

definition kfree :: "uint \<Rightarrow> 'a kst \<Rightarrow> 'a kst res" where
  "kfree v s =
     guardr (\<not> (v mod PGSIZE \<noteq> 0 \<or> v < kend s \<or> V2P v \<ge> PHYSTOP)) ''kfree''
       (let m = memset (kmemory s) v 1 PGSIZE in
        Ok (s\<lparr>kmemory := store32 m v (freelist s), freelist := v\<rparr>))"

text \<open>\<^verbatim>\<open>kalloc\<close> returns 0 when there is no free page.\<close>

definition kalloc :: "'a kst \<Rightarrow> uint \<times> 'a kst" where
  "kalloc s = (let r = freelist s in (r, if r \<noteq> 0 then s\<lparr>freelist := load32 (kmemory s) r\<rparr> else s))"

text \<open>The loop of \<^verbatim>\<open>freerange\<close>, with fuel; a pointer takes at most \<open>2 ^ 20\<close> page-aligned values.\<close>

fun freerange_loop :: "nat \<Rightarrow> uint \<Rightarrow> uint \<Rightarrow> 'a kst \<Rightarrow> 'a kst res" where
  "freerange_loop 0 p vend s = Block"
| "freerange_loop (Suc n) p vend s =
     (if p + PGSIZE \<le> vend then bindr (kfree p s) (\<lambda>s1. freerange_loop n (p + PGSIZE) vend s1) else Ok s)"

definition freerange :: "uint \<Rightarrow> uint \<Rightarrow> 'a kst \<Rightarrow> 'a kst res" where
  "freerange vstart vend s = freerange_loop (2 ^ 20 + 1) (PGROUNDUP vstart) vend s"

definition kinit1 :: "uint \<Rightarrow> uint \<Rightarrow> 'a kst \<Rightarrow> 'a kst res" where
  "kinit1 vstart vend s = freerange vstart vend s"

definition kinit2 :: "uint \<Rightarrow> uint \<Rightarrow> 'a kst \<Rightarrow> 'a kst res" where
  "kinit2 vstart vend s = freerange vstart vend s"

section \<open>Words in memory\<close>

lemma load32_bytes:
  "bit (load32 m a) i = (i < 32 \<and> bit (m (a + of_nat (i div 8))) (i mod 8))"
proof (cases "i < 32")
  case True
  then consider "i < 8" | "8 \<le> i" "i < 16" | "16 \<le> i" "i < 24" | "24 \<le> i" "i < 32" by linarith
  then show ?thesis
  proof cases
    case 1
    then show ?thesis by (simp add: load32_def bit_simps)
  next
    case 2
    then have "i div 8 = 1" "i mod 8 = i - 8" by presburger+
    then show ?thesis using 2 by (auto simp: load32_def bit_simps dest: bit_imp_le_length)
  next
    case 3
    then have "i div 8 = 2" "i mod 8 = i - 16" by presburger+
    then show ?thesis using 3 by (auto simp: load32_def bit_simps dest: bit_imp_le_length)
  next
    case 4
    then have "i div 8 = 3" "i mod 8 = i - 24" by presburger+
    then show ?thesis using 4 by (auto simp: load32_def bit_simps dest: bit_imp_le_length)
  qed
qed (auto simp: bit_imp_le_length dest: bit_imp_le_length)

lemma store32_byte: "k < 4 \<Longrightarrow> store32 m a w (a + of_nat k) = ucast (drop_bit (8 * k) w)"
proof -
  assume "k < 4"
  then consider "k = 0" | "k = 1" | "k = 2" | "k = 3" by linarith
  then show ?thesis by cases (simp_all add: store32_def)
qed

lemma load32_store32 [simp]: "load32 (store32 m a w) a = w"
proof (rule bit_word_eqI)
  fix i assume i: "i < LENGTH(32)"
  then have "i div 8 < 4" by simp
  then have "bit (store32 m a w (a + of_nat (i div 8))) (i mod 8) = bit w i"
    unfolding store32_byte [OF \<open>i div 8 < 4\<close>] using i by (simp add: bit_simps)
  then show "bit (load32 (store32 m a w) a) i = bit w i" using i by (simp add: load32_bytes)
qed

lemma load32_cong: "(\<And>k. k < 4 \<Longrightarrow> m (a + of_nat k) = m' (a + of_nat k)) \<Longrightarrow> load32 m a = load32 m' a"
  by (rule bit_word_eqI) (simp add: load32_bytes)

lemma store32_other: "(\<And>k. k < 4 \<Longrightarrow> b \<noteq> a + of_nat k) \<Longrightarrow> store32 m a w b = m b"
proof -
  assume "\<And>k. k < 4 \<Longrightarrow> b \<noteq> a + of_nat k"
  from this [of 0] this [of 1] this [of 2] this [of 3] show ?thesis by (simp add: store32_def)
qed

section \<open>Pages\<close>

definition in_page :: "uint \<Rightarrow> uint \<Rightarrow> bool" where
  "in_page v a \<longleftrightarrow> unat (a - v) < 4096"

definition aligned :: "uint \<Rightarrow> bool" where
  "aligned v \<longleftrightarrow> v mod PGSIZE = 0"

lemma aligned_unat: "aligned v \<longleftrightarrow> unat v mod 4096 = 0"
proof -
  have "unat (v mod 4096) = unat v mod 4096" by (simp add: unat_mod)
  then show ?thesis unfolding aligned_def PGSIZE_def by (metis unat_eq_zero)
qed

lemma in_page_unat:
  assumes "aligned v"
  shows "in_page v a \<longleftrightarrow> unat a div 4096 = unat v div 4096"
proof -
  obtain q where q: "unat v = 4096 * q" using assms by (auto simp: aligned_unat)
  have qd: "unat v div 4096 = q" by (simp add: q)
  show ?thesis
  proof
    assume p: "in_page v a"
    define k where "k = unat (a - v)"
    have k: "k < 4096" using p by (simp add: in_page_def k_def)
    have "4096 * q < 4096 * 1048576" using unat_uint_less [of v] by (simp add: q)
    then have "q < 1048576" by simp
    then have "unat v + k < 4294967296" using k by (simp add: q)
    then have "unat (v + (a - v)) = unat v + k" unfolding k_def by (rule unat_add_uint)
    then have "unat a = 4096 * q + k" by (simp add: q)
    then have "unat a div 4096 = q" using k by simp
    then show "unat a div 4096 = unat v div 4096" by (simp add: qd)
  next
    assume d: "unat a div 4096 = unat v div 4096"
    define k where "k = unat a mod 4096"
    have "unat a = 4096 * q + k" using d unfolding qd k_def by (metis mult_div_mod_eq)
    then have k: "unat a - unat v = k" "unat v \<le> unat a" by (simp_all add: q)
    have "k < 4096" by (simp add: k_def)
    then show "in_page v a" unfolding in_page_def using k by (simp add: unat_sub_uint word_le_nat_alt)
  qed
qed

lemma page_disjoint: "aligned v \<Longrightarrow> aligned w \<Longrightarrow> in_page v a \<Longrightarrow> in_page w a \<Longrightarrow> v = w"
proof -
  assume a: "aligned v" "aligned w" "in_page v a" "in_page w a"
  obtain q r where q: "unat v = 4096 * q" "unat w = 4096 * r" using a(1,2) by (auto simp: aligned_unat elim!: dvdE)
  have "unat v div 4096 = unat w div 4096" using a by (simp add: in_page_unat)
  then have "unat v = unat w" by (simp add: q)
  then show ?thesis by (simp add: word_unat_eq_iff)
qed

lemma low12: "(a :: uint) AND 0xFFF = a mod 4096"
proof -
  have "a AND mask 12 = take_bit 12 a" by (simp add: take_bit_eq_mask)
  then show ?thesis by (simp add: mask_eq_exp_minus_1 take_bit_eq_mod)
qed

lemma PGROUNDDOWN_diff: "PGROUNDDOWN a = a - a mod 4096"
proof -
  have "a - (a AND 0xFFF) = a AND NOT (a AND 0xFFF)" by (rule disjunctive_diff_eq_and_not) (rule bit_word_eqI, auto simp: bit_simps)
  also have "\<dots> = a AND NOT 0xFFF" by (rule bit_word_eqI) (auto simp: bit_simps)
  finally show ?thesis by (simp add: PGROUNDDOWN_def PGSIZE_def low12)
qed

lemma unat_mod_page: "unat ((a :: uint) mod 4096) = unat a mod 4096"
  by (simp add: unat_mod)

lemma unat_PGROUNDDOWN: "unat (PGROUNDDOWN a) = 4096 * (unat a div 4096)"
proof -
  have le: "a mod 4096 \<le> a" by (simp add: word_le_nat_alt unat_mod_page)
  have "unat (PGROUNDDOWN a) = unat a - unat a mod 4096" unfolding PGROUNDDOWN_diff using unat_sub_uint [OF le] by (simp add: unat_mod_page)
  then show ?thesis by (simp add: minus_mod_eq_mult_div)
qed

lemma aligned_PGROUNDDOWN: "aligned (PGROUNDDOWN a)" "in_page (PGROUNDDOWN a) a"
proof -
  show al: "aligned (PGROUNDDOWN a)" by (simp add: aligned_unat unat_PGROUNDDOWN)
  show "in_page (PGROUNDDOWN a) a" unfolding in_page_unat [OF al] by (simp add: unat_PGROUNDDOWN)
qed

lemma PTE_ADDR_rounddown: "pte AND NOT 0xFFF = PGROUNDDOWN pte"
  by (simp add: PGROUNDDOWN_def PGSIZE_def)

lemma in_page_off: "k < 4096 \<Longrightarrow> in_page v (v + of_nat k)"
  by (simp add: in_page_def unat_of_nat_uint)

section \<open>The free list\<close>

fun flist :: "mem \<Rightarrow> uint \<Rightarrow> uint list \<Rightarrow> bool" where
  "flist m p [] = (p = 0)"
| "flist m p (x # xs) = (p = x \<and> x \<noteq> 0 \<and> flist m (load32 m x) xs)"

definition page_ok :: "'a kst \<Rightarrow> uint \<Rightarrow> bool" where
  "page_ok s v \<longleftrightarrow> aligned v \<and> kend s \<le> v \<and> V2P v < PHYSTOP"

definition kmem_ok :: "'a kst \<Rightarrow> uint list \<Rightarrow> bool" where
  "kmem_ok s ps \<longleftrightarrow> flist (kmemory s) (freelist s) ps \<and> distinct ps \<and> (\<forall>x \<in> set ps. page_ok s x)"

lemma flist_cong:
  "flist m p ps \<Longrightarrow> (\<And>x a. x \<in> set ps \<Longrightarrow> in_page x a \<Longrightarrow> m' a = m a) \<Longrightarrow> flist m' p ps"
proof (induction ps arbitrary: p)
  case (Cons x ps)
  have "load32 m' x = load32 m x"
  proof (rule load32_cong)
    fix k :: nat assume "k < 4"
    then show "m' (x + of_nat k) = m (x + of_nat k)" using Cons.prems(2) [of x "x + of_nat k"] in_page_off [of k x] by simp
  qed
  then show ?case using Cons.IH [of "load32 m x"] Cons.prems by auto
qed simp

lemma page_nonzero: "page_ok s v \<Longrightarrow> v \<noteq> 0"
  by (auto simp: page_ok_def V2P_def KERNBASE_def PHYSTOP_def)

lemma kalloc_spec:
  assumes "kmem_ok s ps"
  shows "kalloc s = (case ps of [] \<Rightarrow> (0, s) | v # qs \<Rightarrow> (v, s\<lparr>freelist := load32 (kmemory s) v\<rparr>))"
    "ps = v # qs \<Longrightarrow> kmem_ok (s\<lparr>freelist := load32 (kmemory s) v\<rparr>) qs \<and> v \<notin> set qs \<and> page_ok s v"
  using assms by (auto simp: kmem_ok_def kalloc_def Let_def page_ok_def split: list.splits)

definition filled :: "mem \<Rightarrow> uint \<Rightarrow> uint \<Rightarrow> mem" where
  "filled m v n = store32 (memset m v 1 PGSIZE) v n"

lemma filled_other: "\<not> in_page v a \<Longrightarrow> filled m v n a = m a"
proof -
  assume n: "\<not> in_page v a"
  then have "a \<noteq> v + of_nat k" if "k < 4" for k using in_page_off [of k v] that by auto
  then have "filled m v n a = memset m v 1 PGSIZE a" unfolding filled_def by (rule store32_other)
  also have "\<dots> = m a" using n by (simp add: memset_fills in_page_def PGSIZE_def)
  finally show ?thesis .
qed

lemma kfree_spec:
  assumes s: "kmem_ok s ps" and v: "page_ok s v" "v \<notin> set ps"
  shows "kfree v s = Ok (s\<lparr>kmemory := filled (kmemory s) v (freelist s), freelist := v\<rparr>)"
    "kmem_ok (s\<lparr>kmemory := filled (kmemory s) v (freelist s), freelist := v\<rparr>) (v # ps)"
proof -
  show "kfree v s = Ok (s\<lparr>kmemory := filled (kmemory s) v (freelist s), freelist := v\<rparr>)"
    using v by (simp add: kfree_def page_ok_def aligned_def filled_def Let_def not_less not_le)
  let ?m = "filled (kmemory s) v (freelist s)"
  have ld: "load32 ?m v = freelist s" by (simp add: filled_def)
  have "?m a = kmemory s a" if "x \<in> set ps" "in_page x a" for x a
    using page_disjoint [of v x a] that v s by (intro filled_other) (auto simp: kmem_ok_def page_ok_def)
  then have "flist ?m (freelist s) ps" using s flist_cong [of "kmemory s" "freelist s" ps ?m] by (simp add: kmem_ok_def)
  then show "kmem_ok (s\<lparr>kmemory := ?m, freelist := v\<rparr>) (v # ps)"
    using s v ld page_nonzero [OF v(1)] by (simp add: kmem_ok_def page_ok_def)
qed

section \<open>The interface of the allocator\<close>

text \<open>
  What the rest of the kernel relies on: a pool of pages with a set of free ones. A page comes out of the pool
  at most once before it is put back, and the owner of a page may write into it as it likes.
\<close>

locale page_pool =
  fixes alloc :: "'s \<Rightarrow> uint \<times> 's"
    and free :: "uint \<Rightarrow> 's \<Rightarrow> 's res"
    and poke :: "uint \<Rightarrow> byte \<Rightarrow> 's \<Rightarrow> 's"
    and inv :: "'s \<Rightarrow> bool"
    and pool :: "'s \<Rightarrow> uint set"
    and valid :: "'s \<Rightarrow> uint \<Rightarrow> bool"
  assumes alloc_some: "inv s \<Longrightarrow> alloc s = (v, t) \<Longrightarrow> v \<noteq> 0 \<Longrightarrow> inv t \<and> v \<in> pool s \<and> pool t = pool s - {v} \<and> valid t = valid s"
    and alloc_none: "inv s \<Longrightarrow> alloc s = (0, t) \<Longrightarrow> pool s = {} \<and> t = s"
    and free_ok: "inv s \<Longrightarrow> valid s v \<Longrightarrow> v \<notin> pool s \<Longrightarrow> \<exists>t. free v s = Ok t \<and> inv t \<and> pool t = insert v (pool s) \<and> valid t = valid s"
    and poke_ok: "inv s \<Longrightarrow> valid s v \<Longrightarrow> v \<notin> pool s \<Longrightarrow> in_page v a \<Longrightarrow> inv (poke a b s) \<and> pool (poke a b s) = pool s \<and> valid (poke a b s) = valid s"
    and pool_valid: "inv s \<Longrightarrow> v \<in> pool s \<Longrightarrow> valid s v"
begin

text \<open>States reached from \<open>s0\<close> by allocating, freeing and writing, with the set of pages handed out.\<close>

inductive uses :: "'s \<Rightarrow> 's \<Rightarrow> uint set \<Rightarrow> bool" for s0 where
  start: "uses s0 s0 {}"
| take: "uses s0 s A \<Longrightarrow> alloc s = (v, t) \<Longrightarrow> v \<noteq> 0 \<Longrightarrow> uses s0 t (insert v A)"
| give: "uses s0 s A \<Longrightarrow> v \<in> A \<Longrightarrow> free v s = Ok t \<Longrightarrow> uses s0 t (A - {v})"
| store: "uses s0 s A \<Longrightarrow> v \<in> A \<Longrightarrow> in_page v a \<Longrightarrow> uses s0 (poke a b s) A"

lemma uses_inv:
  assumes "uses s0 s A" and "inv s0"
  shows "inv s \<and> A \<inter> pool s = {} \<and> A \<union> pool s = pool s0 \<and> (\<forall>v \<in> A. valid s v)"
  using assms(1)
proof induction
  case start
  then show ?case using assms(2) by simp
next
  case (take s A v t)
  then show ?case using alloc_some [of s v t] pool_valid [of s v] by auto
next
  case (give s A v t)
  then have n: "v \<notin> pool s" by auto
  have "inv t \<and> pool t = insert v (pool s) \<and> valid t = valid s" using give free_ok [of s v, OF _ _ n] by auto
  then show ?case using give by auto
next
  case (store s A v a b)
  then have n: "v \<notin> pool s" by auto
  then show ?case using store poke_ok [of s v a b, OF _ _ n] by auto
qed

lemma exclusive:
  assumes "uses s0 s A" and "inv s0" and "alloc s = (v, t)" and "v \<noteq> 0"
  shows "v \<notin> A \<and> v \<in> pool s0 \<and> valid s v"
  using uses_inv [OF assms(1,2)] alloc_some [OF _ assms(3,4)] pool_valid [of s v] by auto

lemma exhausted:
  assumes "uses s0 s A" and "inv s0" and "alloc s = (0, t)"
  shows "A = pool s0"
  using uses_inv [OF assms(1,2)] alloc_none [OF _ assms(3)] by auto

lemma free_returns:
  assumes "uses s0 s A" and "inv s0" and "v \<in> A"
  shows "\<exists>t. free v s = Ok t"
  using uses_inv [OF assms(1,2)] free_ok [of s v] assms(3) by auto

end

definition kfree_list :: "'a kst \<Rightarrow> uint list" where
  "kfree_list s = (SOME ps. kmem_ok s ps)"

definition kpool :: "'a kst \<Rightarrow> uint set" where
  "kpool s = set (kfree_list s)"

definition kinv :: "'a kst \<Rightarrow> bool" where
  "kinv s \<longleftrightarrow> (\<exists>ps. kmem_ok s ps)"

definition poke_byte :: "uint \<Rightarrow> byte \<Rightarrow> 'a kst \<Rightarrow> 'a kst" where
  "poke_byte a b s = s\<lparr>kmemory := (kmemory s)(a := b)\<rparr>"

lemma flist_unique: "flist m p ps \<Longrightarrow> flist m p qs \<Longrightarrow> ps = qs"
proof (induction ps arbitrary: p qs)
  case Nil
  then show ?case by (cases qs) auto
next
  case (Cons x ps)
  then show ?case by (cases qs) auto
qed

lemma kpool_eq: "kmem_ok s ps \<Longrightarrow> kpool s = set ps"
proof -
  assume ok: "kmem_ok s ps"
  then have "kmem_ok s (kfree_list s)" unfolding kfree_list_def by (rule someI)
  then have "kfree_list s = ps" using ok flist_unique by (auto simp: kmem_ok_def)
  then show ?thesis by (simp add: kpool_def)
qed

lemma kmem_ok_poke:
  assumes s: "kmem_ok s ps" and v: "page_ok s v" "v \<notin> set ps" and a: "in_page v a"
  shows "kmem_ok (poke_byte a b s) ps"
proof -
  have "((kmemory s)(a := b)) c = kmemory s c" if "x \<in> set ps" "in_page x c" for x c
    using page_disjoint [of v x a] that v a s by (auto simp: kmem_ok_def page_ok_def)
  then have "flist ((kmemory s)(a := b)) (freelist s) ps"
    using s flist_cong [of "kmemory s" "freelist s" ps "(kmemory s)(a := b)"] by (simp add: kmem_ok_def)
  then show ?thesis using s by (simp add: kmem_ok_def poke_byte_def page_ok_def)
qed

interpretation pages: page_pool kalloc kfree poke_byte kinv kpool page_ok
proof unfold_locales
  fix s t :: "'a kst" and v
  assume "kinv s" and a: "kalloc s = (v, t)" and v: "v \<noteq> 0"
  then obtain ps where ps: "kmem_ok s ps" by (auto simp: kinv_def)
  obtain qs where qs: "ps = v # qs" "t = s\<lparr>freelist := load32 (kmemory s) v\<rparr>"
    using kalloc_spec(1) [OF ps] a v by (auto split: list.splits)
  note k = kalloc_spec(2) [OF ps qs(1)]
  then have "kmem_ok t qs" using qs(2) by simp
  then show "kinv t \<and> v \<in> kpool s \<and> kpool t = kpool s - {v} \<and> page_ok t = page_ok s"
    using kpool_eq [OF ps] kpool_eq [of t qs] k qs by (auto simp: kinv_def page_ok_def fun_eq_iff)
next
  fix s t :: "'a kst"
  assume "kinv s" and a: "kalloc s = (0, t)"
  then obtain ps where ps: "kmem_ok s ps" by (auto simp: kinv_def)
  have "ps = []" "t = s" using kalloc_spec(1) [OF ps] kalloc_spec(2) [OF ps] a page_nonzero by (auto split: list.splits)
  then show "kpool s = {} \<and> t = s" using kpool_eq [OF ps] by simp
next
  fix s :: "'a kst" and v
  assume "kinv s" and v: "page_ok s v" "v \<notin> kpool s"
  then obtain ps where ps: "kmem_ok s ps" by (auto simp: kinv_def)
  note kf = kfree_spec [OF ps v(1)]
  let ?t = "s\<lparr>kmemory := filled (kmemory s) v (freelist s), freelist := v\<rparr>"
  have "v \<notin> set ps" using v(2) kpool_eq [OF ps] by simp
  then have "kfree v s = Ok ?t" "kmem_ok ?t (v # ps)" using kf by simp_all
  then show "\<exists>t. kfree v s = Ok t \<and> kinv t \<and> kpool t = insert v (kpool s) \<and> page_ok t = page_ok s"
    using kpool_eq [OF ps] kpool_eq [of ?t "v # ps"] by (intro exI [of _ ?t]) (auto simp: kinv_def page_ok_def fun_eq_iff)
next
  fix s :: "'a kst" and v a b
  assume "kinv s" and v: "page_ok s v" "v \<notin> kpool s" and a: "in_page v a"
  then obtain ps where ps: "kmem_ok s ps" by (auto simp: kinv_def)
  have "kmem_ok (poke_byte a b s) ps" using kmem_ok_poke [OF ps v(1) _ a] v(2) kpool_eq [OF ps] by simp
  then show "kinv (poke_byte a b s) \<and> kpool (poke_byte a b s) = kpool s \<and> page_ok (poke_byte a b s) = page_ok s"
    using kpool_eq [OF ps] kpool_eq [of "poke_byte a b s" ps] by (auto simp: kinv_def page_ok_def poke_byte_def fun_eq_iff)
next
  fix s :: "'a kst" and v
  assume "kinv s" and v: "v \<in> kpool s"
  then obtain ps where ps: "kmem_ok s ps" by (auto simp: kinv_def)
  then show "page_ok s v" using v kpool_eq [OF ps] by (simp add: kmem_ok_def)
qed

section \<open>Filling the pool\<close>

text \<open>The whole pages from \<open>p\<close> up to \<open>vend\<close>, the last one first.\<close>

definition range_pages :: "uint \<Rightarrow> nat \<Rightarrow> uint list" where
  "range_pages p n = rev (map (\<lambda>i. p + of_nat i * PGSIZE) [0..<n])"

lemma range_pages_Suc: "range_pages p (Suc n) = range_pages (p + PGSIZE) n @ [p]"
proof -
  have "map (\<lambda>i. p + of_nat i * PGSIZE) [0..<Suc n] = p # map (\<lambda>i. p + of_nat (Suc i) * PGSIZE) [0..<n]"
    by (simp add: map_upt_Suc del: upt_Suc)
  then show ?thesis by (simp add: range_pages_def algebra_simps)
qed

lemma aligned_add: "aligned p \<Longrightarrow> unat p + 4096 < 4294967296 \<Longrightarrow> aligned (p + PGSIZE) \<and> unat (p + PGSIZE) = unat p + 4096"
  by (simp add: aligned_unat PGSIZE_def unat_add_uint)

lemma freerange_loop_spec:
  assumes "kmem_ok s ps" and "aligned p" and "unat p + 4096 * n \<le> unat vend" and "unat vend < unat p + 4096 * Suc n"
    and "kend s \<le> p" and "unat vend \<le> unat (KERNBASE + PHYSTOP)" and "KERNBASE \<le> p"
    and "\<forall>x \<in> set ps. unat x < unat p \<or> unat vend \<le> unat x" and "n < fuel"
  shows "\<exists>t. freerange_loop fuel p vend s = Ok t \<and> kmem_ok t (range_pages p n @ ps) \<and> kend t = kend s"
  using assms
proof (induction n arbitrary: s p ps fuel)
  case 0
  have ph: "unat (KERNBASE + PHYSTOP) = 2382364672" by (simp add: KERNBASE_def PHYSTOP_def)
  obtain k where k: "fuel = Suc k" using 0(9) by (cases fuel) auto
  have "unat p + 4096 < 4294967296" using 0(3,6) by (simp add: ph)
  then have "\<not> p + PGSIZE \<le> vend" using aligned_add [OF 0(2)] 0(4) by (simp add: word_le_nat_alt)
  then show ?case using 0 k by (simp add: range_pages_def)
next
  case (Suc n)
  have ph: "unat (KERNBASE + PHYSTOP) = 2382364672" by (simp add: KERNBASE_def PHYSTOP_def)
  obtain k where k: "fuel = Suc k" using Suc.prems(9) by (cases fuel) auto
  have b: "unat p + 4096 < 4294967296" "unat p + 4096 \<le> unat vend" "unat p < 2382364672" using Suc.prems(3,6) by (simp_all add: ph)
  note al = aligned_add [OF Suc.prems(2) b(1)]
  have "V2P p < PHYSTOP"
    using Suc.prems(7) b(3) by (simp add: V2P_def PHYSTOP_def KERNBASE_def word_less_nat_alt unat_sub_uint word_le_nat_alt)
  then have pg: "page_ok s p" using Suc.prems(2,5) by (simp add: page_ok_def)
  have "p \<notin> set ps" using Suc.prems(8) b(2) by auto
  note kf = kfree_spec [OF Suc.prems(1) pg this]
  let ?t = "s\<lparr>kmemory := filled (kmemory s) p (freelist s), freelist := p\<rparr>"
  have le: "p + PGSIZE \<le> vend" using al b(2) by (simp add: word_le_nat_alt)
  have "\<exists>t. freerange_loop k (p + PGSIZE) vend ?t = Ok t \<and> kmem_ok t (range_pages (p + PGSIZE) n @ p # ps) \<and> kend t = kend ?t"
  proof (rule Suc.IH [OF kf(2)])
    show "aligned (p + PGSIZE)" "n < k" using al Suc.prems(9) k by simp_all
    show "unat (p + PGSIZE) + 4096 * n \<le> unat vend" "unat vend < unat (p + PGSIZE) + 4096 * Suc n" "unat vend \<le> unat (KERNBASE + PHYSTOP)"
      using al Suc.prems(3,4,6) by simp_all
    show "kend ?t \<le> p + PGSIZE" "KERNBASE \<le> p + PGSIZE" using al Suc.prems(5,7) by (simp_all add: word_le_nat_alt)
    show "\<forall>x \<in> set (p # ps). unat x < unat (p + PGSIZE) \<or> unat vend \<le> unat x" using al Suc.prems(8) by auto
  qed
  then show ?case using kf(1) le k by (simp add: range_pages_Suc)
qed

text \<open>C27: Page ownership: starting from a well-formed free list, after any sequence of \<^verbatim>\<open>kalloc\<close>, \<^verbatim>\<open>kfree\<close> of an
  allocated page and writes of the owners into their pages, \<^verbatim>\<open>kalloc\<close> returns a page that nobody holds, page-aligned, above
  the kernel and below \<^verbatim>\<open>PHYSTOP\<close>; it fails only when all pages are handed out, and freeing a held page never panics.
\<close>

theorem kalloc_exclusive:
  assumes "kinv s0" and "pages.uses s0 s A"
  shows "(\<forall>v t. kalloc s = (v, t) \<longrightarrow> (if v = 0 then A = kpool s0 else v \<notin> A \<and> v \<in> kpool s0 \<and> v mod PGSIZE = 0 \<and> kend s \<le> v \<and> V2P v < PHYSTOP))
    \<and> (\<forall>v \<in> A. \<exists>t. kfree v s = Ok t)"
  using pages.exclusive [OF assms(2,1)] pages.exhausted [OF assms(2,1)] pages.free_returns [OF assms(2,1)]
  by (auto simp: page_ok_def aligned_def)

definition demo_kmem :: kmem where
  "demo_kmem = \<lparr>kmemory = (\<lambda>_. 0), freelist = 0x80400000, kend = 0x80200000\<rparr>"

lemma demo_kmem_ok: "kmem_ok demo_kmem [0x80400000]"
proof -
  have "load32 (\<lambda>_. 0) 0x80400000 = 0" by (simp add: load32_def)
  then show ?thesis by (simp add: kmem_ok_def demo_kmem_def page_ok_def aligned_def PGSIZE_def V2P_def KERNBASE_def PHYSTOP_def)
qed

theorem kalloc_exclusive_witness:
  "\<exists>s. pages.uses demo_kmem s {0x80400000} \<and> (\<forall>v t. kalloc s = (v, t) \<longrightarrow> v \<noteq> 0x80400000) \<and> (\<exists>t. kfree 0x80400000 s = Ok t)"
proof -
  have i: "kinv demo_kmem" using demo_kmem_ok by (auto simp: kinv_def)
  obtain t where t: "kalloc demo_kmem = (0x80400000, t)" using kalloc_spec(1) [OF demo_kmem_ok] by simp
  have u: "pages.uses demo_kmem t {0x80400000}" using pages.take [OF pages.start t] by simp
  have "v \<noteq> 0x80400000" if "kalloc t = (v, t')" for v t'
    using kalloc_exclusive [OF i u, THEN conjunct1, rule_format, OF that] by (auto split: if_splits)
  then show ?thesis using kalloc_exclusive [OF i u] u by (intro exI [of _ t]) simp
qed

end
