(* ===== verification/Vm.thy ===== *)
theory Vm
  imports Kalloc
begin

text \<open>
  Virtual memory (\<^verbatim>\<open>src/vm.c\<close>): page directories and page tables live in the kernel memory of the page allocator,
  at kernel virtual addresses, and are read and written word by word. A pointer to an entry is its address, 0 is null;
  a dereference of null is undefined. \<^verbatim>\<open>data\<close>, the start of the kernel's data, is a field of the state, as are the
  process fields the shared-memory calls use and the table \<^verbatim>\<open>shm_table\<close>.
\<close>

section \<open>Entries\<close>

definition PTE_P :: uint where "PTE_P = 1"
definition PTE_W :: uint where "PTE_W = 2"
definition PTE_U :: uint where "PTE_U = 4"
definition NPDENTRIES :: nat where "NPDENTRIES = 1024"
definition DEVSPACE :: uint where "DEVSPACE = 0xFE000000"
definition KERNLINK :: uint where "KERNLINK = KERNBASE + EXTMEM"
definition NSHAREDPAGES :: nat where "NSHAREDPAGES = 10"
definition NPROCV :: nat where "NPROCV = 64"

definition PDX :: "uint \<Rightarrow> uint" where "PDX va = drop_bit 22 va AND 0x3FF"
definition PTX :: "uint \<Rightarrow> uint" where "PTX va = drop_bit 12 va AND 0x3FF"
definition PGADDR :: "uint \<Rightarrow> uint \<Rightarrow> uint \<Rightarrow> uint" where "PGADDR d t off = push_bit 22 d OR push_bit 12 t OR off"
definition PTE_ADDR :: "uint \<Rightarrow> uint" where "PTE_ADDR pte = pte AND NOT 0xFFF"
definition PTE_FLAGS :: "uint \<Rightarrow> uint" where "PTE_FLAGS pte = pte AND 0xFFF"

record vm_state = kmem +
  kdata :: uint
  vpid :: int
  vsz :: uint
  vpgdir :: uint
  shm_id :: "int list"
  shm_pa :: "uint list"
  shm_ref :: "int list"
  shm_va :: "uint list list"
  vkstack :: uint
  vesp0 :: uint
  vcr3 :: uint

type_synonym 'a vst = "'a vm_state_scheme"

section \<open>Walking and mapping\<close>

definition walkpgdir :: "uint \<Rightarrow> uint \<Rightarrow> bool \<Rightarrow> 'a kst \<Rightarrow> uint \<times> 'a kst" where
  "walkpgdir pgdir va alloc s =
     (let pde = pgdir + 4 * PDX va; e = load32 (kmemory s) pde in
      if e AND PTE_P \<noteq> 0 then (P2V (PTE_ADDR e) + 4 * PTX va, s)
      else if \<not> alloc then (0, s)
      else let (pgtab, s1) = kalloc s in
           if pgtab = 0 then (0, s1)
           else (pgtab + 4 * PTX va,
                 s1\<lparr>kmemory := store32 (memset (kmemory s1) pgtab 0 PGSIZE) pde (V2P pgtab OR PTE_P OR PTE_W OR PTE_U)\<rparr>))"

text \<open>The loop of \<^verbatim>\<open>mappages\<close> with \<open>n\<close> more turns after this one: both ends are page-aligned.\<close>

fun map_loop :: "nat \<Rightarrow> uint \<Rightarrow> uint \<Rightarrow> uint \<Rightarrow> uint \<Rightarrow> 'a kst \<Rightarrow> (int \<times> 'a kst) res" where
  "map_loop 0 pgdir a pa perm s =
     (let (pte, s1) = walkpgdir pgdir a True s in
      if pte = 0 then Ok (-1, s1)
      else guardr (load32 (kmemory s1) pte AND PTE_P = 0) ''remap''
             (Ok (0, s1\<lparr>kmemory := store32 (kmemory s1) pte (pa OR perm OR PTE_P)\<rparr>)))"
| "map_loop (Suc n) pgdir a pa perm s =
     (let (pte, s1) = walkpgdir pgdir a True s in
      if pte = 0 then Ok (-1, s1)
      else guardr (load32 (kmemory s1) pte AND PTE_P = 0) ''remap''
             (map_loop n pgdir (a + PGSIZE) (pa + PGSIZE) perm (s1\<lparr>kmemory := store32 (kmemory s1) pte (pa OR perm OR PTE_P)\<rparr>)))"

definition mappages :: "uint \<Rightarrow> uint \<Rightarrow> uint \<Rightarrow> uint \<Rightarrow> uint \<Rightarrow> 'a kst \<Rightarrow> (int \<times> 'a kst) res" where
  "mappages pgdir va len pa perm s =
     (let a = PGROUNDDOWN va; last = PGROUNDDOWN (va + len - 1) in
      map_loop (unat (last - a) div 4096) pgdir a pa perm s)"

section \<open>User memory\<close>

text \<open>The loops over user pages carry fuel: an address takes at most \<open>2 ^ 20\<close> page-aligned values.\<close>

definition uvm_fuel :: nat where "uvm_fuel = 2 ^ 20 + 1"

fun dealloc_loop :: "nat \<Rightarrow> uint \<Rightarrow> uint \<Rightarrow> uint \<Rightarrow> 'a kst \<Rightarrow> 'a kst res" where
  "dealloc_loop 0 pgdir a oldsz s = Block"
| "dealloc_loop (Suc n) pgdir a oldsz s =
     (if a < oldsz then
        let (pte, s1) = walkpgdir pgdir a False s in
        if pte = 0 then dealloc_loop n pgdir (PGADDR (PDX a + 1) 0 0 - PGSIZE + PGSIZE) oldsz s1
        else let e = load32 (kmemory s1) pte in
             if e AND PTE_P \<noteq> 0 then
               guardr (PTE_ADDR e \<noteq> 0) ''kfree''
               (bindr (kfree (P2V (PTE_ADDR e)) s1) (\<lambda>s2.
                  dealloc_loop n pgdir (a + PGSIZE) oldsz (s2\<lparr>kmemory := store32 (kmemory s2) pte 0\<rparr>)))
             else dealloc_loop n pgdir (a + PGSIZE) oldsz s1
      else Ok s)"

definition deallocuvm :: "uint \<Rightarrow> uint \<Rightarrow> uint \<Rightarrow> 'a kst \<Rightarrow> (uint \<times> 'a kst) res" where
  "deallocuvm pgdir oldsz newsz s =
     (if newsz \<ge> oldsz then Ok (oldsz, s)
      else bindr (dealloc_loop uvm_fuel pgdir (PGROUNDUP newsz) oldsz s) (\<lambda>s1. Ok (newsz, s1)))"

fun alloc_loop :: "nat \<Rightarrow> uint \<Rightarrow> uint \<Rightarrow> uint \<Rightarrow> uint \<Rightarrow> 'a kst \<Rightarrow> (uint \<times> 'a kst) res" where
  "alloc_loop 0 pgdir a oldsz newsz s = Block"
| "alloc_loop (Suc n) pgdir a oldsz newsz s =
     (if a < newsz then
        let (mem, s1) = kalloc s in
        if mem = 0 then bindr (deallocuvm pgdir newsz oldsz s1) (\<lambda>(_, s2). Ok (0, s2))
        else bindr (mappages pgdir a PGSIZE (V2P mem) (PTE_W OR PTE_U) (s1\<lparr>kmemory := memset (kmemory s1) mem 0 PGSIZE\<rparr>)) (\<lambda>(r, s2).
             if r < 0 then bindr (deallocuvm pgdir newsz oldsz s2) (\<lambda>(_, s3). bindr (kfree mem s3) (\<lambda>s4. Ok (0, s4)))
             else alloc_loop n pgdir (a + PGSIZE) oldsz newsz s2)
      else Ok (newsz, s))"

definition allocuvm :: "uint \<Rightarrow> uint \<Rightarrow> uint \<Rightarrow> 'a kst \<Rightarrow> (uint \<times> 'a kst) res" where
  "allocuvm pgdir oldsz newsz s =
     (if newsz \<ge> KERNBASE then Ok (0, s)
      else if newsz < oldsz then Ok (oldsz, s)
      else alloc_loop uvm_fuel pgdir (PGROUNDUP oldsz) oldsz newsz s)"

definition free_table :: "uint \<Rightarrow> nat \<Rightarrow> 'a kst \<Rightarrow> 'a kst res" where
  "free_table pgdir i s =
     (let e = load32 (kmemory s) (pgdir + 4 * of_nat i) in
      if e AND PTE_P \<noteq> 0 then kfree (P2V (PTE_ADDR e)) s else Ok s)"

definition freevm :: "uint \<Rightarrow> 'a kst \<Rightarrow> 'a kst res" where
  "freevm pgdir s =
     guardr (pgdir \<noteq> 0) ''freevm: no pgdir''
     (bindr (deallocuvm pgdir KERNBASE 0 s) (\<lambda>(_, s1).
      bindr (forr [0..<NPDENTRIES] (free_table pgdir) s1) (\<lambda>s2. kfree pgdir s2)))"

text \<open>The rows of \<^verbatim>\<open>kmap\<close>: virtual address, physical range and permissions.\<close>

definition kmap :: "uint \<Rightarrow> (uint \<times> uint \<times> uint \<times> uint) list" where
  "kmap dat = [(KERNBASE, 0, EXTMEM, PTE_W), (KERNLINK, V2P KERNLINK, V2P dat, 0), (dat, V2P dat, PHYSTOP, PTE_W),
     (DEVSPACE, DEVSPACE, 0, PTE_W)]"

fun kmap_loop :: "uint \<Rightarrow> (uint \<times> uint \<times> uint \<times> uint) list \<Rightarrow> 'a kst \<Rightarrow> (uint \<times> 'a kst) res" where
  "kmap_loop pgdir [] s = Ok (pgdir, s)"
| "kmap_loop pgdir ((virt, phys_start, phys_end, perm) # ks) s =
     bindr (mappages pgdir virt (phys_end - phys_start) phys_start perm s) (\<lambda>(r, s1).
       if r < 0 then bindr (freevm pgdir s1) (\<lambda>s2. Ok (0, s2)) else kmap_loop pgdir ks s1)"

definition setupkvm :: "'a vst \<Rightarrow> (uint \<times> 'a vst) res" where
  "setupkvm s =
     (let (pgdir, s1) = kalloc s in
      if pgdir = 0 then Ok (0, s1)
      else guardr (\<not> P2V PHYSTOP > DEVSPACE) ''PHYSTOP too high''
             (kmap_loop pgdir (kmap (kdata s)) (s1\<lparr>kmemory := memset (kmemory s1) pgdir 0 PGSIZE\<rparr>)))"

text \<open>\<^verbatim>\<open>inituvm\<close>: the code is at kernel address \<open>init\<close>; \<^verbatim>\<open>kalloc\<close> is not tested.\<close>

definition inituvm :: "uint \<Rightarrow> uint \<Rightarrow> uint \<Rightarrow> 'a kst \<Rightarrow> 'a kst res" where
  "inituvm pgdir init sz s =
     guardr (\<not> sz \<ge> PGSIZE) ''inituvm: more than a page''
     (let (mem, s1) = kalloc s in
      if mem = 0 then Undef ''memset of null''
      else bindr (mappages pgdir 0 PGSIZE (V2P mem) (PTE_W OR PTE_U) (s1\<lparr>kmemory := memset (kmemory s1) mem 0 PGSIZE\<rparr>)) (\<lambda>(_, s2).
           Ok (s2\<lparr>kmemory := memmove (kmemory s2) mem init sz\<rparr>)))"

text \<open>
  \<^verbatim>\<open>loaduvm\<close>: \<open>rd off n\<close> is what \<^verbatim>\<open>readi\<close> of the program's inode returns, with the bytes it stores.
\<close>

definition store_bytes :: "mem \<Rightarrow> uint \<Rightarrow> byte list \<Rightarrow> mem" where
  "store_bytes m a bs = (\<lambda>x. if unat (x - a) < length bs then bs ! unat (x - a) else m x)"

fun loaduvm_loop :: "nat \<Rightarrow> (uint \<Rightarrow> uint \<Rightarrow> int \<times> byte list) \<Rightarrow> uint \<Rightarrow> uint \<Rightarrow> uint \<Rightarrow> uint \<Rightarrow> uint \<Rightarrow> 'a kst \<Rightarrow> (int \<times> 'a kst) res" where
  "loaduvm_loop 0 rd pgdir addr offset sz i s = Block"
| "loaduvm_loop (Suc k) rd pgdir addr offset sz i s =
     (if i < sz then
        let (pte, s1) = walkpgdir pgdir (addr + i) False s in
        guardr (pte \<noteq> 0) ''loaduvm: address should exist''
        (let pa = PTE_ADDR (load32 (kmemory s1) pte); n = (if sz - i < PGSIZE then sz - i else PGSIZE);
             (r, bs) = rd (offset + i) n; s2 = s1\<lparr>kmemory := store_bytes (kmemory s1) (P2V pa) bs\<rparr>
         in if r \<noteq> int (unat n) then Ok (-1, s2) else loaduvm_loop k rd pgdir addr offset sz (i + PGSIZE) s2)
      else Ok (0, s))"

definition loaduvm :: "(uint \<Rightarrow> uint \<Rightarrow> int \<times> byte list) \<Rightarrow> uint \<Rightarrow> uint \<Rightarrow> uint \<Rightarrow> uint \<Rightarrow> 'a kst \<Rightarrow> (int \<times> 'a kst) res" where
  "loaduvm rd pgdir addr offset sz s =
     guardr (addr mod PGSIZE = 0) ''loaduvm: addr must be page aligned'' (loaduvm_loop uvm_fuel rd pgdir addr offset sz 0 s)"

definition clearpteu :: "uint \<Rightarrow> uint \<Rightarrow> 'a kst \<Rightarrow> 'a kst res" where
  "clearpteu pgdir uva s =
     (let (pte, s1) = walkpgdir pgdir uva False s in
      guardr (pte \<noteq> 0) ''clearpteu''
        (Ok (s1\<lparr>kmemory := store32 (kmemory s1) pte (load32 (kmemory s1) pte AND NOT PTE_U)\<rparr>)))"

fun copyuvm_loop :: "nat \<Rightarrow> uint \<Rightarrow> uint \<Rightarrow> uint \<Rightarrow> uint \<Rightarrow> 'a kst \<Rightarrow> (uint \<times> 'a kst) res" where
  "copyuvm_loop 0 pgdir d sz i s = Block"
| "copyuvm_loop (Suc k) pgdir d sz i s =
     (if i < sz then
        let (pte, s1) = walkpgdir pgdir i False s in
        guardr (pte \<noteq> 0) ''copyuvm: pte should exist''
        (let e = load32 (kmemory s1) pte in
         guardr (e AND PTE_P \<noteq> 0) ''copyuvm: page not present''
         (let (mem, s2) = kalloc s1 in
          if mem = 0 then bindr (freevm d s2) (\<lambda>s3. Ok (0, s3))
          else bindr (mappages d i PGSIZE (V2P mem) (PTE_FLAGS e)
                        (s2\<lparr>kmemory := memmove (kmemory s2) mem (P2V (PTE_ADDR e)) PGSIZE\<rparr>)) (\<lambda>(r, s3).
               if r < 0 then bindr (kfree mem s3) (\<lambda>s4. bindr (freevm d s4) (\<lambda>s5. Ok (0, s5)))
               else copyuvm_loop k pgdir d sz (i + PGSIZE) s3)))
      else Ok (d, s))"

definition copyuvm :: "uint \<Rightarrow> uint \<Rightarrow> 'a vst \<Rightarrow> (uint \<times> 'a vst) res" where
  "copyuvm pgdir sz s =
     bindr (setupkvm s) (\<lambda>(d, s1). if d = 0 then Ok (0, s1) else copyuvm_loop uvm_fuel pgdir d sz 0 s1)"

definition uva2ka :: "uint \<Rightarrow> uint \<Rightarrow> 'a kst \<Rightarrow> uint res" where
  "uva2ka pgdir uva s =
     (let (pte, s1) = walkpgdir pgdir uva False s; e = load32 (kmemory s1) pte in
      if pte = 0 then Undef ''null pte''
      else if e AND PTE_P = 0 then Ok 0
      else if e AND PTE_U = 0 then Ok 0
      else Ok (P2V (PTE_ADDR e)))"

lemma page_rest: "0 < PGSIZE - (va - PGROUNDDOWN va)"
proof -
  have d: "va - PGROUNDDOWN va = va mod 4096" by (simp add: PGROUNDDOWN_diff)
  have lt: "unat (va mod 4096) < 4096" by (simp add: unat_mod_page)
  then have "va mod 4096 \<le> PGSIZE" by (simp add: word_le_nat_alt PGSIZE_def)
  then have "unat (PGSIZE - va mod 4096) = 4096 - unat (va mod 4096)" by (simp add: unat_sub_uint PGSIZE_def)
  then show ?thesis using lt by (simp add: d word_less_nat_alt)
qed

function copyout :: "uint \<Rightarrow> uint \<Rightarrow> uint \<Rightarrow> uint \<Rightarrow> 'a kst \<Rightarrow> (int \<times> 'a kst) res" where
  "copyout pgdir va buf len s =
     (if len > 0 then
        let va0 = PGROUNDDOWN va in
        bindr (uva2ka pgdir va0 s) (\<lambda>pa0.
          if pa0 = 0 then Ok (-1, s)
          else let n = min (PGSIZE - (va - va0)) len in
               copyout pgdir (va0 + PGSIZE) (buf + n) (len - n) (s\<lparr>kmemory := memmove (kmemory s) (pa0 + (va - va0)) buf n\<rparr>))
      else Ok (0, s))"
  by pat_completeness auto
termination
proof (relation "measure (\<lambda>(pgdir, va, buf, len, s). unat len)")
  fix pgdir va buf len :: uint and s :: "'a kst" and va0 pa0 n
  assume "0 < len" and "n = min (PGSIZE - (va - va0)) len" and "va0 = PGROUNDDOWN va"
  then have "0 < n" "n \<le> len" using page_rest [of va] by auto
  then have "unat (len - n) < unat len" by (simp add: unat_sub_uint word_less_nat_alt word_le_nat_alt)
  then show "((pgdir, va0 + PGSIZE, buf + n, len - n, s\<lparr>kmemory := memmove (kmemory s) (pa0 + (va - va0)) buf n\<rparr>), (pgdir, va, buf, len, s))
    \<in> measure (\<lambda>(pgdir, va, buf, len, s). unat len)" by simp
qed simp

declare copyout.simps [simp del]

section \<open>Shared memory\<close>

fun shm_init_loop :: "nat \<Rightarrow> nat \<Rightarrow> 'a vst \<Rightarrow> 'a vst res" where
  "shm_init_loop i 0 s = Ok s"
| "shm_init_loop i (Suc k) s =
     (let (pa, s1) = kalloc s; s2 = s1\<lparr>shm_pa := (shm_pa s1)[i := pa]\<rparr> in
      guardr (pa \<noteq> 0) ''_shared_mem_init: kalloc failed'' (shm_init_loop (Suc i) k (s2\<lparr>shm_ref := (shm_ref s2)[i := 0]\<rparr>)))"

definition shared_mem_init :: "'a vst \<Rightarrow> 'a vst res" where
  "shared_mem_init s = shm_init_loop 0 NSHAREDPAGES s"

text \<open>
  \<^verbatim>\<open>switchuvm(curproc)\<close>: the stack of the task state segment and the page table register of the CPU that runs the current process; the descriptor of the
  segment and the interrupt flag are left out. The process exists, since it makes the call.
\<close>

definition switchuvm_cur :: "'a vst \<Rightarrow> 'a vst res" where
  "switchuvm_cur s =
     guardr (vkstack s \<noteq> 0) ''switchuvm: no kstack''
     (guardr (vpgdir s \<noteq> 0) ''switchuvm: no pgdir'' (Ok (s\<lparr>vesp0 := vkstack s + 4096, vcr3 := V2P (vpgdir s)\<rparr>)))"

text \<open>The search of \<^verbatim>\<open>open_sharedmem\<close>: a page in use for the id, or else the last free one.\<close>

fun shm_find :: "int \<Rightarrow> (int \<times> int) list \<Rightarrow> nat \<Rightarrow> nat option \<Rightarrow> nat option" where
  "shm_find key [] i found = found"
| "shm_find key ((j, ref) # xs) i found =
     (if ref = 0 then shm_find key xs (Suc i) (Some i)
      else if j = key then Some i
      else shm_find key xs (Suc i) found)"

definition open_sharedmem :: "int \<Rightarrow> 'a vst \<Rightarrow> (int \<times> 'a vst) res" where
  "open_sharedmem key s =
     (let va = PGROUNDUP (vsz s) in
      case shm_find key (zip (shm_id s) (shm_ref s)) 0 None of
        None \<Rightarrow> Ok (-1, s)
      | Some k \<Rightarrow>
          let s1 = s\<lparr>shm_id := (shm_id s)[k := key], shm_ref := (shm_ref s)[k := shm_ref s ! k + 1]\<rparr> in
          bindr (mappages (vpgdir s1) va PGSIZE (V2P (shm_pa s1 ! k)) (PTE_W OR PTE_U) s1) (\<lambda>(r, s2).
            if r < 0 then Ok (-1, s2\<lparr>shm_ref := (shm_ref s2)[k := shm_ref s2 ! k - 1]\<rparr>)
            else bindr (switchuvm_cur s2) (\<lambda>s3.
              if vpid s3 < 0 \<or> vpid s3 \<ge> int NPROCV then Undef ''shm_table.va''
              else let p = nat (vpid s3) in
                   Ok (sint va, s3\<lparr>shm_va := (shm_va s3)[p := (shm_va s3 ! p)[k := va]], vsz := vsz s3 + PGSIZE\<rparr>))))"

fun unmap_loop :: "nat \<Rightarrow> uint \<Rightarrow> uint \<Rightarrow> 'a kst \<Rightarrow> (int \<times> 'a kst) res" where
  "unmap_loop 0 pgdir a s =
     (let (pte, s1) = walkpgdir pgdir a True s in
      if pte = 0 then Ok (-1, s1)
      else guardr (load32 (kmemory s1) pte \<noteq> 0) ''reunmap'' (Ok (0, s1\<lparr>kmemory := store32 (kmemory s1) pte 0\<rparr>)))"
| "unmap_loop (Suc n) pgdir a s =
     (let (pte, s1) = walkpgdir pgdir a True s in
      if pte = 0 then Ok (-1, s1)
      else guardr (load32 (kmemory s1) pte \<noteq> 0) ''reunmap''
             (unmap_loop n pgdir (a + PGSIZE) (s1\<lparr>kmemory := store32 (kmemory s1) pte 0\<rparr>)))"

definition unmappages :: "uint \<Rightarrow> uint \<Rightarrow> uint \<Rightarrow> 'a kst \<Rightarrow> (int \<times> 'a kst) res" where
  "unmappages pgdir va len s =
     (let a = PGROUNDDOWN va; last = PGROUNDDOWN (va + len - 1) in unmap_loop (unat (last - a) div 4096) pgdir a s)"

definition close_sharedmem :: "int \<Rightarrow> 'a vst \<Rightarrow> (int \<times> 'a vst) res" where
  "close_sharedmem key s =
     (case first_idx (\<lambda>(j, ref). j = key \<and> ref \<noteq> 0) (zip (shm_id s) (shm_ref s)) of
        None \<Rightarrow> Ok (-1, s)
      | Some k \<Rightarrow>
          let s1 = s\<lparr>shm_ref := (shm_ref s)[k := shm_ref s ! k - 1]\<rparr> in
          if vpid s1 < 0 \<or> vpid s1 \<ge> int NPROCV then Undef ''shm_table.va''
          else bindr (unmappages (vpgdir s1) (shm_va s1 ! nat (vpid s1) ! k) PGSIZE s1) (\<lambda>(r, s2).
                 if r < 0 then Ok (-1, s2\<lparr>shm_ref := (shm_ref s2)[k := shm_ref s2 ! k + 1]\<rparr>)
                 else bindr (switchuvm_cur s2) (\<lambda>s3. Ok (0, s3\<lparr>vsz := vsz s3 - PGSIZE\<rparr>))))"

end
