(* ===== verification/Reentrant.thy ===== *)
theory Reentrant
  imports Bio
begin

text \<open>
  Reentrant locks (\<^verbatim>\<open>reentrantlock.c\<close>) and the table of Fibonacci numbers they protect (\<^verbatim>\<open>proc.c\<close>).
  A lock is a sleep lock with an owner and a count. The routines are given twice: as a whole, for callers that run
  alone, and as the single reads and writes they are made of, for processes that interleave.
\<close>

section \<open>The lock\<close>

record rlk =
  rl_locked :: bool
  rl_lk :: slk
  rl_pid :: int
  rl_recursion :: int

definition initreentrantlock :: rlk where
  "initreentrantlock = \<lparr>rl_locked = False, rl_lk = free_slk, rl_pid = 0, rl_recursion = 0\<rparr>"

definition holdingreentrant :: "int \<Rightarrow> rlk \<Rightarrow> bool" where
  "holdingreentrant me l \<longleftrightarrow> rl_locked l \<and> rl_pid l = me"

definition acquirereentrant :: "int \<Rightarrow> rlk \<Rightarrow> rlk res" where
  "acquirereentrant me l =
     bindr (if holdingreentrant me l then Ok l
            else bindr (slk_acquire me (rl_lk l)) (\<lambda>k. Ok (l\<lparr>rl_lk := k, rl_locked := True, rl_pid := me\<rparr>)))
       (\<lambda>l. Ok (l\<lparr>rl_recursion := rl_recursion l + 1\<rparr>))"

definition releasereentrant :: "int \<Rightarrow> rlk \<Rightarrow> rlk" where
  "releasereentrant me l =
     (if \<not> holdingreentrant me l then l
      else let l1 = l\<lparr>rl_recursion := rl_recursion l - 1\<rparr> in
           if rl_recursion l1 = 0 then l1\<lparr>rl_locked := False, rl_pid := 0, rl_lk := slk_release (rl_lk l1)\<rparr> else l1)"

section \<open>The steps of the routines\<close>

text \<open>Where a process is in the two routines; \<open>Out\<close> is outside.\<close>

datatype rpc = Out | Acq_locked | Acq_pid | Acq_sleep | Acq_setl | Acq_setp | Acq_inc
  | Rel_locked | Rel_pid | Rel_dec | Rel_setl | Rel_setp | Rel_sleep

text \<open>One access of process \<open>me\<close> to the lock; \<open>None\<close> while it has to wait for the sleep lock, or is outside.\<close>

fun rl_step :: "int \<Rightarrow> rpc \<Rightarrow> rlk \<Rightarrow> (rpc \<times> rlk) option" where
  "rl_step me Out l = None"
| "rl_step me Acq_locked l = Some (if rl_locked l then Acq_pid else Acq_sleep, l)"
| "rl_step me Acq_pid l = Some (if rl_pid l = me then Acq_inc else Acq_sleep, l)"
| "rl_step me Acq_sleep l = (case slk_acquire me (rl_lk l) of Ok k \<Rightarrow> Some (Acq_setl, l\<lparr>rl_lk := k\<rparr>) | _ \<Rightarrow> None)"
| "rl_step me Acq_setl l = Some (Acq_setp, l\<lparr>rl_locked := True\<rparr>)"
| "rl_step me Acq_setp l = Some (Acq_inc, l\<lparr>rl_pid := me\<rparr>)"
| "rl_step me Acq_inc l = Some (Out, l\<lparr>rl_recursion := rl_recursion l + 1\<rparr>)"
| "rl_step me Rel_locked l = Some (if rl_locked l then Rel_pid else Out, l)"
| "rl_step me Rel_pid l = Some (if rl_pid l = me then Rel_dec else Out, l)"
| "rl_step me Rel_dec l = Some (if rl_recursion l - 1 = 0 then Rel_setl else Out, l\<lparr>rl_recursion := rl_recursion l - 1\<rparr>)"
| "rl_step me Rel_setl l = Some (Rel_setp, l\<lparr>rl_locked := False\<rparr>)"
| "rl_step me Rel_setp l = Some (Rel_sleep, l\<lparr>rl_pid := 0\<rparr>)"
| "rl_step me Rel_sleep l = Some (Out, l\<lparr>rl_lk := slk_release (rl_lk l)\<rparr>)"

text \<open>The steps of one process that runs alone until it is outside, or has to wait.\<close>

fun rl_run :: "nat \<Rightarrow> int \<Rightarrow> rpc \<Rightarrow> rlk \<Rightarrow> rlk res" where
  "rl_run 0 me pc l = (if pc = Out then Ok l else Block)"
| "rl_run (Suc n) me pc l = (if pc = Out then Ok l else case rl_step me pc l of None \<Rightarrow> Block | Some (pc', l') \<Rightarrow> rl_run n me pc' l')"

text \<open>The whole routines are their steps run without interruption.\<close>

lemma acquire_steps: "rl_run 6 me Acq_locked l = acquirereentrant me l"
  by (simp add: eval_nat_numeral acquirereentrant_def holdingreentrant_def slk_acquire_def)

lemma release_steps: "rl_run 6 me Rel_locked l = Ok (releasereentrant me l)"
  by (simp add: eval_nat_numeral releasereentrant_def holdingreentrant_def Let_def)

section \<open>Processes that share a lock\<close>

text \<open>Processes are named by their pids; the depth of a process counts its completed acquisitions without their releases.\<close>

record rsys =
  rlock :: rlk
  rpcs :: "int \<Rightarrow> rpc"
  depth :: "int \<Rightarrow> nat"

definition rsys_init :: rsys where
  "rsys_init = \<lparr>rlock = initreentrantlock, rpcs = (\<lambda>_. Out), depth = (\<lambda>_. 0)\<rparr>"

definition new_depth :: "rpc \<Rightarrow> nat \<Rightarrow> nat" where
  "new_depth pc d = (case pc of Acq_inc \<Rightarrow> d + 1 | Rel_dec \<Rightarrow> d - 1 | _ \<Rightarrow> d)"

inductive rsys_step :: "rsys \<Rightarrow> rsys \<Rightarrow> bool" where
  call_acquire: "me > 0 \<Longrightarrow> rpcs s me = Out \<Longrightarrow> rsys_step s (s\<lparr>rpcs := (rpcs s)(me := Acq_locked)\<rparr>)"
| call_release: "me > 0 \<Longrightarrow> rpcs s me = Out \<Longrightarrow> rsys_step s (s\<lparr>rpcs := (rpcs s)(me := Rel_locked)\<rparr>)"
| run: "me > 0 \<Longrightarrow> rl_step me (rpcs s me) (rlock s) = Some (pc', l') \<Longrightarrow>
    rsys_step s (s\<lparr>rlock := l', rpcs := (rpcs s)(me := pc'), depth := (depth s)(me := new_depth (rpcs s me) (depth s me))\<rparr>)"

inductive rsys_reach :: "rsys \<Rightarrow> bool" where
  init: "rsys_reach rsys_init"
| step: "rsys_reach s \<Longrightarrow> rsys_step s t \<Longrightarrow> rsys_reach t"

text \<open>The processes that own the sleep lock, and what the fields of the lock are while one of them does.\<close>

definition owns :: "rsys \<Rightarrow> int \<Rightarrow> bool" where
  "owns s p \<longleftrightarrow> depth s p > 0 \<or> rpcs s p \<in> {Acq_setl, Acq_setp, Acq_inc, Rel_setl, Rel_setp, Rel_sleep}"

definition owner_ok :: "rsys \<Rightarrow> int \<Rightarrow> bool" where
  "owner_ok s p \<longleftrightarrow> (let l = rlock s; pc = rpcs s p in
     sl_locked (rl_lk l) \<and> sl_pid (rl_lk l) = p \<and> rl_recursion l = int (depth s p)
     \<and> rl_locked l = (pc \<notin> {Acq_setl, Rel_setp, Rel_sleep})
     \<and> rl_pid l = (if pc \<in> {Acq_setl, Acq_setp, Rel_sleep} then 0 else p)
     \<and> (pc \<in> {Acq_setl, Acq_setp, Rel_setl, Rel_setp, Rel_sleep} \<longrightarrow> depth s p = 0)
     \<and> pc \<noteq> Acq_sleep)"

definition rsys_ok :: "rsys \<Rightarrow> bool" where
  "rsys_ok s \<longleftrightarrow> (\<forall>p. owns s p \<longrightarrow> p > 0 \<and> owner_ok s p) \<and> (\<forall>p. rpcs s p = Rel_dec \<longrightarrow> depth s p > 0)
     \<and> ((\<forall>p. \<not> owns s p) \<longrightarrow> rlock s = initreentrantlock)"

lemma rsys_ok_unique: "rsys_ok s \<Longrightarrow> owns s p \<Longrightarrow> owns s q \<Longrightarrow> p = q"
  by (auto simp: rsys_ok_def owner_ok_def Let_def)

text \<open>A step of a process that owns nothing before and after changes nothing but its place.\<close>

lemma rsys_ok_move:
  assumes ok: "rsys_ok s" and a: "\<not> owns s p" and b: "pc \<notin> {Acq_setl, Acq_setp, Acq_inc, Rel_dec, Rel_setl, Rel_setp, Rel_sleep}"
  shows "rsys_ok (s\<lparr>rpcs := (rpcs s)(p := pc)\<rparr>)"
proof -
  let ?t = "s\<lparr>rpcs := (rpcs s)(p := pc)\<rparr>"
  have o: "owns ?t q = owns s q" for q using a b by (auto simp: owns_def)
  have "q \<noteq> p" if "owns s q" for q using a that by blast
  then have "owner_ok ?t q" if "owns s q" for q using ok that by (simp add: rsys_ok_def owner_ok_def Let_def)
  then show ?thesis using ok o b by (auto simp: rsys_ok_def)
qed

lemma rsys_okI:
  assumes "p > 0" and "\<And>q. q \<noteq> p \<Longrightarrow> \<not> owns t q" and "\<And>q. rpcs t q = Rel_dec \<Longrightarrow> depth t q > 0"
    and "if owns t p then owner_ok t p else rlock t = initreentrantlock"
  shows "rsys_ok t"
  using assms unfolding rsys_ok_def by metis

lemma not_owner_pid:
  assumes "rsys_ok s" and "\<not> owns s p" and "p > 0"
  shows "rl_pid (rlock s) \<noteq> p"
proof (cases "\<exists>q. owns s q")
  case True
  then obtain q where "owns s q" by blast
  then show ?thesis using assms by (auto simp: rsys_ok_def owner_ok_def Let_def split: if_splits)
next
  case False
  then show ?thesis using assms by (simp add: rsys_ok_def initreentrantlock_def)
qed

lemma run_outsider:
  assumes ok: "rsys_ok s" and p: "p > 0" and no: "\<not> owns s p" and st: "rl_step p (rpcs s p) (rlock s) = Some (pc', l')"
  shows "rsys_ok (s\<lparr>rlock := l', rpcs := (rpcs s)(p := pc'), depth := (depth s)(p := new_depth (rpcs s p) (depth s p))\<rparr>)"
proof (cases "rpcs s p = Acq_sleep")
  case True
  then have f: "\<not> sl_locked (rl_lk (rlock s))" "pc' = Acq_setl" "l' = (rlock s)\<lparr>rl_lk := \<lparr>sl_locked = True, sl_pid = p\<rparr>\<rparr>"
    using st by (auto simp: slk_acquire_def split: if_splits)
  have "\<not> owns s q" for q using f(1) ok by (auto simp: rsys_ok_def owner_ok_def Let_def)
  moreover from this have "rlock s = initreentrantlock" using ok by (simp add: rsys_ok_def)
  ultimately show ?thesis using p f ok True
    by (intro rsys_okI [OF p]) (auto simp: owns_def owner_ok_def Let_def new_depth_def initreentrantlock_def rsys_ok_def split: if_splits)
next
  case False
  have "rpcs s p \<noteq> Rel_dec" using ok no by (auto simp: rsys_ok_def owns_def)
  then have "l' = rlock s \<and> pc' \<in> {Acq_pid, Acq_sleep, Rel_pid, Out} \<and> new_depth (rpcs s p) (depth s p) = depth s p"
    using st False no not_owner_pid [OF ok no p] by (cases "rpcs s p") (auto simp: new_depth_def owns_def split: if_splits)
  moreover from this have "rsys_ok (s\<lparr>rpcs := (rpcs s)(p := pc')\<rparr>)" using rsys_ok_move [OF ok no] by blast
  ultimately show ?thesis by simp
qed

lemma run_owner:
  assumes ok: "rsys_ok s" and p: "p > 0" and ow: "owns s p" and st: "rl_step p (rpcs s p) (rlock s) = Some (pc', l')"
  shows "rsys_ok (s\<lparr>rlock := l', rpcs := (rpcs s)(p := pc'), depth := (depth s)(p := new_depth (rpcs s p) (depth s p))\<rparr>)"
proof (rule rsys_okI [OF p])
  let ?t = "s\<lparr>rlock := l', rpcs := (rpcs s)(p := pc'), depth := (depth s)(p := new_depth (rpcs s p) (depth s p))\<rparr>"
  have own: "owner_ok s p" using ok ow by (simp add: rsys_ok_def)
  have dec: "rpcs s q = Rel_dec \<Longrightarrow> depth s q > 0" for q using ok by (simp add: rsys_ok_def)
  show "\<not> owns ?t q" if "q \<noteq> p" for q
  proof -
    have "\<not> owns s q" using rsys_ok_unique [OF ok ow, of q] that by blast
    then show ?thesis using that by (simp add: owns_def)
  qed
  show "depth ?t q > 0" if "rpcs ?t q = Rel_dec" for q
    using that dec [of q] st own ow by (cases "q = p"; cases "rpcs s p") (auto simp: owner_ok_def Let_def owns_def new_depth_def split: if_splits)
  show "if owns ?t p then owner_ok ?t p else rlock ?t = initreentrantlock"
    using st own ow dec [of p]
    by (cases "rpcs s p") (auto simp: owner_ok_def Let_def owns_def new_depth_def slk_release_def initreentrantlock_def split: if_splits)
qed

lemma rsys_ok_call:
  assumes ok: "rsys_ok s" and p: "p > 0" and pc: "rpcs s p = Out" "pc \<in> {Acq_locked, Rel_locked}"
  shows "rsys_ok (s\<lparr>rpcs := (rpcs s)(p := pc)\<rparr>)"
proof (cases "owns s p")
  case True
  let ?t = "s\<lparr>rpcs := (rpcs s)(p := pc)\<rparr>"
  have o: "owns ?t q = owns s q" for q using pc by (auto simp: owns_def)
  have "owner_ok s p" using ok True by (simp add: rsys_ok_def)
  then have "owner_ok ?t p" using pc by (auto simp: owner_ok_def Let_def)
  then show ?thesis
  proof (intro rsys_okI [OF p])
    show "\<not> owns ?t q" if "q \<noteq> p" for q using rsys_ok_unique [OF ok True, of q] that o by blast
    show "depth ?t q > 0" if "rpcs ?t q = Rel_dec" for q using that ok pc by (auto simp: rsys_ok_def split: if_splits)
  qed (simp add: o True)
qed (use rsys_ok_move [OF ok] pc in auto)

lemma rsys_step_ok: "rsys_step s t \<Longrightarrow> rsys_ok s \<Longrightarrow> rsys_ok t"
proof (induction rule: rsys_step.induct)
  case (run me s pc' l')
  then show ?case by (cases "owns s me") (simp_all add: run_outsider run_owner)
qed (simp_all add: rsys_ok_call)

lemma rsys_reach_ok: "rsys_reach s \<Longrightarrow> rsys_ok s"
proof (induction rule: rsys_reach.induct)
  case init
  show ?case by (simp add: rsys_ok_def rsys_init_def owns_def)
qed (rule rsys_step_ok)

text \<open>C31: Reentrant locks exclude each other's owners and can be taken again: in every interleaving of the single reads and
  writes of any processes that call \<^verbatim>\<open>acquirereentrant\<close> and \<^verbatim>\<open>releasereentrant\<close> in any order, also releases of a lock the
  caller does not hold, at most one process has the lock; the recursion count of the lock is the number of acquisitions its
  holder still has to release; and the holder never comes to wait for the lock.
\<close>

theorem reentrant_mutual_exclusion:
  assumes "rsys_reach s" and "depth s p > 0"
  shows "(\<forall>q. depth s q > 0 \<longrightarrow> q = p) \<and> rl_recursion (rlock s) = int (depth s p) \<and> rpcs s p \<noteq> Acq_sleep"
proof -
  have ok: "rsys_ok s" by (rule rsys_reach_ok) (rule assms)
  have p: "owns s p" using assms(2) by (simp add: owns_def)
  then have "owner_ok s p" using ok by (simp add: rsys_ok_def)
  moreover have "q = p" if "depth s q > 0" for q using rsys_ok_unique [OF ok _ p] that by (simp add: owns_def)
  ultimately show ?thesis by (auto simp: owner_ok_def Let_def)
qed

text \<open>Process 1 takes the lock while process 2 is between its two tests.\<close>

definition demo_rsys :: rsys where
  "demo_rsys = \<lparr>rlock = \<lparr>rl_locked = True, rl_lk = \<lparr>sl_locked = True, sl_pid = 1\<rparr>, rl_pid = 1, rl_recursion = 1\<rparr>,
     rpcs = (\<lambda>_. Out)(2 := Acq_locked, 1 := Out), depth = (\<lambda>_. 0)(1 := 1)\<rparr>"

lemma demo_rsys_reach: "rsys_reach demo_rsys"
proof -
  have run: "rsys_reach (s\<lparr>rlock := l', rpcs := (rpcs s)(me := pc'), depth := (depth s)(me := new_depth (rpcs s me) (depth s me))\<rparr>)"
    if "rsys_reach s" "me > 0" "rl_step me (rpcs s me) (rlock s) = Some (pc', l')" for s me pc' l'
    using that rsys_reach.step rsys_step.run by blast
  have "rsys_reach (rsys_init\<lparr>rpcs := (\<lambda>_. Out)(2 := Acq_locked)\<rparr>)"
    using rsys_reach.step [OF init call_acquire [of 2]] by (simp add: rsys_init_def)
  from rsys_reach.step [OF this call_acquire [of 1]]
  have "rsys_reach (rsys_init\<lparr>rpcs := (\<lambda>_. Out)(2 := Acq_locked, 1 := Acq_locked)\<rparr>)" by simp
  note r = run [OF this, of 1, simplified rsys_init_def initreentrantlock_def new_depth_def, simplified]
  note r = run [OF r [OF conjI [OF refl refl]], of 1, simplified new_depth_def, simplified, unfolded slk_acquire_def free_slk_def, simplified]
  note r = run [OF r [OF conjI [OF refl refl]], of 1, simplified new_depth_def, simplified]
  note r = run [OF r [OF conjI [OF refl refl]], of 1, simplified new_depth_def, simplified]
  note r = run [OF r [OF conjI [OF refl refl]], of 1, simplified new_depth_def, simplified]
  show ?thesis using r [OF conjI [OF refl refl]] by (simp add: demo_rsys_def)
qed

lemma demo_rsys_depth: "depth demo_rsys 1 > 0"
  by (simp add: demo_rsys_def)

theorem reentrant_mutual_exclusion_witness:
  "rsys_reach demo_rsys \<and> {q. depth demo_rsys q > 0} = {1} \<and> rl_recursion (rlock demo_rsys) = int (depth demo_rsys 1)"
  using reentrant_mutual_exclusion [OF demo_rsys_reach demo_rsys_depth] demo_rsys_reach demo_rsys_depth by blast

section \<open>Fibonacci numbers\<close>

text \<open>The table of \<^verbatim>\<open>proc.c\<close>: the numbers computed so far, under a reentrant lock that the recursive calls take again.\<close>

record fib_numbers =
  fib_lock :: rlk
  fibs :: "int list"
  fib_valid :: "bool list"

definition NFIB :: nat where "NFIB = 41"

definition fib_init :: "fib_numbers" where
  "fib_init = \<lparr>fib_lock = initreentrantlock, fibs = 1 # 1 # replicate (NFIB - 2) 0, fib_valid = True # True # replicate (NFIB - 2) False\<rparr>"

text \<open>The two recursive calls add to the entry in turn.\<close>

definition fib_add :: "nat \<Rightarrow> int \<Rightarrow> fib_numbers \<Rightarrow> fib_numbers" where
  "fib_add n v t = t\<lparr>fibs := (fibs t)[n := fibs t ! n + v]\<rparr>"

definition fib_release :: "int \<Rightarrow> nat \<Rightarrow> fib_numbers \<Rightarrow> (int \<times> fib_numbers) res" where
  "fib_release me n t = (let t1 = t\<lparr>fib_lock := releasereentrant me (fib_lock t)\<rparr> in Ok (fibs t1 ! n, t1))"

function fibonacci_number :: "int \<Rightarrow> int \<Rightarrow> fib_numbers \<Rightarrow> (int \<times> fib_numbers) res" where
  "fibonacci_number me n t =
     (if n < 0 \<or> n \<ge> int NFIB then Ok (-1, t)
      else bindr (acquirereentrant me (fib_lock t)) (\<lambda>l.
             let t1 = t\<lparr>fib_lock := l\<rparr> in
             if fib_valid t1 ! nat n then fib_release me (nat n) t1
             else bindr (fibonacci_number me (n - 1) t1) (\<lambda>(v1, t2).
                  bindr (fibonacci_number me (n - 2) (fib_add (nat n) v1 t2)) (\<lambda>(v2, t3).
                  let t4 = fib_add (nat n) v2 t3 in
                  fib_release me (nat n) (t4\<lparr>fib_valid := (fib_valid t4)[nat n := True]\<rparr>)))))"
  by pat_completeness auto
termination
  by (relation "measure (\<lambda>(me, n, t). nat (n + 2))") auto

declare fibonacci_number.simps [simp del]

fun fib :: "nat \<Rightarrow> int" where
  "fib 0 = 1"
| "fib (Suc 0) = 1"
| "fib (Suc (Suc n)) = fib (Suc n) + fib n"

text \<open>The numbers marked valid are right and the others still 0.\<close>

definition fib_ok :: "fib_numbers \<Rightarrow> bool" where
  "fib_ok t \<longleftrightarrow> length (fibs t) = NFIB \<and> length (fib_valid t) = NFIB \<and> fib_valid t ! 0 \<and> fib_valid t ! 1
     \<and> (\<forall>i < NFIB. fibs t ! i = (if fib_valid t ! i then fib i else 0))"

text \<open>A lock that is free, or held by the caller.\<close>

definition rlk_ready :: "int \<Rightarrow> rlk \<Rightarrow> bool" where
  "rlk_ready me l \<longleftrightarrow> (if holdingreentrant me l then rl_recursion l > 0 else l = initreentrantlock)"

lemma fib_init_ok: "fib_ok fib_init"
proof -
  have "fibs fib_init ! i = (if fib_valid fib_init ! i then fib i else 0)" if "i < NFIB" for i
    using that by (cases i rule: fib.cases) (auto simp: fib_init_def NFIB_def)
  then show ?thesis by (simp add: fib_ok_def fib_init_def NFIB_def)
qed

lemma acquire_ready:
  assumes "rlk_ready me l" and "me \<noteq> 0"
  shows "\<exists>k. acquirereentrant me l = Ok k \<and> rlk_ready me k \<and> holdingreentrant me k \<and> releasereentrant me k = l"
  using assms by (auto simp: rlk_ready_def acquirereentrant_def releasereentrant_def holdingreentrant_def slk_acquire_def
      initreentrantlock_def slk_release_def free_slk_def Let_def split: if_splits)

text \<open>The numbers up to \<open>n\<close> are right: all a call for \<open>n\<close> relies on while its caller is still adding up its own entry.\<close>

definition fib_part :: "nat \<Rightarrow> fib_numbers \<Rightarrow> bool" where
  "fib_part n t \<longleftrightarrow> length (fibs t) = NFIB \<and> length (fib_valid t) = NFIB \<and> fib_valid t ! 0 \<and> fib_valid t ! 1
     \<and> (\<forall>i \<le> n. fibs t ! i = (if fib_valid t ! i then fib i else 0))"

definition fib_above :: "nat \<Rightarrow> fib_numbers \<Rightarrow> fib_numbers \<Rightarrow> bool" where
  "fib_above n t u \<longleftrightarrow> (\<forall>i. n < i \<longrightarrow> fibs u ! i = fibs t ! i \<and> fib_valid u ! i = fib_valid t ! i)"

lemma fib_step:
  assumes part: "fib_part (Suc m) t2" and a2: "fib_above (Suc m) t t2" and z: "fibs t ! Suc (Suc m) = 0" and n: "Suc (Suc m) < NFIB"
    and p3: "fib_part m t3" and a3: "fib_above m (fib_add (Suc (Suc m)) (fib (Suc m)) t2) t3"
    and u: "u = (fib_add (Suc (Suc m)) (fib m) t3)\<lparr>fib_valid := (fib_valid t3)[Suc (Suc m) := True]\<rparr>"
  shows "fib_part (Suc (Suc m)) u \<and> fib_above (Suc (Suc m)) t u \<and> fibs u ! Suc (Suc m) = fib (Suc (Suc m))"
proof -
  have l: "length (fibs t2) = NFIB" "length (fibs t3) = NFIB" "length (fib_valid t3) = NFIB" "fib_valid t3 ! 0" "fib_valid t3 ! 1"
    using part p3 by (simp_all add: fib_part_def)
  have e: "fibs t3 ! Suc (Suc m) = fib (Suc m)" "fibs t3 ! Suc m = fibs t2 ! Suc m" "fib_valid t3 ! Suc m = fib_valid t2 ! Suc m"
    using a2 a3 z l n by (simp_all add: fib_above_def fib_add_def)
  have up: "fibs t3 ! i = fibs t ! i \<and> fib_valid t3 ! i = fib_valid t ! i" if "Suc (Suc m) < i" for i
    using a2 a3 that l by (simp add: fib_above_def fib_add_def)
  have fu: "fibs u = (fibs t3)[Suc (Suc m) := fib (Suc (Suc m))]" "fib_valid u = (fib_valid t3)[Suc (Suc m) := True]"
    by (simp_all add: u fib_add_def e(1))
  have "fibs u ! i = (if fib_valid u ! i then fib i else 0)" if "i \<le> Suc (Suc m)" for i
  proof -
    consider "i \<le> m" | "i = Suc m" | "i = Suc (Suc m)" using \<open>i \<le> Suc (Suc m)\<close> by linarith
    then show ?thesis
      by cases (use part p3 e l n in \<open>auto simp: fu fib_part_def\<close>)
  qed
  moreover have "length (fibs u) = NFIB" "length (fib_valid u) = NFIB" "fib_valid u ! 0" "fib_valid u ! 1"
    using l by (simp_all add: fu nth_list_update)
  ultimately have "fib_part (Suc (Suc m)) u" by (simp add: fib_part_def)
  moreover have "fib_above (Suc (Suc m)) t u" using up by (simp add: fib_above_def fu)
  moreover have "fibs u ! Suc (Suc m) = fib (Suc (Suc m))" using l n by (simp add: fu)
  ultimately show ?thesis by blast
qed

lemma fib_call:
  "n < NFIB \<Longrightarrow> fib_part n t \<Longrightarrow> rlk_ready me (fib_lock t) \<Longrightarrow> me \<noteq> 0 \<Longrightarrow>
    \<exists>u. fibonacci_number me (int n) t = Ok (fib n, u) \<and> fib_part n u \<and> fib_lock u = fib_lock t \<and> fib_above n t u"
proof (induction n arbitrary: t rule: less_induct)
  case (less n)
  obtain k where k: "acquirereentrant me (fib_lock t) = Ok k" "rlk_ready me k" "releasereentrant me k = fib_lock t"
    using acquire_ready [OF less.prems(3,4)] by blast
  define t1 where "t1 = t\<lparr>fib_lock := k\<rparr>"
  have t1: "fib_lock t1 = k" "fibs t1 = fibs t" "fib_valid t1 = fib_valid t" by (simp_all add: t1_def)
  show ?case
  proof (cases "fib_valid t ! n")
    case True
    then have "fibonacci_number me (int n) t = Ok (fib n, t1\<lparr>fib_lock := fib_lock t\<rparr>)"
      using less.prems k by (subst fibonacci_number.simps) (auto simp: fib_part_def fib_release_def Let_def t1_def)
    then show ?thesis using less.prems(2) t1 by (auto simp: fib_part_def fib_above_def)
  next
    case False
    then obtain m where n: "n = Suc (Suc m)" using less.prems(2) by (cases n rule: fib.cases) (auto simp: fib_part_def)
    have z: "fibs t ! n = 0" using less.prems(2) False by (auto simp: fib_part_def)
    have "fib_part (Suc m) t1" using less.prems(2) t1 n by (simp add: fib_part_def)
    then obtain t2 where t2: "fibonacci_number me (int (Suc m)) t1 = Ok (fib (Suc m), t2)" "fib_part (Suc m) t2" "fib_lock t2 = k" "fib_above (Suc m) t1 t2"
      using less.IH [of "Suc m" t1] less.prems(1,4) k(2) t1 n by auto
    let ?t2 = "fib_add n (fib (Suc m)) t2"
    have "fib_part m ?t2" "fib_lock ?t2 = k" using t2 n by (auto simp: fib_part_def fib_add_def)
    then obtain t3 where t3: "fibonacci_number me (int m) ?t2 = Ok (fib m, t3)" "fib_part m t3" "fib_lock t3 = k" "fib_above m ?t2 t3"
      using less.IH [of m ?t2] less.prems(1,4) k(2) n by auto
    define u where "u = (fib_add n (fib m) t3)\<lparr>fib_valid := (fib_valid t3)[n := True]\<rparr>"
    have a2: "fib_above (Suc m) t t2" using t2(4) by (simp add: fib_above_def t1)
    have u: "fib_part n u" "fib_above n t u" "fibs u ! n = fib n"
      using fib_step [OF t2(2) a2 _ _ t3(2), folded n] t3(4) z less.prems(1) u_def by simp_all
    have i: "int n - 1 = int (Suc m)" "int n - 2 = int m" using n by simp_all
    have v: "fib_valid (fib_add n (fib m) t3) = fib_valid t3" "fib_lock u = k" using t3(3) by (simp_all add: fib_add_def u_def)
    have "fibonacci_number me (int n) t = fib_release me n u"
      using less.prems(1) k(1) False t2(1) t3(1)
      by (subst fibonacci_number.simps) (simp add: t1_def [symmetric] t1 Let_def i u_def v)
    then have "fibonacci_number me (int n) t = Ok (fib n, u\<lparr>fib_lock := fib_lock t\<rparr>)" using u(3) v(2) k(3) by (simp add: fib_release_def)
    then show ?thesis using u by (auto simp: fib_part_def fib_above_def)
  qed
qed

text \<open>The numbers of the table fit an \<open>int\<close>.\<close>

primrec fib_pair :: "nat \<Rightarrow> int \<times> int" where
  "fib_pair 0 = (1, 1)"
| "fib_pair (Suc n) = (case fib_pair n of (a, b) \<Rightarrow> (b, a + b))"

lemma fib_pair: "fib_pair n = (fib n, fib (Suc n))"
  by (induction n) simp_all

lemma fib_pos: "0 < fib n"
  by (induction n rule: fib.induct) simp_all

lemma fib_mono: "m \<le> n \<Longrightarrow> fib m \<le> fib n"
proof (rule lift_Suc_mono_le)
  show "fib k \<le> fib (Suc k)" for k using fib_pos by (cases k) (simp_all add: less_imp_le)
qed

lemma fib_bound: "n < NFIB \<Longrightarrow> fib n < 2 ^ 31"
proof -
  assume "n < NFIB"
  then have "fib n \<le> fib 40" by (intro fib_mono) (simp add: NFIB_def)
  moreover have "fst (fib_pair 40) = 165580141" by code_simp
  ultimately show ?thesis by (simp add: fib_pair)
qed

text \<open>C32: \<^verbatim>\<open>fibonacci_number\<close> computes the Fibonacci numbers: for an index inside the table and a lock that is free or already
  held by the caller, the recursion ends without waiting, whatever numbers were computed before; it returns the number of
  that index, which fits an \<open>int\<close>, leaves the lock as it was and keeps the table correct. Other indices give -1.
\<close>

theorem fibonacci_number_correct:
  assumes "fib_ok t" and "rlk_ready me (fib_lock t)" and "me \<noteq> 0"
  shows "\<exists>u. fibonacci_number me n t = Ok (if 0 \<le> n \<and> n < 41 then fib (nat n) else -1, u) \<and> fib_ok u \<and> fib_lock u = fib_lock t
    \<and> (0 \<le> n \<and> n < 41 \<longrightarrow> fib (nat n) < 2 ^ 31)"
proof (cases "0 \<le> n \<and> n < 41")
  case True
  define k where "k = nat n"
  have k: "n = int k" "k < NFIB" using True by (auto simp: k_def NFIB_def)
  have "fib_part k t" using assms(1) k(2) by (simp add: fib_ok_def fib_part_def)
  from fib_call [OF k(2) this assms(2,3)] obtain u where u: "fibonacci_number me (int k) t = Ok (fib k, u)" "fib_part k u" "fib_lock u = fib_lock t" "fib_above k t u" by blast
  have "fibs u ! i = (if fib_valid u ! i then fib i else 0)" if "i < NFIB" for i
    using u(2,4) assms(1) that by (cases "i \<le> k") (simp_all add: fib_ok_def fib_part_def fib_above_def)
  then have "fib_ok u" using u(2) by (simp add: fib_ok_def fib_part_def)
  then show ?thesis using u k True fib_bound [OF k(2)] by simp
next
  case False
  then show ?thesis using assms(1) by (subst fibonacci_number.simps) (auto simp: NFIB_def)
qed

theorem fibonacci_number_correct_witness:
  "\<exists>u. fibonacci_number 7 10 fib_init = Ok (89, u) \<and> fib_ok u \<and> fib_lock u = initreentrantlock"
proof -
  have "rlk_ready 7 (fib_lock fib_init)" by (simp add: rlk_ready_def fib_init_def holdingreentrant_def initreentrantlock_def)
  moreover have "fib (nat 10) = 89" by code_simp
  moreover have "fib_lock fib_init = initreentrantlock" by (simp add: fib_init_def)
  ultimately show ?thesis using fibonacci_number_correct [OF fib_init_ok, of 7 10] by simp
qed

end
