(* ===== verification/Proc.thy ===== *)
theory Proc
  imports Sched_Lock File_Calls Vm Reentrant
begin

text \<open>
  Processes as a whole (\<^verbatim>\<open>proc.c\<close>): creation, growth, \<^verbatim>\<open>fork\<close>, \<^verbatim>\<open>exit\<close> and \<^verbatim>\<open>wait\<close>, which join the
  process table, the memory and the open files. The parts under the table lock are those of \<open>Sched\<close>. A routine that gives up the
  processor for good or until it is woken ends there, with the state in which the scheduler takes over.
\<close>

section \<open>The system\<close>

text \<open>
  The process table, the memory and the files, the table of Fibonacci numbers and two more locks; \<^verbatim>\<open>trapret\<close>, \<^verbatim>\<open>forkret\<close>, the
  first program and \<open>ticks_chan\<close>, the address of \<^verbatim>\<open>ticks\<close>, are addresses the linker fixes. The
  file state has fields for the process that makes a call: its descriptors and directory, its pid and whether it was killed.
\<close>

record sys =
  ks :: kstate
  vm :: vm_state
  fl :: file_state
  trapret :: uint
  forkret :: uint
  initcode_start :: uint
  initcode_size :: uint
  fib_nums :: fib_numbers
  factorial_lock :: spinlock
  tickslock :: spinlock
  ticks_chan :: uint

definition setp :: "nat \<Rightarrow> (proc \<Rightarrow> proc) \<Rightarrow> sys \<Rightarrow> sys" where
  "setp i f s = s\<lparr>ks := upd_proc i f (ks s)\<rparr>"

abbreviation pr :: "sys \<Rightarrow> nat \<Rightarrow> proc" where
  "pr s i \<equiv> procs (ks s) ! i"

definition enter_fl :: "proc \<Rightarrow> file_state \<Rightarrow> file_state" where
  "enter_fl p f = f\<lparr>curpid := pid p, pkilled := killed p, File.ofile := Sched.ofile p,
     Fs.cwd := (case Sched.cwd p of None \<Rightarrow> Fs.cwd f | Some d \<Rightarrow> d)\<rparr>"

text \<open>The process that \<^verbatim>\<open>myproc\<close> returns; the file state is then the one it sees.\<close>

definition curproc :: "sys \<Rightarrow> (nat \<times> sys) res" where
  "curproc s =
     bindr (myproc (ks s)) (\<lambda>(po, k).
       case po of
         None \<Rightarrow> Undef ''curproc''
       | Some c \<Rightarrow> Ok (c, s\<lparr>ks := k, fl := enter_fl (procs k ! c) (fl s)\<rparr>))"

text \<open>A routine of the file layer that the running process calls: its descriptors and its directory may change.\<close>

definition file_call :: "(file_state \<Rightarrow> ('r \<times> file_state) res) \<Rightarrow> sys \<Rightarrow> ('r \<times> sys) res" where
  "file_call op s =
     bindr (curproc s) (\<lambda>(c, s1).
     bindr (op (fl s1)) (\<lambda>(r, f1).
       Ok (r, setp c (\<lambda>p. p\<lparr>Sched.ofile := File.ofile f1, Sched.cwd := Some (Fs.cwd f1)\<rparr>) (s1\<lparr>fl := f1\<rparr>))))"

section \<open>Creation\<close>

definition TF_SIZE :: uint where "TF_SIZE = 76"
definition CONTEXT_SIZE :: uint where "CONTEXT_SIZE = 20"

text \<open>
  The stack of a new process: room for the trap frame, the return address \<^verbatim>\<open>trapret\<close>, and a zeroed context that starts at
  \<^verbatim>\<open>forkret\<close>. The trap frame itself is a field of the process.
\<close>

definition new_stack :: "uint \<Rightarrow> sys \<Rightarrow> mem \<Rightarrow> mem" where
  "new_stack st s m =
     (let sp = st + KSTACKSIZE - TF_SIZE - 4; m1 = store32 m sp (trapret s); cx = sp - CONTEXT_SIZE in
      store32 (memset m1 cx 0 CONTEXT_SIZE) (cx + 16) (forkret s))"

definition allocproc :: "sys \<Rightarrow> (nat option \<times> sys) res" where
  "allocproc s =
     bindr (alloc_slot (ks s)) (\<lambda>(io, k1).
       case io of
         None \<Rightarrow> Ok (None, s\<lparr>ks := k1\<rparr>)
       | Some i \<Rightarrow>
           let (st, v1) = kalloc (vm s); s1 = setp i (\<lambda>p. p\<lparr>kstack := st\<rparr>) (s\<lparr>ks := k1, vm := v1\<rparr>) in
           if st = 0 then Ok (None, setp i (\<lambda>p. p\<lparr>pstate := UNUSED\<rparr>) s1)
           else Ok (Some i, setp i (reset_sched 0 (ticks k1)) (s1\<lparr>vm := v1\<lparr>kmemory := new_stack st s (kmemory v1)\<rparr>\<rparr>)))"

definition user_cs :: "16 word" where "user_cs = 27"
definition user_ds :: "16 word" where "user_ds = 35"
definition FL_IF :: uint where "FL_IF = 0x200"

definition init_frame :: trapframe where
  "init_frame = \<lparr>tf_edi = 0, tf_esi = 0, tf_ebp = 0, tf_oesp = 0, tf_ebx = 0, tf_edx = 0, tf_ecx = 0, tf_eax = 0, tf_gs = 0, tf_fs = 0,
     tf_es = user_ds, tf_ds = user_ds, tf_trapno = 0, tf_err = 0, tf_eip = 0, tf_cs = user_cs, tf_eflags = FL_IF, tf_esp = PGSIZE, tf_ss = user_ds\<rparr>"

definition publish :: "nat \<Rightarrow> sys \<Rightarrow> sys res" where
  "publish i s =
     bindr (acquire_ptable (ks s)) (\<lambda>k1.
     bindr (release_ptable (upd_proc i (\<lambda>p. p\<lparr>pstate := RUNNABLE\<rparr>) k1)) (\<lambda>k2. Ok (s\<lparr>ks := k2\<rparr>)))"

definition userinit :: "unit fdev \<Rightarrow> sys \<Rightarrow> sys res" where
  "userinit dv s =
     bindr (allocproc s) (\<lambda>(io, s1).
       case io of
         None \<Rightarrow> Undef ''null process''
       | Some i \<Rightarrow>
         bindr (setupkvm (vm s1)) (\<lambda>(d, v1).
         guardr (d \<noteq> 0) ''userinit: out of memory?''
         (bindr (inituvm d (initcode_start s1) (initcode_size s1) v1) (\<lambda>v2.
          bindr (namei dv [slash] (fl s1)) (\<lambda>(ip, f1).
            publish i (setp i (\<lambda>p. p\<lparr>pgdir := d, sz := PGSIZE, tf := init_frame, pname := ''initcode'', Sched.cwd := ip\<rparr>)
              (s1\<lparr>ks := (ks s1)\<lparr>initproc := Some i\<rparr>, vm := v2, fl := f1\<rparr>)))))))"

section \<open>Growth\<close>

definition growproc :: "int \<Rightarrow> sys \<Rightarrow> (int \<times> sys) res" where
  "growproc n s =
     bindr (curproc s) (\<lambda>(c, s1).
       let p = pr s1 c in
       bindr (if n > 0 then allocuvm (pgdir p) (sz p) (sz p + word_of_int n) (vm s1)
              else if n < 0 then deallocuvm (pgdir p) (sz p) (sz p + word_of_int n) (vm s1)
              else Ok (sz p, vm s1)) (\<lambda>(z, v).
         if n \<noteq> 0 \<and> z = 0 then Ok (-1, s1\<lparr>vm := v\<rparr>)
         else let s2 = setp c (\<lambda>p. p\<lparr>sz := z\<rparr>) (s1\<lparr>vm := v\<rparr>) in
              bindr (switchuvm c (ks s2)) (\<lambda>k. Ok (0, s2\<lparr>ks := k\<rparr>))))"

section \<open>Fork\<close>

fun dup_files :: "nat option list \<Rightarrow> file_state \<Rightarrow> file_state res" where
  "dup_files [] f = Ok f"
| "dup_files (None # fds) f = dup_files fds f"
| "dup_files (Some x # fds) f = bindr (filedup x f) (dup_files fds)"

text \<open>Entries that the parent does not use keep what the slot had.\<close>

definition inherit :: "nat option list \<Rightarrow> nat option list \<Rightarrow> nat option list" where
  "inherit old fds = map2 (\<lambda>o' d. if d = None then o' else d) old fds"

definition fork :: "sys \<Rightarrow> (int \<times> sys) res" where
  "fork s =
     bindr (curproc s) (\<lambda>(c, s1).
     bindr (allocproc s1) (\<lambda>(io, s2).
       case io of
         None \<Rightarrow> Ok (-1, s2)
       | Some np \<Rightarrow>
         bindr (copyuvm (pgdir (pr s2 c)) (sz (pr s2 c)) (vm s2)) (\<lambda>(d, v1).
           if d = 0 then
             bindr (kfree (kstack (pr s2 np)) v1) (\<lambda>v2.
               Ok (-1, setp np (\<lambda>p. p\<lparr>pgdir := 0, kstack := 0, pstate := UNUSED\<rparr>) (s2\<lparr>vm := v2\<rparr>)))
           else
             let cp = pr s2 c in
             bindr (dup_files (Sched.ofile cp) (fl s2)) (\<lambda>f1.
               case Sched.cwd cp of
                 None \<Rightarrow> Undef ''null inode''
               | Some ip \<Rightarrow>
                 let s3 = setp np (\<lambda>p. p\<lparr>pgdir := d, sz := sz cp, parent := Some c, tf := (tf cp)\<lparr>tf_eax := 0\<rparr>,
                            Sched.ofile := inherit (Sched.ofile p) (Sched.ofile cp), Sched.cwd := Some ip, pname := pname cp\<rparr>)
                            (s2\<lparr>vm := v1, fl := idup ip f1\<rparr>) in
                 bindr (fork_publish c np (ks s3)) (\<lambda>k. Ok (pid (pr s3 np), s3\<lparr>ks := k\<rparr>))))))"

section \<open>Exit and wait\<close>

definition exit_close :: "nat \<Rightarrow> nat \<Rightarrow> sys \<Rightarrow> sys res" where
  "exit_close c fd s =
     (case Sched.ofile (pr s c) ! fd of
        None \<Rightarrow> Ok s
      | Some f \<Rightarrow> bindr (fileclose f (fl s)) (\<lambda>f1.
          Ok (setp c (\<lambda>p. p\<lparr>Sched.ofile := (Sched.ofile p)[fd := None]\<rparr>) (s\<lparr>fl := f1\<rparr>))))"

definition exit :: "sys \<Rightarrow> (bool \<times> sys) res" where
  "exit s =
     bindr (curproc s) (\<lambda>(c, s1).
     guardr (Some c \<noteq> initproc (ks s1)) ''init exiting''
     (bindr (forr [0..<NOFILE] (exit_close c) s1) (\<lambda>s2.
      case Sched.cwd (pr s2 c) of
        None \<Rightarrow> Undef ''null inode''
      | Some ip \<Rightarrow>
        bindr (begin_op (fl s2)) (\<lambda>f1.
        bindr (iput ip f1) (\<lambda>f2.
        bindr (end_op f2) (\<lambda>f3.
        bindr (exit_table c (ks (setp c (\<lambda>p. p\<lparr>Sched.cwd := None\<rparr>) s2))) (\<lambda>(ie, k).
          Ok (ie, s2\<lparr>ks := k, fl := f3\<rparr>))))))))"

datatype waited = Reaped int | Asleep bool

text \<open>One round of the loop of \<^verbatim>\<open>wait\<close>, with the table lock held.\<close>

definition wait_round :: "nat \<Rightarrow> sys \<Rightarrow> (waited \<times> sys) res" where
  "wait_round c s =
     (let done = \<lambda>r s1. bindr (release_ptable (ks s1)) (\<lambda>k. Ok (Reaped r, s1\<lparr>ks := k\<rparr>)) in
      case wait_scan c (procs (ks s)) of
        Zombie i \<Rightarrow>
          bindr (kfree (kstack (pr s i)) (vm s)) (\<lambda>v1.
          bindr (freevm (pgdir (pr s i)) v1) (\<lambda>v2.
            done (pid (pr s i)) (setp i (wait_reap (ticks (ks s))) (s\<lparr>vm := v2\<rparr>))))
      | No_kids \<Rightarrow> done (-1) s
      | Kids \<Rightarrow>
          if killed (pr s c) then done (-1) s
          else bindr (sleep (Some (Ch_proc c)) Ptable_lk (ks s)) (\<lambda>(ie, _, k). Ok (Asleep ie, s\<lparr>ks := k\<rparr>)))"

definition wait :: "sys \<Rightarrow> (waited \<times> sys) res" where
  "wait s =
     bindr (curproc s) (\<lambda>(c, s1).
     bindr (acquire_ptable (ks s1)) (\<lambda>k. wait_round c (s1\<lparr>ks := k\<rparr>)))"

text \<open>The wakeup of a waiting process: the rest of \<^verbatim>\<open>sleep\<close> and another round.\<close>

definition wait_wake :: "nat \<Rightarrow> bool \<Rightarrow> sys \<Rightarrow> (waited \<times> sys) res" where
  "wait_wake c ie s = bindr (sleep_wake c ie Ptable_lk (ks s)) (\<lambda>k. wait_round c (s\<lparr>ks := k\<rparr>))"

end
