(* ===== verification/Proc_Refs.thy ===== *)
theory Proc_Refs
  imports Proc
begin

text \<open>
  Open files and processes: the reference count of every entry of the file table is the number of descriptors, over all processes, that
  refer to it, whatever calls the processes make.
\<close>

section \<open>The table of processes under the lock operations\<close>

named_theorems procs_dest \<open>routines that leave the table of processes alone\<close>

lemma pushcli_procs [procs_dest]: "pushcli (s :: 'a Sched.kst) = Ok t \<Longrightarrow> procs t = procs s"
  by (auto simp: pushcli_def Let_def bindr_Ok_iff)

lemma popcli_procs [procs_dest]: "popcli (s :: 'a Sched.kst) = Ok t \<Longrightarrow> procs t = procs s"
  by (auto simp: popcli_def Let_def bindr_Ok_iff split: if_splits)

lemma holding_procs [procs_dest]: "holding lk (s :: 'a Sched.kst) = Ok (h, t) \<Longrightarrow> procs t = procs s"
  by (auto simp: holding_def Let_def bindr_Ok_iff dest!: procs_dest)

lemma acquire_procs [procs_dest]: "acquire lk (s :: 'a Sched.kst) = Ok (l, t) \<Longrightarrow> procs t = procs s"
  by (auto simp: acquire_def acquire_begin_def acquire_end_def xchg_locked_def Let_def bindr_Ok_iff split: if_splits dest!: procs_dest)

lemma release_procs [procs_dest]: "release lk (s :: 'a Sched.kst) = Ok (l, t) \<Longrightarrow> procs t = procs s"
  by (auto simp: release_def release_begin_def bindr_Ok_iff split: if_splits dest!: procs_dest)

lemma acquire_ptable_procs [procs_dest]: "acquire_ptable s = Ok t \<Longrightarrow> procs t = procs s"
  by (auto simp: acquire_ptable_def bindr_Ok_iff dest!: procs_dest)

lemma release_ptable_procs [procs_dest]: "release_ptable s = Ok t \<Longrightarrow> procs t = procs s"
  by (auto simp: release_ptable_def bindr_Ok_iff dest!: procs_dest)

lemma myproc_procs [procs_dest]: "myproc s = Ok (c, t) \<Longrightarrow> procs t = procs s"
  by (auto simp: myproc_def Let_def bindr_Ok_iff dest!: procs_dest)

lemma sched_procs [procs_dest]: "sched s = Ok (b, t) \<Longrightarrow> procs t = procs s"
  by (auto simp: sched_def bindr_Ok_iff guardr_Ok_iff split: option.splits dest!: procs_dest)

section \<open>Counting references\<close>

definition refs :: "proc list \<Rightarrow> nat \<Rightarrow> nat" where
  "refs ps f = (\<Sum>p\<leftarrow>ps. count_list (Sched.ofile p) (Some f))"

lemma refs_upd:
  assumes "i < length ps"
  shows "int (refs (ps[i := p]) f) = int (refs ps f) - int (count_list (Sched.ofile (ps ! i)) (Some f)) + int (count_list (Sched.ofile p) (Some f))"
proof -
  have "count_list (Sched.ofile (ps ! i)) (Some f) \<le> refs ps f" unfolding refs_def using assms by (intro member_le_sum_list) auto
  then show ?thesis using assms by (simp add: refs_def map_update sum_list_update)
qed

lemma refs_cong: "map Sched.ofile ps = map Sched.ofile qs \<Longrightarrow> refs ps = refs qs"
proof -
  assume a: "map Sched.ofile ps = map Sched.ofile qs"
  have "refs xs f = sum_list (map (\<lambda>ds. count_list ds (Some f)) (map Sched.ofile xs))" for xs f by (simp add: refs_def comp_def)
  then show ?thesis by (simp only: fun_eq_iff a simp_thms)
qed

lemma refs_ge: "i < length ps \<Longrightarrow> count_list (Sched.ofile (ps ! i)) (Some f) \<le> refs ps f"
  unfolding refs_def by (intro member_le_sum_list) auto

text \<open>The file table has the reference counts \<open>r\<close>; its descriptors, those of the last caller, are in range.\<close>

definition tab_ok :: "(nat \<Rightarrow> int) \<Rightarrow> file_state \<Rightarrow> bool" where
  "tab_ok r s \<longleftrightarrow> fd_ok (\<lambda>f. r f - int (count_list (File.ofile s) (Some f))) s"

lemma tab_ok_iff:
  "tab_ok r s \<longleftrightarrow> length (ftable s) = NFILE \<and> length (File.ofile s) = NOFILE \<and> (\<forall>f. Some f \<in> set (File.ofile s) \<longrightarrow> f < NFILE)
     \<and> (\<forall>f < NFILE. fref (ftable s ! f) = r f) \<and> (\<forall>f < NFILE. fref (ftable s ! f) = 0 \<longrightarrow> ftype (ftable s ! f) = FD_NONE)"
  by (simp add: tab_ok_def fd_ok_def)

lemma tab_ok_rest: "rest t = rest s \<Longrightarrow> tab_ok r s \<Longrightarrow> tab_ok r t"
  by (simp add: tab_ok_iff rest_def)

lemma tab_ok_cong: "(\<And>f. f < NFILE \<Longrightarrow> r f = q f) \<Longrightarrow> tab_ok r s = tab_ok q s"
  by (simp add: tab_ok_iff)

lemma fileclose_tab:
  assumes "tab_ok r s" and "f < NFILE" and "fileclose f s = Ok t"
  shows "tab_ok (r(f := r f - 1)) t"
proof -
  let ?e = "\<lambda>g. (r(f := r f - 1)) g - int (count_list (File.ofile s) (Some g))"
  have "?e(f := ?e f + 1) = (\<lambda>g. r g - int (count_list (File.ofile s) (Some g)))" by (auto simp: fun_eq_iff)
  then have "fd_ok (?e(f := ?e f + 1)) s" using assms(1) by (simp add: tab_ok_def)
  from fileclose_fd [OF this assms(2,3)] show ?thesis by (simp add: tab_ok_def)
qed

lemma filedup_tab: "tab_ok r s \<Longrightarrow> f < NFILE \<Longrightarrow> filedup f s = Ok t \<Longrightarrow> tab_ok (r(f := r f + 1)) t"
  by (auto simp: tab_ok_iff filedup_def guardr_Ok_iff)

lemma dup_files_tab:
  "dup_files fds s = Ok t \<Longrightarrow> tab_ok r s \<Longrightarrow> (\<And>f. Some f \<in> set fds \<Longrightarrow> f < NFILE) \<Longrightarrow> tab_ok (\<lambda>f. r f + int (count_list fds (Some f))) t"
proof (induction fds s arbitrary: r rule: dup_files.induct)
  case (3 x fds f)
  obtain u where u: "filedup x f = Ok u" "dup_files fds u = Ok t" using 3(2) by (auto simp: bindr_Ok_iff)
  have "tab_ok (r(x := r x + 1)) u" using filedup_tab [OF 3(3) _ u(1)] 3(4) [of x] by simp
  from 3(1) [OF u(2) this] have "tab_ok (\<lambda>f. (r(x := r x + 1)) f + int (count_list fds (Some f))) t" using 3(4) by simp
  then show ?case by (rule iffD1 [OF tab_ok_cong, rotated]) auto
qed auto

section \<open>The invariant\<close>

definition idle :: "proc \<Rightarrow> bool" where
  "idle p \<longleftrightarrow> pstate p = UNUSED \<or> pstate p = ZOMBIE"

definition fds_ok :: "proc \<Rightarrow> bool" where
  "fds_ok p \<longleftrightarrow> length (Sched.ofile p) = NOFILE \<and> (\<forall>f. Some f \<in> set (Sched.ofile p) \<longrightarrow> f < NFILE)
     \<and> (idle p \<longrightarrow> Sched.ofile p = replicate NOFILE None)"

definition sys_inv :: "sys \<Rightarrow> bool" where
  "sys_inv s \<longleftrightarrow> length (procs (ks s)) = NPROC \<and> (\<forall>p \<in> set (procs (ks s)). fds_ok p) \<and> tab_ok (\<lambda>f. int (refs (procs (ks s)) f)) (fl s)"

lemma setp_simps [simp]:
  "procs (ks (setp i f s)) = (procs (ks s))[i := f (procs (ks s) ! i)]" "vm (setp i f s) = vm s" "fl (setp i f s) = fl s"
  by (simp_all add: setp_def)

lemma ks_setp: "ks (setp i f s) = upd_proc i f (ks s)"
  by (simp add: setp_def)

text \<open>Only the descriptors, the states and the file table matter.\<close>

lemma sys_inv_cong:
  assumes "sys_inv s" and "map Sched.ofile (procs (ks t)) = map Sched.ofile (procs (ks s))"
    and "\<And>p. p \<in> set (procs (ks t)) \<Longrightarrow> idle p \<Longrightarrow> Sched.ofile p = replicate NOFILE None" and "rest (fl t) = rest (fl s)"
  shows "sys_inv t"
proof -
  have len: "length (procs (ks t)) = length (procs (ks s))" using assms(2) by (metis length_map)
  have "fds_ok p" if "p \<in> set (procs (ks t))" for p
  proof -
    have "Sched.ofile p \<in> set (map Sched.ofile (procs (ks s)))" using that assms(2) by (metis image_eqI set_map)
    then show ?thesis using assms(1) assms(3) [OF that] by (auto simp: sys_inv_def fds_ok_def)
  qed
  then show ?thesis using assms(1) refs_cong [OF assms(2)] len tab_ok_rest [OF assms(4)] by (simp add: sys_inv_def)
qed

lemma sys_invD: "sys_inv s \<Longrightarrow> i < NPROC \<Longrightarrow> fds_ok (procs (ks s) ! i)" "sys_inv s \<Longrightarrow> length (procs (ks s)) = NPROC"
  by (simp_all add: sys_inv_def)

lemma enter_fl_tab:
  assumes "tab_ok r f" and "fds_ok p"
  shows "tab_ok r (enter_fl p f)"
  using assms by (auto simp: tab_ok_iff enter_fl_def fds_ok_def)

text \<open>The process a call is made by: it is not idle, so it is not the slot a fork takes.\<close>

definition runs :: "nat \<Rightarrow> sys \<Rightarrow> bool" where
  "runs c s \<longleftrightarrow> c < NPROC \<and> pstate (procs (ks s) ! c) = RUNNING \<and> (\<exists>k. myproc (ks s) = Ok (Some c, k))"

lemma curproc_runs:
  assumes "runs c s" and "curproc s = Ok (d, t)"
  shows "d = c" "procs (ks t) = procs (ks s)" "fl t = enter_fl (procs (ks s) ! c) (fl s)" "vm t = vm s"
proof -
  obtain k where k: "myproc (ks s) = Ok (Some c, k)" using assms(1) by (auto simp: runs_def)
  have "d = c \<and> t = s\<lparr>ks := k, fl := enter_fl (procs k ! c) (fl s)\<rparr>" using assms(2) unfolding curproc_def k by auto
  then show "d = c" "procs (ks t) = procs (ks s)" "fl t = enter_fl (procs (ks s) ! c) (fl s)" "vm t = vm s"
    using myproc_procs [OF k] by simp_all
qed

lemma curproc_inv:
  assumes "runs c s" and "curproc s = Ok (d, t)" and "sys_inv s"
  shows "sys_inv t" "File.ofile (fl t) = Sched.ofile (procs (ks t) ! c)"
proof -
  note q = curproc_runs [OF assms(1,2)]
  have "fds_ok (procs (ks s) ! c)" using sys_invD(1) [OF assms(3)] assms(1) by (simp add: runs_def)
  then show "sys_inv t" using assms(3) enter_fl_tab by (simp add: sys_inv_def q)
  show "File.ofile (fl t) = Sched.ofile (procs (ks t) ! c)" by (simp add: q enter_fl_def)
qed

section \<open>Calls of the file layer\<close>

lemma file_call_inv:
  assumes "file_call op s = Ok (r, t)" and "runs c s" and "sys_inv s"
    and op: "\<And>e f r g. op f = Ok (r, g) \<Longrightarrow> fd_ok e f \<Longrightarrow> (\<And>x. 0 \<le> e x) \<Longrightarrow> fd_ok e g"
  shows "sys_inv t"
proof -
  obtain d s1 g where q: "curproc s = Ok (d, s1)" "op (fl s1) = Ok (r, g)"
      "t = setp d (\<lambda>p. p\<lparr>Sched.ofile := File.ofile g, Sched.cwd := Some (Fs.cwd g)\<rparr>) (s1\<lparr>fl := g\<rparr>)"
    using assms(1) by (auto simp: file_call_def bindr_Ok_iff)
  note c = curproc_runs [OF assms(2) q(1)] and i = curproc_inv [OF assms(2) q(1) assms(3)]
  let ?ps = "procs (ks s1)" and ?e = "\<lambda>f. int (refs (procs (ks s1)) f) - int (count_list (Sched.ofile (procs (ks s1) ! c)) (Some f))"
  have len: "length ?ps = NPROC" "c < NPROC" "\<not> idle (?ps ! c)" using i(1) assms(2) c(2) by (auto simp: sys_inv_def runs_def idle_def)
  have "fd_ok ?e (fl s1)" using i by (simp add: sys_inv_def tab_ok_def)
  moreover have "0 \<le> ?e x" for x using refs_ge [of c ?ps x] len by simp
  ultimately have g: "fd_ok ?e g" using op [OF q(2)] by blast
  let ?p = "(?ps ! c)\<lparr>Sched.ofile := File.ofile g, Sched.cwd := Some (Fs.cwd g)\<rparr>"
  have ps: "procs (ks t) = ?ps[c := ?p]" "fl t = g" using q(3) c(1) by simp_all
  have "fds_ok ?p" using fd_okD [OF g] len(3) by (simp add: fds_ok_def idle_def)
  then have "\<forall>p \<in> set (procs (ks t)). fds_ok p" using i(1) set_update_subset_insert [of ?ps c ?p] by (auto simp: ps(1) sys_inv_def)
  moreover have "tab_ok (\<lambda>f. int (refs (procs (ks t)) f)) (fl t)"
    using g len by (simp add: ps tab_ok_def refs_upd)
  ultimately show ?thesis using ps len by (simp add: sys_inv_def)
qed

section \<open>Fork\<close>

lemma alloc_slot_table:
  assumes "alloc_slot k = Ok (io, k1)"
  shows "case io of None \<Rightarrow> procs k1 = procs k
    | Some i \<Rightarrow> i < length (procs k) \<and> pstate (procs k ! i) = UNUSED \<and> (\<exists>n. procs k1 = (procs k)[i := (procs k ! i)\<lparr>pstate := EMBRYO, pid := n\<rparr>])"
proof -
  obtain k0 where k0: "acquire_ptable k = Ok k0" "procs k0 = procs k" using assms by (auto simp: alloc_slot_def bindr_Ok_iff dest: procs_dest)
  show ?thesis
  proof (cases "first_idx (\<lambda>p. pstate p = UNUSED) (procs k)")
    case None
    then show ?thesis using assms k0 by (auto simp: alloc_slot_def bindr_Ok_iff dest!: release_ptable_procs)
  next
    case (Some i)
    then have "io = Some i" "procs k1 = (procs k)[i := (procs k ! i)\<lparr>pstate := EMBRYO, pid := nextpid k0\<rparr>]"
      using assms k0 by (auto simp: alloc_slot_def bindr_Ok_iff dest!: release_ptable_procs)
    then show ?thesis using first_idx_SomeD [OF Some] by auto
  qed
qed

lemma allocproc_table:
  assumes "allocproc s = Ok (io, t)"
  shows "fl t = fl s \<and> (case io of
      None \<Rightarrow> map Sched.ofile (procs (ks t)) = map Sched.ofile (procs (ks s)) \<and> map idle (procs (ks t)) = map idle (procs (ks s))
    | Some i \<Rightarrow> i < length (procs (ks s)) \<and> pstate (procs (ks s) ! i) = UNUSED
        \<and> (\<exists>p. procs (ks t) = (procs (ks s))[i := p] \<and> Sched.ofile p = Sched.ofile (procs (ks s) ! i)))"
proof -
  obtain jo k1 where a: "alloc_slot (ks s) = Ok (jo, k1)" using assms by (auto simp: allocproc_def bindr_Ok_iff)
  note k1 = alloc_slot_table [OF a]
  show ?thesis
  proof (cases jo)
    case None
    then show ?thesis using assms k1 by (auto simp: allocproc_def a)
  next
    case (Some i)
    obtain n where n: "i < length (procs (ks s))" "pstate (procs (ks s) ! i) = UNUSED" "procs k1 = (procs (ks s))[i := (procs (ks s) ! i)\<lparr>pstate := EMBRYO, pid := n\<rparr>]"
      using k1 Some by auto
    obtain st v1 where v: "kalloc (vm s) = (st, v1)" by fastforce
    show ?thesis
    proof (cases "st = 0")
      case True
      then have t: "io = None" "fl t = fl s" "procs (ks t) = (procs (ks s))[i := (procs (ks s) ! i)\<lparr>pid := n, kstack := 0, pstate := UNUSED\<rparr>]"
        using assms n v by (auto simp: allocproc_def a Some)
      have "map idle (procs (ks t)) = map idle (procs (ks s))" using n(1,2) by (simp add: t map_update idle_def list_update_same_conv)
      moreover have "map Sched.ofile (procs (ks t)) = map Sched.ofile (procs (ks s))" using n(1) by (simp add: t map_update list_update_same_conv)
      ultimately show ?thesis using t by simp
    next
      case False
      then have t: "io = Some i" "fl t = fl s" "procs (ks t) = (procs (ks s))[i := reset_sched 0 (ticks k1) ((procs (ks s) ! i)\<lparr>pstate := EMBRYO, pid := n, kstack := st\<rparr>)]"
        using assms n v by (auto simp: allocproc_def a Some)
      then show ?thesis using n(1,2) by (auto simp: reset_sched_def)
    qed
  qed
qed

lemma inherit_none: "length fds = n \<Longrightarrow> inherit (replicate n None) fds = fds"
  by (auto simp: inherit_def intro!: nth_equalityI)

lemma count_none [simp]: "count_list (replicate n None) (Some f) = 0"
  by (induction n) auto

lemma idle_cong:
  assumes "sys_inv s" and "map Sched.ofile qs = map Sched.ofile (procs (ks s))" and "map idle qs = map idle (procs (ks s))"
    and "p \<in> set qs" and "idle p"
  shows "Sched.ofile p = replicate NOFILE None"
proof -
  obtain i where i: "i < length qs" "p = qs ! i" using assms(4) by (auto simp: in_set_conv_nth)
  have "length qs = length (procs (ks s))" using assms(2) by (metis length_map)
  then have "Sched.ofile p = Sched.ofile (procs (ks s) ! i)" "idle (procs (ks s) ! i)" "i < NPROC"
    using i assms by (metis nth_map, metis nth_map, simp add: sys_inv_def)
  then show ?thesis using sys_invD(1) [OF assms(1)] by (simp add: fds_ok_def)
qed

lemma sys_inv_same:
  assumes "sys_inv s" and "map Sched.ofile (procs (ks t)) = map Sched.ofile (procs (ks s))" and "map idle (procs (ks t)) = map idle (procs (ks s))"
    and "rest (fl t) = rest (fl s)"
  shows "sys_inv t"
  by (rule sys_inv_cong [OF assms(1,2) _ assms(4)]) (rule idle_cong [OF assms(1-3)])

text \<open>A slot that is not in use gets the descriptors of a process, each with another reference.\<close>

lemma new_process_inv:
  assumes "sys_inv s" and "i < NPROC" and "pstate (procs (ks s) ! i) = UNUSED" and "c < NPROC"
    and "procs (ks t) = (procs (ks s))[i := p]" and "Sched.ofile p = Sched.ofile (procs (ks s) ! c)" and "\<not> idle p"
    and "tab_ok (\<lambda>f. int (refs (procs (ks s)) f) + int (count_list (Sched.ofile (procs (ks s) ! c)) (Some f))) (fl t)"
  shows "sys_inv t"
proof -
  let ?ps = "procs (ks s)"
  have len: "length ?ps = NPROC" using sys_invD(2) [OF assms(1)] .
  have "Sched.ofile (?ps ! i) = replicate NOFILE None" using sys_invD(1) [OF assms(1,2)] assms(3) by (simp add: fds_ok_def idle_def)
  then have "int (refs (procs (ks t)) f) = int (refs ?ps f) + int (count_list (Sched.ofile (?ps ! c)) (Some f))" for f
    using refs_upd [of i ?ps p f] assms(2,5,6) len by simp
  moreover have "fds_ok p" using sys_invD(1) [OF assms(1,4)] assms(6,7) by (simp add: fds_ok_def)
  then have "\<forall>q \<in> set (procs (ks t)). fds_ok q" using assms(1,5) set_update_subset_insert [of ?ps i p] by (auto simp: sys_inv_def)
  ultimately show ?thesis using assms(5,8) len by (simp add: sys_inv_def)
qed

lemma fork_publish_table:
  "fork_publish c i k = Ok k1 \<Longrightarrow> \<exists>q. procs k1 = (procs k)[i := (procs k ! i)\<lparr>queue := q, pstate := RUNNABLE\<rparr>]"
  by (auto simp: fork_publish_def bindr_Ok_iff dest!: procs_dest)

lemma fork_inv:
  assumes "fork s = Ok (r, t)" and "runs c s" and "sys_inv s"
  shows "sys_inv t"
proof -
  obtain d s1 io s2 where q: "curproc s = Ok (d, s1)" "allocproc s1 = Ok (io, s2)" using assms(1) by (auto simp: fork_def bindr_Ok_iff)
  note c = curproc_runs [OF assms(2) q(1)] and s1 = curproc_inv(1) [OF assms(2) q(1) assms(3)] and a = allocproc_table [OF q(2)]
  let ?ps = "procs (ks s1)"
  have cur: "c < NPROC" "pstate (?ps ! c) = RUNNING" "length ?ps = NPROC" using assms(2) c(2) sys_invD(2) [OF s1] by (auto simp: runs_def)
  show ?thesis
  proof (cases io)
    case None
    then have "t = s2" using assms(1) q by (simp add: fork_def)
    then show ?thesis using a None by (intro sys_inv_same [OF s1]) simp_all
  next
    case (Some i)
    obtain p where p: "i < NPROC" "pstate (?ps ! i) = UNUSED" "procs (ks s2) = ?ps[i := p]" "Sched.ofile p = Sched.ofile (?ps ! i)"
      using a Some cur(3) by auto
    have none: "Sched.ofile (?ps ! i) = replicate NOFILE None" using sys_invD(1) [OF s1 p(1)] p(2) by (simp add: fds_ok_def idle_def)
    have ne: "i \<noteq> c" using p(2) cur(2) by auto
    have pc: "procs (ks s2) ! c = ?ps ! c" using p(3) ne by simp
    have fc: "fds_ok (?ps ! c)" using sys_invD(1) [OF s1 cur(1)] .
    obtain d2 v1 where v: "copyuvm (pgdir (?ps ! c)) (sz (?ps ! c)) (vm s2) = Ok (d2, v1)"
      using assms(1) q Some c(1) pc by (auto simp: fork_def bindr_Ok_iff)
    show ?thesis
    proof (cases "d2 = 0")
      case True
      obtain v2 where t: "t = setp i (\<lambda>p. p\<lparr>pgdir := 0, kstack := 0, pstate := UNUSED\<rparr>) (s2\<lparr>vm := v2\<rparr>)"
        using assms(1) q Some c(1) pc v True by (auto simp: fork_def bindr_Ok_iff)
      have ps: "procs (ks t) = ?ps[i := p\<lparr>pgdir := 0, kstack := 0, pstate := UNUSED\<rparr>]" using t p cur by simp
      have "map Sched.ofile (procs (ks t)) = map Sched.ofile ?ps" "map idle (procs (ks t)) = map idle ?ps"
        using p cur by (auto simp: ps map_update idle_def intro!: list_update_same_conv [THEN iffD2])
      then show ?thesis using a t by (intro sys_inv_same [OF s1]) simp_all
    next
      case False
      obtain f1 ip k s3 where f: "dup_files (Sched.ofile (?ps ! c)) (fl s2) = Ok f1"
          "s3 = setp i (\<lambda>p. p\<lparr>pgdir := d2, sz := sz (?ps ! c), parent := Some c, tf := (tf (?ps ! c))\<lparr>tf_eax := 0\<rparr>,
             Sched.ofile := inherit (Sched.ofile p) (Sched.ofile (?ps ! c)), Sched.cwd := Some ip, pname := pname (?ps ! c)\<rparr>) (s2\<lparr>vm := v1, fl := idup ip f1\<rparr>)"
          "fork_publish c i (ks s3) = Ok k" "t = s3\<lparr>ks := k\<rparr>"
        using assms(1) q Some c(1) pc v False by (auto simp: fork_def bindr_Ok_iff Let_def split: option.splits)
      obtain qq where k: "procs k = (procs (ks s3))[i := (procs (ks s3) ! i)\<lparr>queue := qq, pstate := RUNNABLE\<rparr>]" using fork_publish_table [OF f(3)] by auto
      have "tab_ok (\<lambda>f. int (refs ?ps f)) (fl s2)" using s1 a by (simp add: sys_inv_def)
      from dup_files_tab [OF f(1) this] have "tab_ok (\<lambda>f. int (refs ?ps f) + int (count_list (Sched.ofile (?ps ! c)) (Some f))) f1" using fc by (simp add: fds_ok_def)
      then have tab: "tab_ok (\<lambda>f. int (refs ?ps f) + int (count_list (Sched.ofile (?ps ! c)) (Some f))) (fl t)"
        using f(2,4) tab_ok_rest [of "idup ip f1" f1] by (simp add: rest_def idup_def upd_inode_def)
      have inh: "inherit (Sched.ofile p) (Sched.ofile (?ps ! c)) = Sched.ofile (?ps ! c)"
        using inherit_none [of "Sched.ofile (?ps ! c)" NOFILE] fc none p(4) by (simp add: fds_ok_def)
      have "\<exists>x. procs (ks t) = ?ps[i := x] \<and> Sched.ofile x = Sched.ofile (?ps ! c) \<and> pstate x = RUNNABLE"
        using f(2,4) k p cur inh by simp (rule exI, rule conjI, rule refl, simp)
      then show ?thesis using new_process_inv [OF s1 p(1,2) cur(1) _ _ _ tab] by (auto simp: idle_def)
    qed
  qed
qed

section \<open>Exit and wait\<close>

lemma exit_close_inv:
  assumes "exit_close c fd s = Ok t" and "sys_inv s" and "c < NPROC" and "fd < NOFILE"
  shows "sys_inv t" "Sched.ofile (procs (ks t) ! c) = (Sched.ofile (procs (ks s) ! c))[fd := None]"
    "ks t = (ks s)\<lparr>procs := (procs (ks s))[c := (procs (ks s) ! c)\<lparr>Sched.ofile := (Sched.ofile (procs (ks s) ! c))[fd := None]\<rparr>]\<rparr>"
proof -
  let ?ps = "procs (ks s)" and ?p = "procs (ks s) ! c"
  have len: "length ?ps = NPROC" and ok: "fds_ok ?p" using sys_invD [OF assms(2)] assms(3) by auto
  have "sys_inv t \<and> ks t = (ks s)\<lparr>procs := ?ps[c := ?p\<lparr>Sched.ofile := (Sched.ofile ?p)[fd := None]\<rparr>]\<rparr>"
  proof (cases "Sched.ofile ?p ! fd")
    case None
    then have "t = s" "(Sched.ofile ?p)[fd := None] = Sched.ofile ?p"
      using assms(1) by (auto simp: exit_close_def) (metis list_update_id)
    then show ?thesis using assms(2) by simp
  next
    case (Some f)
    obtain f1 where f1: "fileclose f (fl s) = Ok f1" "t = setp c (\<lambda>p. p\<lparr>Sched.ofile := (Sched.ofile p)[fd := None]\<rparr>) (s\<lparr>fl := f1\<rparr>)"
      using assms(1) Some by (auto simp: exit_close_def bindr_Ok_iff)
    let ?q = "?p\<lparr>Sched.ofile := (Sched.ofile ?p)[fd := None]\<rparr>"
    have mem: "Some f \<in> set (Sched.ofile ?p)" using Some ok assms(4) by (metis fds_ok_def nth_mem)
    then have f: "f < NFILE" using ok by (simp add: fds_ok_def)
    have "tab_ok (\<lambda>g. int (refs ?ps g)) (fl s)" using assms(2) by (simp add: sys_inv_def)
    from fileclose_tab [OF this f f1(1)] have "tab_ok (\<lambda>g. int (refs (?ps[c := ?q]) g)) f1"
      by (rule iffD1 [OF tab_ok_cong, rotated])
        (use assms(3,4) len ok Some in \<open>auto simp: refs_upd count_list_upd fds_ok_def\<close>)
    moreover have "fds_ok ?q"
    proof -
      have "\<not> idle ?p" using ok Some assms(4) by (auto simp: fds_ok_def)
      moreover have "x \<in> set ((Sched.ofile ?p)[fd := None]) \<Longrightarrow> x = None \<or> x \<in> set (Sched.ofile ?p)" for x
        using set_update_subset_insert [of "Sched.ofile ?p" fd None] by auto
      ultimately show ?thesis using ok by (auto simp: fds_ok_def idle_def)
    qed
    then have "\<forall>x \<in> set (?ps[c := ?q]). fds_ok x" using assms(2) set_update_subset_insert [of ?ps c ?q] by (auto simp: sys_inv_def)
    ultimately show ?thesis using f1(2) len by (simp add: sys_inv_def ks_setp upd_proc_def)
  qed
  then show "sys_inv t" "ks t = (ks s)\<lparr>procs := ?ps[c := ?p\<lparr>Sched.ofile := (Sched.ofile ?p)[fd := None]\<rparr>]\<rparr>" by auto
  then show "Sched.ofile (procs (ks t) ! c) = (Sched.ofile ?p)[fd := None]" using len assms(3) by simp
qed

lemma exit_close_all:
  "forr fds (exit_close c) s = Ok t \<Longrightarrow> sys_inv s \<Longrightarrow> c < NPROC \<Longrightarrow> \<forall>fd \<in> set fds. fd < NOFILE \<Longrightarrow>
   sys_inv t \<and> Sched.ofile (procs (ks t) ! c) = fold (\<lambda>fd ds. ds[fd := None]) fds (Sched.ofile (procs (ks s) ! c))
   \<and> map idle (procs (ks t)) = map idle (procs (ks s)) \<and> (\<forall>i. i \<noteq> c \<longrightarrow> procs (ks t) ! i = procs (ks s) ! i)"
proof (induction fds arbitrary: s)
  case (Cons fd fds)
  obtain u where u: "exit_close c fd s = Ok u" "forr fds (exit_close c) u = Ok t" using Cons.prems(1) by (auto simp: bindr_Ok_iff)
  note i = exit_close_inv [OF u(1) Cons.prems(2,3)]
  have fd: "fd < NOFILE" using Cons.prems(4) by simp
  have "map idle (procs (ks u)) = map idle (procs (ks s))" using i(3) [OF fd] sys_invD(2) [OF Cons.prems(2)] Cons.prems(3)
    by (simp add: map_update idle_def list_update_same_conv)
  moreover have "j \<noteq> c \<Longrightarrow> procs (ks u) ! j = procs (ks s) ! j" for j using i(3) [OF fd] by simp
  ultimately show ?case using Cons.IH [OF u(2) i(1) [OF fd] Cons.prems(3)] Cons.prems(4) i(2) [OF fd] by simp
qed simp

lemma clear_all: "length ds = n \<Longrightarrow> fold (\<lambda>fd ds. ds[fd := None]) [0..<n] ds = replicate n None"
proof -
  assume n: "length ds = n"
  have "length (fold (\<lambda>fd ds. ds[fd := None]) xs es) = length es" for xs and es :: "'a option list" by (induction xs arbitrary: es) auto
  moreover have "k \<le> n \<Longrightarrow> j < n \<Longrightarrow> fold (\<lambda>fd ds. ds[fd := None]) [0..<k] ds ! j = (if j < k then None else ds ! j)" for k j
  proof (induction k)
    case (Suc k)
    then show ?case using n calculation [of "[0..<k]" ds] by (auto simp: nth_list_update less_Suc_eq)
  qed simp
  ultimately show ?thesis using n by (intro nth_equalityI) auto
qed

lemma sys_inv_mono:
  assumes "sys_inv s" and "map Sched.ofile (procs (ks t)) = map Sched.ofile (procs (ks s))" and "rest (fl t) = rest (fl s)"
    and "\<And>i. i < NPROC \<Longrightarrow> idle (procs (ks t) ! i) \<Longrightarrow> \<not> idle (procs (ks s) ! i) \<Longrightarrow> Sched.ofile (procs (ks t) ! i) = replicate NOFILE None"
  shows "sys_inv t"
proof (rule sys_inv_cong [OF assms(1,2) _ assms(3)])
  fix p
  assume p: "p \<in> set (procs (ks t))" "idle p"
  have len: "length (procs (ks t)) = NPROC" "length (procs (ks s)) = NPROC" using assms(2) sys_invD(2) [OF assms(1)] by (metis length_map)+
  then obtain i where i: "i < NPROC" "p = procs (ks t) ! i" using p(1) by (auto simp: in_set_conv_nth)
  have "Sched.ofile (procs (ks t) ! i) = Sched.ofile (procs (ks s) ! i)" using assms(2) i(1) len by (metis nth_map)
  then show "Sched.ofile p = replicate NOFILE None" using i p(2) assms(4) sys_invD(1) [OF assms(1) i(1)] by (auto simp: fds_ok_def)
qed

lemma wakeup1_table: "map Sched.ofile (procs (wakeup1 ch k)) = map Sched.ofile (procs k)" "map idle (procs (wakeup1 ch k)) = map idle (procs k)"
  by (simp_all add: wakeup1_def wake_if_def idle_def)

lemma reparent1_table:
  "map Sched.ofile (procs (reparent1 c ini j k)) = map Sched.ofile (procs k)" "map idle (procs (reparent1 c ini j k)) = map idle (procs k)"
  by (cases "j < length (procs k)"; simp add: reparent1_def Let_def wakeup1_table map_update idle_def list_update_same_conv list_update_beyond)+

lemma reparent_table: "map Sched.ofile (procs (reparent c k)) = map Sched.ofile (procs k)" "map idle (procs (reparent c k)) = map idle (procs k)"
proof -
  have "map Sched.ofile (procs (fold (reparent1 c ini) js k)) = map Sched.ofile (procs k) \<and> map idle (procs (fold (reparent1 c ini) js k)) = map idle (procs k)" for js ini
    by (induction js arbitrary: k) (simp_all add: reparent1_table)
  then show "map Sched.ofile (procs (reparent c k)) = map Sched.ofile (procs k)" "map idle (procs (reparent c k)) = map idle (procs k)"
    by (simp_all add: reparent_def)
qed

lemma exit_table_table:
  assumes "exit_table c k = Ok (ie, k1)" and "c < length (procs k)"
  shows "map Sched.ofile (procs k1) = map Sched.ofile (procs k)" "\<And>i. i < length (procs k) \<Longrightarrow> i \<noteq> c \<Longrightarrow> idle (procs k1 ! i) = idle (procs k ! i)"
    "pstate (procs k1 ! c) = ZOMBIE"
proof -
  obtain k0 where k0: "acquire_ptable k = Ok k0" using assms(1) by (auto simp: exit_table_def bindr_Ok_iff)
  define k2 where "k2 = reparent c (wakeup1 (map_option Ch_proc (parent (procs k0 ! c))) k0)"
  have p: "procs k1 = (procs k2)[c := (procs k2 ! c)\<lparr>pstate := ZOMBIE\<rparr>]"
    using assms(1) k0 by (auto simp: exit_table_def Let_def k2_def bindr_Ok_iff dest!: sched_procs)
  have t: "map Sched.ofile (procs k2) = map Sched.ofile (procs k)" "map idle (procs k2) = map idle (procs k)"
    using acquire_ptable_procs [OF k0] by (simp_all add: k2_def reparent_table wakeup1_table)
  then have len: "length (procs k2) = length (procs k)" by (metis length_map)
  then show "map Sched.ofile (procs k1) = map Sched.ofile (procs k)" 
    using p t(1) assms(2) by (simp add: map_update list_update_same_conv) (metis nth_map)
  show "pstate (procs k1 ! c) = ZOMBIE" using p len assms(2) by simp
  fix i
  assume "i < length (procs k)" "i \<noteq> c"
  then show "idle (procs k1 ! i) = idle (procs k ! i)" using p t(2) len by simp (metis nth_map)
qed

lemma exit_inv:
  assumes "exit s = Ok (ie, t)" and "runs c s" and "sys_inv s"
  shows "sys_inv t" and "Sched.ofile (procs (ks t) ! c) = replicate NOFILE None" and "pstate (procs (ks t) ! c) = ZOMBIE"
proof -
  obtain d s1 s2 ip f1 f2 f3 k where q: "curproc s = Ok (d, s1)" "forr [0..<NOFILE] (exit_close d) s1 = Ok s2"
      "begin_op (fl s2) = Ok f1" "iput ip f1 = Ok f2" "end_op f2 = Ok f3"
      "exit_table d (ks (setp d (\<lambda>p. p\<lparr>Sched.cwd := None\<rparr>) s2)) = Ok (ie, k)" "t = s2\<lparr>ks := k, fl := f3\<rparr>"
    using assms(1) by (auto simp: exit_def bindr_Ok_iff guardr_Ok_iff split: option.splits)
  note c = curproc_runs [OF assms(2) q(1)] and s1 = curproc_inv(1) [OF assms(2) q(1) assms(3)]
  have cn: "c < NPROC" using assms(2) by (simp add: runs_def)
  note a = exit_close_all [OF q(2) s1, unfolded c(1), OF cn]
  then have s2: "sys_inv s2" and none: "Sched.ofile (procs (ks s2) ! c) = replicate NOFILE None"
    using clear_all [of "Sched.ofile (procs (ks s1) ! c)" NOFILE] sys_invD(1) [OF s1 cn] by (auto simp: fds_ok_def)
  have len: "length (procs (ks s2)) = NPROC" using sys_invD(2) [OF s2] .
  note e = exit_table_table [OF q(6) [unfolded c(1)], simplified, unfolded len, OF cn]
  have o: "map Sched.ofile (procs (ks t)) = map Sched.ofile (procs (ks s2))" using e(1) len cn by (simp add: q(7) map_update list_update_same_conv)
  have ot: "Sched.ofile (procs (ks t) ! c) = replicate NOFILE None" using o none len cn by (metis length_map nth_map)
  have "rest (fl t) = rest (fl s2)" using q(3-5,7) by (auto dest!: rest_dest)
  then show "sys_inv t" using sys_inv_mono [OF s2 o] e(2) ot len by (auto simp: q(7))
  show "Sched.ofile (procs (ks t) ! c) = replicate NOFILE None" "pstate (procs (ks t) ! c) = ZOMBIE" using ot e(3) by (simp_all add: q(7))
qed

lemma release_inv:
  assumes "bindr (release_ptable (ks s)) (\<lambda>k. Ok (r, s\<lparr>ks := k\<rparr>)) = Ok (w, t)" and "sys_inv s"
  shows "sys_inv t"
  using assms by (auto simp: bindr_Ok_iff sys_inv_def dest!: release_ptable_procs)

lemma sleep_table:
  assumes "sleep ch Ptable_lk k = Ok (ie, lk, k1)"
  shows "\<exists>p. procs k1 = (procs k)[p := (procs k ! p)\<lparr>chan := ch, pstate := SLEEPING\<rparr>]"
  using assms by (auto simp: sleep_def bindr_Ok_iff split: option.splits dest!: procs_dest) (rule exI, rule refl)

lemma wait_round_inv:
  assumes "wait_round c s = Ok (w, t)" and "sys_inv s"
  shows "sys_inv t"
proof (cases "wait_scan c (procs (ks s))")
  case (Zombie i)
  let ?ps = "procs (ks s)"
  have i: "i < length ?ps" "pstate (?ps ! i) = ZOMBIE" using Zombie
    by (auto simp: wait_scan_def split: option.splits if_splits dest!: first_idx_SomeD)
  obtain v2 where w: "bindr (release_ptable (ks (setp i (wait_reap (ticks (ks s))) (s\<lparr>vm := v2\<rparr>))))
      (\<lambda>k. Ok (Reaped (pid (?ps ! i)), (setp i (wait_reap (ticks (ks s))) (s\<lparr>vm := v2\<rparr>))\<lparr>ks := k\<rparr>)) = Ok (w, t)"
    using assms(1) Zombie by (auto simp: wait_round_def Let_def bindr_Ok_iff)
  have "sys_inv (setp i (wait_reap (ticks (ks s))) (s\<lparr>vm := v2\<rparr>))"
    by (rule sys_inv_same [OF assms(2)]) (use i in \<open>auto simp: map_update wait_reap_def reset_sched_def idle_def list_update_same_conv\<close>)
  then show ?thesis using release_inv [OF w] by blast
next
  case No_kids
  then show ?thesis using assms release_inv by (auto simp: wait_round_def Let_def)
next
  case Kids
  show ?thesis
  proof (cases "killed (procs (ks s) ! c)")
    case True
    then show ?thesis using assms Kids release_inv by (auto simp: wait_round_def Let_def)
  next
    case False
    obtain ie lk k where k: "sleep (Some (Ch_proc c)) Ptable_lk (ks s) = Ok (ie, lk, k)" "t = s\<lparr>ks := k\<rparr>"
      using assms(1) Kids False by (auto simp: wait_round_def Let_def bindr_Ok_iff)
    obtain p where p: "procs k = (procs (ks s))[p := (procs (ks s) ! p)\<lparr>chan := Some (Ch_proc c), pstate := SLEEPING\<rparr>]"
      using sleep_table [OF k(1)] by auto
    show ?thesis
      by (rule sys_inv_mono [OF assms(2)])
        (use k(2) p sys_invD(2) [OF assms(2)] in \<open>cases "p < NPROC"; auto simp: map_update list_update_same_conv idle_def nth_list_update list_update_beyond split: if_splits\<close>)+
  qed
qed

lemma wait_inv:
  assumes "wait s = Ok (w, t)" and "runs c s" and "sys_inv s"
  shows "sys_inv t"
proof -
  obtain d s1 k where q: "curproc s = Ok (d, s1)" "acquire_ptable (ks s1) = Ok k" "wait_round d (s1\<lparr>ks := k\<rparr>) = Ok (w, t)"
    using assms(1) by (auto simp: wait_def bindr_Ok_iff)
  have "sys_inv (s1\<lparr>ks := k\<rparr>)" using curproc_inv(1) [OF assms(2) q(1) assms(3)] acquire_ptable_procs [OF q(2)] by (simp add: sys_inv_def)
  then show ?thesis using wait_round_inv [OF q(3)] by blast
qed

lemma wait_wake_inv:
  assumes "wait_wake c ie s = Ok (w, t)" and "sys_inv s" and "c < NPROC"
  shows "sys_inv t"
proof -
  obtain k where q: "sleep_wake c ie Ptable_lk (ks s) = Ok k" "wait_round c (s\<lparr>ks := k\<rparr>) = Ok (w, t)"
    using assms(1) by (auto simp: wait_wake_def bindr_Ok_iff)
  have "procs k = (procs (ks s))[c := (procs (ks s) ! c)\<lparr>chan := None\<rparr>]"
    using q(1) by (auto simp: sleep_wake_def sched_resume_def Let_def bindr_Ok_iff)
  then have "sys_inv (s\<lparr>ks := k\<rparr>)"
    by (intro sys_inv_same [OF assms(2)]) (use assms(3) sys_invD(2) [OF assms(2)] in \<open>auto simp: map_update idle_def list_update_same_conv\<close>)
  then show ?thesis using wait_round_inv [OF q(2)] by blast
qed

end
