(* ===== verification/Exec.thy ===== *)
theory Exec
  imports Proc_Refs
begin

text \<open>
  \<^verbatim>\<open>exec\<close> (\<^verbatim>\<open>exec.c\<close>, \<^verbatim>\<open>elf.h\<close>): a new image is built from a file beside the old one, which it replaces in the last steps. The
  argument strings are given by their bytes.
\<close>

section \<open>Headers\<close>

definition ELF_MAGIC :: uint where "ELF_MAGIC = 0x464C457F"
definition ELF_PROG_LOAD :: uint where "ELF_PROG_LOAD = 1"
definition MAXARG :: nat where "MAXARG = 32"

record elfhdr =
  e_magic :: uint
  e_entry :: uint
  e_phoff :: uint
  e_phnum :: "16 word"

definition get_elfhdr :: "byte list \<Rightarrow> elfhdr" where
  "get_elfhdr b = \<lparr>e_magic = get32 b 0, e_entry = get32 b 24, e_phoff = get32 b 28, e_phnum = get16 b 44\<rparr>"

record proghdr =
  p_type :: uint
  p_off :: uint
  p_vaddr :: uint
  p_filesz :: uint
  p_memsz :: uint

definition get_proghdr :: "byte list \<Rightarrow> proghdr" where
  "get_proghdr b = \<lparr>p_type = get32 b 0, p_off = get32 b 4, p_vaddr = get32 b 8, p_filesz = get32 b 16, p_memsz = get32 b 20\<rparr>"

section \<open>Loading\<close>

text \<open>\<^verbatim>\<open>loaduvm\<close> with the \<^verbatim>\<open>readi\<close> of the file system.\<close>

fun load_pages :: "nat \<Rightarrow> unit fdev \<Rightarrow> nat \<Rightarrow> uint \<Rightarrow> uint \<Rightarrow> uint \<Rightarrow> uint \<Rightarrow> uint \<Rightarrow> sys \<Rightarrow> (int \<times> sys) res" where
  "load_pages 0 dv ip pd addr offset n0 i s = Block"
| "load_pages (Suc k) dv ip pd addr offset n0 i s =
     (if i < n0 then
        let (pte, v1) = walkpgdir pd (addr + i) False (vm s) in
        guardr (pte \<noteq> 0) ''loaduvm: address should exist''
        (let pa = PTE_ADDR (load32 (kmemory v1) pte); n = (if n0 - i < PGSIZE then n0 - i else PGSIZE) in
         bindr (readi dv ip (offset + i) n (fl s)) (\<lambda>(r, bs, f1).
           let s1 = s\<lparr>vm := v1\<lparr>kmemory := store_bytes (kmemory v1) (P2V pa) bs\<rparr>, fl := f1\<rparr> in
           if r \<noteq> int (unat n) then Ok (-1, s1) else load_pages k dv ip pd addr offset n0 (i + PGSIZE) s1))
      else Ok (0, s))"

definition load_segment :: "unit fdev \<Rightarrow> nat \<Rightarrow> uint \<Rightarrow> uint \<Rightarrow> uint \<Rightarrow> uint \<Rightarrow> sys \<Rightarrow> (int \<times> sys) res" where
  "load_segment dv ip pd addr offset n0 s =
     guardr (addr mod PGSIZE = 0) ''loaduvm: addr must be page aligned'' (load_pages uvm_fuel dv ip pd addr offset n0 0 s)"

text \<open>The program headers; the result is the size of the image, or \<open>None\<close> for a jump to \<^verbatim>\<open>bad\<close>.\<close>

fun load_program :: "unit fdev \<Rightarrow> nat \<Rightarrow> uint \<Rightarrow> nat \<Rightarrow> uint \<Rightarrow> uint \<Rightarrow> sys \<Rightarrow> (uint option \<times> sys) res" where
  "load_program dv ip pd 0 off n0 s = Ok (Some n0, s)"
| "load_program dv ip pd (Suc n) off n0 s =
     bindr (readi dv ip off 32 (fl s)) (\<lambda>(r, b, f1).
       let s1 = s\<lparr>fl := f1\<rparr>; ph = get_proghdr b in
       if r \<noteq> 32 then Ok (None, s1)
       else if p_type ph \<noteq> ELF_PROG_LOAD then load_program dv ip pd n (off + 32) n0 s1
       else if p_memsz ph < p_filesz ph then Ok (None, s1)
       else if p_vaddr ph + p_memsz ph < p_vaddr ph then Ok (None, s1)
       else bindr (allocuvm pd n0 (p_vaddr ph + p_memsz ph) (vm s1)) (\<lambda>(z, v1).
              let s2 = s1\<lparr>vm := v1\<rparr> in
              if z = 0 then Ok (None, s2)
              else if p_vaddr ph mod PGSIZE \<noteq> 0 then Ok (None, s2)
              else bindr (load_segment dv ip pd (p_vaddr ph) (p_off ph) (p_filesz ph) s2) (\<lambda>(r2, s3).
                     if r2 < 0 then Ok (None, s3) else load_program dv ip pd n (off + 32) z s3)))"

section \<open>The stack\<close>

text \<open>\<^verbatim>\<open>copyout\<close> of given bytes.\<close>

function copyout_bytes :: "uint \<Rightarrow> uint \<Rightarrow> byte list \<Rightarrow> vm_state \<Rightarrow> (int \<times> vm_state) res" where
  "copyout_bytes pd va bs s =
     (if bs \<noteq> [] then
        let va0 = PGROUNDDOWN va in
        bindr (uva2ka pd va0 s) (\<lambda>pa0.
          if pa0 = 0 then Ok (-1, s)
          else let n = min (unat (PGSIZE - (va - va0))) (length bs) in
               copyout_bytes pd (va0 + PGSIZE) (drop n bs) (s\<lparr>kmemory := store_bytes (kmemory s) (pa0 + (va - va0)) (take n bs)\<rparr>))
      else Ok (0, s))"
  by pat_completeness auto
termination
proof (relation "measure (\<lambda>(pd, va, bs, s). length bs)")
  fix pd va and bs :: "byte list" and s :: vm_state and va0 pa0 n
  assume "bs \<noteq> []" and "n = min (unat (PGSIZE - (va - va0))) (length bs)" and "va0 = PGROUNDDOWN va"
  then have "0 < n" using page_rest [of va] by (simp add: word_less_nat_alt)
  then show "((pd, va0 + PGSIZE, drop n bs, s\<lparr>kmemory := store_bytes (kmemory s) (pa0 + (va - va0)) (take n bs)\<rparr>), (pd, va, bs, s))
    \<in> measure (\<lambda>(pd, va, bs, s). length bs)" using \<open>bs \<noteq> []\<close> by simp
qed simp

declare copyout_bytes.simps [simp del]

fun push_args :: "uint \<Rightarrow> byte list list \<Rightarrow> uint \<Rightarrow> uint list \<Rightarrow> vm_state \<Rightarrow> ((uint \<times> uint list) option \<times> vm_state) res" where
  "push_args pd [] sp us v = Ok (Some (sp, us), v)"
| "push_args pd (a # as) sp us v =
     (if length us \<ge> MAXARG then Ok (None, v)
      else let sp1 = (sp - (of_nat (length a) + 1)) AND NOT 3 in
           bindr (copyout_bytes pd sp1 (a @ [0]) v) (\<lambda>(r, v1).
             if r < 0 then Ok (None, v1) else push_args pd as sp1 (us @ [sp1]) v1))"

text \<open>\<^verbatim>\<open>ustack\<close>: a return address, the number of arguments and their array, and the array itself.\<close>

definition ustack :: "uint \<Rightarrow> uint list \<Rightarrow> uint list" where
  "ustack sp us = [0xffffffff, of_nat (length us), sp - of_nat ((length us + 1) * 4)] @ us @ [0]"

section \<open>The call\<close>

definition exec_bad :: "nat option \<Rightarrow> uint \<Rightarrow> sys \<Rightarrow> (int \<times> sys) res" where
  "exec_bad io d s =
     bindr (if d \<noteq> 0 then freevm d (vm s) else Ok (vm s)) (\<lambda>v1.
     bindr (case io of None \<Rightarrow> Ok (fl s) | Some ip \<Rightarrow> bindr (iunlockput ip (fl s)) end_op) (\<lambda>f1.
       Ok (-1, s\<lparr>vm := v1, fl := f1\<rparr>)))"

text \<open>The program's name: what follows the last slash, at most 15 characters.\<close>

definition prog_name :: "byte list \<Rightarrow> string" where
  "prog_name path = take 15 (map (\<lambda>c. char_of (unat c)) (rev (takeWhile (\<lambda>c. c \<noteq> slash) (rev path))))"

definition exec_commit :: "nat \<Rightarrow> uint \<Rightarrow> uint \<Rightarrow> uint \<Rightarrow> uint \<Rightarrow> byte list \<Rightarrow> sys \<Rightarrow> (int \<times> sys) res" where
  "exec_commit c d z sp entry path s =
     (let old = pgdir (pr s c);
          s1 = setp c (\<lambda>p. p\<lparr>pname := prog_name path, pgdir := d, sz := z, tf := (tf p)\<lparr>tf_eip := entry, tf_esp := sp\<rparr>\<rparr>) s in
      bindr (switchuvm c (ks s1)) (\<lambda>k.
      bindr (freevm old (vm s1)) (\<lambda>v. Ok (0, s1\<lparr>ks := k, vm := v\<rparr>))))"

definition exec_stack :: "nat \<Rightarrow> uint \<Rightarrow> uint \<Rightarrow> uint \<Rightarrow> byte list \<Rightarrow> byte list list \<Rightarrow> sys \<Rightarrow> (int \<times> sys) res" where
  "exec_stack c d z entry path argv s =
     bindr (allocuvm d (PGROUNDUP z) (PGROUNDUP z + 2 * PGSIZE) (vm s)) (\<lambda>(z1, v1).
       if z1 = 0 then exec_bad None d (s\<lparr>vm := v1\<rparr>)
       else bindr (clearpteu d (z1 - 2 * PGSIZE) v1) (\<lambda>v2.
            bindr (push_args d argv z1 [] v2) (\<lambda>(r, v3).
              case r of
                None \<Rightarrow> exec_bad None d (s\<lparr>vm := v3\<rparr>)
              | Some (sp, us) \<Rightarrow>
                  let sp1 = sp - of_nat ((3 + length us + 1) * 4) in
                  bindr (copyout_bytes d sp1 (concat (map le32 (ustack sp us))) v3) (\<lambda>(r2, v4).
                    if r2 < 0 then exec_bad None d (s\<lparr>vm := v4\<rparr>) else exec_commit c d z1 sp1 entry path (s\<lparr>vm := v4\<rparr>)))))"

definition exec_image :: "unit fdev \<Rightarrow> nat \<Rightarrow> nat \<Rightarrow> byte list \<Rightarrow> byte list list \<Rightarrow> sys \<Rightarrow> (int \<times> sys) res" where
  "exec_image dv c ip path argv s =
     bindr (readi dv ip 0 52 (fl s)) (\<lambda>(r, b, f1).
       let s1 = s\<lparr>fl := f1\<rparr>; elf = get_elfhdr b in
       if r \<noteq> 52 then exec_bad (Some ip) 0 s1
       else if e_magic elf \<noteq> ELF_MAGIC then exec_bad (Some ip) 0 s1
       else bindr (setupkvm (vm s1)) (\<lambda>(d, v1).
              let s2 = s1\<lparr>vm := v1\<rparr> in
              if d = 0 then exec_bad (Some ip) 0 s2
              else bindr (load_program dv ip d (unat (e_phnum elf)) (e_phoff elf) 0 s2) (\<lambda>(zo, s3).
                     case zo of
                       None \<Rightarrow> exec_bad (Some ip) d s3
                     | Some z \<Rightarrow>
                         bindr (iunlockput ip (fl s3)) (\<lambda>f2.
                         bindr (end_op f2) (\<lambda>f3. exec_stack c d z (e_entry elf) path argv (s3\<lparr>fl := f3\<rparr>))))))"

definition exec :: "unit fdev \<Rightarrow> byte list \<Rightarrow> byte list list \<Rightarrow> sys \<Rightarrow> (int \<times> sys) res" where
  "exec dv path argv s =
     bindr (curproc s) (\<lambda>(c, s1).
       case parent (pr s1 c) of
         None \<Rightarrow> Undef ''null parent''
       | Some pp \<Rightarrow>
         let s2 = (if pid (pr s1 pp) = 2 then setp c (\<lambda>p. p\<lparr>queue := 2\<rparr>) s1 else s1) in
         bindr (begin_op (fl s2)) (\<lambda>f1.
         bindr (namei dv path f1) (\<lambda>(io, f2).
           case io of
             None \<Rightarrow> bindr (end_op f2) (\<lambda>f3. Ok (-1, s2\<lparr>fl := f3\<rparr>))
           | Some ip \<Rightarrow> bindr (ilock ip f2) (\<lambda>f3. exec_image dv c ip path argv (s2\<lparr>fl := f3\<rparr>)))))"

section \<open>What it keeps\<close>

lemma load_pages_keeps:
  "load_pages n dv ip d a off len i s = Ok (r, t) \<Longrightarrow> dev_ok dv \<Longrightarrow> ks t = ks s \<and> rest (fl t) = rest (fl s)"
proof (induction n arbitrary: i s)
  case (Suc n)
  show ?case
  proof (cases "i < len")
    case True
    obtain pte v1 where w: "walkpgdir d (a + i) False (vm s) = (pte, v1)" by fastforce
    let ?m = "if len - i < PGSIZE then len - i else PGSIZE"
    obtain rr bs f1 where f: "readi dv ip (off + i) ?m (fl s) = Ok (rr, bs, f1)"
      using Suc.prems(1) True w by (auto simp: bindr_Ok_iff guardr_Ok_iff Let_def)
    then have "rest f1 = rest (fl s)" using readi_rest Suc.prems(2) by blast
    then show ?thesis using Suc.prems True w f Suc.IH by (fastforce simp: bindr_Ok_iff guardr_Ok_iff Let_def split: if_splits)
  qed (use Suc.prems in auto)
qed simp

lemma load_program_keeps:
  "load_program dv ip d n off z s = Ok (r, t) \<Longrightarrow> dev_ok dv \<Longrightarrow> ks t = ks s \<and> rest (fl t) = rest (fl s)"
proof (induction n arbitrary: off z s)
  case (Suc n)
  obtain rr b f1 where f: "readi dv ip off 32 (fl s) = Ok (rr, b, f1)" using Suc.prems(1) by (auto simp: bindr_Ok_iff)
  then have g: "rest f1 = rest (fl s)" using readi_rest Suc.prems(2) by blast
  let ?s1 = "s\<lparr>fl := f1\<rparr>" let ?ph = "get_proghdr b"
  have keep: "ks t = ks s \<and> rest (fl t) = rest (fl s)"
    if "load_program dv ip d n o' z' s' = Ok (r, t)" "ks s' = ks s" "rest (fl s') = rest (fl s)" for o' z' s'
    using Suc.IH [OF that(1) Suc.prems(2)] that(2,3) by simp
  have seg: "ks s3 = ks s \<and> rest (fl s3) = rest (fl s)" if "load_segment dv ip d a o' l (?s1\<lparr>vm := v\<rparr>) = Ok (r2, s3)" for a o' l v r2 s3
    using that load_pages_keeps [OF _ Suc.prems(2)] g by (fastforce simp: load_segment_def guardr_Ok_iff)
  consider "t = ?s1" | "load_program dv ip d n (off + 32) z ?s1 = Ok (r, t)"
    | "bindr (allocuvm d z (p_vaddr ?ph + p_memsz ?ph) (vm ?s1)) (\<lambda>(z1, v1).
        let s2 = ?s1\<lparr>vm := v1\<rparr> in
        if z1 = 0 then Ok (None, s2) else if p_vaddr ?ph mod PGSIZE \<noteq> 0 then Ok (None, s2)
        else bindr (load_segment dv ip d (p_vaddr ?ph) (p_off ?ph) (p_filesz ?ph) s2) (\<lambda>(r2, s3).
               if r2 < 0 then Ok (None, s3) else load_program dv ip d n (off + 32) z1 s3)) = Ok (r, t)"
    using Suc.prems(1) by (simp add: f Let_def split: if_splits)
  then show ?case
  proof cases
    case 3
    then obtain z1 v1 where "(let s2 = ?s1\<lparr>vm := v1\<rparr> in
        if z1 = 0 then Ok (None, s2) else if p_vaddr ?ph mod PGSIZE \<noteq> 0 then Ok (None, s2)
        else bindr (load_segment dv ip d (p_vaddr ?ph) (p_off ?ph) (p_filesz ?ph) s2) (\<lambda>(r2, s3).
               if r2 < 0 then Ok (None, s3) else load_program dv ip d n (off + 32) z1 s3)) = Ok (r, t)"
      by (auto simp: bindr_Ok_iff)
    then show ?thesis using g by (auto simp: Let_def bindr_Ok_iff split: if_splits dest: seg keep)
  qed (use g keep in auto)
qed simp

text \<open>What a call leaves that does not touch descriptors or the life of a process.\<close>

definition same_files :: "sys \<Rightarrow> sys \<Rightarrow> bool" where
  "same_files s t \<longleftrightarrow> map Sched.ofile (procs (ks t)) = map Sched.ofile (procs (ks s)) \<and> map idle (procs (ks t)) = map idle (procs (ks s))
     \<and> rest (fl t) = rest (fl s)"

lemma same_files_trans: "same_files s t \<Longrightarrow> same_files t u \<Longrightarrow> same_files s u"
  by (simp add: same_files_def)

lemma same_files_upd [simp]:
  "same_files s (t\<lparr>vm := v\<rparr>) = same_files s t" "same_files (s\<lparr>vm := v\<rparr>) t = same_files s t"
  "rest f = rest (fl t) \<Longrightarrow> same_files s (t\<lparr>fl := f\<rparr>) = same_files s t" "rest g = rest (fl s) \<Longrightarrow> same_files (s\<lparr>fl := g\<rparr>) t = same_files s t"
  by (simp_all add: same_files_def)

lemma same_files_setp: "(\<And>p. Sched.ofile (f p) = Sched.ofile p) \<Longrightarrow> (\<And>p. pstate (f p) = pstate p) \<Longrightarrow> same_files s (setp c f s)"
  by (cases "c < length (procs (ks s))") (simp_all add: same_files_def map_update idle_def list_update_beyond list_update_same_conv)

lemma exec_bad_same: "exec_bad io d s = Ok (r, t) \<Longrightarrow> same_files s t"
  by (auto simp: exec_bad_def same_files_def bindr_Ok_iff split: if_splits option.splits dest!: rest_dest)

lemma switchuvm_procs [procs_dest]: "switchuvm c k = Ok k' \<Longrightarrow> procs k' = procs k"
  by (auto simp: switchuvm_def bindr_Ok_iff guardr_Ok_iff upd_cpu_def dest!: procs_dest)

lemma exec_commit_same:
  assumes "exec_commit c d z sp entry path s = Ok (r, t)"
  shows "same_files s t"
proof -
  let ?s1 = "setp c (\<lambda>p. p\<lparr>pname := prog_name path, pgdir := d, sz := z, tf := (tf p)\<lparr>tf_eip := entry, tf_esp := sp\<rparr>\<rparr>) s"
  obtain k v where "switchuvm c (ks ?s1) = Ok k" "t = ?s1\<lparr>ks := k, vm := v\<rparr>" using assms by (auto simp: exec_commit_def Let_def bindr_Ok_iff)
  moreover have "same_files s ?s1" by (rule same_files_setp) simp_all
  ultimately show ?thesis by (auto simp: same_files_def dest!: switchuvm_procs)
qed

lemma exec_stack_same: "exec_stack c d z entry path argv s = Ok (r, t) \<Longrightarrow> same_files s t"
  by (auto simp: exec_stack_def bindr_Ok_iff Let_def split: if_splits option.splits prod.splits dest!: exec_bad_same exec_commit_same)

lemma exec_image_same:
  assumes "exec_image dv c ip path argv s = Ok (r, t)" and "dev_ok dv"
  shows "same_files s t"
proof -
  obtain rr b f1 where f: "readi dv ip 0 52 (fl s) = Ok (rr, b, f1)" using assms(1) by (auto simp: exec_image_def bindr_Ok_iff)
  have f1: "rest f1 = rest (fl s)" using readi_rest f assms(2) by blast
  have im: "same_files s t" if l: "load_program dv ip d n off 0 (s\<lparr>fl := f1, vm := v\<rparr>) = Ok (zo, s3)"
    and k: "(case zo of None \<Rightarrow> exec_bad (Some ip) d s3 | Some z \<Rightarrow> bindr (iunlockput ip (fl s3)) (\<lambda>f2. bindr (end_op f2) (\<lambda>f3.
        exec_stack c d z e path argv (s3\<lparr>fl := f3\<rparr>)))) = Ok (r, t)" for d n off v zo s3 e
  proof -
    have s3: "same_files s s3" using load_program_keeps [OF l assms(2)] f1 by (simp add: same_files_def)
    moreover have "same_files s3 t" using k by (auto simp: bindr_Ok_iff split: option.splits dest!: exec_bad_same exec_stack_same rest_dest)
    ultimately show ?thesis by (rule same_files_trans)
  qed
  show ?thesis using assms(1) f1
    by (auto simp: exec_image_def f Let_def bindr_Ok_iff split: if_splits dest!: exec_bad_same intro: im)
qed

lemma exec_inv:
  assumes "exec dv path argv s = Ok (r, t)" and "runs c s" and "sys_inv s" and "dev_ok dv"
  shows "sys_inv t"
proof -
  obtain d s1 pp where q: "curproc s = Ok (d, s1)" "parent (pr s1 d) = Some pp" using assms(1) by (auto simp: exec_def bindr_Ok_iff split: option.splits)
  define s2 where "s2 = (if pid (pr s1 pp) = 2 then setp d (\<lambda>p. p\<lparr>queue := 2\<rparr>) s1 else s1)"
  have s2: "same_files s1 s2" using same_files_setp [of "\<lambda>p. p\<lparr>queue := 2\<rparr>" s1 d] by (simp add: s2_def) (simp add: same_files_def)
  obtain f1 f2 io where f: "begin_op (fl s2) = Ok f1" "namei dv path f1 = Ok (io, f2)"
    "(case io of None \<Rightarrow> bindr (end_op f2) (\<lambda>f3. Ok (-1, s2\<lparr>fl := f3\<rparr>)) | Some ip \<Rightarrow> bindr (ilock ip f2) (\<lambda>f3. exec_image dv d ip path argv (s2\<lparr>fl := f3\<rparr>))) = Ok (r, t)"
    using assms(1) q by (auto simp: exec_def s2_def [symmetric] bindr_Ok_iff Let_def)
  have "rest f2 = rest (fl s2)" using begin_op_rest [OF f(1)] namei_rest [OF f(2)] assms(4) by simp
  then have "same_files s2 t" using f(3) by (auto simp: bindr_Ok_iff same_files_def [of s2 "s2\<lparr>fl := g\<rparr>" for g] split: option.splits dest!: rest_dest exec_image_same [OF _ assms(4)])
  with s2 have "same_files s1 t" by (rule same_files_trans)
  then show ?thesis using sys_inv_same [OF curproc_inv(1) [OF assms(2) q(1) assms(3)]] by (simp add: same_files_def)
qed

end
