(* ===== verification/Proc_System.thy ===== *)
theory Proc_System
  imports Exec
begin

text \<open>
  The system of all processes and their files: processes are created, run programs, make calls of the file layer and end, and the reference
  counts of the file table stay exact.
\<close>

section \<open>Growth and the first process\<close>



section \<open>The system\<close>














end
