(* ===== verification/Shell_Parse.thy ===== *)
theory Shell_Parse
  imports Shell
begin

text \<open>
  What the shell's parser guarantees: it returns on every line, it never reads or writes outside the
  buffer, and the words of the command it builds are the words of the line.
\<close>

section \<open>Tokens lie in the line\<close>

text \<open>A C string of length \<open>es\<close> in a buffer.\<close>

definition line_ok :: "byte list \<Rightarrow> nat \<Rightarrow> bool" where
  "line_ok b es \<longleftrightarrow> es < length b \<and> b ! es = 0 \<and> (\<forall>k < es. b ! k \<noteq> 0)"

lemma skip_bounds: "s \<le> skip P b es s" "s \<le> es \<Longrightarrow> skip P b es s \<le> es"
  "s \<le> k \<Longrightarrow> k < skip P b es s \<Longrightarrow> P (b ! k)"
  "s \<le> es \<Longrightarrow> skip P b es s = es \<or> \<not> P (b ! skip P b es s)"
proof (induction P b es s rule: skip.induct)
  case (1 P b es s)
  note IH = 1
  {
    case 1
    show ?case using IH(1) by (subst skip.simps) auto
  next
    case 2
    then show ?case using IH(2) by (subst skip.simps) auto
  next
    case 3
    show ?case
    proof (cases "s < es \<and> P (b ! s)")
      case True
      have "skip P b es s = skip P b es (Suc s)" using True by (subst skip.simps) simp
      then show ?thesis using IH(3) [OF True] True 3 by (cases "k = s") auto
    next
      case False
      then have "skip P b es s = s" by (subst skip.simps) auto
      with 3 show ?thesis by simp
    qed
  next
    case 4
    then show ?case using IH(4) by (subst (1 2) skip.simps) auto
  }
qed


text \<open>A word of the line: it is not empty, has only word bytes, and ends where the line or the word does.\<close>

definition word_tok :: "byte list \<Rightarrow> nat \<Rightarrow> tok \<Rightarrow> bool" where
  "word_tok b es = (\<lambda>(q, e). q < e \<and> e \<le> es \<and> (\<forall>k. q \<le> k \<longrightarrow> k < e \<longrightarrow> is_word (b ! k)) \<and> (e = es \<or> \<not> is_word (b ! e)))"

lemma line_okD: "line_ok b es \<Longrightarrow> s \<le> es \<Longrightarrow> rd b s = Ok (b ! s)" "line_ok b es \<Longrightarrow> s \<le> es \<Longrightarrow> b ! s = 0 \<longleftrightarrow> s = es"
  by (auto simp: line_ok_def rd_def le_less)

lemma symbols_bytes: "is_word c \<Longrightarrow> c \<noteq> 62 \<and> c \<notin> {124, 40, 41, 59, 38, 60}"
  "c \<notin> set whitespace \<Longrightarrow> c \<noteq> 62 \<Longrightarrow> c \<notin> {124, 40, 41, 59, 38, 60} \<Longrightarrow> is_word c"
  by (auto simp: is_word_def symbols_def)

lemma skip_word_progress:
  assumes "q < es" and "is_word (b ! q)"
  shows "q < skip is_word b es q"
  using assms skip_bounds(1) [of "Suc q" is_word b es] by (subst skip.simps) simp

definition got_token :: "byte list \<Rightarrow> nat \<Rightarrow> nat \<Rightarrow> byte \<times> nat \<times> nat \<times> nat \<Rightarrow> bool" where
  "got_token b es ps = (\<lambda>(ret, q, eq, ps'). q = skip is_ws b es ps \<and> ps \<le> q \<and> q \<le> eq \<and> eq \<le> ps' \<and> ps' \<le> es
     \<and> (ret = 0 \<longleftrightarrow> q = es) \<and> (ret \<noteq> 0 \<longrightarrow> q < eq) \<and> (ret = 97 \<longrightarrow> word_tok b es (q, eq)))"

lemma gettoken_spec:
  assumes b: "line_ok b es" and ps: "ps \<le> es"
  shows "ends {} (gettoken b es ps) (got_token b es ps)"
proof -
  define q where "q = skip is_ws b es ps"
  define c where "c = b ! q"
  have q: "ps \<le> q" "q \<le> es" using skip_bounds [of ps] ps by (simp_all add: q_def)
  have ws: "q = es \<or> c \<notin> set whitespace" using skip_bounds(4) [OF ps, of is_ws b] by (auto simp: q_def c_def is_ws_def)
  have fin: "got_token b es ps (ret, q, eq, skip is_ws b es eq)"
    if "q \<le> eq" "eq \<le> es" "ret = 0 \<longleftrightarrow> q = es" "ret \<noteq> 0 \<longrightarrow> q < eq" "ret = 97 \<longrightarrow> word_tok b es (q, eq)" for ret eq
    using that q skip_bounds(1,2) [of eq] by (simp add: got_token_def q_def [symmetric])
  have rd: "rd b q = Ok c" "c = 0 \<longleftrightarrow> q = es" using line_okD [OF b q(2)] by (simp_all add: c_def)
  consider "c = 0" | "c \<noteq> 0" "c \<in> {124, 40, 41, 59, 38, 60}" | "c = 62" | "c \<noteq> 0" "c \<notin> {124, 40, 41, 59, 38, 60}" "c \<noteq> 62" by blast
  then show ?thesis
  proof cases
    case 1
    then show ?thesis using fin [of q 0] q rd by (simp add: gettoken_def Let_def q_def [symmetric])
  next
    case 2
    then have "got_token b es ps (c, q, q + 1, skip is_ws b es (q + 1))" using rd q by (intro fin) auto
    with 2 show ?thesis by (simp add: gettoken_def Let_def q_def [symmetric] rd(1))
  next
    case 3
    then have lt: "q + 1 \<le> es" using rd q by auto
    note r1 = line_okD [OF b lt]
    have "got_token b es ps (62, q, q + 1, skip is_ws b es (q + 1))" using lt 3 rd by (intro fin) auto
    moreover have "got_token b es ps (43, q, q + 2, skip is_ws b es (q + 2))" if "b ! (q + 1) = 62"
      using lt 3 rd r1(2) that by (intro fin) auto
    ultimately show ?thesis using 3 r1(1) by (simp add: gettoken_def Let_def q_def [symmetric] rd(1))
  next
    case 4
    then have lt: "q < es" using rd q by auto
    then have w: "is_word c" using 4 ws by (intro symbols_bytes(2)) auto
    let ?e = "skip is_word b es q"
    have e: "q < ?e" "?e \<le> es" using skip_word_progress [OF lt] w skip_bounds(2) [of q es is_word b] lt by (simp_all add: c_def)
    have "word_tok b es (q, ?e)"
      using e skip_bounds(3,4) [of q] lt by (auto simp: word_tok_def)
    then have "got_token b es ps (97, q, ?e, skip is_ws b es ?e)" using e lt by (intro fin) auto
    with 4 show ?thesis by (simp add: gettoken_def Let_def q_def [symmetric] rd(1))
  qed
qed

definition peeked :: "byte list \<Rightarrow> nat \<Rightarrow> byte list \<Rightarrow> nat \<Rightarrow> bool \<times> nat \<Rightarrow> bool" where
  "peeked b es toks ps = (\<lambda>(r, ps'). ps \<le> ps' \<and> ps' \<le> es \<and> (r \<longleftrightarrow> ps' < es \<and> b ! ps' \<in> set toks) \<and> (ps' = es \<or> b ! ps' \<notin> set whitespace))"

lemma peek_spec:
  assumes b: "line_ok b es" and ps: "ps \<le> es"
  shows "ends {} (peek b es toks ps) (peeked b es toks ps)"
proof -
  note s = skip_bounds(1) [of ps is_ws b es] skip_bounds(2,4) [OF ps, of is_ws b]
  show ?thesis using s line_okD [OF b s(2)] by (auto simp: peek_def Let_def peeked_def is_ws_def)
qed

text \<open>A token after a successful look-ahead makes progress.\<close>

lemma token_progress:
  assumes "got_token b es ps (ret, q, eq, ps')" and "ps < es" and "b ! ps \<notin> set whitespace"
  shows "ps < ps'" "ps' \<le> es"
proof -
  have "skip is_ws b es ps = ps" using assms(2,3) by (subst skip.simps) (simp add: is_ws_def)
  then show "ps < ps'" "ps' \<le> es" using assms by (auto simp: got_token_def)
qed

section \<open>The parser returns\<close>

fun tokens :: "cmd \<Rightarrow> tok list" where
  "tokens (EXEC as) = as"
| "tokens (REDIR c f e m d) = tokens c @ [(f, e)]"
| "tokens (PIPE l r) = tokens l @ tokens r"
| "tokens (LIST l r) = tokens l @ tokens r"
| "tokens (BACK c) = tokens c"

fun argv_ok :: "cmd \<Rightarrow> bool" where
  "argv_ok (EXEC as) = (length as < MAXARGS)"
| "argv_ok (REDIR c f e m d) = argv_ok c"
| "argv_ok (PIPE l r) = (argv_ok l \<and> argv_ok r)"
| "argv_ok (LIST l r) = (argv_ok l \<and> argv_ok r)"
| "argv_ok (BACK c) = argv_ok c"

definition cmd_ok :: "byte list \<Rightarrow> nat \<Rightarrow> cmd \<Rightarrow> bool" where
  "cmd_ok b es c \<longleftrightarrow> argv_ok c \<and> (\<forall>t \<in> set (tokens c). word_tok b es t)"

lemma cmd_ok_simps [simp]:
  "cmd_ok b es execcmd"
  "cmd_ok b es (redircmd c q e m d) \<longleftrightarrow> cmd_ok b es c \<and> word_tok b es (q, e)"
  "cmd_ok b es (pipecmd l r) \<longleftrightarrow> cmd_ok b es l \<and> cmd_ok b es r"
  "cmd_ok b es (listcmd l r) \<longleftrightarrow> cmd_ok b es l \<and> cmd_ok b es r"
  "cmd_ok b es (backcmd c) \<longleftrightarrow> cmd_ok b es c"
  by (auto simp: cmd_ok_def cmd_defs MAXARGS_def)

text \<open>The command under construction in \<^verbatim>\<open>parseexec\<close>: redirections around an \<open>EXEC\<close> of \<open>n\<close> words.\<close>

fun exec_of :: "nat \<Rightarrow> cmd \<Rightarrow> bool" where
  "exec_of n (EXEC as) = (length as = n)"
| "exec_of n (REDIR c f e m d) = exec_of n c"
| "exec_of n c = False"

lemma exec_of_add: "exec_of n c \<Longrightarrow> exec_of (Suc n) (add_arg a c)"
  by (induction c) auto

lemma exec_of_argv: "exec_of n c \<Longrightarrow> argv_ok c \<longleftrightarrow> n < MAXARGS"
  by (induction c) auto

lemma tokens_add: "exec_of n c \<Longrightarrow> set (tokens (add_arg a c)) = insert a (set (tokens c))"
  by (induction c) auto

lemma cmd_ok_add: "exec_of n c \<Longrightarrow> cmd_ok b es c \<Longrightarrow> word_tok b es a \<Longrightarrow> Suc n < MAXARGS \<Longrightarrow> cmd_ok b es (add_arg a c)"
  using exec_of_argv [OF exec_of_add] by (simp add: cmd_ok_def tokens_add)

lemma exec_of_simps [simp]: "exec_of 0 execcmd" "exec_of n (redircmd c q e m d) = exec_of n c"
  by (simp_all add: cmd_defs)

definition parse_errors :: "string set" where
  "parse_errors = {''missing file for redirection'', ''syntax'', ''too many args'', ''syntax - missing )''}"

lemma in_parse_errors [simp]: "''missing file for redirection'' \<in> parse_errors" "''syntax'' \<in> parse_errors"
  "''too many args'' \<in> parse_errors" "''syntax - missing )'' \<in> parse_errors"
  by (simp_all add: parse_errors_def)

lemmas peek_ends = ends_weaken [OF peek_spec empty_subsetI]
lemmas gettoken_ends = ends_weaken [OF gettoken_spec empty_subsetI]

lemma ends_bindI4: "ends E m P \<Longrightarrow> (\<And>a b c d. P (a, b, c, d) \<Longrightarrow> ends E (f a b c d) Q) \<Longrightarrow> ends E (bindr m (\<lambda>(a, b, c, d). f a b c d)) Q"
  by (cases m) auto

definition parsed :: "byte list \<Rightarrow> nat \<Rightarrow> nat \<Rightarrow> cmd \<times> nat \<Rightarrow> bool" where
  "parsed b es ps = (\<lambda>(c, ps'). ps \<le> ps' \<and> ps' \<le> es \<and> cmd_ok b es c)"

lemma parsed_from: "parsed b es ps' x \<Longrightarrow> ps \<le> ps' \<Longrightarrow> parsed b es ps x"
  by (auto simp: parsed_def)

lemma parseredirs_spec:
  assumes b: "line_ok b es"
  shows "cmd_ok b es c \<Longrightarrow> ps \<le> es \<Longrightarrow> es - ps < n \<Longrightarrow>
    ends parse_errors (parseredirs n b es c ps) (\<lambda>(c', ps'). parsed b es ps (c', ps') \<and> (\<forall>k. exec_of k c \<longrightarrow> exec_of k c'))"
proof (induction n arbitrary: c ps)
  case 0
  then show ?case by simp
next
  case (Suc n)
  show ?case unfolding parseredirs.simps
  proof (rule ends_bindI2 [OF peek_ends [OF b Suc.prems(2)]])
    fix r p1 assume p1: "peeked b es [60, 62] ps (r, p1)"
    show "ends parse_errors (if \<not> r then Ok (c, p1) else bindr (gettoken b es p1) (\<lambda>(tok, _, _, ps).
            bindr (gettoken b es ps) (\<lambda>(w, q, eq, ps). guardr (w = 97) ''missing file for redirection''
              (parseredirs n b es (if tok = 60 then redircmd c q eq O_RDONLY 0 else if tok = 62 then redircmd c q eq (O_WRONLY OR O_CREATE) 1
                 else if tok = 43 then redircmd c q eq (O_WRONLY OR O_CREATE) 1 else c) ps))))
      (\<lambda>(c', ps'). parsed b es ps (c', ps') \<and> (\<forall>k. exec_of k c \<longrightarrow> exec_of k c'))"
    proof (cases r)
      case False
      then show ?thesis using p1 Suc.prems by (simp add: peeked_def parsed_def)
    next
      case True
      have p1': "p1 \<le> es" "p1 < es" "b ! p1 \<notin> set whitespace" "ps \<le> p1" using p1 True by (auto simp: peeked_def)
      show ?thesis unfolding if_not_P [OF iffD2 [OF not_not True]]
      proof (rule ends_bindI4 [OF gettoken_ends [OF b p1'(1)]], rule ends_bindI4)
        fix tok q0 e0 p2 assume t: "got_token b es p1 (tok, q0, e0, p2)"
        note p2 = token_progress [OF t p1'(2,3)]
        show "ends parse_errors (gettoken b es p2) (got_token b es p2)" by (rule gettoken_ends [OF b p2(2)])
        fix w q eq p3 assume w: "got_token b es p2 (w, q, eq, p3)"
        let ?c = "if tok = 60 then redircmd c q eq O_RDONLY 0 else if tok = 62 then redircmd c q eq (O_WRONLY OR O_CREATE) 1
                 else if tok = 43 then redircmd c q eq (O_WRONLY OR O_CREATE) 1 else c"
        have p3: "p2 \<le> p3" "p3 \<le> es" using w by (auto simp: got_token_def)
        have c: "cmd_ok b es ?c" if "w = 97" using w Suc.prems(1) that by (auto simp: got_token_def)
        have le: "ps \<le> p3" "es - p3 < n" using p2 p3 p1' Suc.prems(3) by auto
        show "ends parse_errors (guardr (w = 97) ''missing file for redirection'' (parseredirs n b es ?c p3))
          (\<lambda>(c', ps'). parsed b es ps (c', ps') \<and> (\<forall>k. exec_of k c \<longrightarrow> exec_of k c'))"
        proof (cases "w = 97")
          case True
          show ?thesis unfolding True refl [THEN eqTrueI] guardr_simps
            by (rule ends_mono [OF Suc.IH [OF c [OF True] p3(2) le(2)]]) (auto intro: parsed_from [OF _ le(1)])
        qed simp
      qed
    qed
  qed
qed

lemma exec_loop_spec:
  assumes b: "line_ok b es"
  shows "cmd_ok b es c \<Longrightarrow> exec_of argc c \<Longrightarrow> ps \<le> es \<Longrightarrow> es - ps < n \<Longrightarrow>
    ends parse_errors (exec_loop n b es argc c ps) (parsed b es ps)"
proof (induction n arbitrary: argc c ps)
  case 0
  then show ?case by simp
next
  case (Suc n)
  show ?case unfolding exec_loop.simps Let_def
  proof (rule ends_bindI2 [OF peek_ends [OF b Suc.prems(3)]])
    fix r p1 assume p1: "peeked b es [124, 41, 38, 59] ps (r, p1)"
    then have p1': "p1 \<le> es" "ps \<le> p1" by (auto simp: peeked_def)
    have "ends parse_errors (gettoken b es p1) (\<lambda>(tok, q, eq, p2). ends parse_errors (if tok = 0 then Ok (c, p2)
            else guardr (tok = 97) ''syntax'' (guardr (argc + 1 < MAXARGS) ''too many args''
                 (bindr (parseredirs n b es (add_arg (q, eq) c) p2) (\<lambda>(ret, ps). exec_loop n b es (argc + 1) ret ps)))) (parsed b es ps))"
    proof (rule ends_mono [OF gettoken_ends [OF b p1'(1)]], clarify)
      fix tok q eq p2 assume t: "got_token b es p1 (tok, q, eq, p2)"
      then have p2: "p1 \<le> p2" "p2 \<le> es" "tok \<noteq> 0 \<Longrightarrow> p1 < p2" by (auto simp: got_token_def)
      have "ends parse_errors (bindr (parseredirs n b es (add_arg (q, eq) c) p2) (\<lambda>(ret, ps). exec_loop n b es (argc + 1) ret ps)) (parsed b es ps)"
        if w: "tok = 97" and a: "argc + 1 < MAXARGS"
      proof -
        have lt: "p1 < p2" using p2(3) w by simp
        have ok: "cmd_ok b es (add_arg (q, eq) c)" using cmd_ok_add [OF Suc.prems(2,1)] t w a by (auto simp: got_token_def)
        have "es - p2 < n" using lt p1' p2(2) Suc.prems(4) by auto
        note IH = Suc.IH and pr = parseredirs_spec [OF b ok p2(2) this]
        show ?thesis
        proof (rule ends_bindI2 [OF pr], clarify)
          fix c' p3 assume p: "parsed b es p2 (c', p3)" and e: "\<forall>k. exec_of k (add_arg (q, eq) c) \<longrightarrow> exec_of k c'"
          have "exec_of (argc + 1) c'" using e exec_of_add [OF Suc.prems(2), of "(q, eq)"] by simp
          moreover have "p3 \<le> es" "es - p3 < n" "ps \<le> p3" "cmd_ok b es c'" using p lt p1' p2 Suc.prems(4) by (auto simp: parsed_def)
          ultimately show "ends parse_errors (exec_loop n b es (argc + 1) c' p3) (parsed b es ps)"
            using ends_mono [OF IH [of c' "argc + 1" p3]] parsed_from by blast
        qed
      qed
      then show "ends parse_errors (if tok = 0 then Ok (c, p2)
            else guardr (tok = 97) ''syntax'' (guardr (argc + 1 < MAXARGS) ''too many args''
                 (bindr (parseredirs n b es (add_arg (q, eq) c) p2) (\<lambda>(ret, ps). exec_loop n b es (argc + 1) ret ps)))) (parsed b es ps)"
        using p1' p2(1,2) Suc.prems(1) by (auto simp: parsed_def guardr_def simp del: ends_bindr)
    qed
    then show "ends parse_errors (if r then Ok (c, p1) else bindr (gettoken b es p1) (\<lambda>(tok, q, eq, p2). if tok = 0 then Ok (c, p2)
            else guardr (tok = 97) ''syntax'' (guardr (argc + 1 < MAXARGS) ''too many args''
                 (bindr (parseredirs n b es (add_arg (q, eq) c) p2) (\<lambda>(ret, ps). exec_loop n b es (argc + 1) ret ps))))) (parsed b es ps)"
      using p1' Suc.prems(1) by (auto simp: parsed_def case_prod_unfold)
  qed
qed

lemma back_loop_spec:
  assumes b: "line_ok b es"
  shows "cmd_ok b es c \<Longrightarrow> ps \<le> es \<Longrightarrow> es - ps < n \<Longrightarrow> ends parse_errors (back_loop n b es c ps) (parsed b es ps)"
proof (induction n arbitrary: c ps)
  case 0
  then show ?case by simp
next
  case (Suc n)
  show ?case unfolding back_loop.simps
  proof (rule ends_bindI2 [OF peek_ends [OF b Suc.prems(2)]])
    fix r p1 assume p1: "peeked b es [38] ps (r, p1)"
    then have p1': "p1 \<le> es" "ps \<le> p1" by (auto simp: peeked_def)
    have "ends parse_errors (gettoken b es p1) (\<lambda>(_, _, _, p2). ends parse_errors (back_loop n b es (backcmd c) p2) (parsed b es ps))" if r
    proof (rule ends_mono [OF gettoken_ends [OF b p1'(1)]], clarify)
      fix tok q eq p2 assume t: "got_token b es p1 (tok, q, eq, p2)"
      have "p1 < p2" "p2 \<le> es" using token_progress [OF t] p1 that by (auto simp: peeked_def)
      then have "es - p2 < n" "p2 \<le> es" "ps \<le> p2" using p1' Suc.prems(3) by auto
      then show "ends parse_errors (back_loop n b es (backcmd c) p2) (parsed b es ps)"
        using ends_mono [OF Suc.IH [of "backcmd c" p2]] parsed_from Suc.prems(1) by simp
    qed
    then show "ends parse_errors (if \<not> r then Ok (c, p1) else bindr (gettoken b es p1) (\<lambda>(_, _, _, ps). back_loop n b es (backcmd c) ps)) (parsed b es ps)"
      using p1' Suc.prems(1) by (auto simp: parsed_def case_prod_unfold)
  qed
qed

text \<open>A look-ahead for one symbol, and what follows it when it is there.\<close>

lemma peek_then:
  assumes b: "line_ok b es" and ps: "ps \<le> es"
    and no: "\<And>p. ps \<le> p \<Longrightarrow> p \<le> es \<Longrightarrow> ends parse_errors (g p) Q"
    and yes: "\<And>p. ps < p \<Longrightarrow> p \<le> es \<Longrightarrow> ends parse_errors (f p) Q"
  shows "ends parse_errors (bindr (peek b es [x] ps) (\<lambda>(r, p). if r then bindr (gettoken b es p) (\<lambda>(_, _, _, p). f p) else g p)) Q"
proof (rule ends_bindI2 [OF peek_ends [OF b ps]])
  fix r p1 assume p1: "peeked b es [x] ps (r, p1)"
  then have p1': "p1 \<le> es" "ps \<le> p1" by (auto simp: peeked_def)
  have "ends parse_errors (bindr (gettoken b es p1) (\<lambda>(_, _, _, p). f p)) Q" if r
  proof (rule ends_bindI4 [OF gettoken_ends [OF b p1'(1)]])
    fix tok q eq p2 assume t: "got_token b es p1 (tok, q, eq, p2)"
    have "p1 < p2" "p2 \<le> es" using token_progress [OF t] p1 that by (auto simp: peeked_def)
    then show "ends parse_errors (f p2) Q" using yes p1' by simp
  qed
  then show "ends parse_errors (if r then bindr (gettoken b es p1) (\<lambda>(_, _, _, p). f p) else g p1) Q"
    using no p1' by (simp del: ends_bindr)
qed

text \<open>One step of each of the four mutually recursive parsers, from what they do with less fuel.\<close>

lemma parseline_step:
  assumes b: "line_ok b es" and ps: "ps \<le> es" "4 * (es - ps) + 4 \<le> Suc n"
    and pipe: "\<And>p. p \<le> es \<Longrightarrow> 4 * (es - p) + 3 \<le> n \<Longrightarrow> ends parse_errors (parsepipe n b es p) (parsed b es p)"
    and line: "\<And>p. p \<le> es \<Longrightarrow> 4 * (es - p) + 4 \<le> n \<Longrightarrow> ends parse_errors (parseline n b es p) (parsed b es p)"
  shows "ends parse_errors (parseline (Suc n) b es ps) (parsed b es ps)"
  unfolding parseline.simps
proof (rule ends_bindI2 [OF pipe [OF ps(1)]], use ps in simp, rule ends_bindI2)
  fix c p1 assume p1: "parsed b es ps (c, p1)"
  then have c: "cmd_ok b es c" "p1 \<le> es" "es - p1 < n" "ps \<le> p1" using ps by (auto simp: parsed_def)
  show "ends parse_errors (back_loop n b es c p1) (parsed b es p1)" using back_loop_spec [OF b c(1-3)] .
  fix d p2 assume p2: "parsed b es p1 (d, p2)"
  show "ends parse_errors (bindr (peek b es [59] p2) (\<lambda>(r, p). if r then bindr (gettoken b es p) (\<lambda>(_, _, _, p).
          bindr (parseline n b es p) (\<lambda>(right, ps). Ok (listcmd d right, ps))) else Ok (d, p))) (parsed b es ps)"
  proof (rule peek_then [OF b])
    fix p assume p: "p2 < p" "p \<le> es"
    have "4 * (es - p) + 4 \<le> n" using p p2 c ps by (auto simp: parsed_def)
    then show "ends parse_errors (bindr (parseline n b es p) (\<lambda>(right, ps). Ok (listcmd d right, ps))) (parsed b es ps)"
      by (rule ends_bindI2 [OF line [OF p(2)]]) (use p p2 c in \<open>auto simp: parsed_def\<close>)
  qed (use p2 c in \<open>auto simp: parsed_def\<close>)
qed

lemma parsepipe_step:
  assumes b: "line_ok b es" and ps: "ps \<le> es" "4 * (es - ps) + 3 \<le> Suc n"
    and exc: "\<And>p. p \<le> es \<Longrightarrow> 4 * (es - p) + 2 \<le> n \<Longrightarrow> ends parse_errors (parseexec n b es p) (parsed b es p)"
    and pipe: "\<And>p. p \<le> es \<Longrightarrow> 4 * (es - p) + 3 \<le> n \<Longrightarrow> ends parse_errors (parsepipe n b es p) (parsed b es p)"
  shows "ends parse_errors (parsepipe (Suc n) b es ps) (parsed b es ps)"
  unfolding parsepipe.simps
proof (rule ends_bindI2 [OF exc [OF ps(1)]], use ps in simp)
  fix c p1 assume p1: "parsed b es ps (c, p1)"
  show "ends parse_errors (bindr (peek b es [124] p1) (\<lambda>(r, p). if r then bindr (gettoken b es p) (\<lambda>(_, _, _, p).
          bindr (parsepipe n b es p) (\<lambda>(right, ps). Ok (pipecmd c right, ps))) else Ok (c, p))) (parsed b es ps)"
  proof (rule peek_then [OF b])
    fix p assume p: "p1 < p" "p \<le> es"
    have "4 * (es - p) + 3 \<le> n" using p p1 ps by (auto simp: parsed_def)
    then show "ends parse_errors (bindr (parsepipe n b es p) (\<lambda>(right, ps). Ok (pipecmd c right, ps))) (parsed b es ps)"
      by (rule ends_bindI2 [OF pipe [OF p(2)]]) (use p p1 in \<open>auto simp: parsed_def\<close>)
  qed (use p1 in \<open>auto simp: parsed_def\<close>)
qed

lemma parseblock_step:
  assumes b: "line_ok b es" and ps: "ps < es" "b ! ps = 40" "4 * (es - ps) + 1 \<le> Suc n"
    and line: "\<And>p. p \<le> es \<Longrightarrow> 4 * (es - p) + 4 \<le> n \<Longrightarrow> ends parse_errors (parseline n b es p) (parsed b es p)"
  shows "ends parse_errors (parseblock (Suc n) b es ps) (parsed b es ps)"
proof -
  have ws: "skip is_ws b es ps = ps" using ps(2) by (subst skip.simps) (simp add: is_ws_def whitespace_def)
  have pk: "peek b es [40] ps = Ok (True, ps)" using line_okD(1) [OF b, of ps] ps by (simp add: peek_def Let_def ws)
  show ?thesis unfolding parseblock.simps pk bindr_simps case_prod_conv guardr_simps
  proof (rule ends_bindI4 [OF gettoken_ends [OF b]], use ps in simp, rule ends_bindI2 [OF line])
    fix tok q eq p1 assume t: "got_token b es ps (tok, q, eq, p1)"
    note p1 = token_progress [OF t ps(1)]
    have p1: "ps < p1" "p1 \<le> es" using p1 ps(2) by (simp_all add: whitespace_def)
    then show "p1 \<le> es" "4 * (es - p1) + 4 \<le> n" using ps by auto
    fix c p2 assume p2: "parsed b es p1 (c, p2)"
    have eq: "(\<lambda>(r, p). guardr r ''syntax - missing )'' (bindr (gettoken b es p) (\<lambda>(_, _, _, p). parseredirs n b es c p)))
      = (\<lambda>(r, p). if r then bindr (gettoken b es p) (\<lambda>(_, _, _, p). parseredirs n b es c p) else Panic ''syntax - missing )'')"
      by (auto simp: guardr_def fun_eq_iff)
    show "ends parse_errors (bindr (peek b es [41] p2) (\<lambda>(r, p). guardr r ''syntax - missing )''
       (bindr (gettoken b es p) (\<lambda>(_, _, _, p). parseredirs n b es c p)))) (parsed b es ps)"
      unfolding eq
    proof (rule peek_then [OF b])
      fix p assume p: "p2 < p" "p \<le> es"
      have "cmd_ok b es c" "es - p < n" "ps \<le> p" using p p2 p1 ps by (auto simp: parsed_def)
      then show "ends parse_errors (parseredirs n b es c p) (parsed b es ps)"
        by (intro ends_mono [OF parseredirs_spec [OF b _ p(2)]]) (auto intro: parsed_from)
    qed (use p2 in \<open>auto simp: parsed_def\<close>)
  qed
qed

lemma parseexec_step:
  assumes b: "line_ok b es" and ps: "ps \<le> es" "4 * (es - ps) + 2 \<le> Suc n"
    and blck: "\<And>p. p < es \<Longrightarrow> b ! p = 40 \<Longrightarrow> 4 * (es - p) + 1 \<le> n \<Longrightarrow> ends parse_errors (parseblock n b es p) (parsed b es p)"
  shows "ends parse_errors (parseexec (Suc n) b es ps) (parsed b es ps)"
  unfolding parseexec.simps
proof (rule ends_bindI2 [OF peek_ends [OF b ps(1)]])
  fix r p1 assume p1: "peeked b es [40] ps (r, p1)"
  then have p1': "ps \<le> p1" "p1 \<le> es" "es - p1 < n" "4 * (es - p1) + 1 \<le> n" using ps by (auto simp: peeked_def)
  have "ends parse_errors (bindr (parseredirs n b es execcmd p1) (\<lambda>(ret, ps). exec_loop n b es 0 ret ps)) (parsed b es ps)"
  proof (rule ends_bindI2 [OF parseredirs_spec [OF b _ p1'(2,3)]], simp, clarify)
    fix c p2 assume "parsed b es p1 (c, p2)" and "\<forall>k. exec_of k execcmd \<longrightarrow> exec_of k c"
    then have "cmd_ok b es c" "exec_of 0 c" "p2 \<le> es" "es - p2 < n" "ps \<le> p2" using p1' by (auto simp: parsed_def)
    then show "ends parse_errors (exec_loop n b es 0 c p2) (parsed b es ps)"
      using ends_mono [OF exec_loop_spec [OF b]] parsed_from by blast
  qed
  moreover have "ends parse_errors (parseblock n b es p1) (parsed b es ps)" if r
    by (rule ends_mono [OF blck]) (use p1 p1' that in \<open>auto simp: peeked_def intro: parsed_from\<close>)
  ultimately show "ends parse_errors (if r then parseblock n b es p1
     else bindr (parseredirs n b es execcmd p1) (\<lambda>(ret, ps). exec_loop n b es 0 ret ps)) (parsed b es ps)"
    by (simp del: ends_bindr)
qed

lemma parse_spec:
  assumes b: "line_ok b es"
  shows "(\<forall>ps. ps \<le> es \<longrightarrow> 4 * (es - ps) + 4 \<le> n \<longrightarrow> ends parse_errors (parseline n b es ps) (parsed b es ps))
    \<and> (\<forall>ps. ps \<le> es \<longrightarrow> 4 * (es - ps) + 3 \<le> n \<longrightarrow> ends parse_errors (parsepipe n b es ps) (parsed b es ps))
    \<and> (\<forall>ps. ps < es \<longrightarrow> b ! ps = 40 \<longrightarrow> 4 * (es - ps) + 1 \<le> n \<longrightarrow> ends parse_errors (parseblock n b es ps) (parsed b es ps))
    \<and> (\<forall>ps. ps \<le> es \<longrightarrow> 4 * (es - ps) + 2 \<le> n \<longrightarrow> ends parse_errors (parseexec n b es ps) (parsed b es ps))"
proof (induction n)
  case 0
  then show ?case by simp
next
  case (Suc n)
  note line = Suc.IH [THEN conjunct1, rule_format] and pipe = Suc.IH [THEN conjunct2, THEN conjunct1, rule_format]
    and blck = Suc.IH [THEN conjunct2, THEN conjunct2, THEN conjunct1, rule_format]
    and exc = Suc.IH [THEN conjunct2, THEN conjunct2, THEN conjunct2, rule_format]
  show ?case
    using parseline_step [OF b _ _ pipe line] parsepipe_step [OF b _ _ exc pipe] parseblock_step [OF b _ _ _ line] parseexec_step [OF b _ _ blck]
    by blast
qed

section \<open>Cutting the words\<close>

lemma nth_cut: "k < length b \<Longrightarrow> b[e := v] ! k = (if k = e then v else b ! k)"
  by (cases "e < length b") auto

lemma fold_cut: "length (fold (\<lambda>(q, e) b. b[e := 0]) as b) = length b"
  "k < length b \<Longrightarrow> fold (\<lambda>(q, e) b. b[e := 0]) as b ! k = (if k \<in> snd ` set as then 0 else b ! k)"
  by (induction as arbitrary: b) (simp_all add: nth_cut split_beta)

lemma nulterminate_cut: "length (nulterminate c b) = length b"
  "k < length b \<Longrightarrow> nulterminate c b ! k = (if k \<in> snd ` set (tokens c) then 0 else b ! k)"
  by (induction c arbitrary: b) (simp_all add: fold_cut nth_cut image_Un)

lemma strlen_line: "0 \<notin> set l \<Longrightarrow> strlen (ptr (l @ 0 # r)) = Some (length l)"
  by (rule strlen_cstr) (simp add: cstr_def ptr_def nth_append)

lemma line_ok_ex:
  assumes "0 \<in> set b"
  obtains es where "line_ok b es" and "strlen (ptr b) = Some es"
proof -
  obtain l r where b: "b = l @ 0 # r" and l: "0 \<notin> set l" using split_list_first [OF assms] by blast
  have "b ! k \<noteq> 0" if "k < length l" for k using l that by (auto simp: b nth_append in_set_conv_nth)
  then have "line_ok b (length l)" by (simp add: line_ok_def b)
  then show ?thesis using that strlen_line [OF l, of r] by (simp add: b)
qed

text \<open>A word that was cut out of the line: the same bytes, all of them word bytes, and a null after them.\<close>

definition cut_word :: "byte list \<Rightarrow> byte list \<Rightarrow> tok \<Rightarrow> bool" where
  "cut_word b b' = (\<lambda>(q, e). q < e \<and> e < length b \<and> b' ! e = 0 \<and> (\<forall>k. q \<le> k \<longrightarrow> k < e \<longrightarrow> b' ! k = b ! k \<and> b ! k \<noteq> 0 \<and> is_word (b ! k)))"

lemma cut_words:
  assumes b: "line_ok b es" and c: "cmd_ok b es c" and t: "t \<in> set (tokens c)"
  shows "cut_word b (nulterminate c b) t"
proof -
  obtain q e where te: "t = (q, e)" by (cases t)
  have w: "word_tok b es (q, e)" using c t by (auto simp: cmd_ok_def te)
  then have l: "e < length b" "e \<le> es" using b by (auto simp: word_tok_def line_ok_def)
  have "k \<notin> snd ` set (tokens c)" if k: "q \<le> k" "k < e" for k
  proof
    assume "k \<in> snd ` set (tokens c)"
    then obtain q' where "(q', k) \<in> set (tokens c)" by force
    then have "word_tok b es (q', k)" using c by (auto simp: cmd_ok_def)
    then show False using w k l by (auto simp: word_tok_def)
  qed
  moreover have "e \<in> snd ` set (tokens c)" using t te by force
  ultimately show ?thesis using w l b by (auto simp: cut_word_def te nulterminate_cut word_tok_def line_ok_def)
qed

text \<open>C26: The shell's parser returns on every line: it yields a command or one of its four error messages, within
  the fuel, without a read outside the buffer and never with the message of \<^verbatim>\<open>parseblock\<close>. In the command, no \<^verbatim>\<open>argv\<close> has
  more than \<^verbatim>\<open>MAXARGS - 1\<close> words, so that its null fits, and after \<^verbatim>\<open>nulterminate\<close> every word is a C string
  that has exactly the bytes of a word of the line: no cut falls into another word.
\<close>

theorem parsecmd_returns:
  assumes "0 \<in> set b"
  shows "ends {''missing file for redirection'', ''syntax'', ''too many args'', ''syntax - missing )''} (parsecmd b)
    (\<lambda>(c, b'). length b' = length b \<and> argv_ok c \<and> (\<forall>t \<in> set (tokens c). cut_word b b' t))"
proof -
  obtain es where b: "line_ok b es" and sl: "strlen (ptr b) = Some es" using line_ok_ex [OF assms] .
  have "ends parse_errors (parseline (parse_fuel es) b es 0) (parsed b es 0)"
    using parse_spec [OF b, of "parse_fuel es"] by (simp add: parse_fuel_def)
  then have "ends parse_errors (parsecmd b) (\<lambda>(c, b'). length b' = length b \<and> argv_ok c \<and> (\<forall>t \<in> set (tokens c). cut_word b b' t))"
    unfolding parsecmd_def sl option.case
  proof (rule ends_bindI2, goal_cases)
    case (1 c s)
    then have s: "s \<le> es" "cmd_ok b es c" by (auto simp: parsed_def)
    show ?case by (rule ends_bindI2 [OF peek_ends [OF b s(1)]])
      (use s cut_words [OF b s(2)] in \<open>auto simp: nulterminate_cut cmd_ok_def guardr_def\<close>)
  qed
  then show ?thesis unfolding parse_errors_def .
qed

text \<open>The line \<^verbatim>\<open>ab <c|d&\<close>.\<close>

theorem parsecmd_returns_witness:
  "let b = [97, 98, 32, 60, 99, 124, 100, 38, 10, 0] in
   \<exists>c b'. parsecmd b = Ok (c, b') \<and> tokens c = [(0, 2), (4, 5), (6, 7)] \<and> (\<forall>t \<in> set (tokens c). cut_word b b' t)"
proof -
  let ?b = "[97, 98, 32, 60, 99, 124, 100, 38, 10, 0] :: byte list"
  have sl: "strlen (ptr ?b) = Some 9"
    using strlen_line [of "[97, 98, 32, 60, 99, 124, 100, 38, 10]" "[]"] by simp
  have "parseline (parse_fuel 9) ?b 9 0 = Ok (BACK (PIPE (REDIR (EXEC [(0, 2)]) 4 5 0 0) (EXEC [(6, 7)])), 9)" by code_simp
  moreover have "peek ?b 9 [] 9 = Ok (False, 9)" by code_simp
  ultimately have "parsecmd ?b = Ok (BACK (PIPE (REDIR (EXEC [(0, 2)]) 4 5 0 0) (EXEC [(6, 7)])),
      nulterminate (BACK (PIPE (REDIR (EXEC [(0, 2)]) 4 5 0 0) (EXEC [(6, 7)]))) ?b)"
    by (simp add: parsecmd_def sl)
  with parsecmd_returns [of ?b] show ?thesis by (simp add: Let_def)
qed

end
