(* ===== verification/Fs_Inode.thy ===== *)
theory Fs_Inode
  imports Fs_Rw
begin

text \<open>
  Inodes between the cache and the disk: what \<^verbatim>\<open>ilock\<close> loads, and that an inode written by \<^verbatim>\<open>iupdate\<close> and dropped from the cache
  comes back unchanged.
\<close>

section \<open>Loading an inode\<close>

lemma brelse_upd_inode: "brelse i (upd_inode p f s) = bindr (brelse i s) (\<lambda>t. Ok (upd_inode p f t))"
  by (cases s) (simp add: brelse_def upd_inode_def upd_buf_def guardr_def Let_def)

text \<open>The entry after \<^verbatim>\<open>ilock\<close> has copied the inode from the disk.\<close>

definition loaded :: "int \<Rightarrow> dinode \<Rightarrow> inode \<Rightarrow> inode" where
  "loaded pid di ip = ip\<lparr>ilk := \<lparr>sl_locked = True, sl_pid = pid\<rparr>, ivalid := True, itype := dtype di, imajor := dmajor di, iminor := dminor di,
     inlink := dnlink di, isize := dsize di, addrs := daddrs di\<rparr>"

abbreviation disk_inode :: "'a fss \<Rightarrow> uint \<Rightarrow> dinode" where
  "disk_inode s i \<equiv> get_dinode (blk s (IBLOCK i (sb s))) (di_off i)"

lemma ilock_loads:
  assumes s: "in_op s" "layout s" "quiet s" and p: "p < length (icache s)" "1 \<le> iref (icache s ! p)" "\<not> sl_locked (ilk (icache s ! p))"
    and ip: "\<not> ivalid (icache s ! p)" "idev (icache s ! p) = 1" "inum (icache s ! p) < sb_ninodes (sb s)"
    and ty: "dtype (disk_inode s (inum (icache s ! p))) \<noteq> 0"
  shows "ends limits (ilock p s) (\<lambda>t. icache t ! p = loaded (curpid s) (disk_inode s (inum (icache s ! p))) (icache s ! p) \<and> blk t = blk s)"
proof -
  let ?i = "inum (icache s ! p)" and ?l = "\<lparr>sl_locked = True, sl_pid = curpid s\<rparr>"
  let ?n = "IBLOCK ?i (sb s)" and ?di = "disk_inode s ?i"
  let ?s1 = "upd_inode p (\<lambda>ip. ip\<lparr>ilk := ?l\<rparr>) s"
  let ?f = "\<lambda>di ip. ip\<lparr>itype := dtype di, imajor := dmajor di, iminor := dminor di, inlink := dnlink di, isize := dsize di, addrs := daddrs di\<rparr>"
  let ?K = "\<lambda>d u. let s5 = upd_inode p (\<lambda>ip. ip\<lparr>ivalid := True\<rparr>) (upd_inode p (?f (get_dinode d (di_off ?i))) u) in
    guardr (itype (icache s5 ! p) \<noteq> 0) ''ilock: no type'' (Ok s5)"
  note b = inode_block [OF s(2) ip(3)]
  have i1: "icache ?s1 ! p = (icache s ! p)\<lparr>ilk := ?l\<rparr>" using p(1) by (simp add: icache_upd_inode)
  have e: "ilock p s = bindr (bread 1 ?n ?s1) (\<lambda>(i, t). bindr (brelse i t) (\<lambda>u. ?K (bdata (bufs t ! i)) u))"
    using p ip by (simp add: ilock_def slk_acquire_def i1 brelse_upd_inode Let_def bindr_assoc)
  have "ends limits (?K (blk ?s1 ?n) u) (\<lambda>t. icache t ! p = loaded (curpid s) ?di (icache s ! p) \<and> blk t = blk s)"
    if u: "same_but_cache ?s1 u" "fs_frame ?s1 u" for u
  proof -
    have "icache u = icache ?s1" "blk u = blk s" using u fs_frame_fs(2) [OF u(2)] by (auto simp: same_but_cache_def)
    then show ?thesis using p(1) ty i1 by (simp add: icache_upd_inode loaded_def)
  qed
  then have "ends limits (bindr (bread 1 ?n ?s1) (\<lambda>(i, t). bindr (brelse i t) (\<lambda>u. ?K (bdata (bufs t ! i)) u)))
      (\<lambda>t. icache t ! p = loaded (curpid s) ?di (icache s ! p) \<and> blk t = blk s)"
    using s b(1) quiet_held [OF s(3)] by (intro log_read) simp_all
  then show ?thesis unfolding e .
qed

section \<open>Writing an inode\<close>

lemma get_dinode_cong: "(\<And>k. off \<le> k \<Longrightarrow> k < off + 64 \<Longrightarrow> d ! k = d' ! k) \<Longrightarrow> get_dinode d off = get_dinode d' off"
  by (simp add: get_dinode_def get16_def get32_def NDIRECT_val)

lemma iupdate_inodes:
  assumes s: "inode_live s p" and t: "blk t = (blk s)(IBLOCK i (sb s) := put_dinode (blk s (IBLOCK i (sb s))) (di_off i) (mem_dinode (icache s ! p)))"
    and i: "i = inum (icache s ! p)" and sb: "sb t = sb s"
  shows "disk_inode t j = (if j = i then mem_dinode (icache s ! p) else disk_inode s j)"
proof -
  let ?n = "IBLOCK i (sb s)"
  have fo: "file_ok s p" using s by (simp add: inode_live_def)
  then have ok: "alloc_ok s" "length (daddrs (mem_dinode (icache s ! p))) = NDIRECT + 1"
    using fmap_okD(1) [of s "iad s p"] by (auto simp: file_ok_def iad_def mem_dinode_def)
  have len: "length (blk s ?n) = BSIZE" using length_blk alloc_okD(6) [OF ok(1)] by blast
  note r = dinode_codec [OF ok(2), of "di_off i" "blk s ?n", unfolded len, OF di_off_le]
  show ?thesis
  proof (cases "j \<noteq> i \<and> IBLOCK j (sb s) = ?n")
    case True
    then have "j div of_nat IPB = i div of_nat IPB" by (simp add: IBLOCK_def)
    moreover have "unat (x div of_nat IPB) = unat x div 8" for x :: uint by (simp add: IPB_val unat_div_distrib)
    ultimately have "unat j div 8 = unat i div 8" by metis
    moreover have "unat j \<noteq> unat i" using True by (simp add: word_unat_eq_iff)
    ultimately have "unat j mod 8 \<noteq> unat i mod 8" by (metis div_mult_mod_eq)
    then have "di_off j + 64 \<le> di_off i \<or> di_off i + 64 \<le> di_off j" by (simp add: di_off_def IPB_val) linarith
    then have "get_dinode (put_dinode (blk s ?n) (di_off i) (mem_dinode (icache s ! p))) (di_off j) = get_dinode (blk s ?n) (di_off j)"
      using r di_off_le [of j] by (intro get_dinode_cong) auto
    then show ?thesis using True by (simp add: t sb)
  next
    case False
    then show ?thesis using r by (auto simp: t sb)
  qed
qed

text \<open>Dropping the only reference of an inode that has links.\<close>

lemma iunlockput_last:
  assumes "p < length (icache s)" and "slk_holding (curpid s) (ilk (icache s ! p))" and "iref (icache s ! p) = 1" and "inlink (icache s ! p) \<noteq> 0"
  shows "iunlockput p s = Ok (upd_inode p (\<lambda>ip. ip\<lparr>ilk := free_slk, iref := 0\<rparr>) s)"
proof -
  have "upd_inode p f (upd_inode p g s) = upd_inode p (f \<circ> g) s" for f g using assms(1) by (cases s) (simp add: upd_inode_def)
  moreover have "upd_inode p (\<lambda>x. x\<lparr>ilk := l, iref := iref x - 1\<rparr>) s = upd_inode p (\<lambda>x. x\<lparr>ilk := l, iref := 0\<rparr>) s" for l
    using assms(3) by (simp add: upd_inode_def)
  ultimately show ?thesis using assms
    by (simp add: iunlockput_def iunlock_def iput_def slk_acquire_def slk_release_def icache_upd_inode free_slk_def comp_def Let_def)
qed

lemma iget_new:
  assumes "\<And>q. q < length (icache s) \<Longrightarrow> iref (icache s ! q) > 0 \<Longrightarrow> idev (icache s ! q) \<noteq> dev \<or> inum (icache s ! q) \<noteq> i"
    and "p < length (icache s)" and "iref (icache s ! p) = 0"
  obtains q where "q < length (icache s)" and "iref (icache s ! q) = 0"
    and "iget dev i s = Ok (q, upd_inode q (\<lambda>ip. ip\<lparr>idev := dev, inum := i, iref := 1, ivalid := False\<rparr>) s)"
proof -
  have n: "first_idx (\<lambda>ip. iref ip > 0 \<and> idev ip = dev \<and> inum ip = i) (icache s) = None"
    using assms(1) by (fastforce simp: first_idx_None in_set_conv_nth)
  obtain q where q: "first_idx (\<lambda>ip. iref ip = 0) (icache s) = Some q"
    using assms(2,3) first_idx_None [of "\<lambda>ip. iref ip = 0" "icache s"] nth_mem by fastforce
  show thesis using that [OF first_idx_length [OF q] first_idx_sat [OF q]] n q by (simp add: iget_def)
qed

text \<open>C20: An inode survives its removal from the cache: when \<^verbatim>\<open>iupdate\<close> has written the locked inode, \<^verbatim>\<open>iunlockput\<close> drops the last
  reference, and \<^verbatim>\<open>iget\<close> and \<^verbatim>\<open>ilock\<close> open it again, in whichever entry is free, the entry has the type, device numbers, links, size and
  block addresses that the inode had, read from the disk block, and the other inodes on the disk are as before. The sequence always ends, and panics only when a
  table is full (the buffers, the log, the free blocks or the inodes). The inode has a type and a link, the file system around it is sound, no other entry in use is for the same inode,
  and free entries are not locked.
\<close>

theorem inode_roundtrip:
  assumes live: "inode_live s p" and held: "slk_holding (curpid s) (ilk (icache s ! p))" and ref: "iref (icache s ! p) = 1"
    and ty: "itype (icache s ! p) \<noteq> 0" "inlink (icache s ! p) \<noteq> 0"
    and one: "\<forall>q < length (icache s). q \<noteq> p \<and> iref (icache s ! q) > 0 \<longrightarrow> inum (icache s ! q) \<noteq> inum (icache s ! p)"
    and free: "\<forall>q < length (icache s). iref (icache s ! q) = 0 \<longrightarrow> \<not> sl_locked (ilk (icache s ! q))"
  shows "ends limits
    (bindr (iupdate p s) (\<lambda>t. bindr (iunlockput p t) (\<lambda>u. bindr (iget 1 (inum (icache s ! p)) u) (\<lambda>(q, v). bindr (ilock q v) (\<lambda>w. Ok (q, w))))))
    (\<lambda>(q, w). icache w ! q = (icache s ! p)\<lparr>ivalid := True\<rparr>
       \<and> (\<forall>j. j \<noteq> inum (icache s ! p) \<longrightarrow> get_dinode (blk w (IBLOCK j (sb s))) (di_off j) = get_dinode (blk s (IBLOCK j (sb s))) (di_off j)))"
proof (rule ends_bindI [OF iupdate_spec [OF live]])
  fix t
  let ?ip = "icache s ! p" let ?i = "inum ?ip" let ?g = "\<lambda>ip. ip\<lparr>idev := 1, inum := ?i, iref := 1, ivalid := False\<rparr>"
  assume "modified s (IBLOCK ?i (sb s)) (put_dinode (blk s (IBLOCK ?i (sb s))) (di_off ?i) (mem_dinode ?ip)) t"
  then have st: "fstep s t" and bt: "blk t = (blk s)(IBLOCK ?i (sb s) := put_dinode (blk s (IBLOCK ?i (sb s))) (di_off ?i) (mem_dinode ?ip))"
    using modified_fstep by blast+
  note f = fstep_fs [OF st] and di = iupdate_inodes [OF live bt refl f(1)]
  have pl: "p < length (icache t)" "idev ?ip = 1" "?i < sb_ninodes (sb s)" "layout t" "quiet t"
    using live alloc_okD(2) layout_fstep(1) [OF st] quiet_keeps st f(2) by (auto simp: inode_live_def file_ok_def fstep_def)
  define u where "u = upd_inode p (\<lambda>ip. ip\<lparr>ilk := free_slk, iref := 0\<rparr>) t"
  have iu: "iunlockput p t = Ok u" using iunlockput_last [OF pl(1)] held ref ty(2) f by (simp add: u_def)
  have ic: "icache u ! q = (if q = p then ?ip\<lparr>ilk := free_slk, iref := 0\<rparr> else icache s ! q)" for q using pl(1) f(2) by (simp add: u_def icache_upd_inode)
  have lu: "length (icache u) = length (icache s)" "p < length (icache u)" using f(2) pl(1) by (simp_all add: u_def)
  obtain q where q: "q < length (icache u)" "iref (icache u ! q) = 0" "iget 1 ?i u = Ok (q, upd_inode q ?g u)"
    by (rule iget_new [of u 1 ?i p]) (use one lu ic in auto)
  let ?v = "upd_inode q ?g u"
  have nl: "\<not> sl_locked (ilk (icache u ! q))" using free q(1,2) lu ic by (auto simp: free_slk_def)
  have v: "icache ?v ! q = ?g (icache u ! q)" "in_op ?v" "layout ?v" "quiet ?v" "sb ?v = sb s" "blk ?v = blk t" "curpid ?v = curpid s" "q < length (icache ?v)"
    using q(1) pl(4,5) f by (simp_all add: icache_upd_inode u_def)
  have dv: "get_dinode (blk t (IBLOCK ?i (sb s))) (di_off ?i) = mem_dinode ?ip" using di [of ?i] f(1) by simp
  have lk: "ilk ?ip = \<lparr>sl_locked = True, sl_pid = curpid s\<rparr>" using held by (simp add: slk_holding_def)
  have "loaded (curpid s) (mem_dinode ?ip) (?g (icache u ! q)) = ?ip\<lparr>ivalid := True\<rparr>"
    using pl(2) ref lk by (intro inode.equality) (simp_all add: loaded_def mem_dinode_def)
  moreover have "ends limits (ilock q ?v) (\<lambda>w. icache w ! q = loaded (curpid s) (mem_dinode ?ip) (?g (icache u ! q)) \<and> blk w = blk t)"
    using ilock_loads [OF v(2,3,4,8)] v(1,5,6,7) nl pl(3) ty(1) dv by (simp add: mem_dinode_def)
  moreover have "get_dinode (blk t (IBLOCK j (sb s))) (di_off j) = get_dinode (blk s (IBLOCK j (sb s))) (di_off j)" if "j \<noteq> ?i" for j
    using di [of j] f(1) that by simp
  ultimately show "ends limits (bindr (iunlockput p t) (\<lambda>u. bindr (iget 1 ?i u) (\<lambda>(q, v). bindr (ilock q v) (\<lambda>w. Ok (q, w)))))
    (\<lambda>(q, w). icache w ! q = ?ip\<lparr>ivalid := True\<rparr>
       \<and> (\<forall>j. j \<noteq> ?i \<longrightarrow> get_dinode (blk w (IBLOCK j (sb s))) (di_off j) = get_dinode (blk s (IBLOCK j (sb s))) (di_off j)))"
    unfolding iu bindr_simps q(3) prod.case by (auto elim!: ends_mono)
qed

theorem inode_roundtrip_witness:
  "ends limits
    (bindr (iupdate 0 demo_fs) (\<lambda>t. bindr (iunlockput 0 t) (\<lambda>u. bindr (iget 1 3 u) (\<lambda>(q, v). bindr (ilock q v) (\<lambda>w. Ok (q, w))))))
    (\<lambda>(q, w). inum (icache w ! q) = 3 \<and> itype (icache w ! q) = T_FILE \<and> inlink (icache w ! q) = 1)"
proof -
  have ic: "icache demo_fs ! 0 = \<lparr>idev = 1, inum = 3, iref = 1, ilk = \<lparr>sl_locked = True, sl_pid = 1\<rparr>, ivalid = True, itype = T_FILE, imajor = 0, iminor = 0,
        inlink = 1, isize = 0, addrs = replicate (NDIRECT + 1) 0\<rparr>" "length (icache demo_fs) = 1" "curpid demo_fs = 1"
    by (simp_all add: demo_fs_def)
  from inode_roundtrip [OF demo_fs_live] show ?thesis by (simp add: ic slk_holding_def T_FILE_def) (auto elim!: ends_mono)
qed

end
