(* ===== verification/Vm_Map.thy ===== *)
theory Vm_Map
  imports Vm
begin

text \<open>
  What \<^verbatim>\<open>walkpgdir\<close> and \<^verbatim>\<open>mappages\<close> do to an address space: the page tables of one directory as a function from
  virtual addresses to entries, the invariant that the directory and its tables are separate pages outside the pool,
  and the effect of the two routines on it.
\<close>

section \<open>Words of a page\<close>

lemma unat_index:
  assumes "(d :: uint) < 1024" and "k < 4"
  shows "unat (4 * d + of_nat k) = 4 * unat d + k"
proof -
  have d: "unat d < 1024" using assms(1) by (simp add: word_less_nat_alt)
  have "unat (4 * d) = 4 * unat d" using d by (simp add: unat_word_ariths)
  moreover have "unat (of_nat k :: uint) = k" using assms(2) by (simp add: unat_of_nat_uint)
  ultimately show ?thesis using d assms(2) by (subst unat_add_uint) simp_all
qed

lemma in_page_word: "d < 1024 \<Longrightarrow> k < 4 \<Longrightarrow> in_page v (v + 4 * d + of_nat k)"
  using unat_index [of d k] by (simp add: in_page_def add.assoc word_less_nat_alt)

lemma word_distinct:
  assumes "aligned v" "aligned w" "d < 1024" "d' < 1024" "k < 4" "k' < 4"
    and "v + 4 * d + of_nat k = w + 4 * d' + of_nat k'"
  shows "v = w \<and> d = d'"
proof -
  have "in_page w (v + 4 * d + of_nat k)" using in_page_word [OF assms(4,6), of w] by (simp only: assms(7))
  then have vw: "v = w" using page_disjoint [OF assms(1,2) in_page_word [OF assms(3,5)]] by blast
  then have "4 * d + of_nat k = 4 * d' + (of_nat k' :: uint)" using assms(7) by (simp add: add.assoc)
  then have "4 * unat d + k = 4 * unat d' + k'" using unat_index assms(3-6) by metis
  then have "unat d = unat d'" using assms(5,6) by presburger
  then show ?thesis using vw by (simp add: word_unat_eq_iff)
qed

lemma load_store_word:
  assumes "aligned v" "aligned w" "d < 1024" "d' < 1024"
  shows "load32 (store32 m (v + 4 * d) x) (w + 4 * d') = (if v = w \<and> d = d' then x else load32 m (w + 4 * d'))"
proof (cases "v = w \<and> d = d'")
  case False
  have "store32 m (v + 4 * d) x (w + 4 * d' + of_nat k) = m (w + 4 * d' + of_nat k)" if "k < 4" for k
    by (rule store32_other) (use word_distinct [OF assms _ that] False in metis)
  then have "load32 (store32 m (v + 4 * d) x) (w + 4 * d') = load32 m (w + 4 * d')" by (rule load32_cong)
  then show ?thesis using False by auto
qed simp

lemma load_zero_page:
  assumes "aligned v" "aligned w" "d < 1024"
  shows "load32 (memset m v 0 PGSIZE) (w + 4 * d) = (if v = w then 0 else load32 m (w + 4 * d))"
proof (cases "v = w")
  case True
  have z: "memset m v 0 PGSIZE (w + 4 * d + of_nat k) = 0" if "k < 4" for k
    using in_page_word [OF assms(3) that, of w] True by (simp add: memset_fills in_page_def PGSIZE_def)
  have "load32 (memset m v 0 PGSIZE) (w + 4 * d) = load32 (\<lambda>_. 0) (w + 4 * d)" by (rule load32_cong) (rule z)
  also have "\<dots> = 0" by (simp add: load32_def)
  finally show ?thesis using True by simp
next
  case False
  have "memset m v 0 PGSIZE (w + 4 * d + of_nat k) = m (w + 4 * d + of_nat k)" if "k < 4" for k
  proof -
    have "\<not> in_page v (w + 4 * d + of_nat k)" using page_disjoint [OF assms(1,2)] in_page_word [OF assms(3) that, of w] False by blast
    then show ?thesis unfolding memset_fills in_page_def by (simp add: PGSIZE_def)
  qed
  then have "load32 (memset m v 0 PGSIZE) (w + 4 * d) = load32 m (w + 4 * d)" by (rule load32_cong)
  then show ?thesis using False by simp
qed

section \<open>Indices\<close>

lemma low10: "(a :: uint) AND 0x3FF = a mod 1024"
proof -
  have "a AND mask 10 = take_bit 10 a" by (simp add: take_bit_eq_mask)
  then show ?thesis by (simp add: mask_eq_exp_minus_1 take_bit_eq_mod)
qed

lemma PDX_unat: "unat (PDX va) = unat va div 4194304" "PDX va < 1024"
proof -
  have d: "unat (drop_bit 22 va) = unat va div 4194304" by (simp add: drop_bit_eq_div unat_div)
  have "unat va div 4194304 < 1024" using unat_uint_less [of va] by (simp add: less_mult_imp_div_less)
  then show "unat (PDX va) = unat va div 4194304" by (simp add: PDX_def low10 unat_mod d)
  then show "PDX va < 1024" using \<open>unat va div 4194304 < 1024\<close> by (simp add: word_less_nat_alt)
qed

lemma PTX_unat: "unat (PTX va) = unat va div 4096 mod 1024" "PTX va < 1024"
proof -
  have d: "unat (drop_bit 12 va) = unat va div 4096" by (simp add: drop_bit_eq_div unat_div)
  show u: "unat (PTX va) = unat va div 4096 mod 1024" by (simp add: PTX_def low10 unat_mod d)
  show "PTX va < 1024" by (simp add: word_less_nat_alt u)
qed

lemma same_entry: "PDX va = PDX vb \<and> PTX va = PTX vb \<longleftrightarrow> unat va div 4096 = unat vb div 4096"
proof -
  have h: "unat v div 4194304 = unat v div 4096 div 1024" for v :: uint by (simp add: div_mult2_eq [symmetric])
  have "PDX va = PDX vb \<and> PTX va = PTX vb \<longleftrightarrow>
      unat va div 4096 div 1024 = unat vb div 4096 div 1024 \<and> unat va div 4096 mod 1024 = unat vb div 4096 mod 1024"
    by (simp add: word_unat_eq_iff PDX_unat PTX_unat h)
  also have "\<dots> \<longleftrightarrow> unat va div 4096 = unat vb div 4096" by (metis div_mult_mod_eq)
  finally show ?thesis .
qed

section \<open>An address space\<close>

definition table :: "uint \<Rightarrow> uint" where
  "table e = P2V (PTE_ADDR e)"

definition pde_at :: "mem \<Rightarrow> uint \<Rightarrow> uint \<Rightarrow> uint" where
  "pde_at m pg d = load32 m (pg + 4 * d)"

text \<open>The entry for a virtual address; without a page table it is 0.\<close>

definition pte_at :: "mem \<Rightarrow> uint \<Rightarrow> uint \<Rightarrow> uint" where
  "pte_at m pg va = (let e = pde_at m pg (PDX va) in if e AND PTE_P = 0 then 0 else load32 m (table e + 4 * PTX va))"

definition present :: "mem \<Rightarrow> uint \<Rightarrow> uint \<Rightarrow> bool" where
  "present m pg d \<longleftrightarrow> pde_at m pg d AND PTE_P \<noteq> 0"

definition pt_ok :: "'a kst \<Rightarrow> uint list \<Rightarrow> uint \<Rightarrow> bool" where
  "pt_ok s ps pg \<longleftrightarrow> page_ok s pg \<and> pg \<notin> set ps
     \<and> (\<forall>d < 1024. present (kmemory s) pg d \<longrightarrow> (let t = table (pde_at (kmemory s) pg d) in page_ok s t \<and> t \<notin> set ps \<and> t \<noteq> pg))
     \<and> (\<forall>d < 1024. \<forall>d' < 1024. present (kmemory s) pg d \<longrightarrow> present (kmemory s) pg d' \<longrightarrow>
          table (pde_at (kmemory s) pg d) = table (pde_at (kmemory s) pg d') \<longrightarrow> d = d')"

lemma pt_okD:
  assumes "pt_ok s ps pg"
  shows "aligned pg" "page_ok s pg" "pg \<notin> set ps"
    "d < 1024 \<Longrightarrow> present (kmemory s) pg d \<Longrightarrow> page_ok s (table (pde_at (kmemory s) pg d)) \<and> aligned (table (pde_at (kmemory s) pg d))
       \<and> table (pde_at (kmemory s) pg d) \<notin> set ps \<and> table (pde_at (kmemory s) pg d) \<noteq> pg"
    "d < 1024 \<Longrightarrow> d' < 1024 \<Longrightarrow> present (kmemory s) pg d \<Longrightarrow> present (kmemory s) pg d' \<Longrightarrow>
       table (pde_at (kmemory s) pg d) = table (pde_at (kmemory s) pg d') \<Longrightarrow> d = d'"
  using assms unfolding pt_ok_def Let_def by (auto simp: page_ok_def)

text \<open>The directory entry for a new page table.\<close>

lemma new_pde:
  assumes "page_ok s t"
  shows "table (V2P t OR PTE_P OR PTE_W OR PTE_U) = t" "(V2P t OR PTE_P OR PTE_W OR PTE_U) AND PTE_P \<noteq> 0"
proof -
  have lt: "unat (V2P t) < 234881024" using assms by (simp add: page_ok_def PHYSTOP_def word_less_nat_alt)
  have "unat (V2P t + KERNBASE) = unat (V2P t) + 2147483648" using lt by (subst unat_add_uint) (simp_all add: KERNBASE_def)
  then have "unat t = unat (V2P t) + 4096 * 524288" by (simp add: V2P_def)
  moreover have "unat t mod 4096 = 0" using assms by (simp add: page_ok_def aligned_unat)
  ultimately have "unat (V2P t) mod 4096 = 0" by (simp only: mod_mult_self2)
  then have al: "aligned (V2P t)" by (simp add: aligned_unat)
  have m: "(0xFFF :: uint) = mask 12" by (simp add: mask_eq_exp_minus_1)
  have f: "V2P t OR PTE_P OR PTE_W OR PTE_U = V2P t OR mask 3"
    by (simp add: PTE_P_def PTE_W_def PTE_U_def mask_eq_exp_minus_1 or.assoc)
  have "V2P t AND mask 12 = 0" using al low12 [of "V2P t"] by (simp add: m aligned_def PGSIZE_def)
  then have bits: "\<not> bit (V2P t) i" if "i < 12" for i
    using that bit_and_iff [of "V2P t" "mask 12" i] by (simp add: bit_mask_iff)
  have "(V2P t OR mask 3) AND NOT (mask 12) = V2P t"
    by (rule bit_word_eqI) (use bits in \<open>auto simp: bit_simps not_less intro: leI\<close>)
  then show "table (V2P t OR PTE_P OR PTE_W OR PTE_U) = t" unfolding f by (simp add: table_def PTE_ADDR_def m P2V_def V2P_def)
  have "bit ((V2P t OR PTE_P OR PTE_W OR PTE_U) AND PTE_P) 0" by (simp add: PTE_P_def bit_simps)
  then show "(V2P t OR PTE_P OR PTE_W OR PTE_U) AND PTE_P \<noteq> 0" by auto
qed

section \<open>The page table of an address\<close>

lemma present_pte: "pte_at m pg va = (if present m pg (PDX va) then load32 m (table (pde_at m pg (PDX va)) + 4 * PTX va) else 0)"
  by (simp add: pte_at_def present_def Let_def)

text \<open>What a step leaves of the address space: \<open>f\<close> are its entries afterwards.\<close>

definition space :: "'a kst \<Rightarrow> uint list \<Rightarrow> uint \<Rightarrow> (uint \<Rightarrow> uint) \<Rightarrow> bool" where
  "space s ps pg f \<longleftrightarrow> kmem_ok s ps \<and> pt_ok s ps pg \<and> pte_at (kmemory s) pg = f"

lemma memset_page_other: "\<not> in_page v a \<Longrightarrow> memset m v c PGSIZE a = m a"
  by (simp add: memset_fills in_page_def PGSIZE_def)

lemma store_word_other: "d < 1024 \<Longrightarrow> \<not> in_page v a \<Longrightarrow> store32 m (v + 4 * d) x a = m a"
  by (rule store32_other) (use in_page_word in blast)

lemma kmem_ok_outside:
  assumes "kmem_ok s ps" and "\<And>x a. x \<in> set ps \<Longrightarrow> in_page x a \<Longrightarrow> m a = kmemory s a"
  shows "kmem_ok (s\<lparr>kmemory := m\<rparr>) ps"
  using assms flist_cong [of "kmemory s" "freelist s" ps m] by (simp add: kmem_ok_def page_ok_def)

lemma walk_new:
  assumes s: "kmem_ok s (t # qs)" and pt: "pt_ok s (t # qs) pg" and np: "\<not> present (kmemory s) pg (PDX va)"
  defines "u \<equiv> s\<lparr>freelist := load32 (kmemory s) t,
      kmemory := store32 (memset (kmemory s) t 0 PGSIZE) (pg + 4 * PDX va) (V2P t OR PTE_P OR PTE_W OR PTE_U)\<rparr>"
  shows "space u qs pg (pte_at (kmemory s) pg)" "present (kmemory u) pg (PDX va)" "table (pde_at (kmemory u) pg (PDX va)) = t"
proof -
  let ?e = "V2P t OR PTE_P OR PTE_W OR PTE_U" and ?d = "PDX va"
  have t: "kmem_ok (s\<lparr>freelist := load32 (kmemory s) t\<rparr>) qs" "t \<notin> set qs" "page_ok s t" using kalloc_spec(2) [OF s refl] by simp_all
  note e = new_pde [OF t(3)]
  have al: "aligned t" "aligned pg" "t \<noteq> pg" using t(3) pt_okD(1,3) [OF pt] by (auto simp: page_ok_def)
  have m: "kmemory u = store32 (memset (kmemory s) t 0 PGSIZE) (pg + 4 * ?d) ?e" by (simp add: u_def)
  have ld: "load32 (kmemory u) (w + 4 * d) = (if w = pg \<and> d = ?d then ?e else if w = t then 0 else load32 (kmemory s) (w + 4 * d))"
    if "aligned w" "d < 1024" for w d
    using load_store_word [OF al(2) that(1) PDX_unat(2) that(2)] load_zero_page [OF al(1) that] al(3) by (auto simp: m)
  have pd: "pde_at (kmemory u) pg d = (if d = ?d then ?e else pde_at (kmemory s) pg d)" if "d < 1024" for d
    using ld [OF al(2) that] al(3) by (auto simp: pde_at_def)
  then have pr: "present (kmemory u) pg d = (d = ?d \<or> present (kmemory s) pg d)" if "d < 1024" for d
    using e(2) that by (auto simp: present_def)
  show "present (kmemory u) pg ?d" "table (pde_at (kmemory u) pg ?d) = t" using pr pd e(1) PDX_unat(2) by simp_all
  have tb: "table (pde_at (kmemory s) pg d) \<noteq> t" if "d < 1024" "present (kmemory s) pg d" for d using pt_okD(4) [OF pt that] by auto
  have pk: "page_ok u = page_ok s" by (simp add: u_def page_ok_def fun_eq_iff)
  have "kmem_ok u qs"
  proof -
    have "kmemory u a = kmemory s a" if "x \<in> set qs" "in_page x a" for x a
    proof -
      have x: "aligned x" "x \<noteq> t" "x \<noteq> pg" using that(1) t pt_okD(3) [OF pt] by (auto simp: kmem_ok_def page_ok_def)
      then have "\<not> in_page t a" "\<not> in_page pg a" using page_disjoint that(2) al by blast+
      then show ?thesis by (simp add: m store_word_other PDX_unat(2) memset_page_other)
    qed
    then show ?thesis using kmem_ok_outside [OF t(1), of "kmemory u"] by (simp add: u_def)
  qed
  moreover have "pt_ok u qs pg"
    unfolding pt_ok_def Let_def pk
  proof (intro conjI allI impI)
    show "page_ok s pg" "pg \<notin> set qs" using pt_okD(2,3) [OF pt] by simp_all
    fix d :: uint assume d: "d < 1024" "present (kmemory u) pg d"
    show "page_ok s (table (pde_at (kmemory u) pg d))" "table (pde_at (kmemory u) pg d) \<notin> set qs" "table (pde_at (kmemory u) pg d) \<noteq> pg"
      using pd [OF d(1)] pr [OF d(1)] d(2) e(1) t al(3) pt_okD(4) [OF pt d(1)] by (auto split: if_splits)
    fix d' :: uint assume d': "d' < 1024" "present (kmemory u) pg d'" "table (pde_at (kmemory u) pg d) = table (pde_at (kmemory u) pg d')"
    then show "d = d'"
      using pd [OF d(1)] pd [OF d'(1)] pr [OF d(1)] pr [OF d'(1)] d e(1) tb pt_okD(5) [OF pt d(1) d'(1)] by (auto split: if_splits)
  qed
  moreover have "pte_at (kmemory u) pg vb = pte_at (kmemory s) pg vb" for vb
  proof (cases "PDX vb = ?d")
    case True
    then show ?thesis using np pr [OF PDX_unat(2)] pd [OF PDX_unat(2)] e(1) ld [OF al(1) PTX_unat(2), of vb] al(3) by (simp add: present_pte)
  next
    case False
    show ?thesis
    proof (cases "present (kmemory s) pg (PDX vb)")
      case True
      let ?t = "table (pde_at (kmemory s) pg (PDX vb))"
      have "aligned ?t" "?t \<noteq> t" "?t \<noteq> pg" using pt_okD(4) [OF pt PDX_unat(2) True] by auto
      then show ?thesis using True False pr [OF PDX_unat(2)] pd [OF PDX_unat(2)] ld [of ?t "PTX vb", OF _ PTX_unat(2)] by (simp add: present_pte)
    next
      case F: False
      then show ?thesis using False pr [OF PDX_unat(2)] by (simp add: present_pte)
    qed
  qed
  ultimately show "space u qs pg (pte_at (kmemory s) pg)" by (simp add: space_def fun_eq_iff)
qed

text \<open>\<^verbatim>\<open>walkpgdir\<close> with \<^verbatim>\<open>alloc\<close>: the address of the entry, in a table of the directory; no entry changes.\<close>

lemma walkpgdir_spec:
  assumes "space s ps pg f"
  shows "walkpgdir pg va True s = (0, s) \<and> ps = [] \<or>
    (\<exists>t u qs. walkpgdir pg va True s = (t + 4 * PTX va, u) \<and> t + 4 * PTX va \<noteq> 0 \<and> space u qs pg f \<and> set qs \<subseteq> set ps
       \<and> present (kmemory u) pg (PDX va) \<and> table (pde_at (kmemory u) pg (PDX va)) = t \<and> kend u = kend s)"
proof -
  have s: "kmem_ok s ps" and pt: "pt_ok s ps pg" and f: "pte_at (kmemory s) pg = f" using assms by (simp_all add: space_def)
  have nz: "t + 4 * PTX va \<noteq> 0" if "page_ok s t" for t
  proof
    assume "t + 4 * PTX va = 0"
    then have "in_page t 0" using in_page_word [OF PTX_unat(2), of 0 t va] by simp
    moreover have "aligned 0" by (simp add: aligned_def)
    moreover have "in_page 0 (0 :: uint)" by (simp add: in_page_def)
    ultimately have "t = 0" using page_disjoint that by (auto simp: page_ok_def)
    then show False using page_nonzero [OF that] by simp
  qed
  show ?thesis
  proof (cases "present (kmemory s) pg (PDX va)")
    case True
    let ?t = "table (pde_at (kmemory s) pg (PDX va))"
    have "walkpgdir pg va True s = (?t + 4 * PTX va, s)"
      using True by (simp add: walkpgdir_def Let_def present_def pde_at_def table_def)
    then show ?thesis using assms nz True pt_okD(4) [OF pt PDX_unat(2) True] by (intro disjI2 exI [of _ ?t] exI [of _ s] exI [of _ ps]) simp
  next
    case False
    show ?thesis
    proof (cases ps)
      case Nil
      then show ?thesis using kalloc_spec(1) [OF s] False by (simp add: walkpgdir_def Let_def present_def pde_at_def)
    next
      case (Cons t qs)
      have t: "kalloc s = (t, s\<lparr>freelist := load32 (kmemory s) t\<rparr>)" "page_ok s t" "t \<noteq> 0"
        using kalloc_spec [OF s] Cons page_nonzero by auto
      let ?u = "s\<lparr>freelist := load32 (kmemory s) t,
        kmemory := store32 (memset (kmemory s) t 0 PGSIZE) (pg + 4 * PDX va) (V2P t OR PTE_P OR PTE_W OR PTE_U)\<rparr>"
      have "walkpgdir pg va True s = (t + 4 * PTX va, ?u)"
        using t False by (simp add: walkpgdir_def Let_def present_def pde_at_def)
      then show ?thesis using walk_new [OF s [unfolded Cons] pt [unfolded Cons] False] nz [OF t(2)] f Cons
        by (intro disjI2 exI [of _ t] exI [of _ ?u] exI [of _ qs]) auto
    qed
  qed
qed

text \<open>Storing an entry of a table.\<close>

lemma store_pte:
  assumes sp: "space s ps pg f" and p: "present (kmemory s) pg (PDX va)" and t: "table (pde_at (kmemory s) pg (PDX va)) = t"
  shows "space (s\<lparr>kmemory := store32 (kmemory s) (t + 4 * PTX va) x\<rparr>) ps pg (\<lambda>vb. if unat vb div 4096 = unat va div 4096 then x else f vb)"
proof -
  have s: "kmem_ok s ps" and pt: "pt_ok s ps pg" and f: "pte_at (kmemory s) pg = f" using sp by (simp_all add: space_def)
  let ?m = "store32 (kmemory s) (t + 4 * PTX va) x"
  have al: "aligned t" "t \<noteq> pg" "t \<notin> set ps" "aligned pg" using pt_okD(4) [OF pt PDX_unat(2) p] t pt_okD(1) [OF pt] by auto
  have ld: "load32 ?m (w + 4 * d) = (if t = w \<and> PTX va = d then x else load32 (kmemory s) (w + 4 * d))" if "aligned w" "d < 1024" for w d
    using load_store_word [OF al(1) that(1) PTX_unat(2) that(2)] by simp
  have pd: "pde_at ?m pg d = pde_at (kmemory s) pg d" if "d < 1024" for d using ld [OF al(4) that] al(2) by (simp add: pde_at_def)
  then have pr: "present ?m pg d = present (kmemory s) pg d" if "d < 1024" for d using that by (simp add: present_def)
  have pk: "page_ok (s\<lparr>kmemory := ?m\<rparr>) = page_ok s" by (simp add: page_ok_def fun_eq_iff)
  have "?m a = kmemory s a" if "w \<in> set ps" "in_page w a" for w a
  proof -
    have "aligned w" "w \<noteq> t" using that(1) s al(3) by (auto simp: kmem_ok_def page_ok_def)
    then have "\<not> in_page t a" using page_disjoint that(2) al(1) by blast
    then show ?thesis by (simp add: store_word_other PTX_unat(2))
  qed
  then have "kmem_ok (s\<lparr>kmemory := ?m\<rparr>) ps" using kmem_ok_outside [OF s] by blast
  moreover have "pt_ok (s\<lparr>kmemory := ?m\<rparr>) ps pg"
    using pt unfolding pt_ok_def pk by (simp add: pd pr)
  moreover have "pte_at ?m pg vb = (if unat vb div 4096 = unat va div 4096 then x else f vb)" for vb
  proof (cases "present (kmemory s) pg (PDX vb)")
    case True
    let ?w = "table (pde_at (kmemory s) pg (PDX vb))"
    have "aligned ?w" using pt_okD(4) [OF pt PDX_unat(2) True] by blast
    moreover have "t = ?w \<longleftrightarrow> PDX va = PDX vb" using pt_okD(5) [OF pt PDX_unat(2) PDX_unat(2) p True] t by auto
    ultimately have "load32 ?m (?w + 4 * PTX vb) = (if PDX va = PDX vb \<and> PTX va = PTX vb then x else load32 (kmemory s) (?w + 4 * PTX vb))"
      using ld [of ?w "PTX vb"] PTX_unat(2) by simp
    then show ?thesis using True pr [OF PDX_unat(2)] pd [OF PDX_unat(2)] same_entry [of va vb] by (auto simp: present_pte f [symmetric])
  next
    case False
    then have "PDX va \<noteq> PDX vb" using p by auto
    then have "unat vb div 4096 \<noteq> unat va div 4096" using same_entry [of vb va] by auto
    then show ?thesis using False pr [OF PDX_unat(2)] by (simp add: present_pte f [symmetric])
  qed
  ultimately show ?thesis by (simp add: space_def fun_eq_iff)
qed

section \<open>Mapping a range\<close>

definition vpn :: "uint \<Rightarrow> nat" where
  "vpn va = unat va div 4096"

text \<open>The entries \<open>f\<close> with \<open>k\<close> pages from page number \<open>p\<close> on mapped to the physical pages from \<open>pa\<close> on.\<close>

definition mapped_to :: "(uint \<Rightarrow> uint) \<Rightarrow> nat \<Rightarrow> uint \<Rightarrow> uint \<Rightarrow> nat \<Rightarrow> uint \<Rightarrow> uint" where
  "mapped_to f p pa perm k = (\<lambda>vb. if p \<le> vpn vb \<and> vpn vb < p + k then (pa + of_nat (vpn vb - p) * PGSIZE) OR perm OR PTE_P else f vb)"

lemma mapped_to_0 [simp]: "mapped_to f p pa perm 0 = f"
  by (auto simp: mapped_to_def fun_eq_iff)

lemma mapped_to_Suc:
  "mapped_to (\<lambda>vb. if vpn vb = p then pa OR perm OR PTE_P else f vb) (Suc p) (pa + PGSIZE) perm k = mapped_to f p pa perm (Suc k)"
proof
  fix vb
  show "mapped_to (\<lambda>vb. if vpn vb = p then pa OR perm OR PTE_P else f vb) (Suc p) (pa + PGSIZE) perm k vb = mapped_to f p pa perm (Suc k) vb"
  proof (cases "Suc p \<le> vpn vb")
    case True
    then have d: "vpn vb - p = Suc (vpn vb - Suc p)" by simp
    have e: "pa + PGSIZE + of_nat (vpn vb - Suc p) * PGSIZE = pa + of_nat (vpn vb - p) * PGSIZE" unfolding d by (simp add: algebra_simps)
    show ?thesis using True unfolding mapped_to_def e by auto
  next
    case False
    then show ?thesis by (auto simp: mapped_to_def)
  qed
qed

lemma map_page:
  assumes sp: "space s ps pg f" and np: "f a AND PTE_P = 0"
  shows "walkpgdir pg a True s = (0, s) \<and> ps = [] \<or>
    (\<exists>pte u qs. walkpgdir pg a True s = (pte, u) \<and> pte \<noteq> 0 \<and> load32 (kmemory u) pte AND PTE_P = 0 \<and> set qs \<subseteq> set ps
       \<and> (\<forall>x. space (u\<lparr>kmemory := store32 (kmemory u) pte x\<rparr>) qs pg (\<lambda>vb. if vpn vb = vpn a then x else f vb)))"
proof (rule disjE [OF walkpgdir_spec [OF sp, of a]])
  assume "\<exists>t u qs. walkpgdir pg a True s = (t + 4 * PTX a, u) \<and> t + 4 * PTX a \<noteq> 0 \<and> space u qs pg f \<and> set qs \<subseteq> set ps
       \<and> present (kmemory u) pg (PDX a) \<and> table (pde_at (kmemory u) pg (PDX a)) = t \<and> kend u = kend s"
  then obtain t u qs where w: "walkpgdir pg a True s = (t + 4 * PTX a, u)" "t + 4 * PTX a \<noteq> 0" "space u qs pg f" "set qs \<subseteq> set ps"
    "present (kmemory u) pg (PDX a)" "table (pde_at (kmemory u) pg (PDX a)) = t" by blast
  have "load32 (kmemory u) (t + 4 * PTX a) = f a" using w(3,5,6) by (auto simp: space_def present_pte)
  then show ?thesis using w store_pte [OF w(3,5,6)] np
    by (intro disjI2 exI [of _ "t + 4 * PTX a"] exI [of _ u] exI [of _ qs]) (simp add: vpn_def)
qed simp

lemma vpn_next: "aligned a \<Longrightarrow> unat a + 4096 < 4294967296 \<Longrightarrow> vpn (a + PGSIZE) = Suc (vpn a)"
  using aligned_add [of a] by (simp add: vpn_def)

lemma map_loop_spec:
  assumes "space s ps pg f" and "aligned a" and "unat a + 4096 * Suc n \<le> 4294967296"
    and "\<And>vb. vpn a \<le> vpn vb \<Longrightarrow> vpn vb \<le> vpn a + n \<Longrightarrow> f vb AND PTE_P = 0"
  shows "\<exists>r t qs. map_loop n pg a pa perm s = Ok (r, t) \<and> set qs \<subseteq> set ps
    \<and> (r = 0 \<and> space t qs pg (mapped_to f (vpn a) pa perm (Suc n)) \<or> r = -1 \<and> (\<exists>k \<le> n. space t [] pg (mapped_to f (vpn a) pa perm k)))"
  using assms
proof (induction n arbitrary: s ps f a pa)
  case 0
  have np: "f a AND PTE_P = 0" using 0(4) [of a] by simp
  from map_page [OF 0(1) np] show ?case
  proof
    assume "walkpgdir pg a True s = (0, s) \<and> ps = []"
    then show ?thesis using 0(1) by (intro exI [of _ "-1"] exI [of _ s] exI [of _ "[]"]) simp
  next
    assume "\<exists>pte u qs. walkpgdir pg a True s = (pte, u) \<and> pte \<noteq> 0 \<and> load32 (kmemory u) pte AND PTE_P = 0 \<and> set qs \<subseteq> set ps
       \<and> (\<forall>x. space (u\<lparr>kmemory := store32 (kmemory u) pte x\<rparr>) qs pg (\<lambda>vb. if vpn vb = vpn a then x else f vb))"
    then obtain pte u qs where w: "walkpgdir pg a True s = (pte, u)" "pte \<noteq> 0" "load32 (kmemory u) pte AND PTE_P = 0" "set qs \<subseteq> set ps"
      "space (u\<lparr>kmemory := store32 (kmemory u) pte (pa OR perm OR PTE_P)\<rparr>) qs pg (\<lambda>vb. if vpn vb = vpn a then pa OR perm OR PTE_P else f vb)" by blast
    then show ?thesis using mapped_to_Suc [of "vpn a" pa perm f 0]
      by (intro exI [of _ 0] exI [of _ "u\<lparr>kmemory := store32 (kmemory u) pte (pa OR perm OR PTE_P)\<rparr>"] exI [of _ qs]) simp
  qed
next
  case (Suc n)
  have np: "f a AND PTE_P = 0" using Suc.prems(4) [of a] by simp
  have na: "aligned (a + PGSIZE)" "unat (a + PGSIZE) = unat a + 4096" "vpn (a + PGSIZE) = Suc (vpn a)"
    using aligned_add [OF Suc.prems(2)] vpn_next [OF Suc.prems(2)] Suc.prems(3) by simp_all
  from map_page [OF Suc.prems(1) np] show ?case
  proof
    assume "walkpgdir pg a True s = (0, s) \<and> ps = []"
    then show ?thesis using Suc.prems(1) by (intro exI [of _ "-1"] exI [of _ s] exI [of _ "[]"]) auto
  next
    assume "\<exists>pte u qs. walkpgdir pg a True s = (pte, u) \<and> pte \<noteq> 0 \<and> load32 (kmemory u) pte AND PTE_P = 0 \<and> set qs \<subseteq> set ps
       \<and> (\<forall>x. space (u\<lparr>kmemory := store32 (kmemory u) pte x\<rparr>) qs pg (\<lambda>vb. if vpn vb = vpn a then x else f vb))"
    then obtain pte u qs where w: "walkpgdir pg a True s = (pte, u)" "pte \<noteq> 0" "load32 (kmemory u) pte AND PTE_P = 0" "set qs \<subseteq> set ps"
      and sp: "space (u\<lparr>kmemory := store32 (kmemory u) pte (pa OR perm OR PTE_P)\<rparr>) qs pg (\<lambda>vb. if vpn vb = vpn a then pa OR perm OR PTE_P else f vb)" by blast
    have "\<exists>r t qs'. map_loop n pg (a + PGSIZE) (pa + PGSIZE) perm (u\<lparr>kmemory := store32 (kmemory u) pte (pa OR perm OR PTE_P)\<rparr>) = Ok (r, t) \<and> set qs' \<subseteq> set qs
      \<and> (r = 0 \<and> space t qs' pg (mapped_to (\<lambda>vb. if vpn vb = vpn a then pa OR perm OR PTE_P else f vb) (vpn (a + PGSIZE)) (pa + PGSIZE) perm (Suc n))
        \<or> r = -1 \<and> (\<exists>k \<le> n. space t [] pg (mapped_to (\<lambda>vb. if vpn vb = vpn a then pa OR perm OR PTE_P else f vb) (vpn (a + PGSIZE)) (pa + PGSIZE) perm k)))"
      by (rule Suc.IH [OF sp na(1)]) (use na Suc.prems(3,4) in auto)
    then obtain r t qs' where m: "map_loop n pg (a + PGSIZE) (pa + PGSIZE) perm (u\<lparr>kmemory := store32 (kmemory u) pte (pa OR perm OR PTE_P)\<rparr>) = Ok (r, t)"
      "set qs' \<subseteq> set qs" "r = 0 \<and> space t qs' pg (mapped_to f (vpn a) pa perm (Suc (Suc n))) \<or> r = -1 \<and> (\<exists>k \<le> n. space t [] pg (mapped_to f (vpn a) pa perm (Suc k)))"
      unfolding na(3) mapped_to_Suc by blast
    have "map_loop (Suc n) pg a pa perm s = Ok (r, t)" using w m(1) by simp
    moreover have "set qs' \<subseteq> set ps" using w(4) m(2) by blast
    moreover have "r = 0 \<and> space t qs' pg (mapped_to f (vpn a) pa perm (Suc (Suc n))) \<or> r = -1 \<and> (\<exists>k \<le> Suc n. space t [] pg (mapped_to f (vpn a) pa perm k))"
      using m(3) Suc_le_mono by blast
    ultimately show ?thesis by (intro exI [of _ r] exI [of _ t] exI [of _ qs']) (simp only: simp_thms)
  qed
qed

text \<open>C28: \<^verbatim>\<open>mappages\<close> maps exactly the pages of its range: if none of them is mapped, it does not panic; when it returns 0, page
  \<open>i\<close> of the range is mapped to physical page \<open>pa + i * PGSIZE\<close> with the permissions and every other address translates
  as before; it returns -1 only when the page pool is empty, and has then mapped a first part of the range and nothing else.
  The directory and its tables stay separate pages outside the pool.
\<close>

theorem mappages_maps:
  assumes s: "kmem_ok s ps" and pt: "pt_ok s ps pg" and len: "len \<noteq> 0" "unat va + unat len \<le> 4294967296"
    and np: "\<forall>vb. vpn va \<le> vpn vb \<longrightarrow> vpn vb \<le> (unat va + unat len - 1) div 4096 \<longrightarrow> pte_at (kmemory s) pg vb AND PTE_P = 0"
  shows "\<exists>r t qs. mappages pg va len pa perm s = Ok (r, t) \<and> kmem_ok t qs \<and> pt_ok t qs pg \<and> set qs \<subseteq> set ps
    \<and> (r = 0 \<and> pte_at (kmemory t) pg = mapped_to (pte_at (kmemory s) pg) (vpn va) pa perm ((unat va + unat len - 1) div 4096 - vpn va + 1)
       \<or> r = -1 \<and> qs = [] \<and> (\<exists>k. k \<le> (unat va + unat len - 1) div 4096 - vpn va \<and> pte_at (kmemory t) pg = mapped_to (pte_at (kmemory s) pg) (vpn va) pa perm k))"
proof -
  let ?a = "PGROUNDDOWN va" and ?e = "unat va + unat len - 1"
  define last where "last = PGROUNDDOWN (va + len - 1)"
  define n where "n = ?e div 4096 - vpn va"
  have l0: "0 < unat len" using len(1) by (simp add: unat_gt_0)
  have "unat (len - 1) = unat len - 1" using l0 by (subst unat_sub_uint) (simp_all add: word_le_nat_alt)
  then have ue: "unat (va + (len - 1)) = ?e" using len(2) l0 by (subst unat_add_uint) simp_all
  then have ul: "unat last = 4096 * (?e div 4096)" by (simp add: last_def unat_PGROUNDDOWN add_diff_eq)
  have ua: "unat ?a = 4096 * vpn va" by (simp add: unat_PGROUNDDOWN vpn_def)
  have le: "vpn va \<le> ?e div 4096" using l0 by (simp add: vpn_def div_le_mono)
  then have en: "?e div 4096 = vpn va + n" by (simp add: n_def)
  have "?a \<le> last" using ua ul le by (simp add: word_le_nat_alt)
  then have "unat (last - ?a) = 4096 * n" using ul ua by (simp add: unat_sub_uint n_def diff_mult_distrib2)
  then have eq: "mappages pg va len pa perm s = map_loop n pg ?a pa perm s" by (simp add: mappages_def Let_def last_def [symmetric])
  have va: "vpn ?a = vpn va" using ua by (simp add: vpn_def)
  have "?e div 4096 < 1048576" using len(2) l0 by (simp add: less_mult_imp_div_less)
  then have b: "unat ?a + 4096 * Suc n \<le> 4294967296" using ua en by simp
  have sp: "space s ps pg (pte_at (kmemory s) pg)" using s pt by (simp add: space_def)
  obtain r t qs where m: "map_loop n pg ?a pa perm s = Ok (r, t)" "set qs \<subseteq> set ps"
    "r = 0 \<and> space t qs pg (mapped_to (pte_at (kmemory s) pg) (vpn va) pa perm (Suc n)) \<or> r = -1 \<and> (\<exists>k \<le> n. space t [] pg (mapped_to (pte_at (kmemory s) pg) (vpn va) pa perm k))"
    using map_loop_spec [OF sp aligned_PGROUNDDOWN(1) b, unfolded va, of pa perm] np en by auto
  from m(3) show ?thesis
  proof
    assume "r = 0 \<and> space t qs pg (mapped_to (pte_at (kmemory s) pg) (vpn va) pa perm (Suc n))"
    then show ?thesis using m(1,2) unfolding eq n_def [symmetric] space_def by (intro exI [of _ r] exI [of _ t] exI [of _ qs]) simp
  next
    assume "r = -1 \<and> (\<exists>k \<le> n. space t [] pg (mapped_to (pte_at (kmemory s) pg) (vpn va) pa perm k))"
    then show ?thesis using m(1) unfolding eq n_def [symmetric] space_def by (intro exI [of _ r] exI [of _ t] exI [of _ "[]"]) auto
  qed
qed

text \<open>An empty directory and one free page.\<close>

definition demo_space :: kmem where
  "demo_space = \<lparr>kmemory = (\<lambda>_. 0), freelist = 0x80400000, kend = 0x80200000\<rparr>"

lemma demo_space_ok: "kmem_ok demo_space [0x80400000]" "pt_ok demo_space [0x80400000] 0x80300000" "pte_at (kmemory demo_space) 0x80300000 = (\<lambda>_. 0)"
proof -
  have z: "load32 (\<lambda>_. 0) a = 0" for a by (simp add: load32_def)
  show "kmem_ok demo_space [0x80400000]"
    by (simp add: kmem_ok_def demo_space_def page_ok_def aligned_def PGSIZE_def V2P_def KERNBASE_def PHYSTOP_def z)
  show "pt_ok demo_space [0x80400000] 0x80300000"
    by (simp add: pt_ok_def present_def pde_at_def demo_space_def page_ok_def aligned_def PGSIZE_def V2P_def KERNBASE_def PHYSTOP_def z)
  show "pte_at (kmemory demo_space) 0x80300000 = (\<lambda>_. 0)" by (simp add: pte_at_def pde_at_def demo_space_def z fun_eq_iff)
qed

theorem mappages_maps_witness:
  "\<exists>r t. mappages 0x80300000 0x1000 0x2000 0x5000 PTE_W demo_space = Ok (r, t)
    \<and> (r = 0 \<longrightarrow> pte_at (kmemory t) 0x80300000 0x2000 = 0x6000 OR PTE_W OR PTE_P)"
proof -
  obtain r t qs where m: "mappages 0x80300000 0x1000 0x2000 0x5000 PTE_W demo_space = Ok (r, t)"
    "r = 0 \<and> pte_at (kmemory t) 0x80300000 = mapped_to (pte_at (kmemory demo_space) 0x80300000) (vpn 0x1000) 0x5000 PTE_W
        ((unat (0x1000 :: uint) + unat (0x2000 :: uint) - 1) div 4096 - vpn 0x1000 + 1)
     \<or> r = -1"
    using mappages_maps [OF demo_space_ok(1,2), of "0x2000" "0x1000" "0x5000" PTE_W] by (auto simp: demo_space_ok(3))
  have "pte_at (kmemory t) 0x80300000 0x2000 = 0x6000 OR PTE_W OR PTE_P" if "r = 0"
    using m(2) that by (simp add: mapped_to_def vpn_def PGSIZE_def)
  then show ?thesis using m(1) by blast
qed

end
