(* ===== verification/Shm.thy ===== *)
theory Shm
  imports Vm_Map
begin

text \<open>
  The table of shared pages (\<^verbatim>\<open>shm_table\<close> of \<^verbatim>\<open>vm.c\<close>): its typing, that the calls keep it and stay inside its arrays,
  and what \<^verbatim>\<open>open_sharedmem\<close> maps. The page tables are reached through \<^verbatim>\<open>mappages\<close> and \<^verbatim>\<open>unmappages\<close>, which leave the
  table alone.
\<close>

section \<open>Frames\<close>

lemma kalloc_more: "kmem.more (snd (kalloc s)) = kmem.more s"
  by (simp add: kalloc_def Let_def)

lemma walkpgdir_more: "kmem.more (snd (walkpgdir pgdir va alloc s)) = kmem.more s"
  using kalloc_more [of s] by (auto simp: walkpgdir_def Let_def split: prod.splits)

lemma map_loop_more: "map_loop n pgdir a pa perm s = Ok (r, t) \<Longrightarrow> kmem.more t = kmem.more s"
proof (induction n arbitrary: a pa s)
  case 0
  then show ?case using walkpgdir_more [of pgdir a True s] by (auto simp: Let_def guardr_Ok_iff split: prod.splits if_splits)
next
  case (Suc n)
  obtain pte u where w: "walkpgdir pgdir a True s = (pte, u)" by fastforce
  then have m: "kmem.more u = kmem.more s" using walkpgdir_more [of pgdir a True s] by simp
  then show ?case using Suc.prems Suc.IH [of "a + PGSIZE" "pa + PGSIZE" "u\<lparr>kmemory := store32 (kmemory u) pte (pa OR perm OR PTE_P)\<rparr>"] w
    by (auto simp: guardr_Ok_iff split: if_splits)
qed

lemma mappages_more: "mappages pgdir va len pa perm s = Ok (r, t) \<Longrightarrow> kmem.more t = kmem.more s"
  by (auto simp: mappages_def Let_def dest: map_loop_more)

lemma unmap_loop_more: "unmap_loop n pgdir a s = Ok (r, t) \<Longrightarrow> kmem.more t = kmem.more s"
proof (induction n arbitrary: a s)
  case 0
  then show ?case using walkpgdir_more [of pgdir a True s] by (auto simp: Let_def guardr_Ok_iff split: prod.splits if_splits)
next
  case (Suc n)
  obtain pte u where w: "walkpgdir pgdir a True s = (pte, u)" by fastforce
  then have m: "kmem.more u = kmem.more s" using walkpgdir_more [of pgdir a True s] by simp
  then show ?case using Suc.prems Suc.IH [of "a + PGSIZE" "u\<lparr>kmemory := store32 (kmemory u) pte 0\<rparr>"] w
    by (auto simp: guardr_Ok_iff split: if_splits)
qed

lemma unmappages_more: "unmappages pgdir va len s = Ok (r, t) \<Longrightarrow> kmem.more t = kmem.more s"
  by (auto simp: unmappages_def Let_def dest: unmap_loop_more)

lemma switchuvm_cur_Ok: "switchuvm_cur s = Ok t \<Longrightarrow> \<exists>x y. t = s\<lparr>vesp0 := x, vcr3 := y\<rparr>"
  by (auto simp: switchuvm_cur_def guardr_Ok_iff)

lemma switchuvm_cur_no_undef: "switchuvm_cur s \<noteq> Undef e"
  by (simp add: switchuvm_cur_def guardr_def)

lemma shm_fields:
  fixes s t :: "'a vst"
  assumes "kmem.more t = kmem.more s"
  shows "shm_id t = shm_id s" "shm_pa t = shm_pa s" "shm_ref t = shm_ref s" "shm_va t = shm_va s" "vpid t = vpid s" "vpgdir t = vpgdir s" "vsz t = vsz s"
    "vkstack t = vkstack s"
  using assms by (cases s; cases t; simp)+

lemma map_loop_no_undef: "map_loop n pgdir a pa perm s \<noteq> Undef e"
  by (induction n arbitrary: a pa s) (auto simp: Let_def guardr_def split: prod.splits)

lemma unmap_loop_no_undef: "unmap_loop n pgdir a s \<noteq> Undef e"
  by (induction n arbitrary: a s) (auto simp: Let_def guardr_def split: prod.splits)

section \<open>The search\<close>

lemma shm_find_spec:
  "shm_find key xs i found = r \<Longrightarrow>
     (\<exists>j < length xs. r = Some (i + j) \<and> snd (xs ! j) \<noteq> 0 \<and> fst (xs ! j) = key)
   \<or> (\<forall>j < length xs. snd (xs ! j) \<noteq> 0 \<longrightarrow> fst (xs ! j) \<noteq> key)
     \<and> (r = found \<and> (\<forall>j < length xs. snd (xs ! j) \<noteq> 0) \<or> (\<exists>j < length xs. r = Some (i + j) \<and> snd (xs ! j) = 0))"
proof (induction key xs i found rule: shm_find.induct)
  case (2 key j ref xs i found)
  have sh: "P 0 \<and> (\<forall>k < length xs. P (Suc k)) \<Longrightarrow> \<forall>k < length ((j, ref) # xs). P k" for P by (auto simp: less_Suc_eq_0_disj)
  show ?case
  proof (cases "ref \<noteq> 0 \<and> j = key")
    case True
    then show ?thesis using 2 by (auto intro!: exI [of _ 0])
  next
    case False
    then have r: "shm_find key xs (Suc i) (if ref = 0 then Some i else found) = r" using 2(3) by (auto split: if_splits)
    have ih: "(\<exists>k < length xs. r = Some (Suc i + k) \<and> snd (xs ! k) \<noteq> 0 \<and> fst (xs ! k) = key)
      \<or> (\<forall>k < length xs. snd (xs ! k) \<noteq> 0 \<longrightarrow> fst (xs ! k) \<noteq> key)
        \<and> (r = (if ref = 0 then Some i else found) \<and> (\<forall>k < length xs. snd (xs ! k) \<noteq> 0) \<or> (\<exists>k < length xs. r = Some (Suc i + k) \<and> snd (xs ! k) = 0))"
      using 2(1,2) r False by (cases "ref = 0") auto
    have up: "(\<exists>k < length xs. r = Some (Suc i + k) \<and> Q (xs ! k)) \<Longrightarrow> \<exists>k < length ((j, ref) # xs). r = Some (i + k) \<and> Q (((j, ref) # xs) ! k)" for Q
      by (metis Suc_mono add_Suc add_Suc_right length_Cons nth_Cons_Suc)
    from ih show ?thesis
    proof
      assume "\<exists>k < length xs. r = Some (Suc i + k) \<and> snd (xs ! k) \<noteq> 0 \<and> fst (xs ! k) = key"
      then show ?thesis using up [of "\<lambda>x. snd x \<noteq> 0 \<and> fst x = key"] by blast
    next
      assume a: "(\<forall>k < length xs. snd (xs ! k) \<noteq> 0 \<longrightarrow> fst (xs ! k) \<noteq> key)
        \<and> (r = (if ref = 0 then Some i else found) \<and> (\<forall>k < length xs. snd (xs ! k) \<noteq> 0) \<or> (\<exists>k < length xs. r = Some (Suc i + k) \<and> snd (xs ! k) = 0))"
      have no: "\<forall>k < length ((j, ref) # xs). snd (((j, ref) # xs) ! k) \<noteq> 0 \<longrightarrow> fst (((j, ref) # xs) ! k) \<noteq> key"
        by (rule sh) (use a False in auto)
      have "r = found \<and> (\<forall>k < length ((j, ref) # xs). snd (((j, ref) # xs) ! k) \<noteq> 0) \<or> (\<exists>k < length ((j, ref) # xs). r = Some (i + k) \<and> snd (((j, ref) # xs) ! k) = 0)"
      proof (cases "\<exists>k < length xs. r = Some (Suc i + k) \<and> snd (xs ! k) = 0")
        case True
        then show ?thesis using up [of "\<lambda>x. snd x = 0"] by blast
      next
        case n: False
        then have b: "r = (if ref = 0 then Some i else found)" "\<forall>k < length xs. snd (xs ! k) \<noteq> 0" using a by auto
        show ?thesis
        proof (cases "ref = 0")
          case True
          then show ?thesis using b by (intro disjI2 exI [of _ 0]) simp
        next
          case False
          then show ?thesis using b by (intro disjI1 conjI sh) auto
        qed
      qed
      then show ?thesis using no by blast
    qed
  qed
qed auto

lemma shm_find_table:
  assumes "length ids = NSHAREDPAGES" and "length refs = NSHAREDPAGES" and "shm_find key (zip ids refs) 0 None = Some k"
  shows "k < NSHAREDPAGES \<and> (refs ! k \<noteq> 0 \<and> ids ! k = key \<or> refs ! k = 0 \<and> (\<forall>j < NSHAREDPAGES. refs ! j \<noteq> 0 \<longrightarrow> ids ! j \<noteq> key))"
  using shm_find_spec [OF assms(3)] assms(1,2) by auto

section \<open>Typing of the table\<close>

text \<open>The arrays have their lengths, no count is negative, and no two pages in use have the same id.\<close>

definition shm_typed :: "'a vst \<Rightarrow> bool" where
  "shm_typed s \<longleftrightarrow> length (shm_id s) = NSHAREDPAGES \<and> length (shm_pa s) = NSHAREDPAGES \<and> length (shm_ref s) = NSHAREDPAGES
     \<and> length (shm_va s) = NPROCV \<and> (\<forall>r \<in> set (shm_va s). length r = NSHAREDPAGES)
     \<and> (\<forall>k < NSHAREDPAGES. 0 \<le> shm_ref s ! k)
     \<and> (\<forall>i < NSHAREDPAGES. \<forall>j < NSHAREDPAGES. shm_ref s ! i \<noteq> 0 \<longrightarrow> shm_ref s ! j \<noteq> 0 \<longrightarrow> shm_id s ! i = shm_id s ! j \<longrightarrow> i = j)"

definition pid_ok :: "'a vst \<Rightarrow> bool" where
  "pid_ok s \<longleftrightarrow> 0 \<le> vpid s \<and> vpid s < int NPROCV"

lemma shm_typed_frame: "kmem.more t = kmem.more s \<Longrightarrow> shm_typed t = shm_typed (s :: 'a vst)"
  using shm_fields [of t s] by (simp add: shm_typed_def)

lemma shm_typed_sz [simp]: "shm_typed (s\<lparr>vsz := z\<rparr>) = shm_typed s" "shm_typed (s\<lparr>vesp0 := x, vcr3 := y\<rparr>) = shm_typed s"
  by (simp_all add: shm_typed_def)

lemma shm_typed_ref: "shm_typed s \<Longrightarrow> k < NSHAREDPAGES \<Longrightarrow> 0 \<le> v \<Longrightarrow> v \<noteq> 0 \<longrightarrow> shm_ref s ! k \<noteq> 0 \<Longrightarrow> shm_typed (s\<lparr>shm_ref := (shm_ref s)[k := v]\<rparr>)"
  by (simp add: shm_typed_def nth_list_update) blast

lemma shm_typed_take:
  assumes "shm_typed s" and "k < NSHAREDPAGES" and "shm_ref s ! k \<noteq> 0 \<and> shm_id s ! k = key \<or> shm_ref s ! k = 0 \<and> (\<forall>j < NSHAREDPAGES. shm_ref s ! j \<noteq> 0 \<longrightarrow> shm_id s ! j \<noteq> key)"
  shows "shm_typed (s\<lparr>shm_id := (shm_id s)[k := key], shm_ref := (shm_ref s)[k := shm_ref s ! k + 1]\<rparr>)"
  using assms by (auto simp: shm_typed_def nth_list_update)

lemma shm_typed_va: "shm_typed s \<Longrightarrow> p < NPROCV \<Longrightarrow> shm_typed (s\<lparr>shm_va := (shm_va s)[p := (shm_va s ! p)[k := va]]\<rparr>)"
  by (auto simp: shm_typed_def dest!: set_update_subset_insert [THEN subsetD])

lemma open_typed:
  assumes "shm_typed s" and "pid_ok s"
  shows "open_sharedmem key s \<noteq> Undef e \<and> (open_sharedmem key s = Ok (r, t) \<longrightarrow> shm_typed t)"
proof (cases "shm_find key (zip (shm_id s) (shm_ref s)) 0 None")
  case None
  then show ?thesis using assms by (auto simp: open_sharedmem_def)
next
  case (Some k)
  have len: "length (shm_id s) = NSHAREDPAGES" "length (shm_ref s) = NSHAREDPAGES" using assms(1) by (simp_all add: shm_typed_def)
  note k = shm_find_table [OF len Some]
  define s1 where "s1 = s\<lparr>shm_id := (shm_id s)[k := key], shm_ref := (shm_ref s)[k := shm_ref s ! k + 1]\<rparr>"
  have t1: "shm_typed s1" using shm_typed_take [OF assms(1)] k by (simp add: s1_def)
  have r1: "shm_ref s1 ! k = shm_ref s ! k + 1" "0 \<le> shm_ref s ! k" using k len assms(1) by (simp_all add: s1_def shm_typed_def)
  let ?m = "mappages (vpgdir s1) (PGROUNDUP (vsz s)) PGSIZE (V2P (shm_pa s1 ! k)) (PTE_W OR PTE_U) s1"
  have o: "open_sharedmem key s = bindr ?m (\<lambda>(r, s2).
      if r < 0 then Ok (-1, s2\<lparr>shm_ref := (shm_ref s2)[k := shm_ref s2 ! k - 1]\<rparr>)
      else bindr (switchuvm_cur s2) (\<lambda>s3.
        if vpid s3 < 0 \<or> vpid s3 \<ge> int NPROCV then Undef ''shm_table.va''
        else let p = nat (vpid s3) in
             Ok (sint (PGROUNDUP (vsz s)), s3\<lparr>shm_va := (shm_va s3)[p := (shm_va s3 ! p)[k := PGROUNDUP (vsz s)]], vsz := vsz s3 + PGSIZE\<rparr>)))"
    using Some by (simp add: open_sharedmem_def Let_def s1_def)
  show ?thesis
  proof (cases ?m)
    case (Ok x)
    obtain rc s2 where x: "x = (rc, s2)" by (cases x)
    have mo: "kmem.more s2 = kmem.more s1" using mappages_more Ok x by blast
    have t2: "shm_typed s2" using shm_typed_frame [OF mo] t1 by simp
    have "vpid s2 = vpid s" "shm_ref s2 ! k = shm_ref s ! k + 1" using shm_fields [OF mo] r1 by (simp_all add: s1_def)
    moreover from this have "shm_typed (s2\<lparr>shm_ref := (shm_ref s2)[k := shm_ref s2 ! k - 1]\<rparr>)" using shm_typed_ref [OF t2, of k "shm_ref s2 ! k - 1"] k r1 by simp
    moreover have "vpid s3 = vpid s \<and> shm_typed (s3\<lparr>shm_va := (shm_va s3)[nat (vpid s3) := (shm_va s3 ! nat (vpid s3))[k := PGROUNDUP (vsz s)]], vsz := vsz s3 + PGSIZE\<rparr>)"
      if "switchuvm_cur s2 = Ok s3" for s3
    proof -
      have s3: "vpid s3 = vpid s" "shm_typed s3" using switchuvm_cur_Ok [OF that] t2 \<open>vpid s2 = vpid s\<close> by auto
      show ?thesis using shm_typed_va [OF s3(2), of "nat (vpid s3)" k "PGROUNDUP (vsz s)"] assms(2) s3(1) by (simp add: pid_ok_def nat_less_iff)
    qed
    ultimately show ?thesis using o Ok x assms(2) switchuvm_cur_no_undef [of s2] by (cases "switchuvm_cur s2") (auto simp: pid_ok_def Let_def)
  qed (use o in \<open>auto simp: mappages_def Let_def map_loop_no_undef\<close>)
qed

lemma close_typed:
  assumes "shm_typed s" and "pid_ok s"
  shows "close_sharedmem key s \<noteq> Undef e \<and> (close_sharedmem key s = Ok (r, t) \<longrightarrow> shm_typed t)"
proof (cases "first_idx (\<lambda>(j, ref). j = key \<and> ref \<noteq> 0) (zip (shm_id s) (shm_ref s))")
  case None
  then show ?thesis using assms by (auto simp: close_sharedmem_def)
next
  case (Some k)
  have len: "length (shm_id s) = NSHAREDPAGES" "length (shm_ref s) = NSHAREDPAGES" using assms(1) by (simp_all add: shm_typed_def)
  have k: "k < NSHAREDPAGES" "shm_ref s ! k \<noteq> 0" using first_idx_length [OF Some] first_idx_sat [OF Some] len by auto
  define s1 where "s1 = s\<lparr>shm_ref := (shm_ref s)[k := shm_ref s ! k - 1]\<rparr>"
  have ge: "0 \<le> shm_ref s ! k" using assms(1) k by (simp add: shm_typed_def)
  let ?m = "unmappages (vpgdir s1) (shm_va s1 ! nat (vpid s1) ! k) PGSIZE s1"
  have o: "close_sharedmem key s = bindr ?m (\<lambda>(r, s2).
      if r < 0 then Ok (-1, s2\<lparr>shm_ref := (shm_ref s2)[k := shm_ref s2 ! k + 1]\<rparr>)
      else bindr (switchuvm_cur s2) (\<lambda>s3. Ok (0, s3\<lparr>vsz := vsz s3 - PGSIZE\<rparr>)))"
    using Some assms(2) by (simp add: close_sharedmem_def Let_def s1_def pid_ok_def)
  show ?thesis
  proof (cases ?m)
    case (Ok x)
    obtain rc s2 where x: "x = (rc, s2)" by (cases x)
    have mo: "kmem.more s2 = kmem.more s1" using unmappages_more Ok x by blast
    have "shm_typed s1" unfolding s1_def by (rule shm_typed_ref [OF assms(1) k(1)]) (use ge k(2) in auto)
    then have t2: "shm_typed s2" using shm_typed_frame [OF mo] by simp
    have "shm_id s2 = shm_id s" "shm_ref s2 = (shm_ref s)[k := shm_ref s ! k - 1]" using shm_fields [OF mo] by (simp_all add: s1_def)
    then have "shm_typed (s2\<lparr>shm_ref := (shm_ref s2)[k := shm_ref s2 ! k + 1]\<rparr>)"
      using t2 assms(1) k(1) len by (simp add: shm_typed_def)
    moreover have "shm_typed s3" if "switchuvm_cur s2 = Ok s3" for s3 using switchuvm_cur_Ok [OF that] t2 by auto
    ultimately show ?thesis using o Ok x switchuvm_cur_no_undef [of s2] by (cases "switchuvm_cur s2") auto
  qed (use o in \<open>auto simp: unmappages_def Let_def unmap_loop_no_undef\<close>)
qed

text \<open>Calls by processes in turn: each is made with the pid, page directory and size of its process.\<close>

datatype shm_call = Open int | Close int

definition as_proc :: "int \<times> uint \<times> uint \<Rightarrow> 'a vst \<Rightarrow> 'a vst" where
  "as_proc p s = (case p of (pid, pgdir, sz) \<Rightarrow> s\<lparr>vpid := pid, vpgdir := pgdir, vsz := sz\<rparr>)"

fun shm_do :: "shm_call \<Rightarrow> 'a vst \<Rightarrow> (int \<times> 'a vst) res" where
  "shm_do (Open key) s = open_sharedmem key s"
| "shm_do (Close key) s = close_sharedmem key s"

fun shm_calls :: "((int \<times> uint \<times> uint) \<times> shm_call) list \<Rightarrow> 'a vst \<Rightarrow> 'a vst res" where
  "shm_calls [] s = Ok s"
| "shm_calls ((p, c) # cs) s = bindr (shm_do c (as_proc p s)) (\<lambda>(r, t). shm_calls cs t)"

lemma shm_calls_typed: "shm_typed s \<Longrightarrow> \<forall>((pid, _), _) \<in> set cs. 0 \<le> pid \<and> pid < 64 \<Longrightarrow> shm_calls cs s \<noteq> Undef e \<and> (shm_calls cs s = Ok t \<longrightarrow> shm_typed t)"
proof (induction cs s rule: shm_calls.induct)
  case (2 p c cs s)
  have s1: "shm_typed (as_proc p s)" "pid_ok (as_proc p s)"
    using "2.prems" by (auto simp: as_proc_def shm_typed_def pid_ok_def NPROCV_def split: prod.splits)
  have "shm_do c (as_proc p s) \<noteq> Undef e \<and> (\<forall>r t. shm_do c (as_proc p s) = Ok (r, t) \<longrightarrow> shm_typed t)"
    using open_typed [OF s1] close_typed [OF s1] by (cases c) auto
  then show ?case using 2 by (cases "shm_do c (as_proc p s)") auto
qed auto

text \<open>C33: The table of shared pages keeps its type, and well-typed states do not go wrong: whatever processes with pids below
  64 call \<^verbatim>\<open>open_sharedmem\<close> and \<^verbatim>\<open>close_sharedmem\<close> in whatever order, no access leaves the arrays of the table; the arrays keep
  their lengths, no reference count becomes negative and no two pages in use have the same id. The bound on the pids is
  needed: with a larger one closing a segment in use reads outside the array.
\<close>

theorem shm_table_typed:
  assumes "shm_typed s"
  shows "((\<forall>((pid, _), _) \<in> set cs. 0 \<le> pid \<and> pid < 64) \<longrightarrow> shm_calls cs s \<noteq> Undef e \<and> (\<forall>t. shm_calls cs s = Ok t \<longrightarrow> shm_typed t))
    \<and> (64 \<le> pid \<and> k < NSHAREDPAGES \<and> shm_ref s ! k \<noteq> 0 \<longrightarrow> close_sharedmem (shm_id s ! k) (as_proc (pid, pg, sz) s) = Undef ''shm_table.va'')"
proof -
  have "close_sharedmem (shm_id s ! k) (as_proc (pid, pg, sz) s) = Undef ''shm_table.va''" if k: "64 \<le> pid" "k < NSHAREDPAGES" "shm_ref s ! k \<noteq> 0"
  proof -
    let ?xs = "zip (shm_id s) (shm_ref s)"
    have "(shm_id s ! k, shm_ref s ! k) \<in> set ?xs" using assms k(2) by (auto simp: shm_typed_def set_zip)
    then have "first_idx (\<lambda>(j, ref). j = shm_id s ! k \<and> ref \<noteq> 0) ?xs \<noteq> None" unfolding first_idx_None using k(3) by blast
    then show ?thesis using k(1) by (auto simp: close_sharedmem_def as_proc_def Let_def NPROCV_def)
  qed
  then show ?thesis using shm_calls_typed [OF assms] by blast
qed

text \<open>An empty table in front of the memory of the demonstration.\<close>

definition demo_shm :: vm_state where
  "demo_shm = kmem.extend demo_space (vm_state.fields 0x80300000 1 0 0x80300000 (replicate 10 0) (replicate 10 0x80500000) (replicate 10 0) (replicate 64 (replicate 10 0)) 0x80600000 0 0)"

lemma demo_shm_typed: "shm_typed demo_shm"
  by (simp add: shm_typed_def demo_shm_def kmem.defs vm_state.defs NSHAREDPAGES_def NPROCV_def)

theorem shm_table_typed_witness:
  "shm_calls [((1, 0x80300000, 0), Open 7), ((2, 0x80300000, 0x1000), Open 7)] demo_shm \<noteq> Undef ''shm_table.va''"
  using shm_table_typed [OF demo_shm_typed, of "[((1, 0x80300000, 0), Open 7), ((2, 0x80300000, 0x1000), Open 7)]" "''shm_table.va''" 64 10 0 0] by simp

section \<open>What is mapped\<close>

lemma aligned_PGROUNDUP: "aligned (PGROUNDUP a)"
  unfolding PGROUNDUP_def PGROUNDDOWN_def [symmetric] by (rule aligned_PGROUNDDOWN)

lemma PGROUNDUP_room:
  assumes "unat a \<le> 2 ^ 31 - 8192"
  shows "unat (PGROUNDUP a) + 4096 \<le> 4294967296"
proof -
  have "unat (a + 4095) = unat a + 4095" using assms unat_add_uint [of a 4095] by simp
  moreover have "a + PGSIZE - 1 = a + 4095" by (simp add: PGSIZE_def)
  ultimately have "unat (a + PGSIZE - 1) = unat a + 4095" by (simp only:)
  then show ?thesis using assms unfolding PGROUNDUP_def PGROUNDDOWN_def [symmetric] unat_PGROUNDDOWN by simp
qed

lemma mappages_page:
  assumes sp: "space s ps pg f" and a: "aligned va" "unat va + 4096 \<le> 4294967296" and np: "\<And>vb. vpn vb = vpn va \<Longrightarrow> f vb AND PTE_P = 0"
  shows "\<exists>r t qs. mappages pg va PGSIZE pa perm s = Ok (r, t) \<and> set qs \<subseteq> set ps
    \<and> (r = 0 \<and> space t qs pg (\<lambda>vb. if vpn vb = vpn va then pa OR perm OR PTE_P else f vb) \<or> r = -1 \<and> ps = [] \<and> space t [] pg f)"
proof -
  have q: "unat va mod 4096 = 0" using a(1) by (simp add: aligned_unat)
  then have v: "4096 * (unat va div 4096) = unat va" by auto
  have d: "PGROUNDDOWN va = va" by (simp add: word_unat_eq_iff unat_PGROUNDDOWN v)
  have "unat (va + 4095) = unat va + 4095" using a(2) by (subst unat_add_uint) simp_all
  moreover have "(4096 * (unat va div 4096) + 4095) div 4096 = unat va div 4096" by simp
  ultimately have l: "PGROUNDDOWN (va + 4095) = va" unfolding v by (simp add: word_unat_eq_iff unat_PGROUNDDOWN v)
  have e: "va + PGSIZE - 1 = va + 4095" by (simp add: PGSIZE_def)
  have "mappages pg va PGSIZE pa perm s = map_loop 0 pg va pa perm s" unfolding mappages_def Let_def e l d by simp
  moreover have "\<exists>r t qs. map_loop 0 pg va pa perm s = Ok (r, t) \<and> set qs \<subseteq> set ps
    \<and> (r = 0 \<and> space t qs pg (\<lambda>vb. if vpn vb = vpn va then pa OR perm OR PTE_P else f vb) \<or> r = -1 \<and> ps = [] \<and> space t [] pg f)"
    using map_page [OF sp np [OF refl]]
  proof
    assume "walkpgdir pg va True s = (0, s) \<and> ps = []"
    then show ?thesis using sp by (intro exI [of _ "-1"] exI [of _ s] exI [of _ "[]"]) simp
  next
    assume "\<exists>pte u qs. walkpgdir pg va True s = (pte, u) \<and> pte \<noteq> 0 \<and> load32 (kmemory u) pte AND PTE_P = 0 \<and> set qs \<subseteq> set ps
       \<and> (\<forall>x. space (u\<lparr>kmemory := store32 (kmemory u) pte x\<rparr>) qs pg (\<lambda>vb. if vpn vb = vpn va then x else f vb))"
    then obtain pte u qs where "walkpgdir pg va True s = (pte, u)" "pte \<noteq> 0" "load32 (kmemory u) pte AND PTE_P = 0" "set qs \<subseteq> set ps"
      "space (u\<lparr>kmemory := store32 (kmemory u) pte (pa OR perm OR PTE_P)\<rparr>) qs pg (\<lambda>vb. if vpn vb = vpn va then pa OR perm OR PTE_P else f vb)" by blast
    then show ?thesis by (intro exI [of _ 0] exI [of _ "u\<lparr>kmemory := store32 (kmemory u) pte (pa OR perm OR PTE_P)\<rparr>"] exI [of _ qs]) simp
  qed
  ultimately show ?thesis by (simp only:)
qed

lemma space_shm [simp]:
  "space (s\<lparr>shm_ref := x\<rparr>) ps pg f = space s ps pg f" "space (s\<lparr>shm_id := y\<rparr>) ps pg f = space s ps pg f"
  "space (s\<lparr>shm_va := z\<rparr>) ps pg f = space s ps pg f" "space (s\<lparr>vsz := w\<rparr>) ps pg f = space s ps pg f"
  "space (s\<lparr>vesp0 := e, vcr3 := c\<rparr>) ps pg f = space s ps pg f"
  by (simp_all add: space_def kmem_ok_def pt_ok_def page_ok_def)

lemma shm_find_none:
  assumes "length ids = NSHAREDPAGES" and "length refs = NSHAREDPAGES" and "shm_find key (zip ids refs) 0 None = None"
  shows "\<forall>k < NSHAREDPAGES. refs ! k \<noteq> 0 \<and> ids ! k \<noteq> key"
  using shm_find_spec [OF assms(3)] assms(1,2) by auto

text \<open>C34: \<^verbatim>\<open>open_sharedmem\<close> maps the shared page of its id and nothing else. It returns -1 only when every shared page is in use for another id, or when
  no page of memory is free for a page table; then the counts and the translation of every address are as before. Otherwise it maps one page,
  writable for the user, at the first page above the process's memory, and that address is the result. When the id is in use, by this or any other process,
  the page is the one already in use for it; otherwise it is a free one, which is then in use for the id. No other address of the process is translated
  differently, and the CPU uses the process's page table. The call is made by a process with a kernel stack, a pid below 64 and at most
  2147475456 bytes of memory, the first page above its memory is not mapped (otherwise \<^verbatim>\<open>mappages\<close> panics), and its page tables and the list of free
  pages are well-formed.
\<close>

theorem open_sharedmem_shares:
  assumes ty: "shm_typed s" and pid: "pid_ok s" and mem: "kmem_ok s ps" "pt_ok s ps (vpgdir s)" and sz: "unat (vsz s) \<le> 2 ^ 31 - 8192"
    and np: "\<forall>vb. vpn vb = vpn (PGROUNDUP (vsz s)) \<longrightarrow> pte_at (kmemory s) (vpgdir s) vb AND PTE_P = 0" and ks: "vkstack s \<noteq> 0"
  shows "\<exists>r t. open_sharedmem key s = Ok (r, t) \<and>
    (r = -1 \<and> ((\<forall>k < NSHAREDPAGES. shm_ref s ! k \<noteq> 0 \<and> shm_id s ! k \<noteq> key) \<or> ps = [])
       \<and> shm_ref t = shm_ref s \<and> pte_at (kmemory t) (vpgdir s) = pte_at (kmemory s) (vpgdir s)
     \<or> (\<exists>k < NSHAREDPAGES. r = sint (PGROUNDUP (vsz s)) \<and> shm_id t ! k = key \<and> shm_ref t = (shm_ref s)[k := shm_ref s ! k + 1]
          \<and> (\<forall>j < NSHAREDPAGES. shm_ref s ! j \<noteq> 0 \<and> shm_id s ! j = key \<longrightarrow> j = k)
          \<and> (shm_ref s ! k \<noteq> 0 \<longrightarrow> shm_id s ! k = key) \<and> vcr3 t = V2P (vpgdir s)
          \<and> pte_at (kmemory t) (vpgdir s) = (\<lambda>vb. if vpn vb = vpn (PGROUNDUP (vsz s)) then V2P (shm_pa s ! k) OR (PTE_W OR PTE_U) OR PTE_P
                                                 else pte_at (kmemory s) (vpgdir s) vb)))"
proof (cases "shm_find key (zip (shm_id s) (shm_ref s)) 0 None")
  case None
  have len: "length (shm_id s) = NSHAREDPAGES" "length (shm_ref s) = NSHAREDPAGES" using ty by (simp_all add: shm_typed_def)
  show ?thesis using shm_find_none [OF len None] None by (auto simp: open_sharedmem_def)
next
  case (Some k)
  let ?va = "PGROUNDUP (vsz s)" and ?pg = "vpgdir s" and ?f = "pte_at (kmemory s) (vpgdir s)"
  have len: "length (shm_id s) = NSHAREDPAGES" "length (shm_ref s) = NSHAREDPAGES" using ty by (simp_all add: shm_typed_def)
  note k = shm_find_table [OF len Some]
  define s1 where "s1 = s\<lparr>shm_id := (shm_id s)[k := key], shm_ref := (shm_ref s)[k := shm_ref s ! k + 1]\<rparr>"
  have "space s ps ?pg ?f" using mem by (simp add: space_def)
  then have sp: "space s1 ps ?pg ?f" by (simp add: s1_def)
  obtain rc s2 qs where m: "mappages ?pg ?va PGSIZE (V2P (shm_pa s1 ! k)) (PTE_W OR PTE_U) s1 = Ok (rc, s2)"
    "rc = 0 \<and> space s2 qs ?pg (\<lambda>vb. if vpn vb = vpn ?va then V2P (shm_pa s1 ! k) OR (PTE_W OR PTE_U) OR PTE_P else ?f vb)
     \<or> rc = -1 \<and> ps = [] \<and> space s2 [] ?pg ?f"
    using mappages_page [OF sp aligned_PGROUNDUP PGROUNDUP_room [OF sz], of "V2P (shm_pa s1 ! k)" "PTE_W OR PTE_U"] np by blast
  note fr = shm_fields [OF mappages_more [OF m(1)]]
  have k1: "shm_ref s2 ! k = shm_ref s ! k + 1" "shm_id s2 ! k = key" "shm_pa s1 = shm_pa s" "vpid s2 = vpid s"
    using fr k len by (simp_all add: s1_def)
  have one: "\<forall>j < NSHAREDPAGES. shm_ref s ! j \<noteq> 0 \<and> shm_id s ! j = key \<longrightarrow> j = k" "shm_ref s ! k \<noteq> 0 \<longrightarrow> shm_id s ! k = key"
    using k ty unfolding shm_typed_def by blast+
  define s3 where "s3 = s2\<lparr>vesp0 := vkstack s2 + 4096, vcr3 := V2P ?pg\<rparr>"
  have "?pg \<noteq> 0" "vkstack s2 = vkstack s" "vpgdir s2 = ?pg" using mem(2) page_nonzero fr by (auto simp: pt_ok_def s1_def)
  then have sw: "switchuvm_cur s2 = Ok s3" using ks by (simp add: switchuvm_cur_def s3_def)
  let ?t = "s3\<lparr>shm_va := (shm_va s3)[nat (vpid s3) := (shm_va s3 ! nat (vpid s3))[k := ?va]], vsz := vsz s3 + PGSIZE\<rparr>"
  have o: "open_sharedmem key s = (if rc < 0 then Ok (-1, s2\<lparr>shm_ref := (shm_ref s2)[k := shm_ref s2 ! k - 1]\<rparr>) else Ok (sint ?va, ?t))"
    using Some m(1) pid k1(4) sw by (simp add: open_sharedmem_def Let_def s1_def pid_ok_def s3_def)
  from m(2) show ?thesis
  proof
    assume a: "rc = 0 \<and> space s2 qs ?pg (\<lambda>vb. if vpn vb = vpn ?va then V2P (shm_pa s1 ! k) OR (PTE_W OR PTE_U) OR PTE_P else ?f vb)"
    have "shm_ref ?t = (shm_ref s)[k := shm_ref s ! k + 1]" "shm_id ?t ! k = key" "vcr3 ?t = V2P ?pg" using fr(3) k1(2) by (simp_all add: s1_def s3_def)
    moreover have "pte_at (kmemory ?t) ?pg = (\<lambda>vb. if vpn vb = vpn ?va then V2P (shm_pa s ! k) OR (PTE_W OR PTE_U) OR PTE_P else ?f vb)"
      using a [unfolded k1(3)] by (simp add: space_def s3_def)
    moreover have "open_sharedmem key s = Ok (sint ?va, ?t)" using a o by simp
    ultimately show ?thesis using k one by blast
  next
    assume "rc = -1 \<and> ps = [] \<and> space s2 [] ?pg ?f"
    moreover from k len have "(shm_ref s2)[k := shm_ref s2 ! k - 1] = shm_ref s" by (simp add: fr(3) s1_def)
    ultimately show ?thesis using o by (simp add: space_def)
  qed
qed

theorem open_sharedmem_shares_witness:
  "\<exists>r t. open_sharedmem 7 demo_shm = Ok (r, t) \<and> r = 0 \<and> pte_at (kmemory t) 0x80300000 0 = 0x500007"
proof -
  have f: "vsz demo_shm = 0" "vpgdir demo_shm = 0x80300000" "kmemory demo_shm = kmemory demo_space" "shm_pa demo_shm = replicate 10 0x80500000"
    "freelist demo_shm = freelist demo_space" "kend demo_shm = kend demo_space"
    by (simp_all add: demo_shm_def kmem.defs vm_state.defs)
  have pk: "page_ok demo_shm = page_ok demo_space" by (simp add: page_ok_def f fun_eq_iff)
  have m: "kmem_ok demo_shm [0x80400000]" "pt_ok demo_shm [0x80400000] (vpgdir demo_shm)"
    using demo_space_ok(1,2) unfolding kmem_ok_def pt_ok_def f pk .
  have p: "pid_ok demo_shm" by (simp add: pid_ok_def demo_shm_def kmem.defs vm_state.defs NPROCV_def)
  have z: "PGROUNDUP 0 = 0" by (simp add: PGROUNDUP_def PGSIZE_def)
  have n: "unat (vsz demo_shm) \<le> 2 ^ 31 - 8192" by (simp add: f)
  have q: "\<forall>vb. vpn vb = vpn (PGROUNDUP (vsz demo_shm)) \<longrightarrow> pte_at (kmemory demo_shm) (vpgdir demo_shm) vb AND PTE_P = 0" by (simp add: f demo_space_ok(3))
  have free: "\<not> (\<forall>k < NSHAREDPAGES. shm_ref demo_shm ! k \<noteq> 0 \<and> shm_id demo_shm ! k \<noteq> 7)"
    by (auto simp: demo_shm_def kmem.defs vm_state.defs NSHAREDPAGES_def intro!: exI [of _ 0])
  have ks: "vkstack demo_shm \<noteq> 0" by (simp add: demo_shm_def kmem.defs vm_state.defs)
  obtain r t k where o: "open_sharedmem 7 demo_shm = Ok (r, t)" "r = sint (0 :: uint)" "k < NSHAREDPAGES" "pte_at (kmemory t) 0x80300000 =
      (\<lambda>vb. if vpn vb = vpn 0 then V2P (replicate 10 0x80500000 ! k) OR (PTE_W OR PTE_U) OR PTE_P else pte_at (kmemory demo_space) 0x80300000 vb)"
    using open_sharedmem_shares [OF demo_shm_typed p m n q ks, of 7, unfolded f z] free by auto
  have "replicate 10 (0x80500000 :: uint) ! k = 0x80500000" using o(3) by (simp add: NSHAREDPAGES_def)
  then have "pte_at (kmemory t) 0x80300000 0 = 0x500007" using o(4) by (simp add: V2P_def KERNBASE_def PTE_W_def PTE_U_def PTE_P_def)
  then show ?thesis using o(1,2) by auto
qed

end
