(* ===== verification/Grep.thy ===== *)
theory Grep
  imports Kernel_Prelude
begin

text \<open>
  The \<^verbatim>\<open>grep\<close> program (\<^verbatim>\<open>grep.c\<close>): the pattern matcher, on C strings given by their
  bytes before the terminator, and the loop that reads a file in pieces through a buffer of 1024 bytes. The
  \<^verbatim>\<open>read\<close> call is a parameter; what is written to standard output is collected.
\<close>

section \<open>The matcher\<close>

text \<open>\<open>*\<close>, \<open>^\<close>, \<open>$\<close>, \<open>.\<close> and the newline.\<close>

abbreviation star_chr :: byte where "star_chr \<equiv> 42"
abbreviation caret_chr :: byte where "caret_chr \<equiv> 94"
abbreviation dollar_chr :: byte where "dollar_chr \<equiv> 36"
abbreviation dot_chr :: byte where "dot_chr \<equiv> 46"
abbreviation newline :: byte where "newline \<equiv> 10"

function matchhere :: "byte list \<Rightarrow> byte list \<Rightarrow> bool"
  and matchstar :: "byte \<Rightarrow> byte list \<Rightarrow> byte list \<Rightarrow> bool" where
  "matchhere re str =
     (case re of [] \<Rightarrow> True
      | c # re1 \<Rightarrow>
          if re1 \<noteq> [] \<and> hd re1 = star_chr then matchstar c (tl re1) str
          else if c = dollar_chr \<and> re1 = [] then str = []
          else if str \<noteq> [] \<and> (c = dot_chr \<or> c = hd str) then matchhere re1 (tl str)
          else False)"
| "matchstar c re str =
     (if matchhere re str then True
      else if str \<noteq> [] \<and> (hd str = c \<or> c = dot_chr) then matchstar c re (tl str)
      else False)"
  by pat_completeness auto
termination
  by (relation "measures [\<lambda>x. case x of Inl (re, t) \<Rightarrow> length re | Inr (c, re, t) \<Rightarrow> length re,
                         \<lambda>x. case x of Inl (re, t) \<Rightarrow> 0 | Inr (c, re, t) \<Rightarrow> Suc (length t)]")
    (auto simp: neq_Nil_conv)

declare matchhere.simps [simp del] matchstar.simps [simp del]

fun match_loop :: "byte list \<Rightarrow> byte list \<Rightarrow> bool" where
  "match_loop re [] = matchhere re []"
| "match_loop re (c # str) = (if matchhere re (c # str) then True else match_loop re str)"

definition match :: "byte list \<Rightarrow> byte list \<Rightarrow> bool" where
  "match re str = (if re \<noteq> [] \<and> hd re = caret_chr then matchhere (tl re) str else match_loop re str)"

section \<open>Reading and printing lines\<close>

definition GREP_BUF :: nat where "GREP_BUF = 1024"

text \<open>\<^verbatim>\<open>strchr(p, '\n')\<close>: the offset of the first newline, if no NUL comes before it.\<close>

definition find_nl :: "byte list \<Rightarrow> nat option" where
  "find_nl p = (let i = length (takeWhile (\<lambda>c. c \<noteq> newline \<and> c \<noteq> 0) p) in if i < length p \<and> p ! i = newline then Some i else None)"

lemma find_nl_length: "find_nl p = Some i \<Longrightarrow> i < length p"
  by (auto simp: find_nl_def Let_def split: if_splits)

text \<open>The lines of the buffer: what is printed, and the bytes from \<open>p\<close> on at the end.\<close>

function grep_lines :: "byte list \<Rightarrow> byte list \<Rightarrow> byte list \<times> byte list" where
  "grep_lines pattern p =
     (case find_nl p of None \<Rightarrow> ([], p)
      | Some q \<Rightarrow>
          let (out, p') = grep_lines pattern (drop (Suc q) p) in
          ((if match pattern (take q p) then take (Suc q) p else []) @ out, p'))"
  by pat_completeness auto
termination
  by (relation "measure (length \<circ> snd)") (auto dest: find_nl_length)

declare grep_lines.simps [simp del]

text \<open>
  One round per call of \<^verbatim>\<open>read\<close>, which gives \<open>None\<close> for an error; \<open>held\<close> are the \<open>m\<close> bytes at the start of the buffer.
  The first argument bounds the rounds.
\<close>

fun grep :: "nat \<Rightarrow> (nat \<Rightarrow> 'w \<Rightarrow> byte list option \<times> 'w) \<Rightarrow> byte list \<Rightarrow> byte list \<Rightarrow> 'w \<Rightarrow> (byte list \<times> 'w) res" where
  "grep 0 rd pattern held w = Block"
| "grep (Suc k) rd pattern held w =
     (case rd (GREP_BUF - length held - 1) w of
        (None, w1) \<Rightarrow> Ok ([], w1)
      | (Some bs, w1) \<Rightarrow>
          if bs = [] then Ok ([], w1)
          else let (out, p) = grep_lines pattern (held @ bs) in
               bindr (grep k rd pattern (if length p = length (held @ bs) then [] else p) w1)
                 (\<lambda>(rest, w2). Ok (out @ rest, w2)))"

section \<open>Patterns as languages\<close>

datatype atom = Lit byte | Any
datatype item = One atom | Star atom

definition atom_of :: "byte \<Rightarrow> atom" where
  "atom_of c = (if c = dot_chr then Any else Lit c)"

fun atom_ok :: "atom \<Rightarrow> byte \<Rightarrow> bool" where
  "atom_ok (Lit c) x = (x = c)"
| "atom_ok Any x = True"

text \<open>The items of a pattern, and whether it ends in \<open>$\<close>.\<close>

fun parse_re :: "byte list \<Rightarrow> item list \<times> bool" where
  "parse_re [] = ([], False)"
| "parse_re [c] = (if c = dollar_chr then ([], True) else ([One (atom_of c)], False))"
| "parse_re (c # d # re) =
     (if d = star_chr then (let (its, e) = parse_re re in (Star (atom_of c) # its, e))
      else (let (its, e) = parse_re (d # re) in (One (atom_of c) # its, e)))"

fun item_lang :: "item \<Rightarrow> byte list set" where
  "item_lang (One a) = {[x] |x. atom_ok a x}"
| "item_lang (Star a) = {xs. \<forall>x \<in> set xs. atom_ok a x}"

fun lang :: "item list \<Rightarrow> byte list set" where
  "lang [] = {[]}"
| "lang (i # its) = {u @ v |u v. u \<in> item_lang i \<and> v \<in> lang its}"

text \<open>A pattern matches a str when some part of the str, at the start or the end where the pattern says so, is in its language.\<close>

definition here :: "item list \<times> bool \<Rightarrow> byte list \<Rightarrow> bool" where
  "here r str \<longleftrightarrow> (\<exists>v w. str = v @ w \<and> v \<in> lang (fst r) \<and> (snd r \<longrightarrow> w = []))"

definition re_matches :: "byte list \<Rightarrow> byte list \<Rightarrow> bool" where
  "re_matches re str \<longleftrightarrow>
     (if re \<noteq> [] \<and> hd re = caret_chr then here (parse_re (tl re)) str
      else (\<exists>u v. str = u @ v \<and> here (parse_re re) v))"

lemma here_Nil [simp]: "here ([], False) str"
  by (simp add: here_def)

lemma here_end [simp]: "here ([], True) str \<longleftrightarrow> str = []"
  by (auto simp: here_def)

lemma here_One: "here (One a # its, e) str \<longleftrightarrow> str \<noteq> [] \<and> atom_ok a (hd str) \<and> here (its, e) (tl str)"
proof
  assume "here (One a # its, e) str"
  then show "str \<noteq> [] \<and> atom_ok a (hd str) \<and> here (its, e) (tl str)" by (auto simp: here_def) blast+
next
  assume t: "str \<noteq> [] \<and> atom_ok a (hd str) \<and> here (its, e) (tl str)"
  then obtain x xs where "str = x # xs" by (cases str) auto
  with t obtain v w where "xs = v @ w" "v \<in> lang its" "e \<longrightarrow> w = []" by (auto simp: here_def)
  then have "str = (x # v) @ w \<and> x # v \<in> lang (One a # its) \<and> (e \<longrightarrow> w = [])" using t \<open>str = x # xs\<close>
    by (simp add: exI [of _ "[x]"])
  then show "here (One a # its, e) str" unfolding here_def fst_conv snd_conv by blast
qed

lemma here_Star: "here (Star a # its, e) str \<longleftrightarrow> (\<exists>u v. str = u @ v \<and> (\<forall>x \<in> set u. atom_ok a x) \<and> here (its, e) v)"
proof
  assume "here (Star a # its, e) str"
  then obtain u v w where "str = (u @ v) @ w" "\<forall>x \<in> set u. atom_ok a x" "v \<in> lang its" "e \<longrightarrow> w = []"
    unfolding here_def fst_conv snd_conv lang.simps item_lang.simps by blast
  moreover from this have "here (its, e) (v @ w)" unfolding here_def by auto
  ultimately show "\<exists>u v. str = u @ v \<and> (\<forall>x \<in> set u. atom_ok a x) \<and> here (its, e) v" by (intro exI [of _ u] exI [of _ "v @ w"]) simp
next
  assume "\<exists>u v. str = u @ v \<and> (\<forall>x \<in> set u. atom_ok a x) \<and> here (its, e) v"
  then obtain u v w where "str = (u @ v) @ w" "\<forall>x \<in> set u. atom_ok a x" "v \<in> lang its" "e \<longrightarrow> w = []"
    unfolding here_def fst_conv snd_conv by auto
  then show "here (Star a # its, e) str" unfolding here_def fst_conv snd_conv lang.simps item_lang.simps by blast
qed

lemma here_Star_step:
  "here (Star a # its, e) str \<longleftrightarrow> here (its, e) str \<or> str \<noteq> [] \<and> atom_ok a (hd str) \<and> here (Star a # its, e) (tl str)"
proof
  assume "here (Star a # its, e) str"
  then obtain u v where u: "str = u @ v" "\<forall>x \<in> set u. atom_ok a x" "here (its, e) v" by (auto simp: here_Star)
  then show "here (its, e) str \<or> str \<noteq> [] \<and> atom_ok a (hd str) \<and> here (Star a # its, e) (tl str)"
    by (cases u) (auto simp: here_Star)
next
  assume "here (its, e) str \<or> str \<noteq> [] \<and> atom_ok a (hd str) \<and> here (Star a # its, e) (tl str)"
  then show "here (Star a # its, e) str"
  proof
    assume "here (its, e) str"
    then show ?thesis unfolding here_Star by (intro exI [of _ "[]"] exI [of _ str]) simp
  next
    assume t: "str \<noteq> [] \<and> atom_ok a (hd str) \<and> here (Star a # its, e) (tl str)"
    then obtain u v where "tl str = u @ v" "\<forall>x \<in> set u. atom_ok a x" "here (its, e) v" by (auto simp: here_Star)
    then show ?thesis using t unfolding here_Star by (intro exI [of _ "hd str # u"] exI [of _ v]) (cases str; auto)
  qed
qed

lemma atom_of_ok: "atom_ok (atom_of c) x \<longleftrightarrow> x = c \<or> c = dot_chr"
  by (auto simp: atom_of_def)

lemma match_here:
  "matchhere re str = here (parse_re re) str"
  "matchstar c re str = here (Star (atom_of c) # fst (parse_re re), snd (parse_re re)) str"
proof (induction re str and c re str rule: matchhere_matchstar.induct)
  case (1 re str)
  show ?case
  proof (cases re rule: parse_re.cases)
    case 1
    then show ?thesis by (simp add: matchhere.simps)
  next
    case (2 c)
    then show ?thesis using "1.IH"(2) [of c "[]"]
      by (auto simp: matchhere.simps here_One atom_of_ok)
  next
    case (3 c d re1)
    then show ?thesis using "1.IH" [of c "d # re1"]
      by (auto simp: matchhere.simps [of "c # d # re1"] here_One atom_of_ok split: prod.splits)
  qed
next
  case (2 c re str)
  show ?case using 2 by (subst matchstar.simps, subst here_Star_step) (auto simp: atom_of_ok)
qed

lemma match_loop_iff: "match_loop re str \<longleftrightarrow> (\<exists>u v. str = u @ v \<and> matchhere re v)"
  by (induction re str rule: match_loop.induct) (auto simp: Cons_eq_append_conv)

text \<open>C35: The matcher of \<^verbatim>\<open>grep\<close> decides the language of its pattern: \<^verbatim>\<open>match(re, str)\<close> is true exactly when a part of
  the str is in the language of the pattern read as a sequence of single and starred characters, with \<open>.\<close> for any
  character, at the start of the str if the pattern begins with \<open>^\<close> and up to its end if it ends in \<open>$\<close>.
\<close>

theorem match_decides: "match re str \<longleftrightarrow> re_matches re str"
  by (auto simp: match_def re_matches_def match_here(1) match_loop_iff)

section \<open>The lines printed\<close>

definition unlines :: "byte list list \<Rightarrow> byte list" where
  "unlines ls = concat (map (\<lambda>l. l @ [newline]) ls)"

definition plain :: "byte list \<Rightarrow> bool" where
  "plain l \<longleftrightarrow> newline \<notin> set l \<and> 0 \<notin> set l"

lemma unlines_simps [simp]: "unlines [] = []" "unlines (l # ls) = l @ newline # unlines ls"
  by (simp_all add: unlines_def)

lemma plain_append [simp]: "plain (a @ b) \<longleftrightarrow> plain a \<and> plain b"
  by (auto simp: plain_def)

lemma plain_newline [simp]: "\<not> plain (newline # l)"
  by (simp add: plain_def)

lemma find_nl_line: "plain l \<Longrightarrow> find_nl (l @ newline # r) = Some (length l)"
proof -
  assume "plain l"
  then have "takeWhile (\<lambda>c. c \<noteq> newline \<and> c \<noteq> 0) (l @ newline # r) = l" by (subst takeWhile_append2) (auto simp: plain_def)
  then show ?thesis by (simp add: find_nl_def)
qed

lemma find_nl_none: "plain p \<Longrightarrow> find_nl p = None"
  by (auto simp: find_nl_def plain_def Let_def dest: nth_mem)

lemma grep_lines_plain: "plain p \<Longrightarrow> grep_lines pattern p = ([], p)"
  by (simp add: grep_lines.simps find_nl_none)

lemma grep_lines_line:
  "plain l \<Longrightarrow> grep_lines pattern (l @ newline # r) =
     ((if match pattern l then l @ [newline] else []) @ fst (grep_lines pattern r), snd (grep_lines pattern r))"
  by (subst grep_lines.simps) (simp add: find_nl_line split: prod.splits)

lemma grep_lines_split:
  assumes "\<forall>l \<in> set ls. plain l" and "plain tail" and "xs @ ys = unlines ls @ tail"
  shows "\<exists>ls1 ls2 c. ls = ls1 @ ls2 \<and> grep_lines pattern xs = (unlines (filter (match pattern) ls1), c)
    \<and> xs = unlines ls1 @ c \<and> c @ ys = unlines ls2 @ tail \<and> plain c"
  using assms
proof (induction ls arbitrary: xs)
  case Nil
  then have "plain xs" by (metis append_Nil plain_append unlines_simps(1))
  then show ?case using Nil by (intro exI [of _ "[]"] exI [of _ xs]) (simp add: grep_lines_plain)
next
  case (Cons l ls)
  show ?case
  proof (cases "length xs \<le> length l")
    case True
    then obtain z where "l = xs @ z" using Cons.prems(3) by (auto simp: append_eq_append_conv_if) (metis append_take_drop_id)
    then have "plain xs" using Cons.prems(1) by simp
    then show ?thesis using Cons.prems(3) by (intro exI [of _ "[]"] exI [of _ "l # ls"] exI [of _ xs]) (simp add: grep_lines_plain)
  next
    case False
    from Cons.prems(3) have "xs @ ys = l @ (newline # unlines ls @ tail)" by simp
    then obtain z where z: "xs = l @ z" "z @ ys = newline # unlines ls @ tail" using False by (auto simp: append_eq_append_conv2)
    with False obtain z' where z': "z = newline # z'" by (cases z) auto
    then have "z' @ ys = unlines ls @ tail" using z(2) by simp
    from Cons.IH [OF _ Cons.prems(2) this] Cons.prems(1) obtain ls1 ls2 c where
      "ls = ls1 @ ls2" "grep_lines pattern z' = (unlines (filter (match pattern) ls1), c)" "z' = unlines ls1 @ c" "c @ ys = unlines ls2 @ tail" "plain c" by auto
    then show ?thesis using z(1) z' Cons.prems(1) by (intro exI [of _ "l # ls1"] exI [of _ ls2] exI [of _ c]) (simp add: grep_lines_line)
  qed
qed

text \<open>Reading a file: a call for \<open>n\<close> bytes gives the next \<open>n\<close> bytes, or what is left.\<close>

definition file_reader :: "(nat \<Rightarrow> 'w \<Rightarrow> byte list option \<times> 'w) \<Rightarrow> ('w \<Rightarrow> byte list) \<Rightarrow> bool" where
  "file_reader rd rem \<longleftrightarrow> (\<forall>n w. fst (rd n w) = Some (take n (rem w)) \<and> rem (snd (rd n w)) = drop n (rem w))"

lemma file_readerD: "file_reader rd rem \<Longrightarrow> \<exists>w'. rd n w = (Some (take n (rem w)), w') \<and> rem w' = drop n (rem w)"
  unfolding file_reader_def by (metis prod.collapse)

lemma grep_file:
  assumes rd: "file_reader rd rem"
  shows "held @ rem w = unlines ls @ tail \<Longrightarrow> plain held \<Longrightarrow> length held \<le> 1022 \<Longrightarrow> \<forall>l \<in> set ls. plain l \<and> length l \<le> 1022
    \<Longrightarrow> plain tail \<Longrightarrow> length tail \<le> 1022 \<Longrightarrow> length (rem w) < k
    \<Longrightarrow> \<exists>w'. grep k rd pattern held w = Ok (unlines (filter (match pattern) ls), w')"
proof (induction k arbitrary: held w ls tail)
  case (Suc k)
  let ?n = "1023 - length held"
  obtain w1 where r: "rd ?n w = (Some (take ?n (rem w)), w1)" "rem w1 = drop ?n (rem w)" using file_readerD [OF rd] by blast
  have sz: "GREP_BUF - Suc (length held) = ?n" by (simp add: GREP_BUF_def)
  show ?case
  proof (cases "rem w = []")
    case True
    then have "ls = []" using Suc.prems(1,2) by (cases ls) auto
    then show ?thesis using r True by (simp add: sz)
  next
    case False
    define xs where "xs = held @ take ?n (rem w)"
    have bs: "take ?n (rem w) \<noteq> []" using False Suc.prems(3) by simp
    have xy: "xs @ rem w1 = unlines ls @ tail" using Suc.prems(1) r(2) by (simp add: xs_def)
    have lw: "length (rem w1) < k" using Suc.prems(3,7) False r(2) by (cases "rem w") auto
    from grep_lines_split [OF _ Suc.prems(5) xy, of pattern] Suc.prems(4) obtain ls1 ls2 c where g:
      "ls = ls1 @ ls2" "grep_lines pattern xs = (unlines (filter (match pattern) ls1), c)" "xs = unlines ls1 @ c" "c @ rem w1 = unlines ls2 @ tail" "plain c" by auto
    have lx: "length xs \<le> 1023" "rem w1 = [] \<or> length xs = 1023" using Suc.prems(3) r(2) by (auto simp: xs_def)
    have step: "grep (Suc k) rd pattern held w = bindr (grep k rd pattern (if length c = length xs then [] else c) w1) (\<lambda>(rest, w2). Ok (unlines (filter (match pattern) ls1) @ rest, w2))"
      using r(1) bs g(2) by (simp add: sz xs_def)
    show ?thesis
    proof (cases "ls1 = []")
      case True
      have "ls = []"
      proof (cases ls)
        case (Cons l ls')
        then have "(l @ [newline]) @ unlines ls' @ tail = xs @ rem w1" using xy by simp
        moreover have "length (l @ [newline]) \<le> length xs \<or> rem w1 = []" using lx(2) Suc.prems(4) Cons by auto
        ultimately obtain z where "xs = (l @ [newline]) @ z" by (auto simp: append_eq_append_conv2 Cons_eq_append_conv)
        then have "newline \<in> set xs" by simp
        then show ?thesis using True g(3,5) by (simp add: plain_def)
      qed simp
      then have "xs @ rem w1 = tail" using xy by simp
      then have "length xs + length (rem w1) \<le> 1022" using Suc.prems(6) by (metis length_append)
      then have "rem w1 = []" using lx(2) by auto
      then show ?thesis using Suc.IH [of "[]" w1 "[]" "[]"] lw step True \<open>ls = []\<close> g(3) by (auto simp: plain_def)
    next
      case False
      then have "length c < length xs" using g(3) by (cases ls1) auto
      moreover have "\<exists>w'. grep k rd pattern c w1 = Ok (unlines (filter (match pattern) ls2), w')"
        by (rule Suc.IH [OF g(4,5)]) (use calculation lx(1) Suc.prems g(1) lw in auto)
      ultimately show ?thesis using step g(1) by (auto simp: unlines_def)
    qed
  qed
qed simp

text \<open>C36: \<^verbatim>\<open>grep\<close> prints exactly the lines of a file that match, in order, whatever way the lines fall into its buffer: for a
  file without NUL bytes, read in full pieces, whose lines have at most 1022 bytes, the output is the matching lines and
  the loop ends after at most one round per byte. A last line without a newline is not printed.
\<close>

theorem grep_prints_matching_lines:
  assumes "file_reader rd rem" and "rem w = unlines ls @ tail" and "\<forall>l \<in> set ls. plain l \<and> length l \<le> 1022" and "plain tail" and "length tail \<le> 1022"
  shows "\<exists>w'. grep (Suc (length (rem w))) rd pattern [] w = Ok (unlines (filter (match pattern) ls), w')"
  by (rule grep_file [OF assms(1)]) (use assms in \<open>auto simp: plain_def\<close>)

theorem grep_prints_matching_lines_witness:
  "\<exists>w'. grep 6 (\<lambda>n w. (Some (take n w), drop n w)) [98] [] [97, 98, 10, 99, 10] = Ok ([97, 98, 10], w')"
proof -
  have m: "filter (match [98]) [[97, 98], [99]] = [[97, 98]]" by code_simp
  have n: "Suc (length [97, 98, 10, 99, 10 :: byte]) = 6" by simp
  show ?thesis
    using grep_prints_matching_lines [of "\<lambda>n w. (Some (take n w), drop n w)" "\<lambda>w. w" "[97, 98, 10, 99, 10]" "[[97, 98], [99]]" "[]" "[98]", unfolded m n]
    by (simp add: file_reader_def plain_def del: grep.simps)
qed

end
