(* ===== verification/Textutils.thy ===== *)
theory Textutils
  imports Kernel_Prelude "HOL-Library.Signed_Division"
begin

text \<open>
  Small text programs: the substitution cipher of \<^verbatim>\<open>encode.c\<close> and \<^verbatim>\<open>decode.c\<close>, the counters of \<^verbatim>\<open>wc.c\<close>
  and the copy loop of \<^verbatim>\<open>cat.c\<close>. The system calls \<^verbatim>\<open>read\<close> and \<^verbatim>\<open>write\<close> are parameters.
\<close>

section \<open>The cipher\<close>

text \<open>The sum of the last two digits of the three identifiers; \<open>smod\<close> is the remainder of C, with the sign of the dividend.\<close>

definition ids :: "int list" where "ids = [810101408, 810101561, 810101560]"
definition raw_key :: int where "raw_key = sum_list (map (\<lambda>i. i smod 100) ids)"
definition encode_key :: int where "encode_key = (raw_key smod 26 + 26) smod 26"
definition decode_key :: int where "decode_key = ((- raw_key) smod 26 + 26) smod 26"

definition shift_char :: "int \<Rightarrow> byte \<Rightarrow> byte" where
  "shift_char key c =
     (if 97 \<le> c \<and> c \<le> 122 then word_of_int ((uint c + key - 97) smod 26 + 97)
      else if 65 \<le> c \<and> c \<le> 90 then word_of_int ((uint c + key - 65) smod 26 + 65)
      else c)"

text \<open>The loop over \<^verbatim>\<open>text\<close> up to its terminator; the result has the array and the index of the terminator.\<close>

fun crypt_loop :: "int \<Rightarrow> byte list \<Rightarrow> nat \<Rightarrow> (byte list \<times> nat) res" where
  "crypt_loop key [] i = Undef ''text''"
| "crypt_loop key (c # cs) i =
     (if c = 0 then Ok (c # cs, i)
      else bindr (crypt_loop key cs (Suc i)) (\<lambda>(t, j). Ok (shift_char key c # t, j)))"

text \<open>The result says whether all bytes were written; otherwise the program prints an error and exits.\<close>

definition crypt :: "int \<Rightarrow> (byte list \<Rightarrow> 'w \<Rightarrow> int \<times> 'w) \<Rightarrow> byte list \<Rightarrow> 'w \<Rightarrow> (bool \<times> byte list \<times> 'w) res" where
  "crypt key wr t w = bindr (crypt_loop key t 0) (\<lambda>(t1, i). let (n, w1) = wr (take i t1) w in Ok (n = int i, t1, w1))"

definition encode :: "(byte list \<Rightarrow> 'w \<Rightarrow> int \<times> 'w) \<Rightarrow> byte list \<Rightarrow> 'w \<Rightarrow> (bool \<times> byte list \<times> 'w) res" where
  "encode = crypt encode_key"

definition decode :: "(byte list \<Rightarrow> 'w \<Rightarrow> int \<times> 'w) \<Rightarrow> byte list \<Rightarrow> 'w \<Rightarrow> (bool \<times> byte list \<times> 'w) res" where
  "decode = crypt decode_key"

text \<open>The arguments after the program's name, separated by blanks; the array has 512 bytes and the length is not tested.\<close>

fun merge_words :: "byte list list \<Rightarrow> byte list" where
  "merge_words [] = []"
| "merge_words [a] = a"
| "merge_words (a # as) = a @ 32 # merge_words as"

definition merge_argv :: "byte list list \<Rightarrow> byte list res" where
  "merge_argv args = (let t = merge_words args @ [10, 0] in if length t \<le> 512 then Ok t else Undef ''merged_text'')"

lemma keys: "encode_key = 25" "decode_key = 1"
  by code_simp+

lemma smod_pos: "0 \<le> a \<Longrightarrow> a smod 26 = a mod (26 :: int)"
  by (cases "a = 0") (simp_all add: smod_int_alt_def)

lemma uint_byte: "0 \<le> x \<Longrightarrow> x < 256 \<Longrightarrow> uint (word_of_int x :: byte) = x"
  by (simp add: uint_word_of_int)

lemma shift_letter:
  assumes b: "b \<in> {65, 97}" and c: "b \<le> uint c" "uint c < b + 26" and k: "0 \<le> k"
  shows "uint (shift_char k c) = (uint c - b + k) mod 26 + b"
proof -
  have e: "(uint c + k - b) smod 26 = (uint c - b + k) mod 26" using c k by (simp add: smod_pos algebra_simps)
  have "0 \<le> (uint c - b + k) mod 26" "(uint c - b + k) mod 26 < 26" by simp_all
  then have "uint (word_of_int ((uint c - b + k) mod 26 + b) :: byte) = (uint c - b + k) mod 26 + b" using b by (intro uint_byte) auto
  moreover have "shift_char k c = word_of_int ((uint c + k - b) smod 26 + b)" using b c by (auto simp: shift_char_def word_le_def)
  ultimately show ?thesis by (simp add: e)
qed

lemma shift_other: "\<not> (97 \<le> uint c \<and> uint c \<le> 122) \<Longrightarrow> \<not> (65 \<le> uint c \<and> uint c \<le> 90) \<Longrightarrow> shift_char k c = c"
  by (auto simp: shift_char_def word_le_def)

lemma shift_case:
  assumes "0 \<le> k"
  shows "if c \<in> {97..122} then shift_char k c \<in> {97..122} else if c \<in> {65..90} then shift_char k c \<in> {65..90} else shift_char k c = c"
proof -
  have r: "0 \<le> x mod 26" "x mod 26 < 26" for x :: int by simp_all
  have "b \<le> uint (shift_char k c) \<and> uint (shift_char k c) \<le> b + 25" if "b \<in> {65, 97}" "b \<le> uint c" "uint c < b + 26" for b
    using shift_letter [OF that assms] r [of "uint c - b + k"] by simp
  from this [of 97] this [of 65] shift_other [of c k] show ?thesis by (auto simp: word_le_def)
qed

lemma shift_round: "shift_char decode_key (shift_char encode_key c) = c"
proof -
  have r: "((u + 25) mod 26 + 1) mod 26 = u" if "0 \<le> u" "u < 26" for u :: int using that by presburger
  have l: "shift_char 1 (shift_char 25 c) = c" if "b \<in> {65, 97}" "b \<le> uint c" "uint c < b + 26" for b
  proof -
    have d: "uint (shift_char 25 c) = (uint c - b + 25) mod 26 + b" using shift_letter [OF that, of 25] by simp
    then have "uint (shift_char 1 (shift_char 25 c)) = ((uint c - b + 25) mod 26 + 1) mod 26 + b"
      using shift_letter [OF that(1), of "shift_char 25 c" 1] by simp
    then show ?thesis using r [of "uint c - b"] that by (simp add: word_uint_eq_iff)
  qed
  consider "65 \<le> uint c \<and> uint c < 91" | "97 \<le> uint c \<and> uint c < 123" | "\<not> (97 \<le> uint c \<and> uint c \<le> 122) \<and> \<not> (65 \<le> uint c \<and> uint c \<le> 90)" by linarith
  then show ?thesis by cases (use l [of 65] l [of 97] shift_other [of c] in \<open>auto simp: keys\<close>)
qed

lemma shift_nonzero: "shift_char encode_key c = 0 \<longleftrightarrow> c = 0"
proof
  assume "shift_char encode_key c = 0"
  then have "shift_char decode_key 0 = c" using shift_round [of c] by simp
  then show "c = 0" by (simp add: shift_char_def word_le_def)
qed (simp add: shift_char_def word_le_def)

lemma crypt_loop_spec:
  "0 \<notin> set p \<Longrightarrow> crypt_loop key (p @ 0 # r) i = Ok (map (shift_char key) p @ 0 # r, i + length p)"
  by (induction p arbitrary: i) auto

text \<open>\<^verbatim>\<open>decode\<close> inverts \<^verbatim>\<open>encode\<close>: on an array with the string \<open>p\<close>, \<^verbatim>\<open>encode\<close> writes a string of the same length and
  leaves the terminator and the bytes \<open>r\<close> after it in place; \<^verbatim>\<open>decode\<close> of that array restores it and writes the original
  string. Bytes that are not letters, such as blanks and newlines, are the same in the encoded string, and a letter is replaced by a letter of the
  same case. \<^verbatim>\<open>write\<close> is taken to write all bytes that it is given.
\<close>

theorem decode_encode:
  assumes "0 \<notin> set p" and "\<And>bs w. wr bs w = (int (length bs), w @ bs)"
  shows "\<exists>c. length c = length p \<and> encode wr (p @ 0 # r) w = Ok (True, c @ 0 # r, w @ c) \<and> decode wr (c @ 0 # r) w = Ok (True, p @ 0 # r, w @ p)
    \<and> (\<forall>i < length p. if p ! i \<in> {97..122} then c ! i \<in> {97..122} else if p ! i \<in> {65..90} then c ! i \<in> {65..90} else c ! i = p ! i)"
proof -
  let ?c = "map (shift_char encode_key) p"
  have "0 \<notin> set ?c" using assms(1) by (auto simp: eq_commute [of 0] shift_nonzero)
  moreover have "map (shift_char decode_key) ?c = p" by (simp add: shift_round comp_def)
  ultimately have "length ?c = length p \<and> encode wr (p @ 0 # r) w = Ok (True, ?c @ 0 # r, w @ ?c) \<and> decode wr (?c @ 0 # r) w = Ok (True, p @ 0 # r, w @ p)"
    using assms by (simp add: encode_def decode_def crypt_def crypt_loop_spec)
  moreover have "if p ! i \<in> {97..122} then ?c ! i \<in> {97..122} else if p ! i \<in> {65..90} then ?c ! i \<in> {65..90} else ?c ! i = p ! i"
    if "i < length p" for i unfolding nth_map [OF that] by (rule shift_case) (simp add: keys)
  ultimately show ?thesis by blast
qed

theorem decode_encode_witness:
  "\<exists>c. encode (\<lambda>bs w. (int (length bs), w @ bs)) ([97, 90, 33] @ 0 # []) [] = Ok (True, c @ 0 # [], c)
     \<and> decode (\<lambda>bs w. (int (length bs), w @ bs)) (c @ 0 # []) [] = Ok (True, [97, 90, 33] @ 0 # [], [97, 90, 33]) \<and> c ! 2 = 33"
  using decode_encode [of "[97, 90, 33]" "\<lambda>bs w. (int (length bs), w @ bs)" "[]" "[]"] by auto

section \<open>Counting words\<close>

definition IOBUF :: nat where "IOBUF = 512"

text \<open>\<^verbatim>\<open>strchr(" \r\t\n\v", c)\<close>.\<close>

definition blank :: "byte \<Rightarrow> bool" where
  "blank c \<longleftrightarrow> c \<in> set [32, 13, 9, 10, 11]"

text \<open>The counters of lines, words and characters, and \<^verbatim>\<open>inword\<close>. The code has ints, for inputs below 2147483648 bytes.\<close>

type_synonym wcount = "nat \<times> nat \<times> nat \<times> bool"

fun wc_byte :: "byte \<Rightarrow> wcount \<Rightarrow> wcount" where
  "wc_byte b (l, w, c, inword) =
     (let l' = (if b = 10 then l + 1 else l) in
      if blank b then (l', w, c + 1, False)
      else if \<not> inword then (l', w + 1, c + 1, True)
      else (l', w, c + 1, inword))"

text \<open>The loop of \<^verbatim>\<open>wc\<close>; \<open>None\<close> is the read error. The first argument bounds the calls of \<^verbatim>\<open>read\<close>.\<close>

fun wc_loop :: "nat \<Rightarrow> (nat \<Rightarrow> 'w \<Rightarrow> byte list option \<times> 'w) \<Rightarrow> wcount \<Rightarrow> 'w \<Rightarrow> (wcount option \<times> 'w) res" where
  "wc_loop 0 rd k w = Block"
| "wc_loop (Suc n) rd k w =
     (case rd IOBUF w of
        (None, w1) \<Rightarrow> Ok (None, w1)
      | (Some bs, w1) \<Rightarrow> if bs = [] then Ok (Some k, w1) else wc_loop n rd (fold wc_byte bs k) w1)"

definition wc :: "nat \<Rightarrow> (nat \<Rightarrow> 'w \<Rightarrow> byte list option \<times> 'w) \<Rightarrow> 'w \<Rightarrow> (wcount option \<times> 'w) res" where
  "wc n rd w = wc_loop n rd (0, 0, 0, False) w"

text \<open>\<^verbatim>\<open>cat\<close>: the result is \<open>False\<close> after a read or write error, when the program exits.\<close>

fun cat :: "nat \<Rightarrow> (nat \<Rightarrow> 'w \<Rightarrow> byte list option \<times> 'w) \<Rightarrow> (byte list \<Rightarrow> 'w \<Rightarrow> int \<times> 'w) \<Rightarrow> 'w \<Rightarrow> (bool \<times> 'w) res" where
  "cat 0 rd wr w = Block"
| "cat (Suc n) rd wr w =
     (case rd IOBUF w of
        (None, w1) \<Rightarrow> Ok (False, w1)
      | (Some bs, w1) \<Rightarrow>
          if bs = [] then Ok (True, w1)
          else let (k, w2) = wr bs w1 in if k \<noteq> int (length bs) then Ok (False, w2) else cat n rd wr w2)"

text \<open>A call of \<^verbatim>\<open>read\<close> gives some of the bytes left, and none only at the end.\<close>

definition reader :: "(nat \<Rightarrow> 'w \<Rightarrow> byte list option \<times> 'w) \<Rightarrow> ('w \<Rightarrow> byte list) \<Rightarrow> bool" where
  "reader rd rem \<longleftrightarrow> (\<forall>n w. \<exists>bs w'. rd n w = (Some bs, w') \<and> length bs \<le> n \<and> rem w = bs @ rem w' \<and> (0 < n \<longrightarrow> bs = [] \<longrightarrow> rem w = []))"

text \<open>The bytes that start a word: not blank, and first or after a blank.\<close>

definition word_starts :: "byte list \<Rightarrow> nat" where
  "word_starts t = card {i. i < length t \<and> \<not> blank (t ! i) \<and> (i = 0 \<or> blank (t ! (i - 1)))}"

lemma word_starts_snoc:
  "word_starts (t @ [b]) = word_starts t + (if \<not> blank b \<and> (t = [] \<or> blank (last t)) then 1 else 0)"
proof -
  let ?S = "\<lambda>t. {i. i < length t \<and> \<not> blank (t ! i) \<and> (i = 0 \<or> blank (t ! (i - 1)))}"
  have "?S (t @ [b]) = ?S t \<union> (if \<not> blank b \<and> (t = [] \<or> blank (last t)) then {length t} else {})"
    by (cases "t = []") (auto simp: nth_append last_conv_nth less_Suc_eq split: if_splits)
  moreover have "finite (?S t)" by simp
  ultimately show ?thesis by (auto simp: word_starts_def)
qed

definition wc_spec :: "byte list \<Rightarrow> wcount" where
  "wc_spec t = (count_list t 10, word_starts t, length t, t \<noteq> [] \<and> \<not> blank (last t))"

lemma wc_spec_Nil: "wc_spec [] = (0, 0, 0, False)"
  by (simp add: wc_spec_def word_starts_def)

lemma wc_byte_spec: "wc_byte b (wc_spec t) = wc_spec (t @ [b])"
  by (auto simp: wc_spec_def word_starts_snoc Let_def)

lemma wc_fold_spec: "fold wc_byte bs (wc_spec t) = wc_spec (t @ bs)"
  by (induction bs arbitrary: t) (simp_all add: wc_byte_spec)

lemma wc_loop_spec:
  "reader rd rem \<Longrightarrow> length (rem w) < n \<Longrightarrow> \<exists>w'. wc_loop n rd (wc_spec t) w = Ok (Some (wc_spec (t @ rem w)), w')"
proof (induction n arbitrary: w t)
  case (Suc n)
  obtain bs w1 where r: "rd IOBUF w = (Some bs, w1)" "rem w = bs @ rem w1" "bs = [] \<longrightarrow> rem w = []"
    using Suc.prems(1) unfolding reader_def by (metis IOBUF_def zero_less_numeral)
  show ?case
  proof (cases "bs = []")
    case False
    then have "length (rem w1) < n" using Suc.prems(2) r(2) by (cases bs) auto
    then show ?thesis using Suc.IH [OF Suc.prems(1), of w1 "t @ bs"] r False by (simp add: wc_fold_spec)
  qed (use r in simp)
qed simp

text \<open>C38: \<^verbatim>\<open>wc\<close> counts correctly, however the file is cut into pieces by \<^verbatim>\<open>read\<close>: the loop ends, and its counters are the
  number of newlines, of words (places where a non-blank byte begins the file or follows a blank) and of bytes of the
  whole input. In particular a word that crosses the border between two pieces is counted once.
\<close>

theorem wc_counts:
  assumes "reader rd rem"
  shows "\<exists>w' inword. wc (Suc (length (rem w))) rd w = Ok (Some (count_list (rem w) 10, word_starts (rem w), length (rem w), inword), w')"
  using wc_loop_spec [OF assms, of w "Suc (length (rem w))" "[]", unfolded wc_spec_Nil]
  by (auto simp: wc_def wc_spec_def simp del: wc_loop.simps)

theorem wc_counts_witness:
  "\<exists>w' inword. wc 7 (\<lambda>n w. (Some (take (min n 3) w), drop (min n 3) w)) [97, 32, 98, 98, 98, 10] = Ok (Some (1, 2, 6, inword), w')"
proof -
  let ?t = "[97, 32, 98, 98, 98, 10] :: byte list"
  have r: "reader (\<lambda>n w. (Some (take (min n 3) w), drop (min n 3) w)) (\<lambda>w. w)" by (auto simp: reader_def min_def)
  have "fold wc_byte ?t (0, 0, 0, False) = (1, 2, 6, False)" by code_simp
  then have "wc_spec ?t = (1, 2, 6, False)" using wc_fold_spec [of ?t "[]", unfolded wc_spec_Nil] by simp
  then have s: "count_list ?t 10 = 1" "word_starts ?t = 2" "length ?t = 6" by (simp_all only: wc_spec_def prod.inject)
  show ?thesis using wc_counts [OF r, of ?t, unfolded s] by simp
qed

end
