(* ===== verification/Console.thy ===== *)
theory Console
  imports Kernel_Prelude "HOL-Library.Signed_Division"
begin

text \<open>
  The console driver (\<^verbatim>\<open>console.c\<close>): formatted output, the screen and its cursor, the editor of the input line with
  its arrow keys, history and arithmetic, and reading. A key is what \<^verbatim>\<open>getc\<close> returns, the keys of one interrupt are a
  list. The video memory is a function of the position; what goes to the serial port is collected. Floating point
  numbers occur only in the quotients of typed expressions; the two integers the code takes from a quotient are a parameter.
\<close>

type_synonym ushort = "16 word"

section \<open>State\<close>

definition INPUT_BUF :: nat where "INPUT_BUF = 128"
definition N_HISTORY :: int where "N_HISTORY = 11"
definition BACKSPACE :: int where "BACKSPACE = 0x100"
definition BACKSPACE8 :: int where "BACKSPACE8 = 8"
definition UP_ARROW :: int where "UP_ARROW = 0xe2"
definition DOWN_ARROW :: int where "DOWN_ARROW = 0xe3"
definition LEFT_ARROW :: int where "LEFT_ARROW = 0xe4"
definition RIGHT_ARROW :: int where "RIGHT_ARROW = 0xe5"

text \<open>\<^verbatim>\<open>C(x)\<close> for a letter given by its code.\<close>

definition Ctl :: "int \<Rightarrow> int" where "Ctl x = x - 64"

record inbuf =
  ibuf :: "byte list"
  ir :: uint
  iw :: uint
  ie :: uint

definition new_input :: inbuf where
  "new_input = \<lparr>ibuf = replicate INPUT_BUF 0, ir = 0, iw = 0, ie = 0\<rparr>"

record console =
  input :: inbuf
  history :: "inbuf list"
  current_history :: int
  last_history :: int
  arrow :: int
  crt :: "int \<Rightarrow> ushort"
  cursor :: int
  serial :: "int list"
  panicked :: bool

section \<open>The screen\<close>

text \<open>The cursor register has 16 bits, written as two bytes.\<close>

definition get_cursor_pos :: "console \<Rightarrow> int" where
  "get_cursor_pos s = cursor s"

definition update_cursor :: "int \<Rightarrow> byte \<Rightarrow> console \<Rightarrow> console" where
  "update_cursor pos symbol s =
     (let s1 = s\<lparr>cursor := pos mod 65536\<rparr> in
      if symbol \<noteq> 0 then s1\<lparr>crt := (crt s1)(pos := ucast symbol OR 0x0700)\<rparr> else s1)"

definition scroll_up :: "int \<Rightarrow> (int \<Rightarrow> ushort) \<Rightarrow> int \<Rightarrow> ushort" where
  "scroll_up pos m = (\<lambda>i. if pos \<le> i \<and> i < 24 * 80 then 0 else if 0 \<le> i \<and> i < 23 * 80 then m (i + 80) else m i)"

text \<open>The position after a character and the video memory before a scroll.\<close>

definition cga_write :: "int \<Rightarrow> console \<Rightarrow> int \<times> (int \<Rightarrow> ushort)" where
  "cga_write c s =
     (let pos = get_cursor_pos s in
      if c = 10 then (pos + (80 - pos mod 80), crt s)
      else if c = BACKSPACE then (if pos > 0 then pos - 1 else pos, crt s)
      else (pos + 1, (crt s)(pos := word_of_int (c mod 256) OR 0x0700)))"

definition cgaputc :: "int \<Rightarrow> console \<Rightarrow> console res" where
  "cgaputc c s =
     (case cga_write c s of (pos, m) \<Rightarrow>
        guardr (\<not> (pos < 0 \<or> pos > 25 * 80)) ''pos under/overflow''
          (if pos div 80 \<ge> 24 then Ok (update_cursor (pos - 80) 32 (s\<lparr>crt := scroll_up (pos - 80) m\<rparr>))
           else Ok (update_cursor pos 32 (s\<lparr>crt := m\<rparr>))))"

definition consputc :: "int \<Rightarrow> console \<Rightarrow> console res" where
  "consputc c s =
     (if panicked s then Block
      else cgaputc c (s\<lparr>serial := serial s @ (if c = BACKSPACE then [8, 32, 8] else [c])\<rparr>))"

fun putall :: "int list \<Rightarrow> console \<Rightarrow> console res" where
  "putall [] s = Ok s"
| "putall (c # cs) s = bindr (consputc c s) (putall cs)"

section \<open>Formatted output\<close>

definition digits :: "int list" where
  "digits = [48, 49, 50, 51, 52, 53, 54, 55, 56, 57, 97, 98, 99, 100, 101, 102]"

text \<open>The digits of \<open>x\<close>, lowest first, as the loop stores them in \<^verbatim>\<open>buf\<close>.\<close>

function int_digits :: "nat \<Rightarrow> nat \<Rightarrow> int list" where
  "int_digits b x = digits ! (x mod b) # (if x div b = 0 \<or> b < 2 then [] else int_digits b (x div b))"
  by pat_completeness auto
termination
proof (relation "measure snd")
  fix b x :: nat
  assume "\<not> (x div b = 0 \<or> b < 2)"
  then have "0 < x" "1 < b" by (auto intro: ccontr)
  then have "x div b < x" by (rule div_less_dividend [rotated])
  then show "((b, x div b), (b, x)) \<in> measure snd" by simp
qed simp

definition printint :: "uint \<Rightarrow> nat \<Rightarrow> bool \<Rightarrow> console \<Rightarrow> console res" where
  "printint xx base sign s =
     (let neg = (sign \<and> sint xx < 0); x = (if neg then - xx else xx);
          buf = int_digits base (unat x) @ (if neg then [45] else [])
      in putall (rev buf) s)"

text \<open>The arguments of \<^verbatim>\<open>cprintf\<close>: words and strings, the null pointer being \<open>None\<close>.\<close>

datatype carg = A_int uint | A_str "byte list option"

definition null_str :: "byte list" where "null_str = [40, 110, 117, 108, 108, 41]"

fun cprintf :: "byte list \<Rightarrow> carg list \<Rightarrow> console \<Rightarrow> console res" where
  "cprintf [] args s = Ok s"
| "cprintf [c] args s = (if c \<noteq> 37 then consputc (uint c) s else Ok s)"
| "cprintf (c # d # fmt) args s =
     (if c \<noteq> 37 then bindr (consputc (uint c) s) (cprintf (d # fmt) args)
      else if d = 100 \<or> d = 120 \<or> d = 112 then
        (case args of A_int x # rest \<Rightarrow> bindr (if d = 100 then printint x 10 True s else printint x 16 False s) (cprintf fmt rest)
         | _ \<Rightarrow> Undef ''argp'')
      else if d = 115 then
        (case args of A_str x # rest \<Rightarrow> bindr (putall (map sint (case x of None \<Rightarrow> null_str | Some t \<Rightarrow> t)) s) (cprintf fmt rest)
         | _ \<Rightarrow> Undef ''argp'')
      else if d = 37 then bindr (consputc 37 s) (cprintf fmt args)
      else bindr (putall [37, uint d] s) (cprintf fmt args))"

section \<open>The line on the screen\<close>

text \<open>Stores into the buffer go through these; an index outside it overwrites other variables.\<close>

definition set_buf :: "int \<Rightarrow> byte \<Rightarrow> console \<Rightarrow> console res" where
  "set_buf i c s =
     (if 0 \<le> i \<and> i < int INPUT_BUF then Ok (s\<lparr>input := (input s)\<lparr>ibuf := (ibuf (input s))[nat i := c]\<rparr>\<rparr>)
      else Undef ''input.buf'')"

abbreviation set_e :: "uint \<Rightarrow> console \<Rightarrow> console" where
  "set_e e s \<equiv> s\<lparr>input := (input s)\<lparr>ie := e\<rparr>\<rparr>"

definition write_from_buffer :: "console \<Rightarrow> console res" where
  "write_from_buffer s =
     bindr (putall (map sint (takeWhile (\<lambda>c. c \<noteq> 10 \<and> c \<noteq> 0) (ibuf (input s)))) s) (\<lambda>s1.
       Ok (s1\<lparr>input := (input s1)\<lparr>iw := 0, ir := 0\<rparr>\<rparr>))"

text \<open>\<^verbatim>\<open>___clear_cmd\<close>; the comparison of its loop is unsigned.\<close>

definition clear_cmd :: "int \<Rightarrow> console \<Rightarrow> console res" where
  "clear_cmd end s =
     (let s1 = update_cursor (get_cursor_pos s - arrow s) 0 s in
      putall (replicate (unat (word_of_int end - iw (input s1))) BACKSPACE) s1)"

section \<open>Editing inside the line\<close>

fun shift_right :: "nat \<Rightarrow> nat \<Rightarrow> byte list \<Rightarrow> byte list" where
  "shift_right 0 i b = b"
| "shift_right (Suc n) i b = shift_right n (i - 1) (b[i mod INPUT_BUF := b ! ((i - 1) mod INPUT_BUF)])"

fun shift_left :: "nat \<Rightarrow> nat \<Rightarrow> byte list \<Rightarrow> byte list" where
  "shift_left 0 i b = b"
| "shift_left (Suc n) i b = shift_left n (i + 1) (b[i mod INPUT_BUF := b ! ((i + 1) mod INPUT_BUF)])"

text \<open>\<^verbatim>\<open>___shift_buf\<close>: the numbers of rounds are those of its two loops.\<close>

definition shift_buf :: "bool \<Rightarrow> int \<Rightarrow> console \<Rightarrow> console res" where
  "shift_buf right_flag change_idx s =
     (let e = ie (input s); b = ibuf (input s) in
      if right_flag then
        (if change_idx < 0 then Undef ''input.buf''
         else Ok (s\<lparr>input := (input s)\<lparr>ibuf := shift_right (nat (sint e - change_idx)) (nat (sint e)) b, ie := e + 1\<rparr>\<rparr>))
      else
        (if change_idx < 1 then Undef ''input.buf''
         else Ok (s\<lparr>input := (input s)\<lparr>ibuf := shift_left (unat e - nat (change_idx - 1)) (nat (change_idx - 1)) b, ie := e - 1\<rparr>\<rparr>)))"

definition update_buffer :: "int \<Rightarrow> int \<Rightarrow> console \<Rightarrow> console res" where
  "update_buffer c change_idx s =
     (if c \<le> 0 then Ok s
      else if c = BACKSPACE \<or> c = BACKSPACE8 then shift_buf False change_idx s
      else bindr (shift_buf True change_idx s) (set_buf (change_idx mod int INPUT_BUF) (word_of_int c)))"

definition input_in_mid :: "int \<Rightarrow> console \<Rightarrow> console res" where
  "input_in_mid c s =
     (let pos = get_cursor_pos s; change_index = sint (ie (input s) + word_of_int (arrow s)) in
      if c = BACKSPACE \<or> c = BACKSPACE8 then
        (if word_of_int (arrow s) \<le> - ie (input s) then Ok s
         else bindr (update_buffer c change_index s) (\<lambda>s1.
              bindr (clear_cmd (sint (ie (input s1) + 1)) s1) (\<lambda>s2.
              bindr (write_from_buffer s2) (\<lambda>s3. Ok (update_cursor (pos - 1) 0 s3)))))
      else bindr (update_buffer c change_index s) (\<lambda>s1.
           bindr (clear_cmd (sint (ie (input s1) - 1)) s1) (\<lambda>s2.
           bindr (write_from_buffer s2) (\<lambda>s3. Ok (update_cursor (pos + 1) 0 s3)))))"

section \<open>Arrow keys and history\<close>

text \<open>
  The macro \<^verbatim>\<open>_MOD(a,b)\<close> is \<^verbatim>\<open>(a%b+b)%b\<close> without parentheses around its arguments: \<open>hist_ix a k\<close> is
  \<^verbatim>\<open>_MOD(a + k, _N_HISTORY)\<close>, where the remainder applies to the last summand \<open>k\<close> only.
\<close>

definition hist_ix0 :: "int \<Rightarrow> int" where
  "hist_ix0 a = (a smod N_HISTORY + N_HISTORY) smod N_HISTORY"

definition hist_ix :: "int \<Rightarrow> int \<Rightarrow> int" where
  "hist_ix a k = (a + k smod N_HISTORY + N_HISTORY) smod N_HISTORY"

definition hist :: "int \<Rightarrow> console \<Rightarrow> inbuf res" where
  "hist i s = (if 0 \<le> i \<and> i < N_HISTORY then Ok (history s ! nat i) else Undef ''_history'')"

definition recall :: "int \<Rightarrow> console \<Rightarrow> console res" where
  "recall c s =
     bindr (set_buf (uint (ie (input s))) 10 s) (\<lambda>s1.
     bindr (clear_cmd (sint (ie (input s1))) s1) (\<lambda>s2.
       let i2 = (input s2)\<lparr>ie := ie (input s2) + 1, iw := ie (input s2) + 1\<rparr>;
           s3 = s2\<lparr>arrow := 0, input := i2\<rparr>;
           k = hist_ix0 (current_history s3);
           s4 = (if k = hist_ix0 (last_history s3) then s3\<lparr>history := (history s3)[nat k := i2]\<rparr> else s3);
           s5 = s4\<lparr>current_history := (if c = UP_ARROW then current_history s4 - 1 else current_history s4 + 1)\<rparr>
       in bindr (hist (hist_ix0 (current_history s5)) s5) (\<lambda>h.
            write_from_buffer (s5\<lparr>input := h\<lparr>ie := ie h - 1\<rparr>\<rparr>))))"

definition arrow_key_console_handler :: "int \<Rightarrow> console \<Rightarrow> console res" where
  "arrow_key_console_handler c s =
     (let pos = get_cursor_pos s in
      if c = LEFT_ARROW then
        (if word_of_int (- arrow s) < ie (input s) then Ok (update_cursor (pos - 1) 0 (s\<lparr>arrow := arrow s - 1\<rparr>)) else Ok s)
      else if c = RIGHT_ARROW then
        (if arrow s \<noteq> 0 then Ok (update_cursor (pos + 1) 0 (s\<lparr>arrow := arrow s + 1\<rparr>)) else Ok s)
      else
        bindr (if c = UP_ARROW then
                 bindr (hist (hist_ix (current_history s) (-1)) s) (\<lambda>h.
                   Ok (ibuf h ! 0 = 0 \<or> hist_ix (current_history s) (-1) = hist_ix0 (last_history s)))
               else Ok False) (\<lambda>stop_up.
          if stop_up then Ok s
          else if c = DOWN_ARROW \<and> hist_ix (current_history s) 1 = hist_ix (last_history s) 1 then Ok s
          else recall c s))"

section \<open>Commands of the console\<close>

definition str :: "byte list \<Rightarrow> byte list res" where
  "str b = (if 0 \<in> set b then Ok (takeWhile (\<lambda>c. c \<noteq> 0) b) else Undef ''buf'')"

definition hist_title :: "byte list" where
  "hist_title = [67, 111, 109, 109, 97, 110, 100, 32, 104, 105, 115, 116, 111, 114, 121, 58, 10]"

definition hist_rule :: "byte list" where
  "hist_rule = replicate 79 45 @ [10]"

text \<open>The format \<^verbatim>\<open>*%d: %s\<close>.\<close>

definition hist_entry :: "byte list" where
  "hist_entry = [42, 37, 100, 58, 32, 37, 115]"

fun hist_loop :: "nat \<Rightarrow> int \<Rightarrow> console \<Rightarrow> console res" where
  "hist_loop 0 i s = Ok s"
| "hist_loop (Suc n) i s =
     bindr (hist (hist_ix (current_history s - i) (-1)) s) (\<lambda>h.
       if ibuf h ! 0 = 0 then Ok s
       else bindr (str (ibuf h)) (\<lambda>t.
            bindr (cprintf hist_entry [A_int (word_of_int (i + 1)), A_str (Some t)] s) (hist_loop n (i + 1))))"

definition history_command :: "console \<Rightarrow> console res" where
  "history_command s =
     bindr (cprintf hist_title [] s) (\<lambda>s1.
     bindr (cprintf hist_rule [] s1) (\<lambda>s2.
     bindr (hist_loop (nat N_HISTORY - 1) 0 s2) (cprintf [10, 36, 32] [])))"

text \<open>\<^verbatim>\<open>_buffer_with_str_cmp\<close>: the index is incremented before the comparison; \<open>True\<close> for a difference.\<close>

fun str_cmp_from :: "nat \<Rightarrow> byte list \<Rightarrow> byte list \<Rightarrow> bool" where
  "str_cmp_from i b [] = False"
| "str_cmp_from i b [z] = False"
| "str_cmp_from i b (x # y # t) = (if b ! Suc i \<noteq> y then True else str_cmp_from (Suc i) b (y # t))"

definition buffer_with_str_cmp :: "byte list \<Rightarrow> console \<Rightarrow> bool" where
  "buffer_with_str_cmp target s = str_cmp_from 0 (ibuf (input s)) (target @ [0])"

definition history_str :: "byte list" where
  "history_str = [104, 105, 115, 116, 111, 114, 121, 10]"

definition handle_custom_commands :: "console \<Rightarrow> console res" where
  "handle_custom_commands s =
     (if \<not> buffer_with_str_cmp history_str s then
        bindr (history_command s) (\<lambda>s1. Ok (s1\<lparr>input := (input s1)\<lparr>ie := 0, iw := 0, ir := 0\<rparr>\<rparr>))
      else Ok s)"

section \<open>Expressions\<close>

text \<open>The fields of \<^verbatim>\<open>struct __exp_found\<close> that are used.\<close>

record exp_found =
  num_str :: "byte list"
  num_size :: nat
  start_exp_idx :: nat
  exp_size :: nat

definition nums :: "byte list" where "nums = [48, 49, 50, 51, 52, 53, 54, 55, 56, 57]"
definition ops :: "byte list" where "ops = [43, 45, 42, 47]"

text \<open>\<^verbatim>\<open>__is_in_arr\<close> compares the terminator too.\<close>

definition is_in_arr :: "byte \<Rightarrow> byte list \<Rightarrow> bool" where
  "is_in_arr c arr \<longleftrightarrow> c \<in> set (arr @ [0])"

definition int_ok :: "int \<Rightarrow> bool" where
  "int_ok x \<longleftrightarrow> - (2 ^ 31) \<le> x \<and> x < 2 ^ 31"

text \<open>The value of a string of digits; an overflow of \<^verbatim>\<open>int\<close> is undefined.\<close>

fun char_to_int :: "byte list \<Rightarrow> int \<Rightarrow> int res" where
  "char_to_int [] result = Ok result"
| "char_to_int (c # arr) result =
     (let r = 10 * result + sint c - 48 in if int_ok r then char_to_int arr r else Undef ''int'')"

text \<open>The number of rounds of \<^verbatim>\<open>while (t > 0.9) t /= 10\<close>, and the digits of a positive number.\<close>

function ndigits :: "nat \<Rightarrow> nat" where
  "ndigits t = (if t = 0 then 0 else Suc (ndigits (t div 10)))"
  by pat_completeness auto
termination by (relation "measure (\<lambda>t. t)") auto

fun low_digits :: "nat \<Rightarrow> nat \<Rightarrow> byte list" where
  "low_digits 0 n = []"
| "low_digits (Suc k) n = of_nat (n mod 10 + 48) # low_digits k (n div 10)"

definition dec :: "nat \<Rightarrow> byte list" where
  "dec n = rev (low_digits (ndigits n) n)"

definition int_to_char :: "int \<Rightarrow> byte list res" where
  "int_to_char n =
     (if n = 0 then Ok [48]
      else if n < 0 then (if int_ok (- n) then Ok (45 # dec (nat (- n))) else Undef ''int'')
      else Ok (dec (nat n)))"

text \<open>
  \<^verbatim>\<open>__float1p_to_char\<close> for a quotient that is not negative: \<open>t\<close> is ten times the quotient, cut to an integer. Without a digit the
  code reads and writes before the array.
\<close>

definition float1p_to_char :: "int \<Rightarrow> byte list res" where
  "float1p_to_char t =
     (let ds = dec (nat t) in
      if t \<le> 0 then Undef ''exp.num_str'' else Ok (butlast ds @ [46, last ds]))"

definition solve_exp :: "(int \<Rightarrow> int \<Rightarrow> int) \<Rightarrow> byte list \<Rightarrow> nat \<Rightarrow> nat \<Rightarrow> exp_found res" where
  "solve_exp tenths t break_index end_index =
     bindr (char_to_int (take (break_index + 1) t) 0) (\<lambda>num1.
     bindr (char_to_int (take (end_index - 1 - break_index) (drop (break_index + 2) t)) 0) (\<lambda>num2.
       let c = t ! (break_index + 1);
           int_res = (\<lambda>r. if int_ok r then int_to_char r else Undef ''int'')
       in bindr (if c = 43 then int_res (num1 + num2)
                 else if c = 45 then int_res (num1 - num2)
                 else if c = 42 then int_res (num1 * num2)
                 else if c = 47 then (if num1 = 0 then Ok [48] else float1p_to_char (tenths num1 num2))
                 else Undef ''exp'') (\<lambda>ds.
            Ok \<lparr>num_str = ds, num_size = length ds, start_exp_idx = 0, exp_size = end_index + 2 + 1\<rparr>)))"

text \<open>
  The scan of the buffer: a state machine with the variables \<open>s\<close>, \<open>num1_start\<close>, \<open>num1_end\<close> and \<open>num2_end\<close>, over the rest of the
  buffer from index \<open>i\<close> on. \<open>None\<close> if there is no expression.
\<close>

type_synonym scan = "nat \<times> nat \<times> nat \<times> nat"

definition find_step :: "byte \<Rightarrow> nat \<Rightarrow> scan \<Rightarrow> scan" where
  "find_step c i q =
     (case q of (st, n1s, n1e, n2e) \<Rightarrow>
        if st = 0 then (if is_in_arr c nums then (1, i, i, n2e) else (0, n1s, n1e, n2e))
        else if st = 1 then (if is_in_arr c nums then (1, n1s, i, n2e) else if is_in_arr c ops then (2, n1s, n1e, n2e) else (0, n1s, n1e, n2e))
        else if st = 2 then (if is_in_arr c nums then (3, n1s, n1e, i) else (0, n1s, n1e, n2e))
        else if st = 3 then (if is_in_arr c nums then (3, n1s, n1e, i) else if c = 61 then (4, n1s, n1e, n2e) else (0, n1s, n1e, n2e))
        else if st = 4 then (if c = 63 then (5, n1s, n1e, n2e) else (0, n1s, n1e, n2e))
        else (0, n1s, n1e, n2e))"

definition find_solve :: "(int \<Rightarrow> int \<Rightarrow> int) \<Rightarrow> byte list \<Rightarrow> scan \<Rightarrow> exp_found option res" where
  "find_solve fl b q =
     (case q of (st, n1s, n1e, n2e) \<Rightarrow>
        bindr (solve_exp fl (drop n1s b) (n1e - n1s) (n2e - n1s)) (\<lambda>f. Ok (Some (f\<lparr>start_exp_idx := n1s\<rparr>))))"

fun find_loop :: "(int \<Rightarrow> int \<Rightarrow> int) \<Rightarrow> byte list \<Rightarrow> byte list \<Rightarrow> nat \<Rightarrow> scan \<Rightarrow> exp_found option res" where
  "find_loop fl b [] i q = Undef ''input.buf''"
| "find_loop fl b (c # cs) i q =
     (if fst q = 5 then find_solve fl b q
      else if c = 0 then Ok None
      else find_loop fl b cs (Suc i) (find_step c i q))"

definition find_expression :: "(int \<Rightarrow> int \<Rightarrow> int) \<Rightarrow> console \<Rightarrow> exp_found option res" where
  "find_expression fl s = find_loop fl (ibuf (input s)) (ibuf (input s)) 0 (0, 0, 0, 0)"

fun clear_buf_with_range :: "nat \<Rightarrow> nat \<Rightarrow> console \<Rightarrow> console res" where
  "clear_buf_with_range start 0 s = Ok s"
| "clear_buf_with_range start (Suc n) s = bindr (set_buf (int start) 0 s) (clear_buf_with_range (Suc start) n)"

fun put_num_in_buf :: "byte list \<Rightarrow> nat \<Rightarrow> console \<Rightarrow> console res" where
  "put_num_in_buf [] start s = Ok s"
| "put_num_in_buf (c # num) start s = bindr (set_buf (int start) c s) (put_num_in_buf num (Suc start))"

fun shift_buf_many_times :: "nat \<Rightarrow> int \<Rightarrow> console \<Rightarrow> console res" where
  "shift_buf_many_times 0 change_idx s = Ok s"
| "shift_buf_many_times (Suc n) change_idx s = bindr (shift_buf False change_idx s) (shift_buf_many_times n (change_idx - 1))"

text \<open>The end of a round of \<^verbatim>\<open>consoleintr\<close> and of \<^verbatim>\<open>___handle_ctrl_s\<close>: an expression followed by \<open>=?\<close> is replaced by its value.\<close>

definition replace_expression :: "(int \<Rightarrow> int \<Rightarrow> int) \<Rightarrow> console \<Rightarrow> console res" where
  "replace_expression fl s =
     bindr (find_expression fl s) (\<lambda>f. case f of
       None \<Rightarrow> Ok s
     | Some x \<Rightarrow>
         let prev_e = sint (ie (input s));
             line_start = get_cursor_pos s - arrow s - prev_e;
             st = int (start_exp_idx x)
         in bindr (clear_buf_with_range (start_exp_idx x) (exp_size x) s) (\<lambda>s1.
            bindr (put_num_in_buf (num_str x) (start_exp_idx x) s1) (\<lambda>s2.
            bindr (shift_buf_many_times (exp_size x - num_size x) (st + int (exp_size x)) s2) (\<lambda>s3.
              let s4 = s3\<lparr>arrow := st + int (num_size x) - sint (ie (input s3))\<rparr>;
                  s5 = update_cursor (line_start + st + int (exp_size x)) 0 s4
              in bindr (clear_cmd prev_e s5) (\<lambda>s6.
                 bindr (write_from_buffer s6) (\<lambda>s7.
                   Ok (update_cursor (line_start + st + int (num_size x)) 0 s7)))))))"

section \<open>Keys\<close>

fun kill_line :: "nat \<Rightarrow> console \<Rightarrow> console res" where
  "kill_line 0 s = Block"
| "kill_line (Suc n) s =
     (let i = input s in
      if ie i \<noteq> iw i \<and> ibuf i ! (unat (ie i - 1) mod INPUT_BUF) \<noteq> 10
      then bindr (consputc BACKSPACE (set_e (ie i - 1) s)) (kill_line n)
      else Ok s)"

text \<open>\<^verbatim>\<open>input.buf[--input.e] = '\0'; consputc(BACKSPACE);\<close>\<close>

definition erase_last :: "console \<Rightarrow> console res" where
  "erase_last s =
     (let e = ie (input s) - 1 in bindr (set_buf (uint e) 0 (set_e e s)) (consputc BACKSPACE))"

text \<open>\<^verbatim>\<open>input.buf[input.e++ % INPUT_BUF] = c; consputc(c);\<close>\<close>

definition append_key :: "int \<Rightarrow> console \<Rightarrow> console res" where
  "append_key c s =
     (let e = ie (input s) in bindr (set_buf (int (unat e mod INPUT_BUF)) (word_of_int c) (set_e (e + 1) s)) (consputc c))"

text \<open>
  The loop of \<^verbatim>\<open>___handle_ctrl_s\<close> up to control-F, with the marks of the positions typed; it waits while there is no key. The result
  has the keys left.
\<close>

definition mark_ok :: "int \<Rightarrow> bool" where
  "mark_ok i \<longleftrightarrow> 0 \<le> i \<and> i < int INPUT_BUF"

definition marks_after :: "int \<Rightarrow> console \<Rightarrow> bool list \<Rightarrow> bool list res" where
  "marks_after c s marks =
     (let p = sint (ie (input s) + word_of_int (arrow s) - 1) in
      if \<not> mark_ok p then Undef ''___inputs_idx''
      else if c = BACKSPACE \<or> c = BACKSPACE8 then Ok (take (nat p) marks @ drop (Suc (nat p)) marks @ [last marks])
      else Ok (take (nat p) marks @ True # butlast (drop (nat p) marks)))"

definition ctrl_s_key :: "int \<Rightarrow> console \<Rightarrow> bool list \<Rightarrow> (console \<times> bool list) res" where
  "ctrl_s_key c s marks =
     (if c = BACKSPACE8 \<and> arrow s = 0 then
        bindr (erase_last s) (\<lambda>s1. Ok (s1, marks[unat (ie (input s1)) := False]))
      else if c = LEFT_ARROW \<or> c = RIGHT_ARROW then bindr (arrow_key_console_handler c s) (\<lambda>s1. Ok (s1, marks))
      else if ie (input s) - ir (input s) < of_nat INPUT_BUF then
        let c = (if c = 13 then 10 else c) in
        if arrow s = 0 then
          (if \<not> mark_ok (uint (ie (input s))) then Undef ''___inputs_idx''
           else bindr (append_key c s) (\<lambda>s1. Ok (s1, marks[unat (ie (input s)) := True])))
        else bindr (input_in_mid c s) (\<lambda>s1. bindr (marks_after c s1 marks) (\<lambda>m. Ok (s1, m)))
      else Ok (s, marks))"

fun ctrl_s_loop :: "(int \<Rightarrow> int \<Rightarrow> int) \<Rightarrow> int list \<Rightarrow> console \<Rightarrow> bool list \<Rightarrow> (console \<times> bool list \<times> int list) res" where
  "ctrl_s_loop fl [] s marks = Block"
| "ctrl_s_loop fl (c # keys) s marks =
     (if c = Ctl 70 then Ok (s, marks, keys)
      else if c \<le> 0 \<or> c = UP_ARROW \<or> c = DOWN_ARROW \<or> c = Ctl 83 then ctrl_s_loop fl keys s marks
      else bindr (ctrl_s_key c s marks) (\<lambda>(s1, m1).
           bindr (replace_expression fl s1) (\<lambda>s2. ctrl_s_loop fl keys s2 m1)))"

text \<open>The marked characters of the copy are inserted again.\<close>

fun insert_marked :: "(byte \<times> bool) list \<Rightarrow> int \<Rightarrow> console \<Rightarrow> console res" where
  "insert_marked [] i s = Ok s"
| "insert_marked ((c, m) # cs) i s =
     (if m then bindr (update_buffer (sint c) i s) (insert_marked cs (i + 1)) else insert_marked cs i s)"

definition handle_ctrl_s :: "(int \<Rightarrow> int \<Rightarrow> int) \<Rightarrow> int list \<Rightarrow> console \<Rightarrow> (console \<times> int list) res" where
  "handle_ctrl_s fl keys s =
     bindr (ctrl_s_loop fl keys s (replicate INPUT_BUF False)) (\<lambda>(s1, marks, rest).
       let current_e = ie (input s1) in
       bindr (insert_marked (zip (ibuf (input s1)) marks) (sint (current_e + word_of_int (arrow s1))) s1) (\<lambda>s2.
       bindr (clear_cmd (sint current_e) s2) (\<lambda>s3.
       bindr (write_from_buffer s3) (\<lambda>s4. Ok (s4, rest)))))"

definition default_key :: "int \<Rightarrow> console \<Rightarrow> console res" where
  "default_key c s =
     (if c \<noteq> 0 \<and> ie (input s) - ir (input s) < of_nat INPUT_BUF then
        let c = (if c = 13 then 10 else c);
            s1 = (if c = 10 then s\<lparr>arrow := 0\<rparr> else s)
        in bindr (if arrow s1 = 0 then append_key c s1 else input_in_mid c s1) (\<lambda>s2.
             if c = 10 \<or> c = Ctl 68 \<or> ie (input s2) = ir (input s2) + of_nat INPUT_BUF
             then handle_custom_commands (s2\<lparr>input := (input s2)\<lparr>iw := ie (input s2)\<rparr>\<rparr>)
             else Ok s2)
      else Ok s)"

definition console_key :: "(int \<Rightarrow> int \<Rightarrow> int) \<Rightarrow> int \<Rightarrow> int list \<Rightarrow> console \<Rightarrow> (console \<times> int list) res" where
  "console_key fl c keys s =
     (if c = Ctl 80 then Ok (s, keys)
      else if c = Ctl 85 then bindr (kill_line (Suc (unat (ie (input s) - iw (input s)))) s) (\<lambda>s1. Ok (s1, keys))
      else if c = Ctl 72 \<or> c = 127 then
        (if ie (input s) \<noteq> iw (input s)
         then bindr (if arrow s = 0 then erase_last s else input_in_mid BACKSPACE s) (\<lambda>s1. Ok (s1, keys))
         else Ok (s, keys))
      else if c = LEFT_ARROW \<or> c = RIGHT_ARROW \<or> c = UP_ARROW \<or> c = DOWN_ARROW
        then bindr (arrow_key_console_handler c s) (\<lambda>s1. Ok (s1, keys))
      else if c = Ctl 83 then
        bindr (handle_ctrl_s fl keys s) (\<lambda>(s1, rest). Ok (update_cursor (get_cursor_pos s1 + arrow s1) 0 s1, rest))
      else bindr (default_key c s) (\<lambda>s1. Ok (s1, keys)))"

text \<open>The loop of \<^verbatim>\<open>consoleintr\<close>: the first argument bounds the rounds, each of which takes a key. The listing of processes for control-P is left out.\<close>

fun consoleintr_loop :: "nat \<Rightarrow> (int \<Rightarrow> int \<Rightarrow> int) \<Rightarrow> int list \<Rightarrow> console \<Rightarrow> console res" where
  "consoleintr_loop 0 fl keys s = Ok s"
| "consoleintr_loop (Suc n) fl [] s = Ok s"
| "consoleintr_loop (Suc n) fl (c # keys) s =
     (if c < 0 then Ok s
      else bindr (console_key fl c keys s) (\<lambda>(s1, rest).
           bindr (replace_expression fl s1) (consoleintr_loop n fl rest)))"

definition consoleintr :: "(int \<Rightarrow> int \<Rightarrow> int) \<Rightarrow> int list \<Rightarrow> console \<Rightarrow> console res" where
  "consoleintr fl keys s = consoleintr_loop (length keys) fl keys s"

section \<open>Reading and writing\<close>

text \<open>\<open>consoleread\<close> gives the bytes read, or \<open>None\<close> for a killed reader; with nothing to read it sleeps.\<close>

fun consoleread_loop :: "bool \<Rightarrow> nat \<Rightarrow> byte list \<Rightarrow> console \<Rightarrow> (byte list option \<times> console) res" where
  "consoleread_loop killed 0 got s = Ok (Some got, s)"
| "consoleread_loop killed (Suc n) got s =
     (let i = input s in
      if ir i = iw i then (if killed then Ok (None, s) else Block)
      else let c = ibuf i ! (unat (ir i) mod INPUT_BUF); s1 = s\<lparr>input := i\<lparr>ir := ir i + 1\<rparr>\<rparr> in
           if sint c = Ctl 68 then Ok (Some got, if got \<noteq> [] then s else s1)
           else if c = 10 then
             (let k = hist_ix0 (last_history s1) in
              if 0 \<le> k \<and> k < N_HISTORY then
                Ok (Some (got @ [c]), s1\<lparr>history := (history s1)[nat k := input s1], last_history := last_history s1 + 1,
                     current_history := last_history s1 + 1, input := new_input\<rparr>)
              else Undef ''_history'')
           else consoleread_loop killed n (got @ [c]) s1)"

definition consoleread :: "bool \<Rightarrow> int \<Rightarrow> console \<Rightarrow> (byte list option \<times> console) res" where
  "consoleread killed n s = consoleread_loop killed (nat n) [] s"

definition consolewrite :: "byte list \<Rightarrow> console \<Rightarrow> (nat \<times> console) res" where
  "consolewrite buf s = bindr (putall (map uint buf) s) (\<lambda>s1. Ok (length buf, s1))"

end
