(* ===== verification/Console_Edit.thy ===== *)
theory Console_Edit
  imports Console
begin

text \<open>
  The editor of the console line refines an editor on a zipper, the text before and after the cursor: the buffer, the screen and the
  cursor follow it key by key, and the line is what a reader gets.
\<close>

section \<open>Printing without scrolling\<close>

definition cell :: "byte \<Rightarrow> ushort" where
  "cell b = ucast b OR 0x0700"

definition moved :: "console \<Rightarrow> console \<Rightarrow> int \<Rightarrow> (int \<Rightarrow> ushort) \<Rightarrow> bool" where
  "moved s t p m \<longleftrightarrow> (\<exists>x. t = s\<lparr>serial := x, cursor := p, crt := m\<rparr>)"

lemma moved_refl: "moved s s (cursor s) (crt s)"
  unfolding moved_def by (intro exI [of _ "serial s"]) simp

lemma moved_trans: "moved s t p m \<Longrightarrow> moved t u p' m' \<Longrightarrow> moved s u p' m'"
  by (auto simp: moved_def)

lemma moved_simps:
  assumes "moved s t p m"
  shows "cursor t = p" "crt t = m" "input t = input s" "history t = history s" "current_history t = current_history s"
    "last_history t = last_history s" "arrow t = arrow s" "panicked t = panicked s"
  using assms by (auto simp: moved_def)

lemma consputc_char:
  assumes "\<not> panicked s" and "0 \<le> cursor s" and "cursor s + 1 < 1920" and "c \<noteq> 10" and "c \<noteq> BACKSPACE"
  shows "\<exists>t. consputc c s = Ok t \<and> moved s t (cursor s + 1) ((crt s)(cursor s := word_of_int (c mod 256) OR 0x0700, cursor s + 1 := cell 32))"
proof -
  have "(cursor s + 1) div 80 < 24" using assms by (simp add: div_less_iff_less_mult)
  then show ?thesis using assms
    by (auto simp: consputc_def cgaputc_def cga_write_def Let_def get_cursor_pos_def update_cursor_def moved_def cell_def)
qed

lemma consputc_backspace:
  assumes "\<not> panicked s" and "0 < cursor s" and "cursor s < 1920"
  shows "\<exists>t. consputc BACKSPACE s = Ok t \<and> moved s t (cursor s - 1) ((crt s)(cursor s - 1 := cell 32))"
proof -
  have "(cursor s - 1) div 80 < 24" using assms by (simp add: div_less_iff_less_mult)
  then show ?thesis using assms
    by (auto simp: consputc_def cgaputc_def cga_write_def Let_def get_cursor_pos_def update_cursor_def moved_def cell_def BACKSPACE_def)
qed

lemma putall_chars:
  assumes "\<not> panicked s" and "0 \<le> cursor s" and "cursor s + int (length cs) < 1920" and "\<forall>c \<in> set cs. c \<noteq> 10 \<and> c \<noteq> BACKSPACE"
  shows "\<exists>t m. putall cs s = Ok t \<and> moved s t (cursor s + int (length cs)) m
    \<and> (\<forall>i < length cs. m (cursor s + int i) = word_of_int (cs ! i mod 256) OR 0x0700) \<and> (\<forall>q < cursor s. m q = crt s q)"
  using assms
proof (induction cs arbitrary: s)
  case Nil
  then show ?case using moved_refl [of s] by (intro exI [of _ s] exI [of _ "crt s"]) simp
next
  case (Cons c cs)
  from consputc_char [of s c] Cons.prems obtain t where
    t: "consputc c s = Ok t" "moved s t (cursor s + 1) ((crt s)(cursor s := word_of_int (c mod 256) OR 0x0700, cursor s + 1 := cell 32))" by auto
  note ts = moved_simps [OF t(2)]
  from Cons.IH [of t] Cons.prems ts obtain u m where
    u: "putall cs t = Ok u" "moved t u (cursor s + 1 + int (length cs)) m"
      "\<forall>i < length cs. m (cursor s + 1 + int i) = word_of_int (cs ! i mod 256) OR 0x0700" "\<forall>q < cursor s + 1. m q = crt t q" by auto
  have "m (cursor s + int i) = word_of_int ((c # cs) ! i mod 256) OR 0x0700" if "i < length (c # cs)" for i
    using that u(3,4) ts(2) by (cases i) (auto simp: algebra_simps)
  moreover have "m q = crt s q" if "q < cursor s" for q using that u(4) ts(2) by simp
  ultimately show ?case using t(1) u(1) moved_trans [OF t(2) u(2)]
    by (intro exI [of _ u] exI [of _ m]) (simp add: algebra_simps)
qed

lemma putall_backspaces:
  assumes "\<not> panicked s" and "int n \<le> cursor s" and "cursor s < 1920"
  shows "\<exists>t m. putall (replicate n BACKSPACE) s = Ok t \<and> moved s t (cursor s - int n) m \<and> (\<forall>q < cursor s - int n. m q = crt s q)"
  using assms
proof (induction n arbitrary: s)
  case 0
  then show ?case using moved_refl [of s] by (intro exI [of _ s] exI [of _ "crt s"]) simp
next
  case (Suc n)
  from consputc_backspace [of s] Suc.prems obtain t where
    t: "consputc BACKSPACE s = Ok t" "moved s t (cursor s - 1) ((crt s)(cursor s - 1 := cell 32))" by auto
  note ts = moved_simps [OF t(2)]
  from Suc.IH [of t] Suc.prems ts obtain u m where
    u: "putall (replicate n BACKSPACE) t = Ok u" "moved t u (cursor s - 1 - int n) m" "\<forall>q < cursor s - 1 - int n. m q = crt t q" by auto
  have "\<forall>q < cursor s - int (Suc n). m q = crt s q" using u(3) ts(2) by simp
  then show ?case using t(1) u(1) moved_trans [OF t(2) u(2)]
    by (intro exI [of _ u] exI [of _ m]) (simp add: algebra_simps)
qed

section \<open>Shifting\<close>

lemma shift_right_length [simp]: "length (shift_right n i b) = length b"
  by (induction n i b rule: shift_right.induct) simp_all

lemma shift_left_length [simp]: "length (shift_left n i b) = length b"
  by (induction n i b rule: shift_left.induct) simp_all

lemma shift_right_nth:
  "length b = INPUT_BUF \<Longrightarrow> k + n < INPUT_BUF \<Longrightarrow> j < INPUT_BUF \<Longrightarrow>
   shift_right n (k + n) b ! j = (if k < j \<and> j \<le> k + n then b ! (j - 1) else b ! j)"
proof (induction n arbitrary: b)
  case (Suc n)
  then have "shift_right (Suc n) (k + Suc n) b ! j = shift_right n (k + n) (b[k + Suc n := b ! (k + n)]) ! j" by simp
  also have "\<dots> = (if k < j \<and> j \<le> k + Suc n then b ! (j - 1) else b ! j)"
    using Suc.IH [of "b[k + Suc n := b ! (k + n)]"] Suc.prems by (auto simp: nth_list_update)
  finally show ?case .
qed auto

lemma shift_left_nth:
  "length b = INPUT_BUF \<Longrightarrow> k + n < INPUT_BUF \<Longrightarrow> j < INPUT_BUF \<Longrightarrow>
   shift_left n k b ! j = (if k \<le> j \<and> j < k + n then b ! (j + 1) else b ! j)"
proof (induction n arbitrary: k b)
  case (Suc n)
  then have "shift_left (Suc n) k b ! j = shift_left n (k + 1) (b[k := b ! (k + 1)]) ! j" by simp
  also have "\<dots> = (if k \<le> j \<and> j < k + Suc n then b ! (j + 1) else b ! j)"
    using Suc.IH [of "b[k := b ! (k + 1)]" "k + 1"] Suc.prems by (auto simp: nth_list_update)
  finally show ?case .
qed auto

declare shift_right.simps [simp del] shift_left.simps [simp del]

text \<open>The buffer with a text and zeroes after it.\<close>

definition padded :: "byte list \<Rightarrow> byte list" where
  "padded t = t @ replicate (INPUT_BUF - length t) 0"

lemma padded_length: "length t \<le> INPUT_BUF \<Longrightarrow> length (padded t) = INPUT_BUF"
  by (simp add: padded_def)

lemma padded_nth: "j < INPUT_BUF \<Longrightarrow> padded t ! j = (if j < length t then t ! j else 0)"
  by (simp add: padded_def nth_append)

lemma padded_snoc: "length t < INPUT_BUF \<Longrightarrow> (padded t)[length t := c] = padded (t @ [c])"
  by (rule nth_equalityI) (auto simp: padded_length padded_nth nth_list_update nth_append)

lemma padded_butlast: "t \<noteq> [] \<Longrightarrow> length t \<le> INPUT_BUF \<Longrightarrow> (padded t)[length t - 1 := 0] = padded (butlast t)"
  by (rule nth_equalityI) (auto simp: padded_length padded_nth nth_list_update nth_butlast)

lemma padded_insert:
  assumes "length (a @ z) < INPUT_BUF"
  shows "(shift_right (length z) (length (a @ z)) (padded (a @ z)))[length a := c] = padded (a @ c # z)"
proof (rule nth_equalityI)
  fix j
  assume "j < length ((shift_right (length z) (length (a @ z)) (padded (a @ z)))[length a := c])"
  then have j: "j < INPUT_BUF" using assms by (simp add: padded_length)
  show "(shift_right (length z) (length (a @ z)) (padded (a @ z)))[length a := c] ! j = padded (a @ c # z) ! j"
    using shift_right_nth [of "padded (a @ z)" "length a" "length z" j] assms j
    by (auto simp: padded_length padded_nth nth_list_update nth_append nth_Cons')
qed (use assms in \<open>simp add: padded_length\<close>)

lemma padded_delete:
  assumes "length (a @ x # z) < INPUT_BUF"
  shows "shift_left (length (a @ x # z) - length a) (length a) (padded (a @ x # z)) = padded (a @ z)"
proof (rule nth_equalityI)
  fix j
  assume "j < length (shift_left (length (a @ x # z) - length a) (length a) (padded (a @ x # z)))"
  then have j: "j < INPUT_BUF" using assms by (simp add: padded_length)
  show "shift_left (length (a @ x # z) - length a) (length a) (padded (a @ x # z)) ! j = padded (a @ z) ! j"
    using shift_left_nth [of "padded (a @ x # z)" "length a" "length (a @ x # z) - length a" j] assms j
    by (auto simp: padded_length padded_nth nth_append nth_Cons')
qed (use assms in \<open>simp add: padded_length\<close>)

section \<open>Numbers\<close>

text \<open>The characters the theorems speak about: printable, and not the question mark that ends an expression.\<close>

definition plain :: "byte \<Rightarrow> bool" where
  "plain c \<longleftrightarrow> 32 \<le> uint c \<and> uint c \<le> 126 \<and> uint c \<noteq> 63"

lemma plain_sint: "plain c \<Longrightarrow> sint c = uint c"
  by (simp add: plain_def sint_uint signed_take_bit_int_eq_self)

lemma plain_neq: "plain c \<Longrightarrow> c \<noteq> 10 \<and> c \<noteq> 0 \<and> c \<noteq> 63"
  by (auto simp: plain_def)

lemma sint_small: "- (2 ^ 31) \<le> x \<Longrightarrow> x < 2 ^ 31 \<Longrightarrow> sint (word_of_int x :: uint) = x"
  by (simp add: sint_sbintrunc' signed_take_bit_int_eq_self)

lemma unat_small: "n < 2 ^ 32 \<Longrightarrow> unat (of_nat n :: uint) = n"
  by (simp add: unat_of_nat take_bit_nat_eq_self)

lemma cell_sint: "word_of_int (sint c mod 256) OR 0x0700 = cell c"
proof -
  have "uint c = take_bit 8 (sint c)" using uint_sint [of c] by simp
  then have "sint c mod 256 = uint c" by (simp add: take_bit_eq_mod)
  then show ?thesis by (simp add: cell_def)
qed

lemma takeWhile_padded:
  assumes "\<forall>c \<in> set t. plain c"
  shows "takeWhile (\<lambda>c. c \<noteq> 10 \<and> c \<noteq> 0) (padded t) = t"
proof -
  have "takeWhile (\<lambda>c. c \<noteq> 10 \<and> c \<noteq> 0) (padded t) = t @ takeWhile (\<lambda>c. c \<noteq> 10 \<and> c \<noteq> 0) (replicate (INPUT_BUF - length t) 0)"
    unfolding padded_def using assms by (intro takeWhile_append2) (auto dest: plain_neq)
  then show ?thesis by simp
qed

section \<open>Redrawing the line\<close>

lemma write_line:
  assumes "\<not> panicked s" and "0 \<le> cursor s" and "cursor s + int (length t) < 1920" and "ibuf (input s) = padded t" and "\<forall>c \<in> set t. plain c"
  shows "\<exists>u m. write_from_buffer s = Ok (u\<lparr>input := (input s)\<lparr>iw := 0, ir := 0\<rparr>\<rparr>) \<and> moved s u (cursor s + int (length t)) m
    \<and> (\<forall>i < length t. m (cursor s + int i) = cell (t ! i)) \<and> (\<forall>q < cursor s. m q = crt s q)"
proof -
  have n: "sint c \<noteq> 10 \<and> sint c \<noteq> BACKSPACE" if "c \<in> set t" for c
    using assms(5) that by (auto simp: plain_sint BACKSPACE_def) (auto simp: plain_def)
  obtain u m where u: "putall (map sint t) s = Ok u" "moved s u (cursor s + int (length t)) m"
    "\<forall>i < length t. m (cursor s + int i) = word_of_int (map sint t ! i mod 256) OR 0x0700" "\<forall>q < cursor s. m q = crt s q"
    using putall_chars [of s "map sint t"] assms n by auto
  have "write_from_buffer s = Ok (u\<lparr>input := (input s)\<lparr>iw := 0, ir := 0\<rparr>\<rparr>)"
    using u(1) moved_simps [OF u(2)] by (simp add: write_from_buffer_def assms(4) takeWhile_padded [OF assms(5)])
  moreover have "m (cursor s + int i) = cell (t ! i)" if "i < length t" for i using u(3) that by (simp add: cell_sint)
  ultimately show ?thesis using u by (intro exI [of _ u] exI [of _ m]) simp
qed

lemma redraw:
  assumes s: "\<not> panicked s" and pos: "cursor s - arrow s = p0 + int n" "0 \<le> p0" "p0 + 128 < 1920" and n: "n < 128"
    and buf: "ibuf (input s) = padded t" "iw (input s) = 0" and t: "length t < 128" "\<forall>c \<in> set t. plain c" and e: "word_of_int end = (of_nat n :: uint)"
  shows "\<exists>u m. bindr (clear_cmd end s) write_from_buffer = Ok (u\<lparr>input := (input s)\<lparr>iw := 0, ir := 0\<rparr>\<rparr>) \<and> moved s u (p0 + int (length t)) m
    \<and> (\<forall>i < length t. m (p0 + int i) = cell (t ! i))"
proof -
  define s1 where "s1 = s\<lparr>cursor := p0 + int n\<rparr>"
  have up: "update_cursor (get_cursor_pos s - arrow s) 0 s = s1"
    using pos n by (simp add: update_cursor_def get_cursor_pos_def s1_def)
  have c: "clear_cmd end s = putall (replicate n BACKSPACE) s1"
    unfolding clear_cmd_def Let_def up using n by (simp add: e buf s1_def unat_small)
  obtain v m where v: "putall (replicate n BACKSPACE) s1 = Ok v" "moved s1 v p0 m"
    using putall_backspaces [of s1 n] s pos n by (auto simp: s1_def)
  note vs = moved_simps [OF v(2)]
  obtain u m' where u: "write_from_buffer v = Ok (u\<lparr>input := (input v)\<lparr>iw := 0, ir := 0\<rparr>\<rparr>)" "moved v u (p0 + int (length t)) m'"
    "\<forall>i < length t. m' (p0 + int i) = cell (t ! i)"
    using write_line [of v t] vs s pos t buf by (auto simp: s1_def)
  have "moved s u (p0 + int (length t)) m'" using moved_trans [OF v(2) u(2)] by (auto simp: moved_def s1_def)
  then show ?thesis using c v(1) u vs(3) by (intro exI [of _ u] exI [of _ m']) (simp add: s1_def)
qed

section \<open>The abstract editor\<close>

text \<open>The text before the cursor, in reverse, and after it.\<close>

type_synonym zipper = "byte list \<times> byte list"

definition zip_text :: "zipper \<Rightarrow> byte list" where
  "zip_text z = rev (fst z) @ snd z"

definition edit :: "int \<Rightarrow> zipper \<Rightarrow> zipper" where
  "edit k z = (case z of (l, r) \<Rightarrow>
     if k = LEFT_ARROW then (case l of [] \<Rightarrow> (l, r) | x # l' \<Rightarrow> (l', x # r))
     else if k = RIGHT_ARROW then (case r of [] \<Rightarrow> (l, r) | x # r' \<Rightarrow> (x # l, r'))
     else if k = 8 \<or> k = 127 then (tl l, r)
     else (word_of_int k # l, r))"

definition key_ok :: "int \<Rightarrow> bool" where
  "key_ok k \<longleftrightarrow> k = LEFT_ARROW \<or> k = RIGHT_ARROW \<or> k = 8 \<or> k = 127 \<or> 32 \<le> k \<and> k \<le> 126 \<and> k \<noteq> 63"

text \<open>The console shows the zipper on a line that starts at \<open>p0\<close>, far enough from the bottom of the screen.\<close>

definition rep :: "int \<Rightarrow> zipper \<Rightarrow> console \<Rightarrow> bool" where
  "rep p0 z s \<longleftrightarrow> (let t = zip_text z in
     \<not> panicked s \<and> 0 \<le> p0 \<and> p0 + 128 < 1920 \<and> length t < 128 \<and> (\<forall>c \<in> set t. plain c)
     \<and> input s = \<lparr>ibuf = padded t, ir = 0, iw = 0, ie = of_nat (length t)\<rparr>
     \<and> arrow s = - int (length (snd z)) \<and> cursor s = p0 + int (length (fst z))
     \<and> (\<forall>i < length t. crt s (p0 + int i) = cell (t ! i)))"

lemma edit_length: "length (zip_text (edit k z)) \<le> length (zip_text z) + 1"
  by (cases z) (auto simp: edit_def zip_text_def split: list.splits)

lemma find_none:
  "0 \<in> set cs \<Longrightarrow> 63 \<notin> set (takeWhile (\<lambda>c. c \<noteq> 0) cs) \<Longrightarrow> fst q \<noteq> 5 \<Longrightarrow> find_loop fl b cs i q = Ok None"
proof (induction fl b cs i q rule: find_loop.induct)
  case (2 fl b c cs i q)
  have "fst (find_step c i q) \<noteq> 5" if "c \<noteq> 63" using that by (cases q) (simp add: find_step_def)
  then show ?case using 2 by auto
qed simp

lemma replace_none:
  assumes "ibuf (input s) = padded t" and "length t < INPUT_BUF" and "63 \<notin> set t"
  shows "replace_expression fl s = Ok s"
proof -
  have z: "0 \<in> set (padded t)" using assms(2) by (simp add: padded_def)
  have "63 \<notin> set (takeWhile (\<lambda>c. c \<noteq> 0) (padded t))"
  proof
    assume "63 \<in> set (takeWhile (\<lambda>c. c \<noteq> 0) (padded t))"
    then have "63 \<in> set (padded t)" by (rule set_takeWhileD [THEN conjunct1])
    then show False using assms(3) by (auto simp: padded_def)
  qed
  then show ?thesis using find_none [OF z, of "(0, 0, 0, 0)"] assms(1) by (simp add: replace_expression_def find_expression_def)
qed

lemma rep_replace: "rep p0 z s \<Longrightarrow> replace_expression fl s = Ok s"
  by (rule replace_none [of _ "zip_text z"]) (auto simp: rep_def Let_def INPUT_BUF_def dest: plain_neq)

section \<open>The keys\<close>

lemma ctls: "Ctl 80 = 16" "Ctl 85 = 21" "Ctl 72 = 8" "Ctl 83 = 19" "Ctl 68 = 4" "Ctl 70 = 6"
  by (simp_all add: Ctl_def)

lemmas key_defs = LEFT_ARROW_def RIGHT_ARROW_def UP_ARROW_def DOWN_ARROW_def BACKSPACE_def BACKSPACE8_def

lemma of_nat_small_less: "a < 2 ^ 31 \<Longrightarrow> b < 2 ^ 31 \<Longrightarrow> (of_nat a :: uint) < of_nat b \<longleftrightarrow> a < b"
  by (simp add: word_less_nat_alt unat_small)

lemma of_nat_small_eq: "a < 2 ^ 31 \<Longrightarrow> b < 2 ^ 31 \<Longrightarrow> (of_nat a :: uint) = of_nat b \<longleftrightarrow> a = b"
  by (simp add: word_unat_eq_iff unat_small)

lemma neg_small_le:
  assumes "0 < a" and "a < 2 ^ 31" and "0 < b" and "b < 2 ^ 31"
  shows "(- of_nat a :: uint) \<le> - of_nat b \<longleftrightarrow> b \<le> a"
proof -
  have "unat (- of_nat k :: uint) = 2 ^ 32 - k" if "0 < k" "k < 2 ^ 31" for k
  proof -
    have "(of_nat (2 ^ 32 - k) :: uint) = of_nat (2 ^ 32) - of_nat k" using that by (intro of_nat_diff) simp
    then have "(of_nat (2 ^ 32 - k) :: uint) = - of_nat k" by simp
    then show ?thesis using unat_small [of "2 ^ 32 - k"] that by simp
  qed
  then show ?thesis using assms by (auto simp: word_le_nat_alt)
qed

lemma left_key:
  assumes "rep p0 (l, r) s"
  shows "\<exists>t. arrow_key_console_handler LEFT_ARROW s = Ok t \<and> rep p0 (edit LEFT_ARROW (l, r)) t"
proof -
  have n: "length l + length r < 128" using assms by (simp add: rep_def zip_text_def Let_def)
  have w: "word_of_int (- arrow s) < ie (input s) \<longleftrightarrow> l \<noteq> []"
    using assms n of_nat_small_less [of "length r" "length l + length r"] by (simp add: rep_def zip_text_def Let_def)
  show ?thesis
  proof (cases l)
    case Nil
    then show ?thesis using w assms by (simp add: arrow_key_console_handler_def edit_def)
  next
    case (Cons x l')
    let ?t = "update_cursor (get_cursor_pos s - 1) 0 (s\<lparr>arrow := arrow s - 1\<rparr>)"
    have "arrow_key_console_handler LEFT_ARROW s = Ok ?t" using w Cons by (simp add: arrow_key_console_handler_def Let_def)
    moreover have "rep p0 (l', x # r) ?t"
      using assms Cons by (simp add: rep_def zip_text_def Let_def update_cursor_def get_cursor_pos_def)
    ultimately show ?thesis using Cons by (simp add: edit_def)
  qed
qed

lemma right_key:
  assumes "rep p0 (l, r) s"
  shows "\<exists>t. arrow_key_console_handler RIGHT_ARROW s = Ok t \<and> rep p0 (edit RIGHT_ARROW (l, r)) t"
proof (cases r)
  case Nil
  then show ?thesis using assms by (simp add: arrow_key_console_handler_def edit_def rep_def Let_def key_defs)
next
  case (Cons x r')
  let ?t = "update_cursor (get_cursor_pos s + 1) 0 (s\<lparr>arrow := arrow s + 1\<rparr>)"
  have "arrow_key_console_handler RIGHT_ARROW s = Ok ?t" using assms Cons by (simp add: arrow_key_console_handler_def rep_def Let_def key_defs)
  moreover have "rep p0 (x # l, r') ?t"
    using assms Cons by (simp add: rep_def zip_text_def Let_def update_cursor_def get_cursor_pos_def)
  ultimately show ?thesis using Cons by (simp add: edit_def key_defs)
qed

lemma cell_int: "word_of_int (k mod 256) OR 0x0700 = cell (word_of_int k)"
proof -
  have "uint (word_of_int k :: byte) = k mod 256" by (simp add: uint_word_of_int)
  then show ?thesis by (simp add: cell_def ucast_eq)
qed

lemma plain_word: "32 \<le> k \<Longrightarrow> k \<le> 126 \<Longrightarrow> k \<noteq> 63 \<Longrightarrow> plain (word_of_int k)"
  by (simp add: plain_def uint_word_of_int)

lemma append_char:
  assumes "rep p0 (l, []) s" and "Suc (length l) < 128" and k: "32 \<le> k" "k \<le> 126" "k \<noteq> 63"
  shows "\<exists>t. append_key k s = Ok t \<and> rep p0 (word_of_int k # l, []) t"
proof -
  let ?n = "length l" and ?c = "word_of_int k :: byte"
  have s: "\<not> panicked s" "input s = \<lparr>ibuf = padded (rev l), ir = 0, iw = 0, ie = of_nat ?n\<rparr>" "cursor s = p0 + int ?n" "0 \<le> p0" "p0 + 128 < 1920"
    "arrow s = 0" "\<forall>c \<in> set l. plain c" "\<forall>i < ?n. crt s (p0 + int i) = cell (rev l ! i)"
    using assms(1) by (simp_all add: rep_def zip_text_def Let_def)
  have u: "unat (of_nat ?n :: uint) mod 128 = ?n" using assms(2) unat_small [of ?n] by simp
  have b: "(padded (rev l))[?n := ?c] = padded (rev l @ [?c])" using padded_snoc [of "rev l" ?c] assms(2) by (simp add: INPUT_BUF_def)
  define s1 where "s1 = s\<lparr>input := \<lparr>ibuf = padded (rev l @ [?c]), ir = 0, iw = 0, ie = of_nat ?n + 1\<rparr>\<rparr>"
  have a: "append_key k s = consputc k s1" using assms(2) s(2) b by (simp add: append_key_def Let_def u set_buf_def s1_def INPUT_BUF_def)
  obtain t where t: "consputc k s1 = Ok t" "moved s1 t (p0 + int ?n + 1) ((crt s)(p0 + int ?n := word_of_int (k mod 256) OR 0x0700, p0 + int ?n + 1 := cell 32))"
    using consputc_char [of s1 k] s assms k by (auto simp: s1_def BACKSPACE_def)
  note ts = moved_simps [OF t(2)]
  have "crt t (p0 + int i) = cell ((rev l @ [?c]) ! i)" if "i < Suc ?n" for i
    using that s(8) by (cases "i = ?n") (simp_all add: ts(2) cell_int nth_append)
  then have "rep p0 (?c # l, []) t"
    using s ts assms(2) plain_word [OF k] by (simp add: rep_def zip_text_def Let_def s1_def add.commute)
  then show ?thesis using a t(1) by simp
qed

lemma default_char:
  assumes "rep p0 (l, r) s" and "Suc (length l + length r) < 128" and k: "32 \<le> k" "k \<le> 126" "k \<noteq> 63"
    and "\<exists>t. (if r = [] then append_key k s else input_in_mid k s) = Ok t \<and> rep p0 (word_of_int k # l, r) t"
  shows "\<exists>t. default_key k s = Ok t \<and> rep p0 (word_of_int k # l, r) t"
proof -
  let ?n = "length l + length r"
  have s: "input s = \<lparr>ibuf = padded (zip_text (l, r)), ir = 0, iw = 0, ie = of_nat ?n\<rparr>" "arrow s = - int (length r)"
    using assms(1) by (simp_all add: rep_def zip_text_def Let_def)
  obtain t where t: "(if r = [] then append_key k s else input_in_mid k s) = Ok t" "rep p0 (word_of_int k # l, r) t" using assms(6) by blast
  have f: "ie (input s) - ir (input s) < of_nat INPUT_BUF" using s assms(2) of_nat_small_less [of ?n 128] by (simp add: INPUT_BUF_def)
  have "ie (input t) = of_nat (Suc ?n)" "ir (input t) = 0" using t(2) by (simp_all add: rep_def zip_text_def Let_def)
  moreover have "(of_nat (Suc ?n) :: uint) \<noteq> of_nat 128" using assms(2) of_nat_small_eq [of "Suc ?n" 128] by simp
  ultimately have g: "ie (input t) \<noteq> ir (input t) + of_nat INPUT_BUF" by (simp add: INPUT_BUF_def)
  have "default_key k s = Ok t"
    using k f g t(1) s(2) by (cases "r = []") (simp_all add: default_key_def Let_def ctls)
  then show ?thesis using t(2) by simp
qed

text \<open>Redrawing after a change of the text in the middle puts the cursor back to its place.\<close>

lemma rep_redrawn:
  assumes s1: "\<not> panicked s1" "arrow s1 = - int (length r)" "cursor s1 = p0 + int n - int (length r)" "0 \<le> p0" "p0 + 128 < 1920"
    and i: "input s1 = \<lparr>ibuf = padded (rev l @ r), ir = 0, iw = 0, ie = of_nat (length l + length r)\<rparr>"
    and t: "length l + length r < 128" "\<forall>c \<in> set l \<union> set r. plain c" and n: "n < 128" "word_of_int end = (of_nat n :: uint)"
    and p: "pos = p0 + int (length l)"
  shows "\<exists>t. bindr (clear_cmd end s1) (\<lambda>s2. bindr (write_from_buffer s2) (\<lambda>s3. Ok (update_cursor pos 0 s3))) = Ok t \<and> rep p0 (l, r) t"
proof -
  obtain u m where u: "bindr (clear_cmd end s1) write_from_buffer = Ok (u\<lparr>input := (input s1)\<lparr>iw := 0, ir := 0\<rparr>\<rparr>)"
    "moved s1 u (p0 + int (length (rev l @ r))) m" "\<forall>i < length (rev l @ r). m (p0 + int i) = cell ((rev l @ r) ! i)"
    using redraw [of s1 p0 n "rev l @ r" "end"] s1 i t n by (auto simp: Un_iff)
  note us = moved_simps [OF u(2)]
  let ?u = "update_cursor pos 0 (u\<lparr>input := (input s1)\<lparr>iw := 0, ir := 0\<rparr>\<rparr>)"
  have "bindr (clear_cmd end s1) (\<lambda>s2. bindr (write_from_buffer s2) (\<lambda>s3. Ok (update_cursor pos 0 s3))) = Ok ?u"
    using u(1) bindr_assoc [of "clear_cmd end s1" write_from_buffer "\<lambda>s3. Ok (update_cursor pos 0 s3)"] by simp
  moreover have "rep p0 (l, r) ?u"
    using us u(3) s1 i t p by (simp add: rep_def zip_text_def Let_def update_cursor_def)
  ultimately show ?thesis by blast
qed

lemma mid_char:
  assumes "rep p0 (l, r) s" and "Suc (length l + length r) < 128" and "r \<noteq> []" and k: "32 \<le> k" "k \<le> 126" "k \<noteq> 63"
  shows "\<exists>t. input_in_mid k s = Ok t \<and> rep p0 (word_of_int k # l, r) t"
proof -
  let ?n = "length l + length r" and ?c = "word_of_int k :: byte"
  have s: "\<not> panicked s" "input s = \<lparr>ibuf = padded (rev l @ r), ir = 0, iw = 0, ie = of_nat ?n\<rparr>" "cursor s = p0 + int (length l)" "0 \<le> p0" "p0 + 128 < 1920"
    "arrow s = - int (length r)" "\<forall>c \<in> set l \<union> set r. plain c"
    using assms(1) by (auto simp: rep_def zip_text_def Let_def)
  have "(of_nat ?n + word_of_int (- int (length r)) :: uint) = word_of_int (int (length l))" by simp
  then have ci: "sint (ie (input s) + word_of_int (arrow s)) = int (length l)"
    using s(2,6) sint_small [of "int (length l)"] assms(2) by simp
  have se: "sint (of_nat (length l) + of_nat (length r) :: uint) = int (length l) + int (length r)" using sint_small [of "int ?n"] assms(2) by simp
  define s1 where "s1 = s\<lparr>input := \<lparr>ibuf = padded (rev (?c # l) @ r), ir = 0, iw = 0, ie = of_nat ?n + 1\<rparr>\<rparr>"
  have b: "(shift_right (length r) (length (rev l @ r)) (padded (rev l @ r)))[length l := ?c] = padded (rev l @ ?c # r)"
    using padded_insert [of "rev l" r ?c] assms(2) by (simp add: INPUT_BUF_def)
  have "nat (int ?n) = length (rev l @ r)" "nat (int ?n - int (length l)) = length r" by simp_all
  then have up: "update_buffer k (int (length l)) s = Ok s1"
    using k assms(2) s(2) b by (simp add: update_buffer_def key_defs shift_buf_def se Let_def set_buf_def INPUT_BUF_def s1_def)
  have e: "word_of_int (sint (ie (input s1) - 1)) = (of_nat ?n :: uint)" by (simp add: s1_def)
  have "\<exists>t. bindr (clear_cmd (sint (ie (input s1) - 1)) s1) (\<lambda>s2. bindr (write_from_buffer s2) (\<lambda>s3. Ok (update_cursor (cursor s + 1) 0 s3))) = Ok t \<and> rep p0 (?c # l, r) t"
    by (rule rep_redrawn [where n = "?n"]) (use s assms(2) e plain_word [OF k] in \<open>auto simp: s1_def add.commute\<close>)
  then show ?thesis using k up ci by (simp add: input_in_mid_def Let_def key_defs get_cursor_pos_def)
qed

lemma mid_backspace:
  assumes "rep p0 (l, r) s" and "r \<noteq> []"
  shows "\<exists>t. input_in_mid BACKSPACE s = Ok t \<and> rep p0 (tl l, r) t"
proof -
  let ?n = "length l + length r"
  have s: "\<not> panicked s" "input s = \<lparr>ibuf = padded (rev l @ r), ir = 0, iw = 0, ie = of_nat ?n\<rparr>" "cursor s = p0 + int (length l)" "0 \<le> p0" "p0 + 128 < 1920"
    "arrow s = - int (length r)" "\<forall>c \<in> set l \<union> set r. plain c" "?n < 128"
    using assms(1) by (auto simp: rep_def zip_text_def Let_def)
  have "0 < length r" using assms(2) by simp
  then have g: "word_of_int (arrow s) \<le> - ie (input s) \<longleftrightarrow> l = []"
    using s neg_small_le [of "length r" ?n] by simp
  show ?thesis
  proof (cases l)
    case Nil
    then show ?thesis using g assms by (simp add: input_in_mid_def Let_def)
  next
    case (Cons x l')
    have "(of_nat ?n + word_of_int (- int (length r)) :: uint) = word_of_int (int (length l))" by simp
    then have ci: "sint (ie (input s) + word_of_int (arrow s)) = int (length l)"
      using s(2,6,8) sint_small [of "int (length l)"] by simp
    define s1 where "s1 = s\<lparr>input := \<lparr>ibuf = padded (rev l' @ r), ir = 0, iw = 0, ie = of_nat ?n - 1\<rparr>\<rparr>"
    have un: "unat (1 + (of_nat (length l') + of_nat (length r)) :: uint) = Suc (length l' + length r)"
      using s(8) unat_small [of "Suc (length l' + length r)"] Cons by simp
    have b: "shift_left (?n - length l') (length l') (padded (rev l @ r)) = padded (rev l' @ r)"
      using padded_delete [of "rev l'" x r] s(8) Cons by (simp add: INPUT_BUF_def)
    have up: "update_buffer BACKSPACE (int (length l)) s = Ok s1"
      using s(2) b un Cons by (simp add: update_buffer_def key_defs shift_buf_def Let_def s1_def)
    have e: "word_of_int (sint (ie (input s1) + 1)) = (of_nat ?n :: uint)" by (simp add: s1_def)
    have "\<exists>t. bindr (clear_cmd (sint (ie (input s1) + 1)) s1) (\<lambda>s2. bindr (write_from_buffer s2) (\<lambda>s3. Ok (update_cursor (cursor s - 1) 0 s3))) = Ok t \<and> rep p0 (l', r) t"
      by (rule rep_redrawn [where n = "?n"]) (use s e Cons in \<open>auto simp: s1_def\<close>)
    then show ?thesis using up ci g Cons by (simp add: input_in_mid_def Let_def key_defs get_cursor_pos_def)
  qed
qed

lemma end_backspace:
  assumes "rep p0 (l, []) s" and "l \<noteq> []"
  shows "\<exists>t. erase_last s = Ok t \<and> rep p0 (tl l, []) t"
proof -
  obtain x l' where l: "l = x # l'" using assms(2) by (cases l) auto
  let ?n = "length l'"
  have s: "\<not> panicked s" "input s = \<lparr>ibuf = padded (rev l' @ [x]), ir = 0, iw = 0, ie = of_nat (Suc ?n)\<rparr>" "cursor s = p0 + int (Suc ?n)" "0 \<le> p0" "p0 + 128 < 1920"
    "arrow s = 0" "\<forall>c \<in> set l'. plain c" "Suc ?n < 128" "\<forall>i < Suc ?n. crt s (p0 + int i) = cell ((rev l' @ [x]) ! i)"
    using assms(1) l by (auto simp: rep_def zip_text_def Let_def)
  have "unat (of_nat ?n :: uint) = ?n" using s(8) by (intro unat_small) simp
  then have u: "uint (of_nat ?n :: uint) = int ?n" unfolding uint_nat by (rule arg_cong)
  have b: "(padded (rev l' @ [x]))[?n := 0] = padded (rev l')" using padded_butlast [of "rev l' @ [x]"] s(8) by (simp add: INPUT_BUF_def)
  define s1 where "s1 = s\<lparr>input := \<lparr>ibuf = padded (rev l'), ir = 0, iw = 0, ie = of_nat ?n\<rparr>\<rparr>"
  have a: "erase_last s = consputc BACKSPACE s1" using s(2,8) b u by (simp add: erase_last_def Let_def set_buf_def s1_def INPUT_BUF_def)
  obtain t where t: "consputc BACKSPACE s1 = Ok t" "moved s1 t (p0 + int ?n) ((crt s)(p0 + int ?n := cell 32))"
    using consputc_backspace [of s1] s by (auto simp: s1_def)
  note ts = moved_simps [OF t(2)]
  have "crt t (p0 + int i) = cell (rev l' ! i)" if "i < ?n" for i
    using that s(9) by (simp add: ts(2) nth_append)
  then have "rep p0 (l', []) t" using s ts by (simp add: rep_def zip_text_def Let_def s1_def)
  then show ?thesis using a t(1) l by simp
qed

section \<open>The refinement\<close>

lemma key_step:
  assumes "rep p0 z s" and "key_ok k" and "length (zip_text z) + 1 < 128"
  shows "\<exists>t. console_key fl k keys s = Ok (t, keys) \<and> rep p0 (edit k z) t"
proof -
  obtain l r where z: "z = (l, r)" by (cases z)
  have rp: "rep p0 (l, r) s" using assms(1) z by simp
  have len: "Suc (length l + length r) < 128" using assms(3) z by (simp add: zip_text_def)
  have i: "iw (input s) = 0" "ie (input s) = of_nat (length l + length r)" "arrow s = - int (length r)"
    using rp by (simp_all add: rep_def zip_text_def Let_def)
  consider "k = LEFT_ARROW" | "k = RIGHT_ARROW" | "k = 8 \<or> k = 127" | "32 \<le> k" "k \<le> 126" "k \<noteq> 63" using assms(2) by (auto simp: key_ok_def)
  then show ?thesis
  proof cases
    case 1
    then show ?thesis using left_key [OF rp] z by (auto simp: console_key_def ctls key_defs)
  next
    case 2
    then show ?thesis using right_key [OF rp] z by (auto simp: console_key_def ctls key_defs)
  next
    case 3
    have e: "edit k z = (tl l, r)" using 3 z by (auto simp: edit_def key_defs)
    have ne: "ie (input s) \<noteq> iw (input s) \<longleftrightarrow> l \<noteq> [] \<or> r \<noteq> []"
      using i len of_nat_small_eq [of "length l + length r" 0] by auto
    consider "l = []" "r = []" | "r \<noteq> []" | "l \<noteq> []" "r = []" by blast
    then show ?thesis
    proof cases
      case 1
      then show ?thesis using 3 ne rp e by (auto simp: console_key_def ctls key_defs)
    next
      case 2
      then show ?thesis using 3 ne mid_backspace [OF rp] e i(3) by (auto simp: console_key_def ctls key_defs)
    next
      case r: 3
      then have "rep p0 (l, []) s" using rp by simp
      then show ?thesis using r 3 ne end_backspace [of p0 l s] e i(3) by (auto simp: console_key_def ctls key_defs)
    qed
  next
    case 4
    have e: "edit k z = (word_of_int k # l, r)" using 4 z by (auto simp: edit_def key_defs)
    have "\<exists>t. (if r = [] then append_key k s else input_in_mid k s) = Ok t \<and> rep p0 (word_of_int k # l, r) t"
      using append_char [of p0 l s k] mid_char [OF rp len _ 4] rp len 4 by (cases "r = []") auto
    from default_char [OF rp len 4 this] show ?thesis using 4 e by (auto simp: console_key_def ctls key_defs)
  qed
qed

lemma keys_refine:
  "rep p0 z s \<Longrightarrow> \<forall>k \<in> set keys. key_ok k \<Longrightarrow> length (zip_text z) + length keys < 128 \<Longrightarrow>
   \<exists>t. consoleintr_loop (length keys + n) fl (keys @ rest) s = consoleintr_loop n fl rest t \<and> rep p0 (fold edit keys z) t"
proof (induction keys arbitrary: z s)
  case Nil
  then show ?case by auto
next
  case (Cons k keys)
  obtain t where t: "console_key fl k (keys @ rest) s = Ok (t, keys @ rest)" "rep p0 (edit k z) t"
    using key_step [of p0 z s k fl "keys @ rest"] Cons.prems by auto
  have "0 \<le> k" using Cons.prems(2) by (auto simp: key_ok_def key_defs)
  moreover have "length (zip_text (edit k z)) + length keys < 128" using edit_length [of k z] Cons.prems(3) by simp
  ultimately show ?case using Cons.IH [OF t(2)] Cons.prems(2) t rep_replace [OF t(2)] by auto
qed

text \<open>C29: The line editor of the console is an editor: for every sequence of printable characters (the question mark apart), left and right
  arrows and backspaces that fits the buffer, from a console that shows a text with the cursor in it, \<^verbatim>\<open>consoleintr\<close> returns, and the
  buffer, the indices, the text on the screen and the cursor are those of the abstract editor, which inserts, deletes and moves in the
  text before and after the cursor. The line starts at a position from which it does not reach the bottom of the screen.
\<close>

theorem line_editor_refines:
  assumes "rep p0 z s" and "\<forall>k \<in> set keys. key_ok k" and "length (zip_text z) + length keys < 128"
  shows "\<exists>t. consoleintr fl keys s = Ok t \<and> rep p0 (fold edit keys z) t"
  using keys_refine [OF assms, of 0 fl "[]"] by (auto simp: consoleintr_def)

text \<open>An empty console.\<close>

definition demo_console :: console where
  "demo_console = \<lparr>input = new_input, history = replicate 11 new_input, current_history = 0, last_history = 0, arrow = 0,
     crt = (\<lambda>_. 0x0720), cursor = 2, serial = [], panicked = False\<rparr>"

lemma demo_console_rep: "rep 2 ([], []) demo_console"
  by (simp add: rep_def zip_text_def demo_console_def new_input_def padded_def INPUT_BUF_def)

theorem line_editor_refines_witness:
  "\<exists>t. consoleintr (\<lambda>_ _. 0) [97, 99, LEFT_ARROW, 98, 120, 8] demo_console = Ok t \<and> rep 2 ([98, 97], [99]) t"
proof -
  have f: "fold edit [97, 99, LEFT_ARROW, 98, 120, 8] ([], []) = ([98, 97], [99])" by (simp add: edit_def key_defs)
  show ?thesis
    using line_editor_refines [OF demo_console_rep, of "[97, 99, LEFT_ARROW, 98, 120, 8]", unfolded f] by (auto simp: key_ok_def key_defs zip_text_def)
qed

section \<open>Entering and reading a line\<close>

lemma cga_write_bounds:
  assumes "0 \<le> cursor s" and "cursor s < 1920"
  shows "0 \<le> fst (cga_write c s)" and "fst (cga_write c s) \<le> 1920"
proof -
  have "cursor s div 80 \<le> 23" using assms by simp
  then have "cursor s + (80 - cursor s mod 80) \<le> 1920" using mult_div_mod_eq [of 80 "cursor s"] by linarith
  then show "fst (cga_write c s) \<le> 1920" using assms by (auto simp: cga_write_def Let_def get_cursor_pos_def)
  have "cursor s mod 80 < 80" by simp
  then have "0 \<le> cursor s + (80 - cursor s mod 80)" using assms(1) by linarith
  then show "0 \<le> fst (cga_write c s)" using assms(1) by (auto simp: cga_write_def Let_def get_cursor_pos_def)
qed

lemma consputc_ok:
  assumes "\<not> panicked s" and "0 \<le> cursor s" and "cursor s < 1920"
  shows "\<exists>t p m. consputc c s = Ok t \<and> moved s t p m \<and> 0 \<le> p \<and> p < 1920
    \<and> serial t = serial s @ (if c = BACKSPACE then [8, 32, 8] else [c])"
proof -
  let ?s1 = "s\<lparr>serial := serial s @ (if c = BACKSPACE then [8, 32, 8] else [c])\<rparr>"
  obtain pos m where w: "cga_write c ?s1 = (pos, m)" by fastforce
  then have b: "0 \<le> pos" "pos \<le> 1920" using cga_write_bounds [of ?s1 c] assms by auto
  have e: "consputc c s = (if pos div 80 \<ge> 24 then Ok (update_cursor (pos - 80) 32 (?s1\<lparr>crt := scroll_up (pos - 80) m\<rparr>)) else Ok (update_cursor pos 32 (?s1\<lparr>crt := m\<rparr>)))"
    using assms(1) b unfolding consputc_def cgaputc_def w by simp
  show ?thesis
  proof (cases "pos div 80 \<ge> 24")
    case True
    then have pos: "pos = 1920" using b by linarith
    let ?t = "update_cursor (pos - 80) 32 (?s1\<lparr>crt := scroll_up (pos - 80) m\<rparr>)"
    have "moved s ?t 1840 (crt ?t)" unfolding moved_def by (intro exI [of _ "serial ?t"]) (simp add: update_cursor_def pos)
    moreover have "consputc c s = Ok ?t" using e True by simp
    moreover have "0 \<le> (1840 :: int)" "(1840 :: int) < 1920" "serial ?t = serial ?s1" by (simp_all add: update_cursor_def)
    ultimately show ?thesis by fastforce
  next
    case False
    let ?t = "update_cursor pos 32 (?s1\<lparr>crt := m\<rparr>)"
    have "pos < 1920" using b False by linarith
    moreover from this have "moved s ?t pos (crt ?t)" using b unfolding moved_def by (intro exI [of _ "serial ?t"]) (simp add: update_cursor_def)
    moreover have "consputc c s = Ok ?t" "serial ?t = serial ?s1" using e False by (simp_all add: update_cursor_def)
    ultimately show ?thesis using b(1) by fastforce
  qed
qed

text \<open>The line after the enter key: ready to be read.\<close>

definition entered :: "byte list \<Rightarrow> console \<Rightarrow> bool" where
  "entered t s \<longleftrightarrow> length t < 127 \<and> (\<forall>c \<in> set t. plain c)
     \<and> input s = \<lparr>ibuf = padded (t @ [10]), ir = 0, iw = of_nat (length t) + 1, ie = of_nat (length t) + 1\<rparr>"

definition istory :: "byte list" where
  "istory = [105, 115, 116, 111, 114, 121]"

lemma str_cmp_history:
  assumes "length t < 127" and "\<forall>c \<in> set t. plain c"
  shows "str_cmp_from 0 (padded (t @ [10])) (history_str @ [0]) \<longleftrightarrow> \<not> (t \<noteq> [] \<and> tl t = istory)"
proof -
  let ?b = "padded (t @ [10])"
  have b: "?b ! j = (if j < length t then t ! j else if j = length t then 10 else 0)" if "j < 128" for j
    using that by (auto simp: padded_nth INPUT_BUF_def nth_append)
  have e: "str_cmp_from 0 ?b (history_str @ [0]) \<longleftrightarrow> \<not> (?b ! 1 = 105 \<and> ?b ! 2 = 115 \<and> ?b ! 3 = 116 \<and> ?b ! 4 = 111 \<and> ?b ! 5 = 114 \<and> ?b ! 6 = 121 \<and> ?b ! 7 = 10 \<and> ?b ! 8 = 0)"
    by (simp add: history_str_def eval_nat_numeral)
  have t7: "?b ! 7 = 10 \<longleftrightarrow> length t = 7"
  proof -
    have "t ! 7 \<noteq> 10" if "7 < length t" using assms(2) that plain_neq nth_mem by blast
    then show ?thesis using b [of 7] by auto
  qed
  have l7: "t \<noteq> [] \<and> tl t = istory \<longleftrightarrow> length t = 7 \<and> t ! 1 = 105 \<and> t ! 2 = 115 \<and> t ! 3 = 116 \<and> t ! 4 = 111 \<and> t ! 5 = 114 \<and> t ! 6 = 121"
    by (auto simp: istory_def length_Suc_conv eval_nat_numeral neq_Nil_conv)
  show ?thesis unfolding e t7 l7 using b [of 1] b [of 2] b [of 3] b [of 4] b [of 5] b [of 6] b [of 8] by auto
qed

lemma enter_key:
  assumes "rep p0 z s" and "length (zip_text z) < 127"
  shows "\<exists>v. default_key 13 s = handle_custom_commands v \<and> entered (zip_text z) v \<and> \<not> panicked v \<and> 0 \<le> cursor v \<and> cursor v < 1920
    \<and> history v = history s \<and> current_history v = current_history s \<and> serial v = serial s @ [10]"
proof -
  let ?t = "zip_text z" and ?n = "length (zip_text z)"
  have s: "\<not> panicked s" "input s = \<lparr>ibuf = padded ?t, ir = 0, iw = 0, ie = of_nat ?n\<rparr>" "0 \<le> cursor s" "cursor s < 1920" "\<forall>c \<in> set ?t. plain c"
    using assms(1) by (cases z; auto simp: rep_def zip_text_def Let_def)+
  have u: "unat (of_nat ?n :: uint) mod 128 = ?n" using assms(2) unat_small [of ?n] by simp
  have b: "(padded ?t)[?n := 10] = padded (?t @ [10])" using padded_snoc [of ?t 10] assms(2) by (simp add: INPUT_BUF_def)
  define s1 where "s1 = s\<lparr>arrow := 0, input := \<lparr>ibuf = padded (?t @ [10]), ir = 0, iw = 0, ie = of_nat ?n + 1\<rparr>\<rparr>"
  have a: "append_key 10 (s\<lparr>arrow := 0\<rparr>) = consputc 10 s1" using assms(2) s(2) b by (simp add: append_key_def Let_def u set_buf_def s1_def INPUT_BUF_def)
  obtain w p m where w: "consputc 10 s1 = Ok w" "moved s1 w p m" "0 \<le> p" "p < 1920" "serial w = serial s1 @ [10]"
    using consputc_ok [of s1 10] s by (auto simp: s1_def BACKSPACE_def)
  note ws = moved_simps [OF w(2)]
  define v where "v = w\<lparr>input := (input w)\<lparr>iw := ie (input w)\<rparr>\<rparr>"
  have f: "ie (input s) - ir (input s) < of_nat INPUT_BUF" using s assms(2) of_nat_small_less [of ?n 128] by (simp add: INPUT_BUF_def)
  have "default_key 13 s = handle_custom_commands v" using f a w(1) by (simp add: default_key_def Let_def v_def)
  moreover have "entered ?t v" using ws assms(2) s(5) by (simp add: entered_def v_def s1_def)
  ultimately show ?thesis using ws w(3-5) s by (intro exI [of _ v]) (simp add: v_def s1_def)
qed

lemma entered_history:
  assumes "entered t v" and "\<not> (t \<noteq> [] \<and> tl t = istory)"
  shows "handle_custom_commands v = Ok v"
  using assms str_cmp_history [of t] by (simp add: handle_custom_commands_def buffer_with_str_cmp_def entered_def)

lemma entered_replace: "entered t v \<Longrightarrow> replace_expression fl v = Ok v"
  by (rule replace_none [of _ "t @ [10]"]) (auto simp: entered_def INPUT_BUF_def dest: plain_neq)

lemma hist_ix0_range: "0 \<le> hist_ix0 a \<and> hist_ix0 a < N_HISTORY"
proof -
  have "- 11 < a smod 11" using smod_int_range [of 11 a] by auto
  then have "0 \<le> (a smod 11 + 11) smod 11" "(a smod 11 + 11) smod 11 < 11" by (simp_all add: smod_int_alt_def [of "a smod 11 + 11"] sgn_if)
  then show ?thesis by (simp add: hist_ix0_def N_HISTORY_def)
qed

text \<open>A line at the start of the buffer is read up to its newline, and the whole buffer is emptied.\<close>

lemma read_line:
  assumes b: "take (Suc (length t)) b = t @ [10]" "length b = INPUT_BUF" "\<forall>c \<in> set t. plain c" and w: "length t < w" "w \<le> 128"
  shows "i \<le> length t \<Longrightarrow> length t < i + n \<Longrightarrow> input s = \<lparr>ibuf = b, ir = of_nat i, iw = of_nat w, ie = e\<rparr> \<Longrightarrow>
    \<exists>u. consoleread_loop False n (take i t) s = Ok (Some (t @ [10]), u) \<and> input u = new_input"
proof (induction n arbitrary: i s)
  case (Suc n)
  have lt: "length t < INPUT_BUF" using w by (simp add: INPUT_BUF_def)
  have bi: "b ! j = (t @ [10]) ! j" if "j \<le> length t" for j using b(1) that by (metis le_imp_less_Suc nth_take)
  have u: "unat (of_nat i :: uint) mod INPUT_BUF = i" using Suc.prems(1) lt unat_small [of i] by (simp add: INPUT_BUF_def)
  have ne: "(of_nat i :: uint) \<noteq> of_nat w" using of_nat_small_eq [of i w] Suc.prems(1) w by simp
  show ?case
  proof (cases "i = length t")
    case True
    then have "b ! i = 10" using bi [of i] by simp
    then show ?thesis using True Suc.prems(3) u ne hist_ix0_range by (simp add: Let_def ctls)
  next
    case False
    then have i: "i < length t" using Suc.prems(1) by simp
    then have c: "b ! i = t ! i" using bi [of i] by (simp add: nth_append)
    have p: "plain (t ! i)" using b(3) i by simp
    then have "t ! i \<noteq> 10" "sint (t ! i) \<noteq> 4" using plain_neq plain_sint [OF p] by (auto simp: plain_def)
    moreover have "take i t @ [t ! i] = take (Suc i) t" using i by (simp add: take_Suc_conv_app_nth)
    ultimately show ?thesis
      using Suc.IH [of "Suc i" "s\<lparr>input := \<lparr>ibuf = b, ir = of_nat (Suc i), iw = of_nat w, ie = e\<rparr>\<rparr>"] Suc.prems i u ne c
      by (simp add: Let_def ctls add.commute)
  qed
qed simp

lemma edit_keys_length: "length (zip_text (fold edit ks y)) \<le> length (zip_text y) + length ks"
proof (induction ks arbitrary: y)
  case (Cons k ks)
  from Cons.IH [of "edit k y"] edit_length [of k y] show ?case by simp
qed simp

lemma enter_line:
  assumes "rep p0 z s" and "length (zip_text z) < 127" and "\<not> (zip_text z \<noteq> [] \<and> tl (zip_text z) = istory)" and "k = 10 \<or> k = 13"
  shows "\<exists>v. console_key fl k keys s = Ok (v, keys) \<and> entered (zip_text z) v"
proof -
  obtain v where v: "default_key 13 s = handle_custom_commands v" "entered (zip_text z) v" using enter_key [OF assms(1,2)] by auto
  moreover have "default_key 10 s = default_key 13 s" by (simp add: default_key_def)
  ultimately show ?thesis using entered_history [OF v(2) assms(3)] assms(4) by (auto simp: console_key_def ctls key_defs)
qed

lemma entered_read:
  assumes "entered t v" and "int (length t) < n"
  shows "\<exists>u. consoleread False n v = Ok (Some (t @ [10]), u) \<and> input u = new_input"
proof -
  have "\<exists>u. consoleread_loop False (nat n) (take 0 t) v = Ok (Some (t @ [10]), u) \<and> input u = new_input"
    by (rule read_line [where b = "padded (t @ [10])" and w = "Suc (length t)" and e = "of_nat (length t) + 1"])
      (use assms in \<open>auto simp: entered_def padded_length INPUT_BUF_def padded_def add.commute\<close>)
  then show ?thesis by (simp add: consoleread_def)
qed

text \<open>What is typed is what is read: editing a line as above and pressing enter, and then a read for more bytes than the line has, gives
  the text of the abstract editor and a newline, wherever the cursor was; the input is empty afterwards. The exception are the lines
  of seven characters that end in \<open>istory\<close>.
\<close>

theorem typed_line_is_read:
  assumes "rep p0 z s" and "\<forall>k \<in> set keys. key_ok k" and "length (zip_text z) + length keys < 127"
    and "text = zip_text (fold edit keys z)" and "\<not> (text \<noteq> [] \<and> tl text = istory)" and "int (length text) < n"
  shows "\<exists>t u. consoleintr fl (keys @ [13]) s = Ok t \<and> consoleread False n t = Ok (Some (text @ [10]), u) \<and> input u = new_input"
proof -
  obtain t where t: "consoleintr fl (keys @ [13]) s = consoleintr_loop 1 fl [13] t" "rep p0 (fold edit keys z) t"
    using keys_refine [OF assms(1,2), of 1 fl "[13]"] assms(3) by (auto simp: consoleintr_def)
  have "length (zip_text (fold edit keys z)) < 127" using edit_keys_length [of keys z] assms(3) by simp
  from enter_line [OF t(2) this, of 13 fl "[]"] obtain v where v: "console_key fl 13 [] t = Ok (v, [])" "entered text v" using assms(4,5) by auto
  have "consoleintr fl (keys @ [13]) s = Ok v" using t(1) v(1) entered_replace [OF v(2)] by simp
  then show ?thesis using entered_read [OF v(2) assms(6)] by auto
qed

theorem typed_line_is_read_witness:
  "\<exists>t u. consoleintr (\<lambda>_ _. 0) [97, 99, LEFT_ARROW, 98, 13] demo_console = Ok t \<and> consoleread False 100 t = Ok (Some [97, 98, 99, 10], u)"
proof -
  have f: "zip_text (fold edit [97, 99, LEFT_ARROW, 98] ([], [])) = [97, 98, 99]" by (simp add: edit_def key_defs zip_text_def)
  have k: "\<forall>k \<in> set [97, 99, LEFT_ARROW, 98]. key_ok k" by (simp add: key_ok_def key_defs)
  have l: "length (zip_text ([], [])) + length [97, 99, LEFT_ARROW, 98] < 127" by (simp add: zip_text_def)
  have e: "\<not> ([97, 98, 99] \<noteq> [] \<and> tl [97, 98, 99] = istory)" by (simp add: istory_def)
  have n: "int (length [97, 98, 99 :: byte]) < 100" by simp
  from typed_line_is_read [OF demo_console_rep k l f [symmetric] e n, of "\<lambda>_ _. 0"] show ?thesis by auto
qed

text \<open>C39: Typing ahead loses input: when a second line has been entered before the first is read, a reader gets the first line and the
  whole buffer is emptied with it, so the next read waits although a complete line had been typed.
\<close>

theorem typeahead_lost:
  assumes "\<forall>c \<in> set t1. plain c" and "\<forall>c \<in> set t2. plain c" and "length t1 + length t2 + 2 \<le> 128" and "int (length t1) < n" and "0 < k"
    and "input s = \<lparr>ibuf = padded (t1 @ [10] @ t2 @ [10]), ir = 0, iw = of_nat (length t1 + length t2 + 2), ie = of_nat (length t1 + length t2 + 2)\<rparr>"
  shows "\<exists>u. consoleread False n s = Ok (Some (t1 @ [10]), u) \<and> consoleread False k u = Block"
proof -
  have "\<exists>u. consoleread_loop False (nat n) (take 0 t1) s = Ok (Some (t1 @ [10]), u) \<and> input u = new_input"
    by (rule read_line [where b = "padded (t1 @ [10] @ t2 @ [10])" and w = "length t1 + length t2 + 2"])
      (use assms in \<open>auto simp: padded_length INPUT_BUF_def padded_def\<close>)
  then obtain u where u: "consoleread False n s = Ok (Some (t1 @ [10]), u)" "input u = new_input" by (auto simp: consoleread_def)
  moreover obtain j where "nat k = Suc j" using assms(5) by (cases "nat k") auto
  ultimately show ?thesis by (auto simp: consoleread_def new_input_def)
qed

theorem typeahead_lost_witness:
  "\<exists>u. consoleread False 10 (demo_console\<lparr>input := \<lparr>ibuf = padded ([97] @ [10] @ [98] @ [10]), ir = 0, iw = 4, ie = 4\<rparr>\<rparr>) = Ok (Some [97, 10], u)
     \<and> consoleread False 10 u = Block"
  using typeahead_lost [of "[97]" "[98]" 10 10 "demo_console\<lparr>input := \<lparr>ibuf = padded ([97] @ [10] @ [98] @ [10]), ir = 0, iw = 4, ie = 4\<rparr>\<rparr>"]
  by (simp add: plain_def)

section \<open>The history command\<close>

declare int_digits.simps [simp del]

text \<open>Output \<open>xs\<close> on a working screen moves the cursor, sends \<open>xs\<close> to the serial port and changes nothing else of the console.\<close>

definition screen_ok :: "console \<Rightarrow> bool" where
  "screen_ok s \<longleftrightarrow> \<not> panicked s \<and> 0 \<le> cursor s \<and> cursor s < 1920"

definition prints :: "console \<Rightarrow> int list \<Rightarrow> console res \<Rightarrow> bool" where
  "prints s xs r \<longleftrightarrow> (\<exists>t. r = Ok t \<and> moved s t (cursor t) (crt t) \<and> screen_ok t \<and> serial t = serial s @ xs)"

lemma prints_refl: "screen_ok s \<Longrightarrow> prints s [] (Ok s)"
  by (auto simp: prints_def moved_refl)

lemma prints_bind:
  "prints s xs r \<Longrightarrow> (\<And>t. moved s t (cursor t) (crt t) \<Longrightarrow> screen_ok t \<Longrightarrow> prints t ys (f t)) \<Longrightarrow> prints s (xs @ ys) (bindr r f)"
  unfolding prints_def by (fastforce intro: moved_trans)

lemma prints_consputc: "screen_ok s \<Longrightarrow> c \<noteq> BACKSPACE \<Longrightarrow> prints s [c] (consputc c s)"
  using consputc_ok [of s c] by (auto simp: screen_ok_def prints_def moved_def)

lemma prints_putall: "screen_ok s \<Longrightarrow> BACKSPACE \<notin> set cs \<Longrightarrow> prints s cs (putall cs s)"
proof (induction cs arbitrary: s)
  case (Cons c cs)
  have "prints s ([c] @ cs) (bindr (consputc c s) (putall cs))" using Cons by (intro prints_bind prints_consputc) auto
  then show ?case by simp
qed (simp add: prints_refl)

lemma byte_no_backspace: "uint (b :: byte) \<noteq> BACKSPACE" "BACKSPACE \<notin> sint ` (B :: byte set)"
proof -
  show "uint b \<noteq> BACKSPACE" using uint_bounded [of b] by (simp add: BACKSPACE_def)
  have "sint (c :: byte) < 128" for c using sint_lt [of c] by simp
  then have "sint (c :: byte) \<noteq> 256" for c by (metis less_irrefl order_less_trans numeral_less_iff semiring_norm(76,78,79,80))
  then show "BACKSPACE \<notin> sint ` B" by (auto simp: BACKSPACE_def)
qed

lemma digits_no_backspace: "BACKSPACE \<notin> set (int_digits 10 n)"
proof (induction "10 :: nat" n rule: int_digits.induct)
  case (1 x)
  have "\<forall>d \<in> set digits. d \<noteq> BACKSPACE" "length digits = 16" by (simp_all add: digits_def BACKSPACE_def)
  moreover have "x mod 10 < 16" using mod_less_divisor [of 10 x] by linarith
  ultimately have "digits ! (x mod 10) \<noteq> BACKSPACE" by simp
  then show ?case using 1 by (subst int_digits.simps) auto
qed

lemma prints_printint:
  assumes "screen_ok s" and "0 \<le> sint x"
  shows "prints s (rev (int_digits 10 (unat x))) (printint x 10 True s)"
  using assms prints_putall [OF assms(1), of "rev (int_digits 10 (unat x))"] digits_no_backspace by (simp add: printint_def Let_def)

lemma prints_literal: "37 \<notin> set fmt \<Longrightarrow> screen_ok s \<Longrightarrow> prints s (map uint fmt) (cprintf fmt [] s)"
proof (induction fmt "[] :: carg list" s rule: cprintf.induct)
  case (3 c d fmt s)
  have "prints s ([uint c] @ map uint (d # fmt)) (bindr (consputc (uint c) s) (cprintf (d # fmt) []))"
    using 3 by (intro prints_bind prints_consputc byte_no_backspace) auto
  then show ?case using 3 by auto
qed (auto simp: prints_refl prints_consputc byte_no_backspace)

text \<open>Every history entry is a string: it has a zero byte.\<close>

definition hist_ok :: "console \<Rightarrow> bool" where
  "hist_ok s \<longleftrightarrow> 0 \<le> current_history s \<and> (\<forall>i < 11. 0 \<in> set (ibuf (history s ! i)))"

text \<open>What \<^verbatim>\<open>history\<close> prints: the lines before the current one in the ring of eleven, the newest first, up to the first one that is empty.\<close>

definition hist_line :: "console \<Rightarrow> nat \<Rightarrow> byte list" where
  "hist_line s i = takeWhile (\<lambda>c. c \<noteq> 0) (ibuf (history s ! nat ((current_history s - 1 - int i) mod 11)))"

definition hist_out :: "console \<Rightarrow> nat \<Rightarrow> int list" where
  "hist_out s i = 42 # rev (int_digits 10 (i + 1)) @ [58, 32] @ map sint (hist_line s i)"

definition hist_printed :: "console \<Rightarrow> nat list \<Rightarrow> int list" where
  "hist_printed s is = concat (map (hist_out s) (takeWhile (\<lambda>i. hist_line s i \<noteq> []) is))"

lemma hist_printed_cong:
  assumes "history t = history s" and "current_history t = current_history s"
  shows "hist_printed t = hist_printed s"
proof -
  have l: "hist_line t = hist_line s" using assms by (simp add: hist_line_def fun_eq_iff)
  then have "hist_out t = hist_out s" by (intro ext) (simp add: hist_out_def)
  with l show ?thesis by (intro ext) (simp add: hist_printed_def)
qed

lemma prints_entry:
  assumes "screen_ok s" and "i < 10"
  shows "prints s (42 # rev (int_digits 10 (i + 1)) @ [58, 32] @ map sint t) (cprintf hist_entry [A_int (word_of_int (int i + 1)), A_str (Some t)] s)"
proof -
  let ?x = "word_of_int (int i + 1) :: uint"
  have x: "?x = of_nat (i + 1)" by simp
  have u: "unat ?x = i + 1" unfolding x unat_of_nat using assms(2) by simp
  have "sint ?x = int i + 1" using assms(2) by (simp only: sint_sbintrunc') (simp add: signed_take_bit_int_eq_self)
  then have "0 \<le> sint ?x" by simp
  then have d: "prints w (rev (int_digits 10 (i + 1))) (printint ?x 10 True w)" if "screen_ok w" for w
    using prints_printint [OF that, of ?x] unfolding u by simp
  have "prints s ([42] @ rev (int_digits 10 (i + 1)) @ [58] @ [32] @ map sint t @ [])
    (bindr (consputc 42 s) (\<lambda>s1. bindr (printint ?x 10 True s1) (\<lambda>s2. bindr (consputc 58 s2) (\<lambda>s3. bindr (consputc 32 s3) (\<lambda>s4.
       bindr (putall (map sint t) s4) Ok)))))"
    using assms(1) byte_no_backspace(2) by (intro prints_bind prints_consputc prints_putall prints_refl d) (auto simp: BACKSPACE_def)
  moreover have "cprintf hist_entry [A_int ?x, A_str (Some t)] s =
    bindr (consputc 42 s) (\<lambda>s1. bindr (printint ?x 10 True s1) (\<lambda>s2. bindr (consputc 58 s2) (\<lambda>s3. bindr (consputc 32 s3) (\<lambda>s4.
       bindr (putall (map sint t) s4) Ok))))"
    by (simp add: hist_entry_def bindr_def split: res.split)
  ultimately show ?thesis by (simp del: of_int_add of_int_of_nat_eq)
qed

lemma hist_ix_back:
  assumes "0 \<le> a" and "i < 10"
  shows "hist_ix (a - int i) (- 1) = (a - 1 - int i) mod 11"
proof -
  have "0 \<le> a - int i - 1 + 11" using assms by simp
  then have "(a - int i - 1 + 11) smod 11 = (a - int i - 1 + 11) mod 11"
    by (cases "a - int i - 1 + 11 = 0") (simp_all add: smod_int_alt_def)
  moreover have "1 smod (11 :: int) = 1" by (simp add: smod_int_alt_def)
  ultimately show ?thesis using mod_add_self2 [of "a - 1 - int i" 11] by (simp add: hist_ix_def N_HISTORY_def algebra_simps)
qed

lemma prints_hist_loop:
  "hist_ok s \<Longrightarrow> screen_ok s \<Longrightarrow> i + n \<le> 10 \<Longrightarrow> prints s (hist_printed s [i..<i + n]) (hist_loop n (int i) s)"
proof (induction n arbitrary: i s)
  case (Suc n)
  let ?k = "(current_history s - 1 - int i) mod 11" and ?b = "ibuf (history s ! nat ((current_history s - 1 - int i) mod 11))"
  have k: "hist_ix (current_history s - int i) (- 1) = ?k" using hist_ix_back [of "current_history s" i] Suc.prems by (simp add: hist_ok_def)
  have z: "0 \<in> set ?b" using Suc.prems(1) by (auto simp: hist_ok_def)
  then have h: "hist ?k s = Ok (history s ! nat ?k)" "str ?b = Ok (hist_line s i)"
    by (simp_all add: hist_def N_HISTORY_def str_def hist_line_def)
  have e: "?b ! 0 = 0 \<longleftrightarrow> hist_line s i = []" using z by (cases ?b) (auto simp: hist_line_def)
  have u: "[i..<i + Suc n] = i # [Suc i..<Suc i + n]" using upt_conv_Cons [of i "i + Suc n"] by simp
  have "prints t (hist_printed s [Suc i..<Suc i + n]) (hist_loop n (int i + 1) t)" if m: "moved s t (cursor t) (crt t)" "screen_ok t" for t
    using Suc.IH [of t "Suc i"] Suc.prems m(2) moved_simps(4,5) [OF m(1)] hist_printed_cong [of t s] by (simp add: hist_ok_def add.commute)
  then have "prints s (hist_out s i @ hist_printed s [Suc i..<Suc i + n])
      (bindr (cprintf hist_entry [A_int (word_of_int (int i + 1)), A_str (Some (hist_line s i))] s) (hist_loop n (int i + 1)))"
    using Suc.prems unfolding hist_out_def by (intro prints_bind prints_entry) auto
  then show ?case using Suc.prems(2) e unfolding u by (auto simp: k h hist_printed_def prints_refl)
qed (simp add: prints_refl hist_printed_def)

lemma prints_history_command:
  assumes "hist_ok s" and "screen_ok s"
  shows "prints s (map uint hist_title @ map uint hist_rule @ hist_printed s [0..<10] @ [10, 36, 32]) (history_command s)"
proof -
  have lit: "37 \<notin> set hist_title" "37 \<notin> set hist_rule" "37 \<notin> set [10, 36, 32 :: byte]" by (simp_all add: hist_title_def hist_rule_def)
  have "prints t (hist_printed s [0..<10]) (hist_loop (nat N_HISTORY - 1) 0 t)" if "moved s t (cursor t) (crt t)" "screen_ok t" for t
    using prints_hist_loop [of t 0 10] assms(1) that(2) moved_simps(4,5) [OF that(1)] hist_printed_cong [of t s] by (simp add: hist_ok_def N_HISTORY_def)
  moreover have "prints t [10, 36, 32] (cprintf [10, 36, 32] [] t)" if "screen_ok t" for t using prints_literal [OF lit(3) that] by simp
  ultimately show ?thesis unfolding history_command_def
    by (auto intro!: prints_bind prints_literal lit assms(2) dest: moved_trans)
qed

text \<open>C40: The comparison with \<open>history\<close> skips the first character: when a line of any one character followed by \<open>istory\<close> is on the screen
  and enter is pressed, the console prints the command history (its title, the numbered lines before the current one, newest first, and a new
  prompt) instead of delivering the line, and nothing of the line is left to read. So a program named, say, \<open>mistory\<close> can not be run from the
  console. The line has to be the only input in the buffer and to start more than 128 positions before the bottom row of the screen, and the entries of
  the history have to be terminated strings.
\<close>

theorem history_swallows:
  assumes "rep p0 z s" and "zip_text z = c # istory" and "hist_ok s" and "0 < n"
  shows "\<exists>t. consoleintr fl [13] s = Ok t \<and> consoleread False n t = Block
    \<and> serial t = serial s @ [10] @ map uint hist_title @ map uint hist_rule @ hist_printed s [0..<10] @ [10, 36, 32]"
proof -
  have len: "length (zip_text z) < 127" by (simp add: assms(2) istory_def)
  obtain v where v: "default_key 13 s = handle_custom_commands v" "entered (zip_text z) v" "screen_ok v" "hist_ok v" "serial v = serial s @ [10]"
      "history v = history s" "current_history v = current_history s"
    using enter_key [OF assms(1) len] assms(3) by (auto simp: screen_ok_def hist_ok_def)
  obtain w where w: "history_command v = Ok w" "moved v w (cursor w) (crt w)"
      "serial w = serial v @ map uint hist_title @ map uint hist_rule @ hist_printed v [0..<10] @ [10, 36, 32]"
    using prints_history_command [OF v(4,3)] by (auto simp: prints_def)
  define t where "t = w\<lparr>input := (input w)\<lparr>ie := 0, iw := 0, ir := 0\<rparr>\<rparr>"
  have e: "input v = \<lparr>ibuf = padded (zip_text z @ [10]), ir = 0, iw = iw (input v), ie = ie (input v)\<rparr>" "\<forall>c \<in> set (zip_text z). plain c"
    using v(2) by (auto simp: entered_def)
  have bv: "ibuf (input v) = padded (zip_text z @ [10])" by (subst e(1)) simp
  have "\<not> str_cmp_from 0 (padded (zip_text z @ [10])) (history_str @ [0])" using str_cmp_history [of "zip_text z"] e(2) len assms(2) by simp
  then have h: "handle_custom_commands v = Ok t" using bv w(1) by (simp add: handle_custom_commands_def buffer_with_str_cmp_def t_def)
  have b: "ibuf (input t) = padded (zip_text z @ [10])" using bv moved_simps [OF w(2)] by (simp add: t_def)
  have "63 \<notin> set (zip_text z)" using e(2) plain_neq by auto
  then have "replace_expression fl t = Ok t" using replace_none [OF b] len by (simp add: INPUT_BUF_def)
  then have "consoleintr fl [13] s = Ok t" using v(1) h by (simp add: consoleintr_def console_key_def ctls key_defs)
  moreover obtain j where "nat n = Suc j" using assms(4) by (cases "nat n") auto
  then have "consoleread False n t = Block" by (simp add: consoleread_def t_def)
  moreover have "serial t = serial s @ [10] @ map uint hist_title @ map uint hist_rule @ hist_printed s [0..<10] @ [10, 36, 32]"
    using w(3) v(5) hist_printed_cong [OF v(6,7)] by (simp add: t_def)
  ultimately show ?thesis by blast
qed

definition demo_line :: console where
  "demo_line = demo_console\<lparr>input := \<lparr>ibuf = padded (109 # istory), ir = 0, iw = 0, ie = 7\<rparr>, cursor := 9,
     crt := (\<lambda>p. if 2 \<le> p \<and> p < 9 then cell ((109 # istory) ! nat (p - 2)) else 0x0720)\<rparr>"

theorem history_swallows_witness:
  "\<exists>t. consoleintr (\<lambda>_ _. 0) [13] demo_line = Ok t \<and> consoleread False 100 t = Block \<and> take 8 (serial t) = [10, 67, 111, 109, 109, 97, 110, 100]"
proof -
  have z: "zip_text (rev (109 # istory), []) = 109 # istory" by (simp add: zip_text_def)
  have "rep 2 (rev (109 # istory), []) demo_line"
    unfolding rep_def z by (simp add: demo_line_def demo_console_def istory_def plain_def)
  moreover have "hist_ok demo_line" by (simp add: hist_ok_def demo_line_def demo_console_def new_input_def INPUT_BUF_def less_Suc_eq eval_nat_numeral)
  ultimately obtain t where t: "consoleintr (\<lambda>_ _. 0) [13] demo_line = Ok t" "consoleread False 100 t = Block"
    "serial t = serial demo_line @ [10] @ map uint hist_title @ map uint hist_rule @ hist_printed demo_line [0..<10] @ [10, 36, 32]"
    using history_swallows [OF _ z, of 2 demo_line 100 "\<lambda>_ _. 0"] by auto
  moreover have "serial demo_line = []" by (simp add: demo_line_def demo_console_def)
  ultimately show ?thesis by (simp add: hist_title_def)
qed

end
