(* ===== verification/Kbd.thy ===== *)
theory Kbd
  imports Console_Edit
begin

text \<open>
  The keyboard driver (\<^verbatim>\<open>kbd.c\<close>, \<^verbatim>\<open>kbd.h\<close>): the state machine that turns scan codes into characters, and its
  interrupt handler, which hands them to the console. The controller is the queue of the scan codes that wait in it: the status port tells
  whether there is one, the data port removes it. The queue has no bound, and one interrupt handles all codes that wait in it;
  a controller that interrupts for every code gives the same calls of \<^verbatim>\<open>kbdgetc\<close>, spread over several interrupts.
\<close>

unbundle bit_operations_syntax

section \<open>Tables\<close>

definition SHIFT :: uint where "SHIFT = 1"
definition CTL :: uint where "CTL = 2"
definition ALT :: uint where "ALT = 4"
definition CAPSLOCK :: uint where "CAPSLOCK = 8"
definition NUMLOCK :: uint where "NUMLOCK = 16"
definition SCROLLLOCK :: uint where "SCROLLLOCK = 32"
definition E0ESC :: uint where "E0ESC = 64"

text \<open>An array with an initialiser: elements in order, elements at given indices, and zero for the others.\<close>

definition tbl :: "'a::zero list \<Rightarrow> (nat \<times> 'a) list \<Rightarrow> nat \<Rightarrow> 'a" where
  "tbl xs ys i = (case map_of ys i of Some c \<Rightarrow> c | None \<Rightarrow> if i < length xs then xs ! i else 0)"

definition shiftcode :: "nat \<Rightarrow> uint" where
  "shiftcode = tbl [] [(0x1D, CTL), (0x2A, SHIFT), (0x36, SHIFT), (0x38, ALT), (0x9D, CTL), (0xB8, ALT)]"

definition togglecode :: "nat \<Rightarrow> uint" where
  "togglecode = tbl [] [(0x3A, CAPSLOCK), (0x45, NUMLOCK), (0x46, SCROLLLOCK)]"

definition normal_keys :: "int list" where
  "normal_keys =
    [0, 27, 49, 50, 51, 52, 53, 54, 55, 56, 57, 48, 45, 61, 8, 9,
     113, 119, 101, 114, 116, 121, 117, 105, 111, 112, 91, 93, 10, 0, 97, 115,
     100, 102, 103, 104, 106, 107, 108, 59, 39, 96, 0, 92, 122, 120, 99, 118,
     98, 110, 109, 44, 46, 47, 0, 42, 0, 32, 0, 0, 0, 0, 0, 0,
     0, 0, 0, 0, 0, 0, 0, 55, 56, 57, 45, 52, 53, 54, 43, 49,
     50, 51, 48, 46, 0, 0, 0, 0]"

definition shift_keys :: "int list" where
  "shift_keys =
    [0, 27, 33, 64, 35, 36, 37, 94, 38, 42, 40, 41, 95, 43, 8, 9,
     81, 87, 69, 82, 84, 89, 85, 73, 79, 80, 123, 125, 10, 0, 65, 83,
     68, 70, 71, 72, 74, 75, 76, 58, 34, 126, 0, 124, 90, 88, 67, 86,
     66, 78, 77, 60, 62, 63, 0, 42, 0, 32, 0, 0, 0, 0, 0, 0,
     0, 0, 0, 0, 0, 0, 0, 55, 56, 57, 45, 52, 53, 54, 43, 49,
     50, 51, 48, 46, 0, 0, 0, 0]"

definition ctl_keys :: "int list" where
  "ctl_keys =
    [0, 0, 0, 0, 0, 0, 0, 0, 0, 0, 0, 0, 0, 0, 0, 0,
     17, 23, 5, 18, 20, 25, 21, 9, 15, 16, 0, 0, 13, 0, 1, 19,
     4, 6, 7, 8, 10, 11, 12, 0, 0, 0, 0, 28, 26, 24, 3, 22,
     2, 14, 13, 0, 0, 239, 0, 0]"

text \<open>The keypad and the keys sent with an escape; control changes the two that are characters.\<close>

definition pad_keys :: "(nat \<times> int) list" where
  "pad_keys = [(0x9C, 10), (0xB5, 47), (0xC8, 226), (0xD0, 227), (0xC9, 230), (0xD1, 231), (0xCB, 228), (0xCD, 229), (0x97, 224), (0xCF, 225), (0xD2, 232), (0xD3, 233)]"

definition ctl_pad_keys :: "(nat \<times> int) list" where
  "ctl_pad_keys = [(0x9C, 13), (0xB5, 239), (0xC8, 226), (0xD0, 227), (0xC9, 230), (0xD1, 231), (0xCB, 228), (0xCD, 229), (0x97, 224), (0xCF, 225), (0xD2, 232), (0xD3, 233)]"

definition normalmap :: "nat \<Rightarrow> int" where "normalmap = tbl normal_keys pad_keys"
definition shiftmap :: "nat \<Rightarrow> int" where "shiftmap = tbl shift_keys pad_keys"
definition ctlmap :: "nat \<Rightarrow> int" where "ctlmap = tbl ctl_keys ctl_pad_keys"

section \<open>The driver\<close>

record kbd =
  shift :: uint
  scanq :: "byte list"

definition charcode :: "uint \<Rightarrow> nat \<Rightarrow> int" where
  "charcode m = (if m = 0 then normalmap else if m = SHIFT then shiftmap else ctlmap)"

text \<open>The caps lock exchanges the cases of the letters.\<close>

definition caps :: "int \<Rightarrow> int" where
  "caps c = (if 97 \<le> c \<and> c \<le> 122 then c - 32 else if 65 \<le> c \<and> c \<le> 90 then c + 32 else c)"

text \<open>A pressed key, with the number of its table entry.\<close>

definition key_down :: "nat \<Rightarrow> uint \<Rightarrow> int \<times> uint" where
  "key_down d sh =
     (let sh1 = (sh OR shiftcode d) XOR togglecode d; c = charcode (sh1 AND (CTL OR SHIFT)) d in
      (if sh1 AND CAPSLOCK \<noteq> 0 then caps c else c, sh1))"

definition scan_code :: "byte \<Rightarrow> uint \<Rightarrow> int \<times> uint" where
  "scan_code d sh =
     (if d = 0xE0 then (0, sh OR E0ESC)
      else if d AND 0x80 \<noteq> 0 then
        (let k = (if sh AND E0ESC \<noteq> 0 then d else d AND 0x7F) in (0, sh AND NOT (shiftcode (unat k) OR E0ESC)))
      else if sh AND E0ESC \<noteq> 0 then key_down (unat (d OR 0x80)) (sh AND NOT E0ESC)
      else key_down (unat d) sh)"

definition kbdgetc :: "kbd \<Rightarrow> int \<times> kbd" where
  "kbdgetc k =
     (case scanq k of
        [] \<Rightarrow> (-1, k)
      | d # q \<Rightarrow> (let (c, sh) = scan_code d (shift k) in (c, \<lparr>shift = sh, scanq = q\<rparr>)))"

text \<open>What successive calls return until the controller is empty, as the handler of the console makes them.\<close>

function getc_all :: "kbd \<Rightarrow> int list \<times> kbd" where
  "getc_all k =
     (if scanq k = [] then ([], k)
      else let (c, k1) = kbdgetc k; (cs, k2) = getc_all k1 in (c # cs, k2))"
  by pat_completeness auto
termination
  by (relation "measure (\<lambda>k. length (scanq k))") (auto simp: kbdgetc_def neq_Nil_conv Let_def split: prod.splits)

declare getc_all.simps [simp del]

definition kbdintr :: "(int \<Rightarrow> int \<Rightarrow> int) \<Rightarrow> kbd \<Rightarrow> console \<Rightarrow> (kbd \<times> console) res" where
  "kbdintr fl k s = (let (keys, k1) = getc_all k in bindr (consoleintr fl keys s) (\<lambda>s1. Ok (k1, s1)))"

section \<open>Typing\<close>

text \<open>
  How a character is typed: the codes of pressing and releasing its key, between those of the left shift key where it needs it; the arrows
  send an escape before each code.
\<close>

definition key_index :: "int \<Rightarrow> int list \<Rightarrow> nat option" where
  "key_index c ks = first_idx (\<lambda>x. x = c) ks"

definition press :: "int \<Rightarrow> byte list" where
  "press c =
     (if c = LEFT_ARROW then [0xE0, 0x4B, 0xE0, 0xCB]
      else if c = RIGHT_ARROW then [0xE0, 0x4D, 0xE0, 0xCD]
      else case key_index c normal_keys of
        Some i \<Rightarrow> [of_nat i, of_nat i OR 0x80]
      | None \<Rightarrow> case key_index c shift_keys of
          Some i \<Rightarrow> [0x2A, of_nat i, of_nat i OR 0x80, 0xAA]
        | None \<Rightarrow> [])"

fun scan_all :: "byte list \<Rightarrow> uint \<Rightarrow> int list \<times> uint" where
  "scan_all [] sh = ([], sh)"
| "scan_all (d # q) sh = (let (c, sh1) = scan_code d sh; (cs, sh2) = scan_all q sh1 in (c # cs, sh2))"

lemma getc_all_scan: "getc_all \<lparr>shift = sh, scanq = q\<rparr> = (fst (scan_all q sh), \<lparr>shift = snd (scan_all q sh), scanq = []\<rparr>)"
  by (induction q arbitrary: sh) (subst getc_all.simps, simp add: kbdgetc_def Let_def split: prod.splits)+

lemma scan_all_append: "scan_all (p @ q) sh = (fst (scan_all p sh) @ fst (scan_all q (snd (scan_all p sh))), snd (scan_all q (snd (scan_all p sh))))"
  by (induction p arbitrary: sh) (auto split: prod.splits)

text \<open>Modifier keys carry no character, and the keys of the two maps come before the keypad.\<close>

lemma low_table: "i < length xs \<Longrightarrow> i < 0x97 \<Longrightarrow> tbl xs pad_keys i = xs ! i"
  by (simp add: tbl_def pad_keys_def)

lemma char_keys: "length normal_keys = 88" "length shift_keys = 88"
  by (simp_all add: normal_keys_def shift_keys_def)

lemma not_modifier:
  assumes "i < 88" and "normal_keys ! i \<noteq> 0 \<or> shift_keys ! i \<noteq> 0"
  shows "shiftcode i = 0" and "togglecode i = 0"
proof -
  have "i \<noteq> 0x1D \<and> i \<noteq> 0x2A \<and> i \<noteq> 0x36 \<and> i \<noteq> 0x38 \<and> i \<noteq> 0x3A \<and> i \<noteq> 0x45 \<and> i \<noteq> 0x46"
    using assms(2) by (auto simp: normal_keys_def shift_keys_def)
  then show "shiftcode i = 0" "togglecode i = 0" using assms(1) by (simp_all add: shiftcode_def togglecode_def tbl_def)
qed

lemma code_bits:
  assumes "i < 88"
  shows "(of_nat i :: byte) AND 0x80 = 0" "(of_nat i OR 0x80 :: byte) AND 0x80 = 0x80" "(of_nat i OR 0x80 :: byte) AND 0x7F = of_nat i"
    "(of_nat i :: byte) \<noteq> 0xE0" "(of_nat i OR 0x80 :: byte) \<noteq> 0xE0" "unat (of_nat i :: byte) = i"
proof -
  have "list_all (\<lambda>i. (of_nat i :: byte) AND 0x80 = 0 \<and> (of_nat i OR 0x80 :: byte) AND 0x80 = 0x80 \<and> (of_nat i OR 0x80 :: byte) AND 0x7F = of_nat i
    \<and> (of_nat i :: byte) \<noteq> 0xE0 \<and> (of_nat i OR 0x80 :: byte) \<noteq> 0xE0 \<and> unat (of_nat i :: byte) = i) [0..<88]" by (simp add: upt_rec)
  then have "\<forall>i \<in> {0..<88}. (of_nat i :: byte) AND 0x80 = 0 \<and> (of_nat i OR 0x80 :: byte) AND 0x80 = 0x80 \<and> (of_nat i OR 0x80 :: byte) AND 0x7F = of_nat i
    \<and> (of_nat i :: byte) \<noteq> 0xE0 \<and> (of_nat i OR 0x80 :: byte) \<noteq> 0xE0 \<and> unat (of_nat i :: byte) = i" by (simp only: list_all_iff set_upt)
  then show "(of_nat i :: byte) AND 0x80 = 0" "(of_nat i OR 0x80 :: byte) AND 0x80 = 0x80" "(of_nat i OR 0x80 :: byte) AND 0x7F = of_nat i"
    "(of_nat i :: byte) \<noteq> 0xE0" "(of_nat i OR 0x80 :: byte) \<noteq> 0xE0" "unat (of_nat i :: byte) = i" using assms by auto
qed

lemma make_break:
  assumes "i < 88" and "shiftcode i = 0" and "togglecode i = 0"
  shows "scan_all [of_nat i, of_nat i OR 0x80] 0 = ([normalmap i, 0], 0)" and "scan_all [of_nat i, of_nat i OR 0x80] 1 = ([shiftmap i, 0], 1)"
  using assms(2,3) code_bits [OF assms(1)]
  by (simp_all add: scan_code_def key_down_def Let_def charcode_def E0ESC_def CTL_def SHIFT_def CAPSLOCK_def)

lemma shift_codes: "scan_all [0x2A] 0 = ([0], 1)" "scan_all [0xAA] 1 = ([0], 0)"
  by (simp_all add: scan_code_def key_down_def Let_def charcode_def E0ESC_def CTL_def SHIFT_def CAPSLOCK_def shiftcode_def togglecode_def tbl_def
      shiftmap_def shift_keys_def pad_keys_def)

lemma arrow_codes:
  "scan_all [0xE0, 0x4B, 0xE0, 0xCB] 0 = ([0, LEFT_ARROW, 0, 0], 0)" "scan_all [0xE0, 0x4D, 0xE0, 0xCD] 0 = ([0, RIGHT_ARROW, 0, 0], 0)"
  by (simp_all add: scan_code_def key_down_def Let_def charcode_def E0ESC_def CTL_def SHIFT_def CAPSLOCK_def shiftcode_def togglecode_def tbl_def
      normalmap_def pad_keys_def LEFT_ARROW_def RIGHT_ARROW_def)

definition typeable :: "int \<Rightarrow> bool" where
  "typeable c \<longleftrightarrow> c \<noteq> 0 \<and> (c = LEFT_ARROW \<or> c = RIGHT_ARROW \<or> c \<in> set normal_keys \<or> c \<in> set shift_keys)"

lemma press_scan:
  assumes "typeable c"
  shows "filter (\<lambda>x. x \<noteq> 0) (fst (scan_all (press c) 0)) = [c]" and "snd (scan_all (press c) 0) = 0" 
proof -
  have nz: "c \<noteq> 0" using assms by (simp add: typeable_def)
  consider "c = LEFT_ARROW" | "c = RIGHT_ARROW" | i where "c \<noteq> LEFT_ARROW" "c \<noteq> RIGHT_ARROW" "key_index c normal_keys = Some i"
    | i where "c \<noteq> LEFT_ARROW" "c \<noteq> RIGHT_ARROW" "key_index c normal_keys = None" "key_index c shift_keys = Some i"
    using assms by (force simp: typeable_def key_index_def first_idx_None)
  then have "filter (\<lambda>x. x \<noteq> 0) (fst (scan_all (press c) 0)) = [c] \<and> snd (scan_all (press c) 0) = 0"
  proof cases
    case 1
    then show ?thesis using nz by (simp add: press_def arrow_codes del: scan_all.simps)
  next
    case 2
    then show ?thesis using nz by (simp add: press_def arrow_codes key_defs del: scan_all.simps)
  next
    case 3
    then have i: "i < 88" "normal_keys ! i = c" using first_idx_Some [of _ normal_keys i] char_keys by (auto simp: key_index_def)
    then have "normalmap i = c" using low_table [of i normal_keys] char_keys by (simp add: normalmap_def)
    then show ?thesis using 3 make_break(1) [OF i(1)] not_modifier [OF i(1)] i(2) nz by (simp add: press_def del: scan_all.simps)
  next
    case 4
    then have i: "i < 88" "shift_keys ! i = c" using first_idx_Some [of _ shift_keys i] char_keys by (auto simp: key_index_def)
    then have m: "shiftmap i = c" using low_table [of i shift_keys] char_keys by (simp add: shiftmap_def)
    have "press c = [0x2A] @ [of_nat i, of_nat i OR 0x80] @ [0xAA]" using 4 by (simp add: press_def)
    moreover have "scan_all [of_nat i, of_nat i OR 0x80] 1 = ([c, 0], 1)" using make_break(2) [OF i(1)] not_modifier [OF i(1)] i(2) nz m by simp
    ultimately have "scan_all (press c) 0 = ([0] @ [c, 0] @ [0], 0)" by (simp only: scan_all_append shift_codes fst_conv snd_conv)
    then show ?thesis using nz by simp
  qed
  then show "filter (\<lambda>x. x \<noteq> 0) (fst (scan_all (press c) 0)) = [c]" "snd (scan_all (press c) 0) = 0" by auto
qed

lemma press_all:
  "\<forall>c \<in> set cs. typeable c \<Longrightarrow> filter (\<lambda>x. x \<noteq> 0) (fst (scan_all (concat (map press cs)) 0)) = cs \<and> snd (scan_all (concat (map press cs)) 0) = 0"
  by (induction cs) (auto simp: scan_all_append press_scan)

lemma plain_typeable:
  assumes "32 \<le> c" and "c \<le> (126 :: int)"
  shows "typeable c"
proof -
  have "list_all (\<lambda>k. int k \<in> set normal_keys \<or> int k \<in> set shift_keys) [32..<127]" by (simp add: upt_rec normal_keys_def shift_keys_def)
  then have "\<forall>k \<in> {32..<127}. int k \<in> set normal_keys \<or> int k \<in> set shift_keys" by (simp only: list_all_iff set_upt)
  moreover have "nat c \<in> {32..<127}" using assms by auto
  ultimately have "int (nat c) \<in> set normal_keys \<or> int (nat c) \<in> set shift_keys" by blast
  then show ?thesis using assms by (auto simp: typeable_def)
qed

section \<open>From the keyboard to the reader\<close>

lemma keys_refine_zero:
  "rep p0 z s \<Longrightarrow> \<forall>k \<in> set keys. k = 0 \<or> key_ok k \<Longrightarrow> length (zip_text z) + length (filter (\<lambda>k. k \<noteq> 0) keys) < 128 \<Longrightarrow>
   \<exists>t. consoleintr_loop (length keys + n) fl (keys @ rest) s = consoleintr_loop n fl rest t \<and> rep p0 (fold edit (filter (\<lambda>k. k \<noteq> 0) keys) z) t"
proof (induction keys arbitrary: z s)
  case (Cons k keys)
  show ?case
  proof (cases "k = 0")
    case True
    then show ?thesis using Cons.IH [OF Cons.prems(1)] Cons.prems(2,3) rep_replace [OF Cons.prems(1), of fl]
      by (auto simp: console_key_def default_key_def ctls key_defs)
  next
    case False
    then have k: "key_ok k" "0 \<le> k" using Cons.prems(2) by (auto simp: key_ok_def key_defs)
    then obtain t where t: "console_key fl k (keys @ rest) s = Ok (t, keys @ rest)" "rep p0 (edit k z) t"
      using key_step [OF Cons.prems(1) k(1), of fl "keys @ rest"] Cons.prems(3) False by auto
    have "length (zip_text (edit k z)) + length (filter (\<lambda>k. k \<noteq> 0) keys) < 128" using edit_length [of k z] Cons.prems(3) False by simp
    from Cons.IH [OF t(2) _ this] show ?thesis using t rep_replace [OF t(2), of fl] Cons.prems(2) k(2) False by auto
  qed
qed auto

text \<open>C30: From the keyboard to the reader: typing and editing a line on the keyboard, key by key with shift where a character needs it, and pressing enter,
  and then a read for more bytes than the line has, gives the text of the abstract editor and a newline. The keyboard is left with no key
  held and nothing waiting. The line is the only input in the buffer and starts more than 128 positions before the bottom row of the screen; the
  characters already on it and the keys pressed are fewer than 127; the keys are printable characters other than the question mark, backspace and the left and right arrow; the
  line is not one of the seven-character lines that end in \<open>istory\<close>. The scan codes are handled by one interrupt.
\<close>

theorem keyboard_line_is_read:
  assumes "rep p0 z s" and "\<forall>k \<in> set keys. key_ok k \<and> k \<noteq> 127" and "length (zip_text z) + length keys < 127"
    and "text = zip_text (fold edit keys z)" and "\<not> (text \<noteq> [] \<and> tl text = istory)" and "int (length text) < n"
  shows "\<exists>t u. kbdintr fl \<lparr>shift = 0, scanq = concat (map press (keys @ [10]))\<rparr> s = Ok (\<lparr>shift = 0, scanq = []\<rparr>, t)
    \<and> consoleread False n t = Ok (Some (text @ [10]), u) \<and> input u = new_input"
proof -
  define ks where "ks = fst (scan_all (concat (map press keys)) 0)"
  have "\<forall>c \<in> set keys. typeable c"
    using assms(2) plain_typeable by (auto simp: key_ok_def typeable_def normal_keys_def key_defs)
  then have ks: "filter (\<lambda>x. x \<noteq> 0) ks = keys" "snd (scan_all (concat (map press keys)) 0) = 0" using press_all by (auto simp: ks_def)
  have "press 10 = [0x1C, 0x9C]" by (simp add: press_def key_index_def normal_keys_def key_defs)
  moreover have "scan_all [0x1C, 0x9C] 0 = ([10, 0], 0)" using make_break(1) [of 28] by (simp add: shiftcode_def togglecode_def tbl_def normalmap_def pad_keys_def normal_keys_def)
  ultimately have all: "scan_all (concat (map press (keys @ [10]))) 0 = (ks @ [10, 0], 0)"
    using ks(2) by (simp add: scan_all_append ks_def del: scan_all.simps)
  have g: "getc_all \<lparr>shift = 0, scanq = concat (map press (keys @ [10]))\<rparr> = (ks @ [10, 0], \<lparr>shift = 0, scanq = []\<rparr>)"
    by (simp only: getc_all_scan all fst_conv snd_conv)
  have "\<forall>k \<in> set ks. k = 0 \<or> key_ok k" using assms(2) by (auto simp flip: ks(1))
  then obtain t where t: "consoleintr_loop (length ks + 2) fl (ks @ [10, 0]) s = consoleintr_loop 2 fl [10, 0] t" "rep p0 (fold edit keys z) t"
    using keys_refine_zero [OF assms(1), of ks 2 fl "[10, 0]"] ks(1) assms(3) by auto
  have "length (zip_text (fold edit keys z)) < 127" using edit_keys_length [of keys z] assms(3) by simp
  from enter_line [OF t(2) this, of 10 fl "[0]"] obtain v where v: "console_key fl 10 [0] t = Ok (v, [0])" "entered text v" using assms(4,5) by auto
  have "consoleintr_loop 2 fl [10, 0] t = Ok v"
    using v(1) entered_replace [OF v(2), of fl] by (simp add: numeral_2_eq_2 console_key_def [of _ 0] default_key_def ctls key_defs)
  then have "kbdintr fl \<lparr>shift = 0, scanq = concat (map press (keys @ [10]))\<rparr> s = Ok (\<lparr>shift = 0, scanq = []\<rparr>, v)"
    using t(1) unfolding kbdintr_def g consoleintr_def by simp
  then show ?thesis using entered_read [OF v(2) assms(6)] by auto
qed

theorem keyboard_line_is_read_witness:
  "\<exists>t u. kbdintr (\<lambda>_ _. 0) \<lparr>shift = 0, scanq = concat (map press ([76, 115, LEFT_ARROW, 97] @ [10]))\<rparr> demo_console = Ok (\<lparr>shift = 0, scanq = []\<rparr>, t)
    \<and> consoleread False 100 t = Ok (Some [76, 97, 115, 10], u)"
proof -
  have f: "zip_text (fold edit [76, 115, LEFT_ARROW, 97] ([], [])) = [76, 97, 115]" by (simp add: edit_def key_defs zip_text_def)
  have k: "\<forall>k \<in> set [76, 115, LEFT_ARROW, 97]. key_ok k \<and> k \<noteq> 127" by (simp add: key_ok_def key_defs)
  have l: "length (zip_text ([], [])) + length [76, 115, LEFT_ARROW, 97] < 127" by (simp add: zip_text_def)
  have e: "\<not> ([76, 97, 115] \<noteq> [] \<and> tl [76, 97, 115] = istory)" by (simp add: istory_def)
  have n: "int (length [76, 97, 115 :: byte]) < 100" by simp
  from keyboard_line_is_read [OF demo_console_rep k l f [symmetric] e n, of "\<lambda>_ _. 0"] show ?thesis by (auto simp del: map_append)
qed

end
