(* ===== verification/Spec2Isabelle.thy ===== *)
theory Spec2Isabelle
  imports Pipe Sched_Smp Sched_Calls Proc_System File_Calls Shell_Parse Fs_Inode Shm Reentrant Grep Textutils Kbd
begin

text \<open>
  Verification of UT_OS, a Unix-like teaching kernel for the x86 derived from xv6, with its shell and some of its programs (the sources are
  under \<^verbatim>\<open>src/\<close>). The kernel is a set of C files around a few tables: the process table, the table of open files, the
  inode and buffer caches, the free list of pages. System calls and interrupts run on them under spin locks. This development translates
  the C routines into HOL functions and proves what makes them correct.

  \<^bold>\<open>Conventions.\<close> A routine is a function of the state it reads and writes, a record. Its result has type \<open>'a res\<close> of
  \<open>Kernel_Prelude\<close>: \<open>Ok\<close> with the value and the new state, \<open>Panic\<close> with the message of \<^verbatim>\<open>panic\<close>, \<open>Block\<close> where the
  caller would sleep or a loop does not end, and \<open>Undef\<close> for an access outside an array or another undefined behaviour of C. Machine
  integers are words (\<open>uint\<close>, \<open>byte\<close>) where the code relies on their width, and \<open>int\<close> where they can not overflow or the
  overflow is undefined. Pointers to table entries are indices; pointers into memory are addresses of a flat byte memory
  (\<open>Kalloc\<close>, \<open>Vm\<close>, \<open>CString\<close>). Concurrency is modelled where the code depends on it, by step relations whose steps are
  the single accesses (\<open>Spinlock\<close>, \<open>Reentrant\<close>) or the sections under a lock (\<open>Sched_Smp\<close>, \<open>Pipe\<close>).

  \<^bold>\<open>The theories and the parts of the program.\<close>

  \<^item> \<open>Kernel_Prelude\<close>, \<open>Bytes\<close>: result type, sequencing, table scans, byte strings and their integers.
  \<^item> \<open>Spinlock\<close>: \<^verbatim>\<open>spinlock.c\<close> and \<^verbatim>\<open>mycpu\<close>. Mutual exclusion over the single instructions of any number of
    CPUs, and that the checks of the code do not fire on correct use.
  \<^item> \<open>Sched\<close>: the process table and the scheduler of \<^verbatim>\<open>proc.c\<close>: three queues (round robin, shortest job first, first come
    first served), aging, \<^verbatim>\<open>sched\<close>, \<^verbatim>\<open>yield\<close>, \<^verbatim>\<open>sleep\<close>, \<^verbatim>\<open>wakeup\<close>, \<^verbatim>\<open>kill\<close>, the locked segments of
    \<^verbatim>\<open>allocproc\<close>, \<^verbatim>\<open>fork\<close>, \<^verbatim>\<open>exit\<close> and \<^verbatim>\<open>wait\<close>, and the system call counters. \<open>Sched_Policy\<close> has the interface
    of a queue discipline (locale \<open>queue_policy\<close>, interpreted on the three disciplines) and what each discipline guarantees,
    \<open>Sched_Lock\<close> what each routine leaves on every branch, \<open>Sched_Smp\<close> the machine with several CPUs and its
    invariant, \<open>Sched_Calls\<close> the scheduling system calls.
  \<^item> \<open>Proc\<close>: processes as a whole, \<^verbatim>\<open>allocproc\<close>, \<^verbatim>\<open>userinit\<close>, \<^verbatim>\<open>growproc\<close>, \<^verbatim>\<open>fork\<close>, \<^verbatim>\<open>exit\<close> and \<^verbatim>\<open>wait\<close>, on
    the process table, the memory and the files together; \<open>Exec\<close>: \<^verbatim>\<open>exec.c\<close> and \<^verbatim>\<open>elf.h\<close>. \<open>Proc_Refs\<close> shows of each that it keeps the reference
    counts of open files exact over all processes, and \<open>Proc_System\<close> concludes it for every sequence of calls.
  \<^item> \<open>Reentrant\<close>: \<^verbatim>\<open>reentrantlock.c\<close> and the Fibonacci table of \<^verbatim>\<open>proc.c\<close>.
  \<^item> \<open>Pipe\<close>: \<^verbatim>\<open>pipe.c\<close>; the ring buffer as a queue under any interleaving of readers and writers, and its wakeups.
  \<^item> \<open>Bio\<close>, \<open>Log\<close>: \<^verbatim>\<open>bio.c\<close>, \<^verbatim>\<open>memide.c\<close>, \<^verbatim>\<open>log.c\<close>; the cache and the write-ahead log, with the
    history of the block writes, so that a crash is a prefix of it.
  \<^item> \<open>Fs\<close>: \<^verbatim>\<open>fs.c\<close>. \<open>Fs_Alloc\<close> (free map), \<open>Fs_Bmap\<close> (block map of an inode), \<open>Fs_File\<close> and \<open>Fs_Rw\<close>
    (reading and writing refine operations on byte strings), \<open>Fs_Inode\<close> (inodes between cache and disk).
  \<^item> \<open>File\<close>, \<open>Sysfile\<close>: \<^verbatim>\<open>file.c\<close>, \<^verbatim>\<open>pipealloc\<close>, \<^verbatim>\<open>sysfile.c\<close>. \<open>File_Frame\<close>,
    \<open>File_Fd\<close> and \<open>File_Calls\<close> show that reference counts are exact and that pipes deliver what was written.
  \<^item> \<open>CString\<close>: \<^verbatim>\<open>string.c\<close> and the string routines of \<^verbatim>\<open>ulib.c\<close>.
  \<^item> \<open>Kalloc\<close>, \<open>Vm\<close>, \<open>Vm_Map\<close>, \<open>Shm\<close>: \<^verbatim>\<open>kalloc.c\<close>, \<^verbatim>\<open>vm.c\<close>; page ownership (locale
    \<open>page_pool\<close>), page tables as translations, and the table of shared pages.
  \<^item> \<open>Console\<close>, \<open>Console_Edit\<close>: \<^verbatim>\<open>console.c\<close>; the line editor refines an editor on a zipper.
    \<open>Kbd\<close>: \<^verbatim>\<open>kbd.c\<close>; scan codes to characters, and a line typed on the keyboard read by a program. The scan codes wait in one queue, and one
    interrupt handles all of it.
  \<^item> \<open>Shell\<close>, \<open>Shell_Parse\<close>, \<open>Grep\<close>, \<open>Textutils\<close>: the parser of \<^verbatim>\<open>sh.c\<close>, \<^verbatim>\<open>grep.c\<close>,
    \<^verbatim>\<open>encode.c\<close>, \<^verbatim>\<open>decode.c\<close>, \<^verbatim>\<open>wc.c\<close> and \<^verbatim>\<open>cat.c\<close>.

  The file-system state is built by record extension: the buffer cache (\<open>bstate\<close>), the log (\<open>log_state\<close>), the inodes (\<open>fs_state\<close>)
  and the open files (\<open>file_state\<close>); a routine of a lower layer works on every extension of its state, so its lemmas hold in the
  layers above. In the same way \<open>vm_state\<close> extends the page allocator and \<open>kstate\<close> the processors of the spin locks.

  \<^bold>\<open>Bounds and fuel.\<close> Most loops are structural recursions over what they scan, or have a measure. Fuel occurs where a loop is over a
  machine integer: \<open>uvm_fuel\<close> of \<open>Vm\<close> exceeds the number of pages of the address space; the parser of \<open>Shell\<close> has the length
  of the line as fuel, and \<open>parsecmd_returns\<close> shows that it never runs out; the loops over keys in \<open>Console\<close> have the number of keys. The copy
  loop of \<^verbatim>\<open>sys_move_file\<close> has a fuel argument. The loop of \<^verbatim>\<open>_SJF_scheduler\<close> that may not end gives \<open>None\<close>.

  \<^bold>\<open>Parameters.\<close> The device switch (\<^verbatim>\<open>devsw\<close>) of the file system, the file read by \<^verbatim>\<open>loaduvm\<close>, the system calls
  \<^verbatim>\<open>read\<close> and \<^verbatim>\<open>write\<close> of the user programs, and the quotient of two ints as a float in the console.

  \<^bold>\<open>Not modelled.\<close> Boot code and assembly (\<^verbatim>\<open>bootasm.S\<close>, \<^verbatim>\<open>bootmain.c\<close>, \<^verbatim>\<open>entry.S\<close>, \<^verbatim>\<open>entryother.S\<close>,
  \<^verbatim>\<open>initcode.S\<close>, \<^verbatim>\<open>swtch.S\<close>, \<^verbatim>\<open>trapasm.S\<close>, \<^verbatim>\<open>usys.S\<close>): they are instructions of the processor, not C. The
  drivers of the interrupt controllers, the serial port, the disk controller and the processor tables (\<^verbatim>\<open>lapic.c\<close>,
  \<^verbatim>\<open>ioapic.c\<close>, \<^verbatim>\<open>picirq.c\<close>, \<^verbatim>\<open>uart.c\<close>, \<^verbatim>\<open>ide.c\<close>, \<^verbatim>\<open>mp.c\<close>): accesses to device registers, whose
  meaning is the hardware's. \<^verbatim>\<open>main.c\<close> only calls the initialisations in order. \<^verbatim>\<open>trap.c\<close>, \<^verbatim>\<open>syscall.c\<close>, \<^verbatim>\<open>sysproc.c\<close>,
  \<^verbatim>\<open>mkfs.c\<close>, \<^verbatim>\<open>printf.c\<close> and \<^verbatim>\<open>umalloc.c\<close>, the tests
  (\<^verbatim>\<open>usertests.c\<close>, \<^verbatim>\<open>stressfs.c\<close>, \<^verbatim>\<open>forktest.c\<close>, \<^verbatim>\<open>test.c\<close>) and the programs that only make system calls.
\<close>

end
